(* ===== verification/Prelude.thy ===== *)
theory Prelude
  imports Complex_Main "HOL-Library.Word" "HOL-Library.List_Lexorder"
    "HOL-Library.Code_Target_Nat"
begin

text \<open>
  Shared ground of the development: the Rust types the sources use (bytes, strings,
  machine integers), Rust's \<open>Ordering\<close> with its combinators, big-endian byte strings,
  and the generic facts on lexicographic order the components build on.
\<close>

section \<open>Rust types\<close>

type_synonym u8 = "8 word"
type_synonym u32 = "32 word"
type_synonym u64 = "64 word"
type_synonym i32 = "32 word"
type_synonym i64 = "64 word"

text \<open>A Rust \<open>str\<close> is its UTF-8 bytes; comparing two strings compares those bytes.\<close>

type_synonym bytes = "u8 list"
type_synonym rstr = "u8 list"

definition lit :: "string \<Rightarrow> rstr" where
  "lit s = map (\<lambda>c. of_nat (of_char c)) s"

named_theorems cmp_simps \<open>equations that evaluate comparisons of lists, pairs and orderings\<close>
named_theorems wf_intros \<open>well-formedness facts of the model's values\<close>

section \<open>Orderings\<close>

datatype ordering = Less | Equal | Greater

text \<open>Rust's \<open>Ord::cmp\<close> of a totally ordered standard type.\<close>

definition cmp_of :: "'a::linorder \<Rightarrow> 'a \<Rightarrow> ordering" where
  "cmp_of a b = (if a < b then Less else if b < a then Greater else Equal)"

fun reverse_ord :: "ordering \<Rightarrow> ordering" where
  "reverse_ord Less = Greater"
| "reverse_ord Equal = Equal"
| "reverse_ord Greater = Less"

definition then_with :: "ordering \<Rightarrow> ordering \<Rightarrow> ordering" where
  "then_with a b = (if a = Equal then b else a)"

lemma cmp_of_iffs [cmp_simps]:
  "cmp_of a b = Less \<longleftrightarrow> a < b"
  "cmp_of a b = Greater \<longleftrightarrow> b < a"
  "cmp_of a b = Equal \<longleftrightarrow> a = b"
  by (auto simp: cmp_of_def)

lemma cmp_of_refl [simp]: "cmp_of a a = Equal"
  by (simp add: cmp_of_def)

lemma reverse_reverse_ord [simp]: "reverse_ord (reverse_ord a) = a"
  by (cases a) auto

lemma reverse_ord_cmp_of: "reverse_ord (cmp_of a b) = cmp_of b a"
  by (auto simp: cmp_of_def)

lemma cmp_of_swap: "cmp_of a b = cmp_of c d \<Longrightarrow> cmp_of b a = cmp_of d c"
  by (metis reverse_ord_cmp_of)

lemma reverse_ord_iffs [cmp_simps]:
  "reverse_ord a = Less \<longleftrightarrow> a = Greater"
  "reverse_ord a = Greater \<longleftrightarrow> a = Less"
  "reverse_ord a = Equal \<longleftrightarrow> a = Equal"
  by (cases a; simp)+

lemma reverse_ord_then_with:
  "reverse_ord (then_with a b) = then_with (reverse_ord a) (reverse_ord b)"
  by (cases a) (auto simp: then_with_def)

lemma then_with_simps [simp]:
  "then_with Equal b = b"
  "then_with Less b = Less"
  "then_with Greater b = Greater"
  "then_with a Equal = a"
  by (auto simp: then_with_def)

lemma then_with_assoc: "then_with (then_with a b) c = then_with a (then_with b c)"
  by (auto simp: then_with_def)

lemma cmp_of_eqI:
  assumes "x < y \<longleftrightarrow> a < b" and "y < x \<longleftrightarrow> b < a"
  shows "cmp_of x y = cmp_of a b"
  using assms by (simp add: cmp_of_def)

lemma then_with_cmp_of_neq [simp]: "a \<noteq> b \<Longrightarrow> then_with (cmp_of a b) c = cmp_of a b"
  by (auto simp: then_with_def cmp_of_iffs)

lemma cmp_of_zero_word [simp]:
  "cmp_of (w :: 'a::len word) 0 = (if w = 0 then Equal else Greater)"
  "cmp_of 0 (w :: 'a::len word) = (if w = 0 then Equal else Less)"
  by (auto simp: cmp_of_def word_neq_0_conv)

lemma cmp_of_strict_mono:
  assumes "\<And>x y. x < y \<Longrightarrow> f x < f y"
  shows "cmp_of (f x) (f y) = cmp_of x y"
proof (cases x y rule: linorder_cases)
  case less
  then have "f x < f y" by (rule assms)
  with less show ?thesis by (simp add: cmp_of_def)
next
  case greater
  then have "f y < f x" by (rule assms)
  with greater show ?thesis by (auto simp: cmp_of_def)
qed simp

section \<open>Lexicographic comparison of lists\<close>

lemma cmp_of_list [cmp_simps, simp]:
  "cmp_of ([]::'a::linorder list) [] = Equal"
  "cmp_of [] (y # ys) = Less"
  "cmp_of (x # xs) [] = Greater"
  "cmp_of (x # xs) (y # ys) = then_with (cmp_of x y) (cmp_of xs ys)"
  by (auto simp: cmp_of_def then_with_def)

lemma cmp_of_append_same [simp]: "cmp_of (p @ xs) (p @ ys) = cmp_of xs ys"
  by (induction p) auto

lemma cmp_of_append_same_length:
  "length a = length b \<Longrightarrow> cmp_of (a @ xs) (b @ ys) = then_with (cmp_of a b) (cmp_of xs ys)"
  by (induction a b rule: list_induct2) (auto simp: then_with_assoc)

section \<open>Big-endian byte strings\<close>

fun be_bytes :: "nat \<Rightarrow> nat \<Rightarrow> bytes" where
  "be_bytes 0 n = []"
| "be_bytes (Suc k) n = of_nat (n div 256 ^ k) # be_bytes k (n mod 256 ^ k)"

fun le_bytes :: "nat \<Rightarrow> nat \<Rightarrow> bytes" where
  "le_bytes 0 n = []"
| "le_bytes (Suc k) n = of_nat (n mod 256) # le_bytes k (n div 256)"

fun from_be_bytes :: "bytes \<Rightarrow> nat" where
  "from_be_bytes [] = 0"
| "from_be_bytes (b # bs) = unat b * 256 ^ length bs + from_be_bytes bs"

fun from_le_bytes :: "bytes \<Rightarrow> nat" where
  "from_le_bytes [] = 0"
| "from_le_bytes (b # bs) = unat b + 256 * from_le_bytes bs"

lemma length_be_bytes [simp]: "length (be_bytes k n) = k"
  by (induction k arbitrary: n) auto

lemma length_le_bytes [simp]: "length (le_bytes k n) = k"
  by (induction k arbitrary: n) auto

lemma unat_of_nat_u8: "n < 256 \<Longrightarrow> unat (of_nat n :: u8) = n"
  by (simp add: unat_of_nat)

lemma of_nat_u8_less: "a < 256 \<Longrightarrow> b < 256 \<Longrightarrow> (of_nat a :: u8) < of_nat b \<longleftrightarrow> a < b"
  by (simp add: word_less_nat_alt unat_of_nat_u8)

lemma cmp_of_of_nat_u8:
  "a < 256 \<Longrightarrow> b < 256 \<Longrightarrow> cmp_of (of_nat a :: u8) (of_nat b) = cmp_of a b"
  by (simp add: cmp_of_def of_nat_u8_less)

lemma cmp_of_div_mod:
  fixes a b m :: nat
  shows "then_with (cmp_of (a div m) (b div m)) (cmp_of (a mod m) (b mod m)) = cmp_of a b"
proof (cases "a div m" "b div m" rule: linorder_cases)
  case less
  then have "a < b" by (meson div_le_mono linorder_not_less)
  with less show ?thesis by (simp add: cmp_of_def)
next
  case greater
  then have "b < a" by (meson div_le_mono linorder_not_less)
  with greater show ?thesis by (simp add: cmp_of_def)
next
  case equal
  have "a = a div m * m + a mod m" "b = b div m * m + b mod m" by simp_all
  with equal have "(a < b) = (a mod m < b mod m)" "(b < a) = (b mod m < a mod m)"
    by (metis nat_add_left_cancel_less)+
  with equal show ?thesis by (simp add: cmp_of_def)
qed

text \<open>Big-endian byte strings of one width compare as the numbers do.\<close>

lemma cmp_of_be_bytes:
  "a < 256 ^ k \<Longrightarrow> b < 256 ^ k \<Longrightarrow> cmp_of (be_bytes k a) (be_bytes k b) = cmp_of a b"
proof (induction k arbitrary: a b)
  case (Suc k)
  have "a div 256 ^ k < 256" "b div 256 ^ k < 256"
    using Suc.prems by (simp_all add: less_mult_imp_div_less)
  moreover have "cmp_of (be_bytes k (a mod 256 ^ k)) (be_bytes k (b mod 256 ^ k))
      = cmp_of (a mod 256 ^ k) (b mod 256 ^ k)"
    by (rule Suc.IH) simp_all
  ultimately show ?case
    by (simp add: cmp_of_of_nat_u8 cmp_of_div_mod)
qed simp

lemma from_be_bytes_be_bytes [simp]: "from_be_bytes (be_bytes k n) = n mod 256 ^ k"
proof (induction k arbitrary: n)
  case (Suc k)
  have "n mod 256 ^ Suc k = (n div 256 ^ k mod 256) * 256 ^ k + n mod 256 ^ k"
    by (metis mod_mult2_eq mult.commute power_Suc2)
  then show ?case using Suc by (simp add: unat_of_nat)
qed simp

lemma from_le_bytes_le_bytes [simp]: "from_le_bytes (le_bytes k n) = n mod 256 ^ k"
proof (induction k arbitrary: n)
  case (Suc k)
  have "n mod 256 ^ Suc k = n mod 256 + 256 * (n div 256 mod 256 ^ k)"
    by (simp add: mod_mult2_eq)
  then show ?case using Suc by (simp add: unat_of_nat)
qed simp

section \<open>Results\<close>

text \<open>A fallible Rust call is \<open>Inl\<close> of its error or \<open>Inr\<close> of its value.\<close>

definition bind_res :: "'e + 'a \<Rightarrow> ('a \<Rightarrow> 'e + 'b) \<Rightarrow> 'e + 'b" where
  "bind_res r f = (case r of Inl e \<Rightarrow> Inl e | Inr x \<Rightarrow> f x)"

lemma bind_res_simps [simp]:
  "bind_res (Inl e) f = Inl e"
  "bind_res (Inr x) f = f x"
  by (auto simp: bind_res_def)

lemma bind_res_Inr_iff: "bind_res r f = Inr y \<longleftrightarrow> (\<exists>x. r = Inr x \<and> f x = Inr y)"
  by (cases r) auto

lemma bind_res_cong [fundef_cong]:
  "r = r' \<Longrightarrow> (\<And>x. r' = Inr x \<Longrightarrow> f x = f' x) \<Longrightarrow> bind_res r f = bind_res r' f'"
  by (cases r') auto

end
