(* ===== verification/Rust_Std.thy ===== *)
theory Rust_Std
  imports Prelude
begin

text \<open>
  The parts of the Rust language and its standard library the modelled sources use:
  \<open>f64\<close> as its IEEE 754 bit pattern with the exact rational value it denotes, decimal
  rendering and parsing of integers, and the byte-level string operations
  (\<open>split\<close>, \<open>split_once\<close>, \<open>strip_prefix\<close>, \<open>trim\<close>), and slices.
\<close>

section \<open>Doubles\<close>

text \<open>
  An \<open>f64\<close> is its 64 bits (\<open>f64::to_bits\<close>): the sign, eleven exponent bits and 52
  fraction bits.
\<close>

type_synonym f64 = "64 word"

definition f64_neg :: "f64 \<Rightarrow> bool" where
  "f64_neg d = bit d 63"

definition f64_raw_exp :: "f64 \<Rightarrow> nat" where
  "f64_raw_exp d = unat (take_bit 11 (drop_bit 52 d))"

definition f64_frac :: "f64 \<Rightarrow> nat" where
  "f64_frac d = unat (take_bit 52 d)"

definition f64_is_nan :: "f64 \<Rightarrow> bool" where
  "f64_is_nan d \<longleftrightarrow> f64_raw_exp d = 2047 \<and> f64_frac d \<noteq> 0"

definition f64_is_infinite :: "f64 \<Rightarrow> bool" where
  "f64_is_infinite d \<longleftrightarrow> f64_raw_exp d = 2047 \<and> f64_frac d = 0"

definition f64_is_finite :: "f64 \<Rightarrow> bool" where
  "f64_is_finite d \<longleftrightarrow> f64_raw_exp d \<noteq> 2047"

definition f64_is_zero :: "f64 \<Rightarrow> bool" where
  "f64_is_zero d \<longleftrightarrow> f64_raw_exp d = 0 \<and> f64_frac d = 0"

text \<open>The significand and the binary exponent of a finite double.\<close>

definition f64_mant :: "f64 \<Rightarrow> nat" where
  "f64_mant d = (if f64_raw_exp d = 0 then f64_frac d else f64_frac d + 2 ^ 52)"

definition f64_exp :: "f64 \<Rightarrow> int" where
  "f64_exp d = (if f64_raw_exp d = 0 then -1074 else int (f64_raw_exp d) - 1075)"

text \<open>The exact value of a finite double (IEEE 754, binary64).\<close>

definition f64_val :: "f64 \<Rightarrow> rat" where
  "f64_val d = (if f64_neg d then -1 else 1) * of_nat (f64_mant d) * 2 powi f64_exp d"

text \<open>
  The position of a double that is not a NaN on the extended line: an infinity first,
  then the value. \<open>f64::partial_cmp\<close> compares those.
\<close>

definition f64_ext :: "f64 \<Rightarrow> int \<times> rat" where
  "f64_ext d =
     (if f64_is_infinite d then (if f64_neg d then -1 else 1, 0) else (0, f64_val d))"

definition ext_cmp :: "int \<times> rat \<Rightarrow> int \<times> rat \<Rightarrow> ordering" where
  "ext_cmp x y = then_with (cmp_of (fst x) (fst y)) (cmp_of (snd x) (snd y))"

definition f64_partial_cmp :: "f64 \<Rightarrow> f64 \<Rightarrow> ordering option" where
  "f64_partial_cmp x y =
     (if f64_is_nan x \<or> f64_is_nan y then None else Some (ext_cmp (f64_ext x) (f64_ext y)))"

text \<open>\<open>f.trunc()\<close>, as the integer it denotes.\<close>

definition rat_trunc :: "rat \<Rightarrow> int" where
  "rat_trunc v = (if 0 \<le> v then \<lfloor>v\<rfloor> else \<lceil>v\<rceil>)"

lemma f64_raw_exp_less: "f64_raw_exp d < 2048"
proof -
  have "unat (take_bit 11 (drop_bit 52 d)) < 2 ^ 11"
    unfolding unsigned_take_bit_eq by (rule take_bit_nat_less_exp)
  then show ?thesis by (simp add: f64_raw_exp_def)
qed

lemma f64_frac_less: "f64_frac d < 2 ^ 52"
proof -
  have "unat (take_bit 52 d) < 2 ^ 52"
    unfolding unsigned_take_bit_eq by (rule take_bit_nat_less_exp)
  then show ?thesis by (simp add: f64_frac_def)
qed

lemma f64_mant_less: "f64_mant d < 2 ^ 53"
  using f64_frac_less [of d] by (simp add: f64_mant_def)

lemma f64_mant_pos: "\<not> f64_is_zero d \<Longrightarrow> 0 < f64_mant d"
  by (auto simp: f64_is_zero_def f64_mant_def)

lemma f64_exp_bounds:
  "f64_is_finite d \<Longrightarrow> -1074 \<le> f64_exp d \<and> f64_exp d \<le> 971"
  using f64_raw_exp_less [of d] by (auto simp: f64_exp_def f64_is_finite_def)

lemma f64_kinds:
  "f64_is_nan d \<or> f64_is_infinite d \<or> f64_is_finite d"
  "\<not> (f64_is_nan d \<and> f64_is_infinite d)"
  "f64_is_finite d \<longleftrightarrow> \<not> f64_is_nan d \<and> \<not> f64_is_infinite d"
  by (auto simp: f64_is_nan_def f64_is_infinite_def f64_is_finite_def)

lemma f64_zero_finite: "f64_is_zero d \<Longrightarrow> f64_is_finite d"
  by (simp add: f64_is_zero_def f64_is_finite_def)

lemma f64_val_zero_iff: "f64_val d = 0 \<longleftrightarrow> f64_is_zero d"
  by (auto simp: f64_val_def f64_is_zero_def f64_mant_def)

lemma ext_cmp_refl [simp]: "ext_cmp x x = Equal"
  by (simp add: ext_cmp_def)

lemma reverse_ext_cmp: "reverse_ord (ext_cmp x y) = ext_cmp y x"
  by (simp add: ext_cmp_def reverse_ord_then_with reverse_ord_cmp_of)

section \<open>Decimal rendering of integers\<close>

fun nat_digits :: "nat \<Rightarrow> nat list" where
  "nat_digits n = (if n < 10 then [n] else nat_digits (n div 10) @ [n mod 10])"

declare nat_digits.simps [simp del]

text \<open>The number a digit string stands for.\<close>

fun digits_val_acc :: "nat \<Rightarrow> nat list \<Rightarrow> nat" where
  "digits_val_acc a [] = a"
| "digits_val_acc a (d # ds) = digits_val_acc (10 * a + d) ds"

definition digits_val :: "nat list \<Rightarrow> nat" where
  "digits_val ds = digits_val_acc 0 ds"

text \<open>\<open>n.to_string()\<close>, as ASCII bytes.\<close>

definition nat_to_string :: "nat \<Rightarrow> rstr" where
  "nat_to_string n = map (\<lambda>d. of_nat (48 + d)) (nat_digits n)"

lemma digits_val_acc: "digits_val_acc a ds = a * 10 ^ length ds + digits_val ds"
proof -
  have "digits_val_acc a ds = a * 10 ^ length ds + digits_val_acc 0 ds" for a
  proof (induction ds arbitrary: a)
    case (Cons d ds)
    have "digits_val_acc a (d # ds) = (10 * a + d) * 10 ^ length ds + digits_val_acc 0 ds"
      using Cons.IH [of "10 * a + d"] by simp
    also have "\<dots> = a * 10 ^ length (d # ds) + (d * 10 ^ length ds + digits_val_acc 0 ds)"
      by (simp add: algebra_simps)
    also have "d * 10 ^ length ds + digits_val_acc 0 ds = digits_val_acc 0 (d # ds)"
      using Cons.IH [of d] by simp
    finally show ?case .
  qed simp
  from this [of a] show ?thesis unfolding digits_val_def .
qed

lemma digits_val_simps [simp]:
  "digits_val [] = 0"
  "digits_val (d # ds) = d * 10 ^ length ds + digits_val ds"
  using digits_val_acc [of d ds] by (simp_all add: digits_val_def)

lemma digits_val_append: "digits_val (xs @ ys) = digits_val xs * 10 ^ length ys + digits_val ys"
  by (induction xs) (simp_all add: algebra_simps power_add)

lemma digits_val_nat_digits [simp]: "digits_val (nat_digits n) = n"
proof (induction n rule: nat_digits.induct)
  case (1 n)
  then show ?case
    by (cases "n < 10") (simp_all add: nat_digits.simps [of n] digits_val_append)
qed

lemma nat_digits_less: "d \<in> set (nat_digits n) \<Longrightarrow> d < 10"
proof (induction n rule: nat_digits.induct)
  case (1 n)
  then show ?case
    by (cases "n < 10") (auto simp: nat_digits.simps [of n])
qed

lemma nat_digits_nonempty [simp]: "nat_digits n \<noteq> []"
  by (subst nat_digits.simps) simp

lemma hd_nat_digits: "0 < n \<Longrightarrow> 0 < hd (nat_digits n)"
proof (induction n rule: nat_digits.induct)
  case (1 n)
  then show ?case
    by (cases "n < 10") (auto simp: nat_digits.simps [of n] hd_append)
qed

lemma digits_val_less: "\<forall>d \<in> set ds. d < 10 \<Longrightarrow> digits_val ds < 10 ^ length ds"
proof (induction ds)
  case (Cons d ds)
  then have "d * 10 ^ length ds + digits_val ds < d * 10 ^ length ds + 10 ^ length ds" by simp
  also have "\<dots> = (d + 1) * 10 ^ length ds" by simp
  also have "\<dots> \<le> 10 * 10 ^ length ds" using Cons.prems by (intro mult_right_mono) auto
  finally show ?case by simp
qed simp

section \<open>Strings\<close>

definition is_ascii_digit :: "u8 \<Rightarrow> bool" where
  "is_ascii_digit b \<longleftrightarrow> 48 \<le> b \<and> b \<le> 57"

definition digit_of :: "u8 \<Rightarrow> nat" where
  "digit_of b = unat b - 48"

text \<open>\<open>char::to_digit(10)\<close> of one ASCII byte.\<close>

definition to_digit :: "u8 \<Rightarrow> nat option" where
  "to_digit b = (if is_ascii_digit b then Some (digit_of b) else None)"

text \<open>\<open>str::split\<close> at a one-byte pattern: always at least one piece.\<close>

fun split_on :: "u8 \<Rightarrow> rstr \<Rightarrow> rstr list" where
  "split_on c [] = [[]]"
| "split_on c (b # bs) =
     (if b = c then [] # split_on c bs
      else (case split_on c bs of [] \<Rightarrow> [[b]] | p # ps \<Rightarrow> (b # p) # ps))"

text \<open>\<open>str::split_once\<close> at the first byte satisfying the pattern.\<close>

fun split_once :: "(u8 \<Rightarrow> bool) \<Rightarrow> rstr \<Rightarrow> (rstr \<times> rstr) option" where
  "split_once p [] = None"
| "split_once p (b # bs) =
     (if p b then Some ([], bs)
      else map_option (\<lambda>(l, r). (b # l, r)) (split_once p bs))"

fun strip_prefix :: "bytes \<Rightarrow> bytes \<Rightarrow> bytes option" where
  "strip_prefix [] bs = Some bs"
| "strip_prefix (p # ps) [] = None"
| "strip_prefix (p # ps) (b # bs) = (if p = b then strip_prefix ps bs else None)"

definition strip_suffix :: "bytes \<Rightarrow> bytes \<Rightarrow> bytes option" where
  "strip_suffix s bs = map_option rev (strip_prefix (rev s) (rev bs))"

text \<open>\<open>str::trim\<close> of ASCII text (the texts it is applied to are ASCII).\<close>

definition is_space :: "u8 \<Rightarrow> bool" where
  "is_space b \<longleftrightarrow> b = 32 \<or> (9 \<le> b \<and> b \<le> 13)"

definition trim_start :: "rstr \<Rightarrow> rstr" where
  "trim_start s = dropWhile is_space s"

definition trim :: "rstr \<Rightarrow> rstr" where
  "trim s = rev (dropWhile is_space (rev (trim_start s)))"

definition ascii_lower :: "rstr \<Rightarrow> rstr" where
  "ascii_lower s = map (\<lambda>b. if 65 \<le> b \<and> b \<le> 90 then b + 32 else b) s"

fun contains_str :: "rstr \<Rightarrow> rstr \<Rightarrow> bool" where
  "contains_str s [] = (s = [])"
| "contains_str s (b # bs) = (strip_prefix s (b # bs) \<noteq> None \<or> contains_str s bs)"

text \<open>
  \<open>str::parse\<close> of an integer type: an optional sign (a minus only where the type is
  signed), at least one digit, nothing else, and a value the type holds.
\<close>

fun parse_digits :: "rstr \<Rightarrow> nat \<Rightarrow> nat option" where
  "parse_digits [] a = Some a"
| "parse_digits (b # bs) a =
     (case to_digit b of None \<Rightarrow> None | Some d \<Rightarrow> parse_digits bs (10 * a + d))"

definition parse_unsigned :: "nat \<Rightarrow> rstr \<Rightarrow> nat option" where
  "parse_unsigned bound s =
     (let ds = (case s of [] \<Rightarrow> [] | b # bs \<Rightarrow> if b = 43 then bs else s)
      in if ds = [] then None
         else (case parse_digits ds 0 of
                 None \<Rightarrow> None
               | Some n \<Rightarrow> if n < bound then Some n else None))"

definition parse_usize :: "rstr \<Rightarrow> nat option" where
  "parse_usize = parse_unsigned (2 ^ 64)"

definition parse_i64 :: "rstr \<Rightarrow> int option" where
  "parse_i64 s =
     (case s of
        [] \<Rightarrow> None
      | b # bs \<Rightarrow>
          (let neg = (b = 45); ds = (if b = 45 \<or> b = 43 then bs else s)
           in if ds = [] then None
              else (case parse_digits ds 0 of
                      None \<Rightarrow> None
                    | Some n \<Rightarrow>
                        (let v = (if neg then - int n else int n)
                         in if -(2 ^ 63) \<le> v \<and> v < 2 ^ 63 then Some v else None))))"

lemma split_on_nonempty [simp]: "split_on c s \<noteq> []"
  by (cases s) (auto split: list.splits)

lemma split_on_no_sep: "c \<notin> set s \<Longrightarrow> split_on c s = [s]"
  by (induction s) auto

lemma split_on_append: "c \<notin> set p \<Longrightarrow> split_on c (p @ c # s) = p # split_on c s"
  by (induction p) auto

lemma strip_prefix_append [simp]: "strip_prefix p (p @ bs) = Some bs"
  by (induction p) auto

lemma strip_prefix_Some_iff: "strip_prefix p bs = Some r \<longleftrightarrow> bs = p @ r"
  by (induction p bs rule: strip_prefix.induct) auto

lemma strip_suffix_append [simp]: "strip_suffix s (bs @ s) = Some bs"
  by (simp add: strip_suffix_def)

lemma digit_of_ascii: "d < 10 \<Longrightarrow> digit_of (of_nat (48 + d)) = d"
  by (simp add: digit_of_def unat_of_nat del: of_nat_add)

lemma is_ascii_digit_ascii: "d < 10 \<Longrightarrow> is_ascii_digit (of_nat (48 + d))"
  by (simp add: is_ascii_digit_def word_le_nat_alt unat_of_nat del: of_nat_add)

lemma parse_digits_ascii:
  "\<forall>d \<in> set ds. d < 10 \<Longrightarrow> parse_digits (map (\<lambda>d. of_nat (48 + d)) ds) a = Some (digits_val_acc a ds)"
  by (induction ds arbitrary: a)
     (simp_all add: to_digit_def is_ascii_digit_ascii digit_of_ascii del: of_nat_add)

text \<open>Rendering an index and parsing it back.\<close>

lemma parse_usize_nat_to_string:
  assumes "n < 2 ^ 64"
  shows "parse_usize (nat_to_string n) = Some n"
proof -
  let ?s = "nat_to_string n"
  obtain d ds where ds: "nat_digits n = d # ds"
    by (cases "nat_digits n") (use nat_digits_nonempty in blast)+
  have "d < 10" using nat_digits_less [of d n] ds by simp
  then have "unat (of_nat (48 + d) :: u8) \<noteq> unat (43 :: u8)"
    by (simp add: unat_of_nat del: of_nat_add)
  then have "(of_nat (48 + d) :: u8) \<noteq> 43" by metis
  moreover have "parse_digits ?s 0 = Some n"
    using parse_digits_ascii [of "nat_digits n" 0] nat_digits_less
    by (simp add: nat_to_string_def digits_val_def [symmetric] del: of_nat_add)
  ultimately show ?thesis using assms ds
    by (simp add: parse_usize_def parse_unsigned_def nat_to_string_def Let_def del: of_nat_add)
qed

section \<open>Slices\<close>

text \<open>\<open>slice::get(i)\<close>, \<open>slice::get(i..)\<close>, and \<open>Iterator::position\<close>.\<close>

definition slice_get :: "'a list \<Rightarrow> nat \<Rightarrow> 'a option" where
  "slice_get xs i = (if i < length xs then Some (xs ! i) else None)"

definition slice_from :: "'a list \<Rightarrow> nat \<Rightarrow> 'a list option" where
  "slice_from xs i = (if i \<le> length xs then Some (drop i xs) else None)"

fun position :: "('a \<Rightarrow> bool) \<Rightarrow> 'a list \<Rightarrow> nat option" where
  "position p [] = None"
| "position p (x # xs) = (if p x then Some 0 else map_option Suc (position p xs))"

lemma position_append: "\<forall>x \<in> set xs. \<not> p x \<Longrightarrow> p y \<Longrightarrow> position p (xs @ y # ys) = Some (length xs)"
  by (induction xs) auto

lemma slice_get_at [simp]: "slice_get (a @ b # c) (length a) = Some b"
  by (simp add: slice_get_def)

lemma slice_from_at: "n = length a \<Longrightarrow> slice_from (a @ b) n = Some b"
  by (simp add: slice_from_def)

text \<open>\<open>slice::get(i..j)\<close>.\<close>

definition slice_range :: "'a list \<Rightarrow> nat \<Rightarrow> nat \<Rightarrow> 'a list option" where
  "slice_range xs i j = (if i \<le> j \<and> j \<le> length xs then Some (take (j - i) (drop i xs)) else None)"

text \<open>\<open>i32::from_le_bytes\<close> of four bytes, and \<open>to_le_bytes\<close>.\<close>

definition i32_from_le :: "bytes \<Rightarrow> i32" where
  "i32_from_le bs = of_nat (from_le_bytes bs)"

definition i32_to_le :: "32 word \<Rightarrow> bytes" where
  "i32_to_le w = le_bytes 4 (unat w)"

lemma length_i32_to_le [simp]: "length (i32_to_le w) = 4"
  by (simp add: i32_to_le_def)

lemma i32_from_le_to_le [simp]: "i32_from_le (i32_to_le w) = w"
  using unsigned_less [of w, where ?'a = nat]
  by (simp add: i32_from_le_def i32_to_le_def)

lemma from_le_bytes_less: "from_le_bytes bs < 256 ^ length bs"
proof (induction bs)
  case (Cons b bs)
  have "unat b < 256" using unsigned_less [of b, where ?'a = nat] by simp
  with Cons show ?case by simp
qed simp

lemma le_bytes_from_le_bytes: "length bs = k \<Longrightarrow> le_bytes k (from_le_bytes bs) = bs"
proof (induction bs arbitrary: k)
  case (Cons b bs)
  have b: "unat b < 256" using unsigned_less [of b, where ?'a = nat] by simp
  then show ?case using Cons by auto
qed simp

lemma i32_to_le_from_le: "length bs = 4 \<Longrightarrow> i32_to_le (i32_from_le bs) = bs"
  using from_le_bytes_less [of bs]
  by (simp add: i32_to_le_def i32_from_le_def unat_of_nat le_bytes_from_le_bytes)

lemma position_SomeD:
  "position p xs = Some n \<Longrightarrow> n < length xs \<and> p (xs ! n) \<and> (\<forall>x \<in> set (take n xs). \<not> p x)"
  by (induction xs arbitrary: n) (auto split: if_splits simp: nth_Cons')

lemma position_None_iff: "position p xs = None \<longleftrightarrow> (\<forall>x \<in> set xs. \<not> p x)"
  by (induction xs) auto

end
