(* ===== verification/Bson_Model.thy ===== *)
theory Bson_Model
  imports Rust_Std
begin

text \<open>
  The value model: the \<open>bson\<close> crate's \<open>Bson\<close> enum and its ordered \<open>Document\<close>, and the
  carriers \<open>secantus-core/src/bsondoc.rs\<close> keeps values in whose text is not UTF-8.

  The crate itself is third-party. Its enum appears here with the constructors the
  sources match on. A \<open>Document\<close> is an insertion-ordered map; the contract its clients
  rely on is the locale \<open>ordered_document\<close>, and the association list below provides it.
  A \<open>Decimal128\<close> is observed by the modelled sources only through its decimal text
  (\<open>to_string\<close>), so the constructor carries that text.
\<close>

section \<open>Values\<close>

datatype bson =
    Double f64
  | String rstr
  | Array "bson list"
  | Document "(rstr \<times> bson) list"
  | Boolean bool
  | Null
  | RegularExpression rstr rstr
  | JavaScriptCode rstr
  | JavaScriptCodeWithScope rstr "(rstr \<times> bson) list"
  | Int32 i32
  | Int64 i64
  | Timestamp u32 u32
  | Binary u8 bytes
  | ObjectId bytes
  | DateTime i64
  | Symbol rstr
  | Decimal128 rstr
  | Undefined
  | MaxKey
  | MinKey
  | DbPointer rstr bytes

type_synonym document = "(rstr \<times> bson) list"

section \<open>Documents\<close>

fun doc_get :: "document \<Rightarrow> rstr \<Rightarrow> bson option" where
  "doc_get [] k = None"
| "doc_get ((k', v) # d) k = (if k' = k then Some v else doc_get d k)"

fun doc_insert :: "document \<Rightarrow> rstr \<Rightarrow> bson \<Rightarrow> document" where
  "doc_insert [] k v = [(k, v)]"
| "doc_insert ((k', v') # d) k v =
     (if k' = k then (k, v) # d else (k', v') # doc_insert d k v)"

fun doc_remove :: "document \<Rightarrow> rstr \<Rightarrow> document" where
  "doc_remove [] k = []"
| "doc_remove ((k', v') # d) k = (if k' = k then d else (k', v') # doc_remove d k)"

definition doc_contains_key :: "document \<Rightarrow> rstr \<Rightarrow> bool" where
  "doc_contains_key d k \<longleftrightarrow> doc_get d k \<noteq> None"

text \<open>The invariant the crate's map keeps: no key twice.\<close>

definition doc_keys_distinct :: "document \<Rightarrow> bool" where
  "doc_keys_distinct d \<longleftrightarrow> distinct (map fst d)"

text \<open>What the clients of a document rely on.\<close>

locale ordered_document =
  fixes get :: "'d \<Rightarrow> 'k \<Rightarrow> 'v option"
    and insert :: "'d \<Rightarrow> 'k \<Rightarrow> 'v \<Rightarrow> 'd"
    and remove :: "'d \<Rightarrow> 'k \<Rightarrow> 'd"
    and keys :: "'d \<Rightarrow> 'k list"
    and invar :: "'d \<Rightarrow> bool"
  assumes get_keys: "(get d k \<noteq> None) = (k \<in> set (keys d))"
    and get_insert: "get (insert d k v) k' = (if k' = k then Some v else get d k')"
    and get_remove: "invar d \<Longrightarrow> get (remove d k) k' = (if k' = k then None else get d k')"
    and keys_insert: "keys (insert d k v) = (if k \<in> set (keys d) then keys d else keys d @ [k])"
    and invar_insert: "invar d \<Longrightarrow> invar (insert d k v)"
    and invar_remove: "invar d \<Longrightarrow> invar (remove d k)"
begin

lemma get_insert_same: "get (insert d k v) k = Some v"
  by (simp add: get_insert)

lemma get_insert_other: "k' \<noteq> k \<Longrightarrow> get (insert d k v) k' = get d k'"
  by (simp add: get_insert)

lemma get_insert_insert: "get (insert (insert d k v) k w) = get (insert d k w)"
  by (rule ext) (simp add: get_insert)

lemma keys_insert_existing: "get d k \<noteq> None \<Longrightarrow> keys (insert d k v) = keys d"
  by (metis get_keys keys_insert)

lemma get_remove_insert: "invar d \<Longrightarrow> get (remove (insert d k v) k) = get (remove d k)"
  by (rule ext) (simp add: get_remove get_insert invar_insert)

end

lemma doc_get_keys: "(doc_get d k \<noteq> None) = (k \<in> set (map fst d))"
  by (induction d k rule: doc_get.induct) auto

lemma doc_get_map_of: "doc_get d k = map_of d k"
  by (induction d k rule: doc_get.induct) auto

lemma keys_doc_insert:
  "map fst (doc_insert d k v) = (if k \<in> set (map fst d) then map fst d else map fst d @ [k])"
  by (induction d k v rule: doc_insert.induct) auto

lemma set_keys_doc_remove: "set (map fst (doc_remove d k)) \<subseteq> set (map fst d)"
  by (induction d k rule: doc_remove.induct) auto

lemma distinct_doc_remove: "distinct (map fst d) \<Longrightarrow> distinct (map fst (doc_remove d k))"
proof (induction d k rule: doc_remove.induct)
  case (2 k' v' d k)
  then show ?case using set_keys_doc_remove [of d k] by auto
qed simp

interpretation bson_doc: ordered_document doc_get doc_insert doc_remove "map fst" doc_keys_distinct
proof unfold_locales
  show "(doc_get d k \<noteq> None) = (k \<in> set (map fst d))" for d k
    by (rule doc_get_keys)
  show "doc_get (doc_insert d k v) k' = (if k' = k then Some v else doc_get d k')" for d k v k'
    by (induction d k v rule: doc_insert.induct) auto
  show "doc_get (doc_remove d k) k' = (if k' = k then None else doc_get d k')"
    if "doc_keys_distinct d" for d k k'
    using that
    by (induction d k rule: doc_remove.induct)
       (auto simp: doc_keys_distinct_def doc_get_map_of map_of_eq_None_iff, force)
  show "map fst (doc_insert d k v) = (if k \<in> set (map fst d) then map fst d else map fst d @ [k])"
    for d k v by (rule keys_doc_insert)
  show "doc_keys_distinct (doc_insert d k v)" if "doc_keys_distinct d" for d k v
    using that by (simp add: doc_keys_distinct_def keys_doc_insert)
  show "doc_keys_distinct (doc_remove d k)" if "doc_keys_distinct d" for d k
    using that by (simp add: doc_keys_distinct_def distinct_doc_remove)
qed

section \<open>UTF-8\<close>

text \<open>
  \<open>[u8]::utf8_chunks\<close> reads one item at a time: a valid character, or the maximal
  invalid sequence Rust replaces as a unit. \<open>utf8_item\<close> gives whether the item at the
  start of a non-empty byte string is valid, and its length.
\<close>

definition cont_byte :: "bytes \<Rightarrow> nat \<Rightarrow> bool" where
  "cont_byte bs i \<longleftrightarrow> i < length bs \<and> 128 \<le> bs ! i \<and> bs ! i \<le> 191"

definition second_in :: "bytes \<Rightarrow> u8 \<Rightarrow> u8 \<Rightarrow> bool" where
  "second_in bs lo hi \<longleftrightarrow> 1 < length bs \<and> lo \<le> bs ! 1 \<and> bs ! 1 \<le> hi"

definition second3_ok :: "u8 \<Rightarrow> bytes \<Rightarrow> bool" where
  "second3_ok b bs =
     (if b = 0xE0 then second_in bs 0xA0 0xBF
      else if b = 0xED then second_in bs 0x80 0x9F
      else second_in bs 0x80 0xBF)"

definition second4_ok :: "u8 \<Rightarrow> bytes \<Rightarrow> bool" where
  "second4_ok b bs =
     (if b = 0xF0 then second_in bs 0x90 0xBF
      else if b = 0xF4 then second_in bs 0x80 0x8F
      else second_in bs 0x80 0xBF)"

definition utf8_item :: "bytes \<Rightarrow> bool \<times> nat" where
  "utf8_item bs =
     (case bs of
        [] \<Rightarrow> (True, 0)
      | b # _ \<Rightarrow>
          if b < 0x80 then (True, 1)
          else if 0xC2 \<le> b \<and> b \<le> 0xDF then
            (if cont_byte bs 1 then (True, 2) else (False, 1))
          else if 0xE0 \<le> b \<and> b \<le> 0xEF then
            (if \<not> second3_ok b bs then (False, 1)
             else if \<not> cont_byte bs 2 then (False, 2) else (True, 3))
          else if 0xF0 \<le> b \<and> b \<le> 0xF4 then
            (if \<not> second4_ok b bs then (False, 1)
             else if \<not> cont_byte bs 2 then (False, 2)
             else if \<not> cont_byte bs 3 then (False, 3) else (True, 4))
          else (False, 1))"

lemma utf8_item_pos: "bs \<noteq> [] \<Longrightarrow> 0 < snd (utf8_item bs)"
  by (cases bs) (auto simp: utf8_item_def)

function utf8_items :: "bytes \<Rightarrow> (bool \<times> bytes) list" where
  "utf8_items bs =
     (if bs = [] then []
      else (let (ok, n) = utf8_item bs in (ok, take n bs) # utf8_items (drop n bs)))"
  by pat_completeness auto
termination
proof (relation "measure length", goal_cases)
  case 1
  show ?case by simp
next
  case (2 bs x ok n)
  then have "0 < n" using utf8_item_pos [of bs] by (metis snd_conv)
  with 2 show ?case by simp
qed

declare utf8_items.simps [simp del]

definition utf8_valid :: "bytes \<Rightarrow> bool" where
  "utf8_valid bs \<longleftrightarrow> list_all fst (utf8_items bs)"

text \<open>\<open>String::from_utf8_lossy\<close>: each invalid item becomes U+FFFD.\<close>

definition lossy :: "bytes \<Rightarrow> rstr" where
  "lossy bs = concat (map (\<lambda>(ok, s). if ok then s else [0xEF, 0xBF, 0xBD]) (utf8_items bs))"

lemma concat_utf8_items: "concat (map snd (utf8_items bs)) = bs"
proof (induction bs rule: utf8_items.induct)
  case (1 bs)
  then show ?case
    by (subst utf8_items.simps) (auto split: prod.splits)
qed

lemma utf8_valid_lossy: "utf8_valid bs \<Longrightarrow> lossy bs = bs"
proof -
  assume "utf8_valid bs"
  then have "map (\<lambda>(ok, s). if ok then s else [0xEF, 0xBF, 0xBD]) (utf8_items bs)
      = map snd (utf8_items bs)"
    by (auto simp: utf8_valid_def list_all_iff)
  then show "lossy bs = bs" by (metis concat_utf8_items lossy_def)
qed

section \<open>Carriers of text that is not UTF-8\<close>

text \<open>\<open>{:02x}\<close> of a byte, and \<open>u8::from_str_radix(_, 16)\<close>.\<close>

definition hex_digit :: "nat \<Rightarrow> u8" where
  "hex_digit n = of_nat (if n < 10 then 48 + n else 87 + n)"

definition hex2 :: "u8 \<Rightarrow> rstr" where
  "hex2 b = [hex_digit (unat b div 16), hex_digit (unat b mod 16)]"

definition hex_value :: "u8 \<Rightarrow> nat option" where
  "hex_value b =
     (if 48 \<le> b \<and> b \<le> 57 then Some (unat b - 48)
      else if 97 \<le> b \<and> b \<le> 102 then Some (unat b - 87)
      else if 65 \<le> b \<and> b \<le> 70 then Some (unat b - 55)
      else None)"

fun parse_hex :: "rstr \<Rightarrow> nat \<Rightarrow> nat option" where
  "parse_hex [] a = Some a"
| "parse_hex (b # bs) a =
     (case hex_value b of None \<Rightarrow> None | Some d \<Rightarrow> parse_hex bs (16 * a + d))"

definition u8_from_hex :: "rstr \<Rightarrow> u8 option" where
  "u8_from_hex s =
     (let ds = (case s of [] \<Rightarrow> [] | b # bs \<Rightarrow> if b = 43 then bs else s)
      in if ds = [] then None
         else (case parse_hex ds 0 of
                 None \<Rightarrow> None
               | Some n \<Rightarrow> if n < 256 then Some (of_nat n) else None))"

definition INVALID_UTF8_KEY :: rstr where
  "INVALID_UTF8_KEY = [0]"

definition raw_text :: "u8 \<Rightarrow> bytes \<Rightarrow> bson" where
  "raw_text t value = Document (doc_insert [] (0 # hex2 t) (Binary 0 value))"

definition as_raw_text :: "bson \<Rightarrow> (u8 \<times> bytes) option" where
  "as_raw_text v =
     (case v of
        Document [(k, x)] \<Rightarrow>
          (case k of
             [z, h1, h2] \<Rightarrow>
               (if z \<noteq> 0 then None
                else (case u8_from_hex [h1, h2] of
                        None \<Rightarrow> None
                      | Some t \<Rightarrow>
                          if \<not> (0x0B \<le> t \<and> t \<le> 0x0F) \<or> k \<noteq> 0 # hex2 t then None
                          else (case x of
                                  Binary st bs \<Rightarrow> if st = 0 then Some (t, bs) else None
                                | _ \<Rightarrow> None)))
           | _ \<Rightarrow> None)
      | _ \<Rightarrow> None)"

definition raw_text_bytes :: "u8 \<Rightarrow> bytes \<Rightarrow> bytes" where
  "raw_text_bytes t value =
     (if (t = 0x0D \<or> t = 0x0E) \<and> 5 \<le> length value
      then take (length value - 5) (drop 4 value)
      else value)"

definition raw_text_type_name :: "u8 \<Rightarrow> string" where
  "raw_text_type_name t =
     (if t = 0x0B then ''regex''
      else if t = 0x0C then ''dbPointer''
      else if t = 0x0D then ''javascript''
      else if t = 0x0E then ''symbol''
      else ''javascriptWithScope'')"

definition invalid_utf8 :: "bytes \<Rightarrow> bson" where
  "invalid_utf8 bs = Document (doc_insert [] INVALID_UTF8_KEY (Binary 0 bs))"

definition string_from_bytes :: "bytes \<Rightarrow> bson" where
  "string_from_bytes bs = (if utf8_valid bs then String bs else invalid_utf8 bs)"

definition carrier_bytes :: "document \<Rightarrow> bytes option" where
  "carrier_bytes d =
     (if length d \<noteq> 1 then None
      else (case doc_get d INVALID_UTF8_KEY of
              Some (Binary st bs) \<Rightarrow> if st = 0 then Some bs else None
            | _ \<Rightarrow> None))"

definition as_invalid_utf8 :: "bson \<Rightarrow> bytes option" where
  "as_invalid_utf8 v = (case v of Document d \<Rightarrow> carrier_bytes d | _ \<Rightarrow> None)"

definition str_bytes :: "bson \<Rightarrow> bytes option" where
  "str_bytes v = (case v of String s \<Rightarrow> Some s | _ \<Rightarrow> as_invalid_utf8 v)"

definition carrier_pair :: "bson \<Rightarrow> bson \<Rightarrow> (bytes \<times> bytes) option" where
  "carrier_pair a b =
     (case (a, b) of
        (String _, String _) \<Rightarrow> None
      | _ \<Rightarrow> (case str_bytes a of
               None \<Rightarrow> None
             | Some x \<Rightarrow> (case str_bytes b of None \<Rightarrow> None | Some y \<Rightarrow> Some (x, y))))"

definition is_string :: "bson \<Rightarrow> bool" where
  "is_string v \<longleftrightarrow> (case v of String _ \<Rightarrow> True | _ \<Rightarrow> False) \<or> as_invalid_utf8 v \<noteq> None"

definition message_escape :: "bytes \<Rightarrow> rstr" where
  "message_escape bs =
     concat (map (\<lambda>(ok, s). if ok then s else concat (map (\<lambda>b. 0 # 0 # hex2 b) s))
                 (utf8_items bs))"

definition escape_key :: "bytes \<Rightarrow> rstr" where
  "escape_key bs =
     concat (map (\<lambda>(ok, s). if ok then s else concat (map (\<lambda>b. 0 # hex2 b) s))
                 (utf8_items bs))"

text \<open>The loop of \<open>key_bytes\<close>: a NUL and two hex digits stand for one byte.\<close>

function unescape_loop :: "rstr \<Rightarrow> bytes option" where
  "unescape_loop [] = Some []"
| "unescape_loop (b # bs) =
     (if b = 0 then
        (if length bs < 2 then None
         else (case u8_from_hex (take 2 bs) of
                 None \<Rightarrow> None
               | Some x \<Rightarrow> map_option ((#) x) (unescape_loop (drop 2 bs))))
      else map_option ((#) b) (unescape_loop bs))"
  by pat_completeness auto
termination by (relation "measure length") auto

definition key_bytes :: "rstr \<Rightarrow> bytes option" where
  "key_bytes key =
     (if 0 \<notin> set key then Some key
      else (case unescape_loop key of
              None \<Rightarrow> None
            | Some out \<Rightarrow> if escape_key out = key then Some out else None))"

definition key_string :: "rstr \<Rightarrow> bson" where
  "key_string key =
     (if 0 \<notin> set key then String key
      else (case key_bytes key of Some b \<Rightarrow> invalid_utf8 b | None \<Rightarrow> String key))"

subsection \<open>Facts\<close>

lemma hex_value_digit: "n < 16 \<Longrightarrow> hex_value (hex_digit n) = Some n"
  by (auto simp: hex_value_def hex_digit_def word_le_nat_alt unat_of_nat)

lemma hex_digit_not_plus: "n < 16 \<Longrightarrow> hex_digit n \<noteq> 43"
  using hex_value_digit [of n] by (auto simp: hex_value_def)

lemma u8_from_hex_hex2 [simp]: "u8_from_hex (hex2 b) = Some b"
proof -
  have b: "unat b < 256" using unsigned_less [of b, where ?'a = nat] by simp
  then have "unat b div 16 < 16" "unat b mod 16 < 16" by simp_all
  then show ?thesis using b
    by (simp add: u8_from_hex_def hex2_def hex_value_digit hex_digit_not_plus)
qed

lemma length_hex2 [simp]: "length (hex2 b) = 2"
  by (simp add: hex2_def)

lemma as_raw_text_raw_text:
  "0x0B \<le> t \<Longrightarrow> t \<le> 0x0F \<Longrightarrow> as_raw_text (raw_text t bs) = Some (t, bs)"
  using u8_from_hex_hex2 [of t] by (simp add: as_raw_text_def raw_text_def hex2_def)

lemma as_raw_text_SomeD:
  "as_raw_text v = Some (t, bs) \<Longrightarrow>
     v = Document [(0 # hex2 t, Binary 0 bs)] \<and> 0x0B \<le> t \<and> t \<le> 0x0F"
  by (auto simp: as_raw_text_def split: bson.splits list.splits prod.splits option.splits if_splits)

lemma as_invalid_utf8_SomeD:
  "as_invalid_utf8 v = Some bs \<Longrightarrow> v = Document [(INVALID_UTF8_KEY, Binary 0 bs)]"
  by (auto simp: as_invalid_utf8_def carrier_bytes_def length_Suc_conv
      split: bson.splits option.splits if_splits)

lemma as_invalid_utf8_invalid_utf8 [simp]: "as_invalid_utf8 (invalid_utf8 bs) = Some bs"
  by (simp add: as_invalid_utf8_def invalid_utf8_def carrier_bytes_def)

text \<open>A carrier of one kind is never read as the other.\<close>

lemma carriers_disjoint: "as_raw_text v = Some r \<Longrightarrow> as_invalid_utf8 v = None"
  by (cases r) (auto dest!: as_raw_text_SomeD
      simp: as_invalid_utf8_def carrier_bytes_def INVALID_UTF8_KEY_def hex2_def)

lemma str_bytes_string_from_bytes [simp]: "str_bytes (string_from_bytes bs) = Some bs"
  by (simp add: string_from_bytes_def str_bytes_def invalid_utf8_def as_invalid_utf8_def
      carrier_bytes_def)

lemma unescape_loop_escaped:
  "unescape_loop (concat (map (\<lambda>b. 0 # hex2 b) s) @ rest) =
     map_option (\<lambda>r. s @ r) (unescape_loop rest)"
  by (cases "unescape_loop rest"; induction s) simp_all

lemma unescape_loop_plain:
  "0 \<notin> set s \<Longrightarrow> unescape_loop (s @ rest) = map_option (\<lambda>r. s @ r) (unescape_loop rest)"
  by (cases "unescape_loop rest"; induction s) auto

lemma unescape_loop_items:
  assumes "\<forall>(ok, s) \<in> set items. 0 \<notin> set s"
  shows "unescape_loop
           (concat (map (\<lambda>(ok, s). if ok then s else concat (map (\<lambda>b. 0 # hex2 b) s)) items))
         = Some (concat (map snd items))"
  using assms
proof (induction items)
  case (Cons it items)
  then show ?case
    by (cases it) (auto simp: unescape_loop_escaped unescape_loop_plain)
qed simp

lemma escape_key_valid: "utf8_valid bs \<Longrightarrow> escape_key bs = bs"
proof -
  assume "utf8_valid bs"
  then have "map (\<lambda>(ok, s). if ok then s else concat (map (\<lambda>b. 0 # hex2 b) s)) (utf8_items bs)
      = map snd (utf8_items bs)"
    by (auto simp: utf8_valid_def list_all_iff)
  then show "escape_key bs = bs" by (simp only: escape_key_def concat_utf8_items)
qed

lemma utf8_items_no_nul:
  assumes "0 \<notin> set bs" shows "\<forall>(ok, s) \<in> set (utf8_items bs). 0 \<notin> set s"
proof -
  have "set bs = (\<Union>(ok, s) \<in> set (utf8_items bs). set s)"
  proof -
    have "set bs = set (concat (map snd (utf8_items bs)))" by (simp only: concat_utf8_items)
    then show ?thesis by (simp add: case_prod_unfold)
  qed
  with assms show ?thesis by auto
qed

lemma escape_key_no_nul_id:
  assumes "0 \<notin> set bs" and "0 \<notin> set (escape_key bs)"
  shows "escape_key bs = bs"
proof -
  have "unescape_loop (escape_key bs) = Some bs"
    using unescape_loop_items [OF utf8_items_no_nul [OF assms(1)]]
    by (simp add: escape_key_def concat_utf8_items)
  moreover have "unescape_loop (escape_key bs) = Some (escape_key bs)"
    using unescape_loop_plain [OF assms(2), of "[]"] by simp
  ultimately show ?thesis by simp
qed

section \<open>Properties\<close>

text \<open>A field name is recovered from its escaped form: for a name without a NUL byte (a BSON name is
  a C string) \<open>key_bytes\<close> of \<open>escape_key\<close> is the name, valid UTF-8 or not.\<close>

theorem key_bytes_escape_key:
  assumes "0 \<notin> set name"
  shows "key_bytes (escape_key name) = Some name"
proof (cases "0 \<in> set (escape_key name)")
  case True
  have "unescape_loop (escape_key name) = Some name"
    using unescape_loop_items [OF utf8_items_no_nul [OF assms]] by (simp add: escape_key_def concat_utf8_items)
  with True show ?thesis by (simp add: key_bytes_def)
next
  case False
  then show ?thesis using escape_key_no_nul_id [OF assms] by (simp add: key_bytes_def)
qed

theorem key_bytes_escape_key_witness: "key_bytes (escape_key [97, 0xFF, 98]) = Some [97, 0xFF, 98]"
  by (rule key_bytes_escape_key) code_simp

text \<open>Any byte string stored as text reads back as the same bytes, is a string everywhere, and is a
  carrier exactly when it is not UTF-8; a carrier of another text type keeps its type and bytes.\<close>

theorem text_carrier_roundtrip:
  assumes "0x0B \<le> t" "t \<le> 0x0F"
  shows "str_bytes (string_from_bytes bs) = Some bs \<and> is_string (string_from_bytes bs)
       \<and> (as_invalid_utf8 (string_from_bytes bs) = Some bs \<longleftrightarrow> \<not> utf8_valid bs)
       \<and> as_raw_text (raw_text t raw) = Some (t, raw) \<and> \<not> is_string (raw_text t raw)"
proof -
  have "is_string (string_from_bytes bs) \<and> (as_invalid_utf8 (string_from_bytes bs) = Some bs \<longleftrightarrow> \<not> utf8_valid bs)"
    by (simp add: is_string_def string_from_bytes_def as_invalid_utf8_def [of "String bs"])
  moreover have "as_raw_text (raw_text t raw) = Some (t, raw) \<and> \<not> is_string (raw_text t raw)"
    using as_raw_text_raw_text [OF assms, of raw] carriers_disjoint [of "raw_text t raw"]
    by (simp add: is_string_def raw_text_def)
  ultimately show ?thesis by simp
qed

theorem text_carrier_roundtrip_witness:
  "str_bytes (string_from_bytes [0xC3]) = Some [0xC3] \<and> as_raw_text (raw_text 0x0D [1, 2]) = Some (0x0D, [1, 2])"
  using text_carrier_roundtrip [of "0x0D" "[0xC3]" "[1, 2]"] by simp

end
