(* ===== verification/Numeric.thy ===== *)
theory Numeric
  imports Bson_Model
begin

text \<open>
  \<open>secantus-core/src/numeric.rs\<close>: the unified numeric type. Every number is reduced to a
  sign, normalised decimal digits and a power of ten; \<open>cmp\<close> orders those forms, and
  \<open>fast_cmp\<close> orders integers and doubles without building them. The theory shows that the
  decimal form of a double is its exact value, that \<open>cmp\<close> orders by exact value, and that
  the fast path gives the same verdicts.
\<close>

unbundle bit_operations_syntax

section \<open>Definitions\<close>

datatype num_val =
    Nan
  | Inf int
  | Zero
  | Finite (nv_sign: int) (nv_digits: "nat list") (nv_exp: int)

subsection \<open>Normalising digits\<close>

fun drop_leading :: "nat list \<Rightarrow> nat list" where
  "drop_leading [] = []"
| "drop_leading (d # ds) = (if d = 0 then drop_leading ds else d # ds)"

function drop_trailing :: "nat list \<Rightarrow> int \<Rightarrow> nat list \<times> int" where
  "drop_trailing ds e =
     (if ds \<noteq> [] \<and> last ds = 0 then drop_trailing (butlast ds) (e + 1) else (ds, e))"
  by pat_completeness auto
termination by (relation "measure (\<lambda>(ds, e). length ds)") auto

declare drop_trailing.simps [simp del]

definition normalize_dec :: "nat list \<Rightarrow> int \<Rightarrow> nat list \<times> int" where
  "normalize_dec digits ex = drop_trailing (drop_leading digits) ex"

definition from_int :: "int \<Rightarrow> num_val" where
  "from_int n =
     (if n = 0 then Zero
      else let sign = (if n < 0 then -1 else 1);
               mag = (if n < 0 then - n else n);
               (digits, ex) = normalize_dec (nat_digits (nat mag)) 0
           in Finite sign digits ex)"

subsection \<open>The exact decimal form of a double\<close>

definition LIMB :: nat where
  "LIMB = 1000000000"

text \<open>\<open>u64::trailing_zeros\<close> of a non-zero number.\<close>

fun trailing_zeros :: "nat \<Rightarrow> nat" where
  "trailing_zeros m = (if m = 0 then 64 else if odd m then 0 else Suc (trailing_zeros (m div 2)))"

declare trailing_zeros.simps [simp del]

text \<open>\<open>while limbs.len() > 1 && last == 0 { limbs.pop() }\<close>\<close>

function pop_zero_limbs :: "nat list \<Rightarrow> nat list" where
  "pop_zero_limbs limbs =
     (if 1 < length limbs \<and> last limbs = 0 then pop_zero_limbs (butlast limbs) else limbs)"
  by pat_completeness auto
termination by (relation "measure length") auto

declare pop_zero_limbs.simps [simp del]

text \<open>\<open>while carry > 0 { limbs.push(carry % LIMB); carry /= LIMB }\<close>\<close>

function push_carry :: "nat \<Rightarrow> nat list" where
  "push_carry carry =
     (if 0 < carry then carry mod LIMB # push_carry (carry div LIMB) else [])"
  by pat_completeness auto
termination by (relation "measure id") (auto simp: LIMB_def)

declare push_carry.simps [simp del]

text \<open>The closure \<open>mul\<close>: multiply little-endian limbs in place, carrying.\<close>

fun mul_limbs :: "nat list \<Rightarrow> nat \<Rightarrow> nat \<Rightarrow> nat list" where
  "mul_limbs [] k carry = push_carry carry"
| "mul_limbs (l # ls) k carry =
     (let v = l * k + carry in v mod LIMB # mul_limbs ls k (v div LIMB))"

text \<open>\<open>m << e\<close>, 29 bits at a time.\<close>

function shl_loop :: "nat \<Rightarrow> nat list \<Rightarrow> nat list" where
  "shl_loop left limbs =
     (if 0 < left
      then let step = min left 29 in shl_loop (left - step) (mul_limbs limbs (2 ^ step) 0)
      else limbs)"
  by pat_completeness auto
termination by (relation "measure fst") auto

declare shl_loop.simps [simp del]

text \<open>\<open>m * 5^k\<close>, 5^13 at a time.\<close>

function pow5_loop :: "nat \<Rightarrow> nat list \<Rightarrow> nat list" where
  "pow5_loop left limbs =
     (if 0 < left
      then let step = min left 13 in pow5_loop (left - step) (mul_limbs limbs (5 ^ step) 0)
      else limbs)"
  by pat_completeness auto
termination by (relation "measure fst") auto

declare pow5_loop.simps [simp del]

text \<open>\<open>format!("{l:09}")\<close>: nine digits, zero-padded.\<close>

definition pad9 :: "nat \<Rightarrow> nat list" where
  "pad9 l = replicate (9 - length (nat_digits l)) 0 @ nat_digits l"

definition limbs_digits :: "nat list \<Rightarrow> nat list" where
  "limbs_digits limbs =
     (case rev limbs of [] \<Rightarrow> [] | l # ls \<Rightarrow> nat_digits l @ concat (map pad9 ls))"

definition exact_f64_parts :: "f64 \<Rightarrow> int \<times> nat list \<times> int" where
  "exact_f64_parts d =
     (let sign = (if drop_bit 63 d = 1 then -1 else 1);
          raw_exp = int (unat (drop_bit 52 d AND 0x7FF));
          frac = d AND (push_bit 52 1 - 1);
          (m0, e0) = (if raw_exp = 0 then (unat frac, -1074)
                      else (unat (frac OR push_bit 52 1), raw_exp - 1075));
          tz = trailing_zeros m0;
          m = m0 div 2 ^ tz;
          e = e0 + int tz;
          limbs = pop_zero_limbs [m mod LIMB, m div LIMB mod LIMB, m div (LIMB * LIMB)];
          (limbs', exp10) = (if 0 \<le> e then (shl_loop (nat e) limbs, 0)
                             else (pow5_loop (nat (- e)) limbs, e));
          (digits, ex) = normalize_dec (limbs_digits limbs') exp10
      in (sign, digits, ex))"

definition from_f64 :: "f64 \<Rightarrow> num_val" where
  "from_f64 d =
     (if f64_is_nan d then Nan
      else if f64_is_infinite d then Inf (if \<not> f64_neg d then 1 else -1)
      else if f64_is_zero d then Zero
      else let (sign, digits, ex) = exact_f64_parts d in Finite sign digits ex)"

subsection \<open>Decimal text\<close>

definition exp_mark :: "u8 \<Rightarrow> bool" where
  "exp_mark b \<longleftrightarrow> b = 101 \<or> b = 69"

definition is_dot :: "u8 \<Rightarrow> bool" where
  "is_dot b \<longleftrightarrow> b = 46"

fun filter_digits :: "rstr \<Rightarrow> nat list" where
  "filter_digits [] = []"
| "filter_digits (b # bs) =
     (case to_digit b of Some d \<Rightarrow> d # filter_digits bs | None \<Rightarrow> filter_digits bs)"

text \<open>The sign, the integer and fraction digits, and the text of the exponent if there is one.\<close>

definition split_decimal :: "rstr \<Rightarrow> int \<times> rstr \<times> rstr \<times> rstr option" where
  "split_decimal s =
     (let (sign, rest) = (case strip_prefix [45] s of
            Some r \<Rightarrow> (-1, r)
          | None \<Rightarrow> (1, case strip_prefix [43] s of Some r \<Rightarrow> r | None \<Rightarrow> s));
          (mantissa, exp_text) = (case split_once exp_mark rest of
            Some (m, e) \<Rightarrow> (m, Some e)
          | None \<Rightarrow> (rest, None));
          (int_part, frac_part) = (case split_once is_dot mantissa of
            Some (i, f) \<Rightarrow> (i, f)
          | None \<Rightarrow> (mantissa, []))
      in (sign, int_part, frac_part, exp_text))"

definition from_decimal_str :: "rstr \<Rightarrow> num_val" where
  "from_decimal_str s =
     (let low = ascii_lower s
      in if contains_str (lit ''nan'') low then Nan
         else if contains_str (lit ''inf'') low then
           Inf (if strip_prefix [45] (trim_start s) \<noteq> None then -1 else 1)
         else
           let (sign, int_part, frac_part, exp_text) = split_decimal (trim s);
               exp_extra = (case exp_text of
                  Some e \<Rightarrow> (case parse_i64 e of Some x \<Rightarrow> x | None \<Rightarrow> 0)
                | None \<Rightarrow> 0);
               (digits, ex) = normalize_dec (filter_digits (int_part @ frac_part))
                                        (exp_extra - int (length frac_part))
           in if digits = [] then Zero else Finite sign digits ex)"

definition classify :: "bson \<Rightarrow> num_val option" where
  "classify b =
     (case b of
        Int32 n \<Rightarrow> Some (from_int (sint n))
      | Int64 n \<Rightarrow> Some (from_int (sint n))
      | Double d \<Rightarrow> Some (from_f64 d)
      | Decimal128 s \<Rightarrow> Some (from_decimal_str s)
      | _ \<Rightarrow> None)"

subsection \<open>Widths of integer results\<close>

definition as_int_like :: "bson \<Rightarrow> int option" where
  "as_int_like b =
     (case b of
        Int32 n \<Rightarrow> Some (sint n)
      | Int64 n \<Rightarrow> Some (sint n)
      | Boolean v \<Rightarrow> Some (if v then 1 else 0)
      | _ \<Rightarrow> None)"

definition fits_i32 :: "int \<Rightarrow> bool" where
  "fits_i32 r \<longleftrightarrow> -(2 ^ 31) \<le> r \<and> r \<le> 2 ^ 31 - 1"

definition fits_i64 :: "int \<Rightarrow> bool" where
  "fits_i64 r \<longleftrightarrow> -(2 ^ 63) \<le> r \<and> r \<le> 2 ^ 63 - 1"

definition int_to_bson :: "int \<Rightarrow> bson option" where
  "int_to_bson r =
     (if fits_i32 r then Some (Int32 (of_int r))
      else if fits_i64 r then Some (Int64 (of_int r))
      else None)"

definition is_int64 :: "bson \<Rightarrow> bool" where
  "is_int64 b = (case b of Int64 _ \<Rightarrow> True | _ \<Rightarrow> False)"

definition int_promoted_to_bson :: "int \<Rightarrow> bool \<Rightarrow> bson option" where
  "int_promoted_to_bson r operand_wide =
     (if \<not> fits_i64 r then None
      else if operand_wide \<or> \<not> fits_i32 r then Some (Int64 (of_int r))
      else Some (Int32 (of_int r)))"

subsection \<open>Comparison\<close>

definition eq_num :: "num_val \<Rightarrow> num_val \<Rightarrow> bool" where
  "eq_num a b =
     (case (a, b) of
        (Nan, _) \<Rightarrow> False
      | (_, Nan) \<Rightarrow> False
      | (Inf x, Inf y) \<Rightarrow> x = y
      | (Inf _, _) \<Rightarrow> False
      | (_, Inf _) \<Rightarrow> False
      | (Zero, Zero) \<Rightarrow> True
      | (Zero, Finite _ _ _) \<Rightarrow> False
      | (Finite _ _ _, Zero) \<Rightarrow> False
      | (Finite s1 d1 e1, Finite s2 d2 e2) \<Rightarrow> s1 = s2 \<and> d1 = d2 \<and> e1 = e2)"

definition cmp_magnitude :: "nat list \<Rightarrow> int \<Rightarrow> nat list \<Rightarrow> int \<Rightarrow> ordering" where
  "cmp_magnitude d1 e1 d2 e2 =
     (let sci1 = e1 + int (length d1) - 1;
          sci2 = e2 + int (length d2) - 1
      in case cmp_of sci1 sci2 of Equal \<Rightarrow> cmp_of d1 d2 | other \<Rightarrow> other)"

definition cmp_num :: "num_val \<Rightarrow> num_val \<Rightarrow> ordering option" where
  "cmp_num a b =
     (case (a, b) of
        (Nan, _) \<Rightarrow> None
      | (_, Nan) \<Rightarrow> None
      | (Inf x, Inf y) \<Rightarrow> Some (cmp_of x y)
      | (Inf x, _) \<Rightarrow> Some (if x = 1 then Greater else Less)
      | (_, Inf y) \<Rightarrow> Some (if y = 1 then Less else Greater)
      | (Zero, Zero) \<Rightarrow> Some Equal
      | (Zero, Finite sign _ _) \<Rightarrow> Some (if 0 < sign then Less else Greater)
      | (Finite sign _ _, Zero) \<Rightarrow> Some (if 0 < sign then Greater else Less)
      | (Finite s1 d1 e1, Finite s2 d2 e2) \<Rightarrow>
          Some (if s1 \<noteq> s2 then cmp_of s1 s2
                else let mag = cmp_magnitude d1 e1 d2 e2
                     in if 0 < s1 then mag else reverse_ord mag))"

text \<open>
  \<open>f - t as f64\<close> is exact where the code takes it; IEEE subtraction is zero only for
  equal operands and keeps the sign of the exact difference, which is all that is read.
\<close>

definition cmp_i64_f64 :: "int \<Rightarrow> f64 \<Rightarrow> ordering option" where
  "cmp_i64_f64 i f =
     (if f64_is_nan f then None
      else if f64_is_infinite f \<and> \<not> f64_neg f then Some Less
      else if f64_is_infinite f \<and> f64_neg f then Some Greater
      else if 2 ^ 63 \<le> f64_val f then Some Less
      else if f64_val f < - (2 ^ 63) then Some Greater
      else let t = rat_trunc (f64_val f)
           in Some (case cmp_of i t of
                Equal \<Rightarrow> (let frac = f64_val f - of_int t
                         in if 0 < frac then Less else if frac < 0 then Greater else Equal)
              | other \<Rightarrow> other))"

definition fast_cmp :: "bson \<Rightarrow> bson \<Rightarrow> ordering option option" where
  "fast_cmp a b =
     (case (a, b) of
        (Int32 x, Int32 y) \<Rightarrow> Some (Some (cmp_of (sint x) (sint y)))
      | (Int64 x, Int64 y) \<Rightarrow> Some (Some (cmp_of (sint x) (sint y)))
      | (Int32 x, Int64 y) \<Rightarrow> Some (Some (cmp_of (sint x) (sint y)))
      | (Int64 x, Int32 y) \<Rightarrow> Some (Some (cmp_of (sint x) (sint y)))
      | (Double x, Double y) \<Rightarrow> Some (f64_partial_cmp x y)
      | (Int32 x, Double y) \<Rightarrow> Some (cmp_i64_f64 (sint x) y)
      | (Int64 x, Double y) \<Rightarrow> Some (cmp_i64_f64 (sint x) y)
      | (Double x, Int32 y) \<Rightarrow> Some (map_option reverse_ord (cmp_i64_f64 (sint y) x))
      | (Double x, Int64 y) \<Rightarrow> Some (map_option reverse_ord (cmp_i64_f64 (sint y) x))
      | _ \<Rightarrow> None)"

definition fast_eq :: "bson \<Rightarrow> bson \<Rightarrow> bool option" where
  "fast_eq a b = map_option (\<lambda>r. r = Some Equal) (fast_cmp a b)"

definition widen_bool :: "bson \<Rightarrow> bson option" where
  "widen_bool v = (case v of Boolean x \<Rightarrow> Some (Int32 (if x then 1 else 0)) | _ \<Rightarrow> None)"

definition fast_cmp_numberish :: "bson \<Rightarrow> bson \<Rightarrow> ordering option option" where
  "fast_cmp_numberish a b =
     (case (widen_bool a, widen_bool b) of
        (None, None) \<Rightarrow> fast_cmp a b
      | (Some wa, None) \<Rightarrow> fast_cmp wa b
      | (None, Some wb) \<Rightarrow> fast_cmp a wb
      | (Some wa, Some wb) \<Rightarrow> fast_cmp wa wb)"

text \<open>\<open>query::is_nan_bson\<close> of \<open>secantus-core/src/query.rs\<close>.\<close>

definition is_nan_bson :: "bson \<Rightarrow> bool" where
  "is_nan_bson b =
     (case b of
        Double d \<Rightarrow> f64_is_nan d
      | Decimal128 s \<Rightarrow> ascii_lower s = lit ''nan'' \<or> ascii_lower s = lit ''-nan''
      | _ \<Rightarrow> False)"

section \<open>Digits and values\<close>

text \<open>The fraction \<open>0.d1 d2 ...\<close> a digit string denotes.\<close>

fun frac_val :: "nat list \<Rightarrow> rat" where
  "frac_val [] = 0"
| "frac_val (d # ds) = (of_nat d + frac_val ds) / 10"

definition dec_ok :: "nat list \<Rightarrow> bool" where
  "dec_ok ds \<longleftrightarrow> ds \<noteq> [] \<and> hd ds \<noteq> 0 \<and> last ds \<noteq> 0 \<and> (\<forall>d \<in> set ds. d < 10)"

definition no_trailing_zero :: "nat list \<Rightarrow> bool" where
  "no_trailing_zero ds \<longleftrightarrow> (ds = [] \<or> last ds \<noteq> 0) \<and> (\<forall>d \<in> set ds. d < 10)"

definition mag_val :: "nat list \<Rightarrow> int \<Rightarrow> rat" where
  "mag_val ds e = of_nat (digits_val ds) * 10 powi e"

definition fin_val :: "int \<Rightarrow> nat list \<Rightarrow> int \<Rightarrow> rat" where
  "fin_val sign ds e = of_int sign * mag_val ds e"

lemma frac_val_digits_val: "of_nat (digits_val ds) = frac_val ds * 10 ^ length ds"
  by (induction ds) (simp_all add: field_simps)

lemma frac_val_nonneg: "0 \<le> frac_val ds"
  by (induction ds) auto

lemma frac_val_less_1: "\<forall>d \<in> set ds. d < 10 \<Longrightarrow> frac_val ds < 1"
proof (induction ds)
  case (Cons d ds)
  then have "frac_val ds < 1" "d \<le> 9" by auto
  then have "of_nat d + frac_val ds < (10::rat)"
    using of_nat_mono [of d 9, where ?'a = rat] by simp
  then show ?case by simp
qed simp

lemma frac_val_pos: "ds \<noteq> [] \<Longrightarrow> last ds \<noteq> 0 \<Longrightarrow> 0 < frac_val ds"
proof (induction ds)
  case (Cons d ds)
  show ?case
  proof (cases "ds = []")
    case True
    with Cons.prems show ?thesis by simp
  next
    case False
    then have "0 < frac_val ds" using Cons by simp
    then show ?thesis by (simp add: add_nonneg_pos)
  qed
qed simp

lemma frac_val_hd: "dec_ok ds \<Longrightarrow> 1 / 10 \<le> frac_val ds"
proof (cases ds)
  case (Cons d ds')
  assume "dec_ok ds"
  then have "1 \<le> d" by (simp add: dec_ok_def Cons)
  then have "(1::rat) \<le> of_nat d" by simp
  then have "(1::rat) \<le> of_nat d + frac_val ds'"
    using frac_val_nonneg [of ds'] by (rule add_increasing2 [rotated])
  then show ?thesis by (simp add: Cons)
qed (simp add: dec_ok_def)

text \<open>Digit strings without a trailing zero compare as the fractions they denote.\<close>

lemma cmp_of_frac_val:
  "no_trailing_zero xs \<Longrightarrow> no_trailing_zero ys \<Longrightarrow> cmp_of (frac_val xs) (frac_val ys) = cmp_of xs ys"
proof (induction xs arbitrary: ys)
  case Nil
  then show ?case
    by (cases ys) (auto simp: cmp_of_def no_trailing_zero_def dest: frac_val_pos split: if_splits
        intro: add_nonneg_pos)
next
  case (Cons x xs)
  show ?case
  proof (cases ys)
    case Nil
    then show ?thesis
      using Cons.prems frac_val_pos [of "x # xs"]
      by (auto simp: cmp_of_def no_trailing_zero_def)
  next
    case (Cons y ys')
    have ok: "no_trailing_zero xs" "no_trailing_zero ys'"
      using \<open>no_trailing_zero (x # xs)\<close> \<open>no_trailing_zero ys\<close>
      by (auto simp: no_trailing_zero_def Cons split: if_splits)
    have IH: "cmp_of (frac_val xs) (frac_val ys') = cmp_of xs ys'"
      using Cons.IH ok by blast
    have less: "frac_val xs < 1" "frac_val ys' < 1"
      using ok by (auto simp: no_trailing_zero_def intro: frac_val_less_1)
    have digit: "of_nat a + u < of_nat b + (v::rat)" if "a < b" "u < 1" "0 \<le> v" for a b :: nat and u v
    proof -
      have "of_nat a + 1 \<le> (of_nat b :: rat)" using that(1) by (metis Suc_leI of_nat_Suc of_nat_mono add.commute)
      then show ?thesis using that by linarith
    qed
    show ?thesis
    proof (cases x y rule: linorder_cases)
      case less
      then show ?thesis
        using digit [of x y "frac_val xs" "frac_val ys'"] less frac_val_nonneg \<open>frac_val xs < 1\<close>
        by (simp add: Cons cmp_of_def divide_strict_right_mono)
    next
      case greater
      then show ?thesis
        using digit [of y x "frac_val ys'" "frac_val xs"] frac_val_nonneg \<open>frac_val ys' < 1\<close>
        by (simp add: Cons cmp_of_def divide_strict_right_mono)
    next
      case equal
      have "cmp_of (frac_val (x # xs)) (frac_val ys) = cmp_of (frac_val xs) (frac_val ys')"
        by (rule cmp_of_eqI) (simp_all add: equal Cons divide_less_cancel)
      then show ?thesis by (simp add: IH Cons equal)
    qed
  qed
qed

lemma dec_ok_no_trailing_zero: "dec_ok ds \<Longrightarrow> no_trailing_zero ds"
  by (simp add: dec_ok_def no_trailing_zero_def)

lemma mag_val_frac: "mag_val ds e = frac_val ds * 10 powi (e + int (length ds))"
  by (simp add: mag_val_def frac_val_digits_val power_int_add)

lemma mag_val_bounds:
  assumes "dec_ok ds"
  shows "10 powi (e + int (length ds) - 1) \<le> mag_val ds e"
    and "mag_val ds e < 10 powi (e + int (length ds))"
proof -
  let ?p = "10 powi (e + int (length ds)) :: rat"
  have p: "0 < ?p" by simp
  have "10 powi (e + int (length ds) - 1) = 1 / 10 * ?p"
    by (simp add: power_int_diff)
  also have "\<dots> \<le> frac_val ds * ?p"
    using frac_val_hd [OF assms] p by (intro mult_right_mono) auto
  finally show "10 powi (e + int (length ds) - 1) \<le> mag_val ds e"
    by (simp only: mag_val_frac)
  have "frac_val ds < 1" using assms by (simp add: dec_ok_def frac_val_less_1)
  then have "frac_val ds * ?p < 1 * ?p" using p by (rule mult_strict_right_mono)
  then show "mag_val ds e < ?p"
    by (simp only: mag_val_frac mult_1)
qed

lemma cmp_of_mult_pos:
  fixes a b c :: rat
  assumes "0 < c" shows "cmp_of (a * c) (b * c) = cmp_of a b"
  using assms by (intro cmp_of_eqI) simp_all

lemma magnitude_less:
  assumes "dec_ok d1" "dec_ok d2" "e1 + int (length d1) < e2 + int (length d2)"
  shows "mag_val d1 e1 < mag_val d2 e2"
proof -
  have "mag_val d1 e1 < 10 powi (e1 + int (length d1))"
    using assms(1) by (rule mag_val_bounds)
  also have "\<dots> \<le> 10 powi (e2 + int (length d2) - 1)"
    using assms(3) by (intro power_int_increasing) auto
  also have "\<dots> \<le> mag_val d2 e2"
    using assms(2) by (rule mag_val_bounds)
  finally show ?thesis .
qed

lemma cmp_magnitude_val:
  assumes "dec_ok d1" "dec_ok d2"
  shows "cmp_magnitude d1 e1 d2 e2
       = cmp_of (mag_val d1 e1) (mag_val d2 e2)"
proof (cases "e1 + int (length d1)" "e2 + int (length d2)" rule: linorder_cases)
  case less
  with magnitude_less [OF assms less] show ?thesis
    by (simp add: cmp_magnitude_def cmp_of_def Let_def)
next
  case greater
  with magnitude_less [OF assms(2,1) greater] show ?thesis
    by (simp add: cmp_magnitude_def cmp_of_def Let_def)
next
  case equal
  then have "cmp_magnitude d1 e1 d2 e2 = cmp_of d1 d2"
    by (simp add: cmp_magnitude_def Let_def)
  also have "\<dots> = cmp_of (frac_val d1) (frac_val d2)"
    using assms by (simp add: cmp_of_frac_val dec_ok_no_trailing_zero)
  also have "\<dots> = cmp_of (mag_val d1 e1) (mag_val d2 e2)"
    unfolding mag_val_frac equal by (rule cmp_of_mult_pos [symmetric]) simp
  finally show ?thesis .
qed

section \<open>Normalisation\<close>

lemma drop_leading_spec:
  "\<exists>n. ds = replicate n 0 @ drop_leading ds \<and> (drop_leading ds = [] \<or> hd (drop_leading ds) \<noteq> 0)"
proof (induction ds)
  case (Cons d ds)
  then obtain n where n: "ds = replicate n 0 @ drop_leading ds"
      "drop_leading ds = [] \<or> hd (drop_leading ds) \<noteq> 0" by blast
  show ?case
  proof (cases "d = 0")
    case True
    with n show ?thesis by (intro exI [of _ "Suc n"]) auto
  next
    case False
    then show ?thesis by (intro exI [of _ 0]) auto
  qed
qed simp

lemma drop_trailing_spec:
  assumes "drop_trailing ds e = (ds', e')"
  shows "\<exists>n. ds = ds' @ replicate n 0 \<and> e' = e + int n \<and> (ds' = [] \<or> last ds' \<noteq> 0)"
  using assms
proof (induction ds e rule: drop_trailing.induct)
  case (1 ds e)
  show ?case
  proof (cases "ds \<noteq> [] \<and> last ds = 0")
    case True
    with "1.prems" have "drop_trailing (butlast ds) (e + 1) = (ds', e')"
      by (simp add: drop_trailing.simps [of ds])
    with "1.IH" True obtain n where n: "butlast ds = ds' @ replicate n 0" "e' = e + 1 + int n"
        "ds' = [] \<or> last ds' \<noteq> 0" by blast
    have "ds = butlast ds @ [0]" using True by (metis append_butlast_last_id)
    with n show ?thesis by (intro exI [of _ "Suc n"]) (simp add: replicate_append_same)
  next
    case False
    with "1.prems" show ?thesis
      by (intro exI [of _ 0]) (auto simp: drop_trailing.simps [of ds])
  qed
qed

lemma digits_val_zeros: "digits_val (replicate n 0 @ ds) = digits_val ds"
  by (induction n) auto

lemma digits_val_trailing: "digits_val (ds @ replicate n 0) = digits_val ds * 10 ^ n"
  using digits_val_zeros [of n "[]"] by (simp add: digits_val_append)

lemma normalize_dec_spec:
  assumes n: "normalize_dec ds e = (ds', e')" and d10: "\<forall>d \<in> set ds. d < 10"
  shows "mag_val ds' e' = mag_val ds e"
    and "ds' \<noteq> [] \<Longrightarrow> dec_ok ds'"
    and "ds' = [] \<longleftrightarrow> digits_val ds = 0"
proof -
  let ?m = "drop_leading ds"
  obtain k where k: "ds = replicate k 0 @ ?m" "?m = [] \<or> hd ?m \<noteq> 0"
    using drop_leading_spec by blast
  obtain j where j: "?m = ds' @ replicate j 0" "e' = e + int j" "ds' = [] \<or> last ds' \<noteq> 0"
    using drop_trailing_spec n unfolding normalize_dec_def by blast
  have v: "digits_val ds = digits_val ds' * 10 ^ j"
    by (metis digits_val_trailing digits_val_zeros j(1) k(1))
  then show "mag_val ds' e' = mag_val ds e"
    by (simp add: mag_val_def j(2) power_int_add)
  have d: "\<forall>d \<in> set ds'. d < 10"
    using d10 by (metis UnI1 UnI2 j(1) k(1) set_append)
  show ok: "dec_ok ds'" if "ds' \<noteq> []"
    using that d j k(2) by (auto simp: dec_ok_def)
  show "ds' = [] \<longleftrightarrow> digits_val ds = 0"
  proof
    assume "digits_val ds = 0"
    then have "digits_val ds' = 0" by (simp add: v)
    then have "frac_val ds' = 0" using frac_val_digits_val [of ds'] by simp
    then show "ds' = []" using frac_val_pos [of ds'] j(3) by auto
  qed (simp add: v)
qed

section \<open>Limb arithmetic\<close>

fun limbs_val :: "nat list \<Rightarrow> nat" where
  "limbs_val [] = 0"
| "limbs_val (l # ls) = l + LIMB * limbs_val ls"

definition limbs_ok :: "nat list \<Rightarrow> bool" where
  "limbs_ok ls \<longleftrightarrow> ls \<noteq> [] \<and> (\<forall>l \<in> set ls. l < LIMB)"

lemma LIMB_pos [simp]: "0 < LIMB"
  by (simp add: LIMB_def)

lemma push_carry_spec: "limbs_val (push_carry c) = c \<and> (\<forall>l \<in> set (push_carry c). l < LIMB)"
proof (induction c rule: push_carry.induct)
  case (1 c)
  show ?case
  proof (cases "0 < c")
    case True
    with 1 have IH: "limbs_val (push_carry (c div LIMB)) = c div LIMB"
        "\<forall>l \<in> set (push_carry (c div LIMB)). l < LIMB" by auto
    have "push_carry c = c mod LIMB # push_carry (c div LIMB)"
      using True by (simp add: push_carry.simps [of c])
    with IH show ?thesis by simp
  qed (simp add: push_carry.simps [of 0])
qed

lemma limbs_val_mul_limbs: "limbs_val (mul_limbs ls k c) = limbs_val ls * k + c"
proof (induction ls k c rule: mul_limbs.induct)
  case (2 l ls k c)
  let ?v = "l * k + c"
  have "limbs_val (mul_limbs (l # ls) k c) = ?v mod LIMB + LIMB * (limbs_val ls * k + ?v div LIMB)"
    using 2 by (simp add: Let_def)
  also have "\<dots> = LIMB * (?v div LIMB) + ?v mod LIMB + LIMB * limbs_val ls * k"
    by (simp add: algebra_simps)
  also have "\<dots> = ?v + LIMB * limbs_val ls * k" by simp
  finally show ?case by (simp add: algebra_simps)
qed (simp add: push_carry_spec)

lemma limbs_ok_mul_limbs:
  assumes "limbs_ok ls" shows "limbs_ok (mul_limbs ls k c)"
proof -
  have "\<forall>l \<in> set (mul_limbs ls k c). l < LIMB"
    by (induction ls k c rule: mul_limbs.induct) (auto simp: Let_def push_carry_spec)
  moreover have "mul_limbs ls k c \<noteq> []"
    using assms by (cases ls) (auto simp: limbs_ok_def Let_def)
  ultimately show ?thesis by (simp add: limbs_ok_def)
qed

lemma shl_loop_spec:
  "limbs_ok ls \<Longrightarrow> limbs_val (shl_loop n ls) = limbs_val ls * 2 ^ n \<and> limbs_ok (shl_loop n ls)"
proof (induction n ls rule: shl_loop.induct)
  case (1 n ls)
  show ?case
  proof (cases "0 < n")
    case True
    let ?s = "min n 29"
    have IH: "limbs_val (shl_loop (n - ?s) (mul_limbs ls (2 ^ ?s) 0))
          = limbs_val (mul_limbs ls (2 ^ ?s) 0) * 2 ^ (n - ?s)
        \<and> limbs_ok (shl_loop (n - ?s) (mul_limbs ls (2 ^ ?s) 0))"
      using 1 True limbs_ok_mul_limbs by blast
    moreover have "(2::nat) ^ ?s * 2 ^ (n - ?s) = 2 ^ n"
      by (simp flip: power_add)
    ultimately show ?thesis using True
      by (simp add: shl_loop.simps [of n ls] Let_def limbs_val_mul_limbs mult.assoc)
  qed (use 1 in \<open>simp add: shl_loop.simps [of 0 ls]\<close>)
qed

lemma pow5_loop_spec:
  "limbs_ok ls \<Longrightarrow> limbs_val (pow5_loop n ls) = limbs_val ls * 5 ^ n \<and> limbs_ok (pow5_loop n ls)"
proof (induction n ls rule: pow5_loop.induct)
  case (1 n ls)
  show ?case
  proof (cases "0 < n")
    case True
    let ?s = "min n 13"
    have IH: "limbs_val (pow5_loop (n - ?s) (mul_limbs ls (5 ^ ?s) 0))
          = limbs_val (mul_limbs ls (5 ^ ?s) 0) * 5 ^ (n - ?s)
        \<and> limbs_ok (pow5_loop (n - ?s) (mul_limbs ls (5 ^ ?s) 0))"
      using 1 True limbs_ok_mul_limbs by blast
    moreover have "(5::nat) ^ ?s * 5 ^ (n - ?s) = 5 ^ n"
      by (simp flip: power_add)
    ultimately show ?thesis using True
      by (simp add: pow5_loop.simps [of n ls] Let_def limbs_val_mul_limbs mult.assoc)
  qed (use 1 in \<open>simp add: pow5_loop.simps [of 0 ls]\<close>)
qed

lemma limbs_val_append: "limbs_val (xs @ ys) = limbs_val xs + LIMB ^ length xs * limbs_val ys"
  by (induction xs) (simp_all add: algebra_simps)

lemma pop_zero_limbs_spec:
  "limbs_ok ls \<Longrightarrow> limbs_val (pop_zero_limbs ls) = limbs_val ls \<and> limbs_ok (pop_zero_limbs ls)"
proof (induction ls rule: pop_zero_limbs.induct)
  case (1 ls)
  show ?case
  proof (cases "1 < length ls \<and> last ls = 0")
    case True
    then have ls: "ls = butlast ls @ [0]" by (metis append_butlast_last_id length_0_conv not_less_zero)
    then have "limbs_val ls = limbs_val (butlast ls @ [0])" by simp
    then have "limbs_val ls = limbs_val (butlast ls)" by (simp only: limbs_val_append) simp
    moreover have "limbs_ok (butlast ls)"
      using "1.prems" True by (cases ls rule: rev_cases) (auto simp: limbs_ok_def)
    ultimately show ?thesis using 1 True by (simp add: pop_zero_limbs.simps [of ls])
  next
    case False
    then have "pop_zero_limbs ls = ls" by (subst pop_zero_limbs.simps) auto
    with "1.prems" show ?thesis by simp
  qed
qed

text \<open>No intermediate product leaves a \<open>u64\<close>.\<close>

lemma mul_limb_no_overflow:
  assumes "l < LIMB" "k \<le> 5 ^ 13" "c < k"
  shows "l * k + c < 2 ^ 64" and "(l * k + c) div LIMB < k"
proof -
  have "l * k + c < (l + 1) * k" using assms(3) by simp
  also have "\<dots> \<le> LIMB * k" using assms(1) by (intro mult_right_mono) auto
  finally have b: "l * k + c < LIMB * k" .
  then show "(l * k + c) div LIMB < k" by (simp add: less_mult_imp_div_less mult.commute)
  have "LIMB * k \<le> LIMB * 5 ^ 13" using assms(2) by (intro mult_left_mono) auto
  also have "\<dots> < 2 ^ 64" by (simp add: LIMB_def)
  finally show "l * k + c < 2 ^ 64" using b by linarith
qed

section \<open>Digits of limbs\<close>

lemma length_nat_digits_LIMB: "l < LIMB \<Longrightarrow> length (nat_digits l) \<le> 9"
proof (rule ccontr)
  assume l: "l < LIMB" and "\<not> length (nat_digits l) \<le> 9"
  then have len: "9 \<le> length (nat_digits l) - 1" by simp
  obtain d ds where ds: "nat_digits l = d # ds"
    by (cases "nat_digits l") (use nat_digits_nonempty in blast)+
  have "0 < l" using l len by (cases "l = 0") (auto simp: nat_digits.simps [of 0])
  then have "1 \<le> d" using hd_nat_digits [of l] ds by simp
  have "(10::nat) ^ 9 \<le> 10 ^ length ds" using len ds by (intro power_increasing) auto
  also have "\<dots> \<le> d * 10 ^ length ds + digits_val ds" using \<open>1 \<le> d\<close> by (simp add: trans_le_add1)
  also have "\<dots> = l" using digits_val_nat_digits [of l] ds by simp
  finally show False using l by (simp add: LIMB_def)
qed

lemma pad9_spec:
  assumes "l < LIMB"
  shows "length (pad9 l) = 9" "digits_val (pad9 l) = l" "d \<in> set (pad9 l) \<Longrightarrow> d < 10"
  using length_nat_digits_LIMB [OF assms] nat_digits_less [of d l]
  by (auto simp: pad9_def digits_val_zeros)

lemma digits_val_concat_pad9:
  "\<forall>l \<in> set ls. l < LIMB \<Longrightarrow> digits_val (xs @ concat (map pad9 ls))
     = digits_val xs * LIMB ^ length ls + limbs_val (rev ls)"
proof (induction ls arbitrary: xs)
  case (Cons l ls)
  have "digits_val (xs @ concat (map pad9 (l # ls)))
      = digits_val (xs @ pad9 l) * LIMB ^ length ls + limbs_val (rev ls)"
    using Cons.IH [of "xs @ pad9 l"] Cons.prems by simp
  also have "digits_val (xs @ pad9 l) = digits_val xs * LIMB + l"
    using Cons.prems pad9_spec [of l] by (simp add: digits_val_append LIMB_def)
  finally show ?case by (simp add: limbs_val_append algebra_simps)
qed simp

lemma limbs_digits_spec:
  assumes "limbs_ok ls"
  shows "digits_val (limbs_digits ls) = limbs_val ls" "\<forall>d \<in> set (limbs_digits ls). d < 10"
proof -
  obtain l ls' where r: "rev ls = l # ls'"
    using assms by (cases "rev ls") (auto simp: limbs_ok_def)
  have ls: "ls = rev ls' @ [l]" using r by (metis rev_rev_ident rev.simps(2))
  have ok: "\<forall>l \<in> set ls'. l < LIMB" using assms by (simp add: ls limbs_ok_def)
  show "digits_val (limbs_digits ls) = limbs_val ls"
    using digits_val_concat_pad9 [OF ok, of "nat_digits l"]
    by (simp add: limbs_digits_def r ls limbs_val_append algebra_simps)
  show "\<forall>d \<in> set (limbs_digits ls). d < 10"
    using ok nat_digits_less [of _ l] pad9_spec(3) by (auto simp: limbs_digits_def r)
qed

section \<open>The exact value of a double\<close>

lemma trailing_zeros_dvd: "m \<noteq> 0 \<Longrightarrow> 2 ^ trailing_zeros m dvd m"
proof (induction m rule: trailing_zeros.induct)
  case (1 m)
  show ?case
  proof (cases "odd m")
    case False
    then have "m div 2 \<noteq> 0" using "1.prems" by (metis dvd_div_eq_0_iff)
    then have "2 ^ trailing_zeros (m div 2) dvd m div 2" using 1 False by blast
    then have "2 * 2 ^ trailing_zeros (m div 2) dvd 2 * (m div 2)" by (rule mult_dvd_mono [OF dvd_refl])
    with False "1.prems" show ?thesis by (simp add: trailing_zeros.simps [of m])
  qed (use "1.prems" in \<open>simp add: trailing_zeros.simps [of m]\<close>)
qed

lemma drop_bit_top: "drop_bit 63 (d :: f64) = of_bool (bit d 63)"
proof (rule bit_word_eqI)
  fix n assume "n < LENGTH(64)"
  show "bit (drop_bit 63 d) n = bit (of_bool (bit d 63) :: f64) n"
    using bit_imp_le_length [of d "63 + n"]
    by (cases "n = 0") (auto simp: bit_drop_bit_eq bit_of_bool_iff)
qed

lemma bits_sign: "drop_bit 63 (d :: f64) = 1 \<longleftrightarrow> f64_neg d"
  by (simp add: drop_bit_top f64_neg_def)

lemma bits_raw_exp: "unat (drop_bit 52 (d :: f64) AND 0x7FF) = f64_raw_exp d"
  by (simp add: f64_raw_exp_def take_bit_eq_mask mask_numeral)

lemma bits_frac: "(d :: f64) AND (push_bit 52 1 - 1) = take_bit 52 d"
  by (simp add: take_bit_eq_mask mask_eq_exp_minus_1)

lemma bits_hidden: "unat (take_bit 52 (d :: f64) OR push_bit 52 1) = f64_frac d + 2 ^ 52"
proof -
  have "take_bit k d AND push_bit k (1 :: f64) = 0" for k
    by (rule bit_word_eqI) (simp add: bit_simps)
  then have "take_bit 52 d OR push_bit 52 1 = take_bit 52 d + push_bit 52 (1 :: f64)"
    by (metis disjunctive_add_eq_or)
  then have "unat (take_bit 52 d OR push_bit 52 1) = unat (take_bit 52 d) + unat (push_bit 52 (1 :: f64))"
    using f64_frac_less [of d] by (simp add: unat_word_ariths f64_frac_def)
  then show ?thesis by (simp add: f64_frac_def)
qed

lemma split_limbs_spec:
  assumes "m < 2 ^ 53"
  shows "limbs_val (pop_zero_limbs [m mod LIMB, m div LIMB mod LIMB, m div (LIMB * LIMB)]) = m"
    and "limbs_ok (pop_zero_limbs [m mod LIMB, m div LIMB mod LIMB, m div (LIMB * LIMB)])"
proof -
  let ?ls = "[m mod LIMB, m div LIMB mod LIMB, m div (LIMB * LIMB)]"
  have "m div (LIMB * LIMB) = 0" using assms by (simp add: LIMB_def)
  then have ok: "limbs_ok ?ls" by (simp add: limbs_ok_def)
  have "limbs_val ?ls = m mod LIMB + LIMB * (m div LIMB)" by (simp add: div_mult2_eq)
  with pop_zero_limbs_spec [OF ok] show "limbs_val (pop_zero_limbs ?ls) = m" "limbs_ok (pop_zero_limbs ?ls)"
    by simp_all
qed

text \<open>Scaling the significand by \<open>2^e\<close>, or by \<open>5^-e\<close> with the power of ten \<open>e\<close>.\<close>

lemma scale_limbs_spec:
  fixes e :: int
  assumes "limbs_ok limbs"
  defines "r \<equiv> (if 0 \<le> e then (shl_loop (nat e) limbs, 0) else (pow5_loop (nat (- e)) limbs, e))"
  shows "of_nat (limbs_val (fst r)) * 10 powi snd r = (of_nat (limbs_val limbs) * 2 powi e :: rat)"
    and "limbs_ok (fst r)"
proof -
  show "limbs_ok (fst r)"
    using shl_loop_spec [OF assms(1)] pow5_loop_spec [OF assms(1)] by (simp add: r_def)
  show "of_nat (limbs_val (fst r)) * 10 powi snd r = (of_nat (limbs_val limbs) * 2 powi e :: rat)"
  proof (cases "0 \<le> e")
    case True
    then show ?thesis
      using shl_loop_spec [OF assms(1), of "nat e"] by (simp add: r_def power_int_def)
  next
    case False
    have "(5::rat) ^ nat (- e) * 10 powi e = 2 powi e"
      using False by (simp add: power_int_def field_simps flip: power_mult_distrib)
    with False show ?thesis
      using pow5_loop_spec [OF assms(1), of "nat (- e)"] by (simp add: r_def mult.assoc)
  qed
qed

lemma exact_f64_parts_eq:
  "exact_f64_parts d =
     (let tz = trailing_zeros (f64_mant d);
          m = f64_mant d div 2 ^ tz;
          e = f64_exp d + int tz;
          limbs = pop_zero_limbs [m mod LIMB, m div LIMB mod LIMB, m div (LIMB * LIMB)];
          r = (if 0 \<le> e then (shl_loop (nat e) limbs, 0) else (pow5_loop (nat (- e)) limbs, e));
          p = normalize_dec (limbs_digits (fst r)) (snd r)
      in (if f64_neg d then -1 else 1, fst p, snd p))"
  unfolding exact_f64_parts_def Let_def case_prod_beta bits_sign bits_raw_exp bits_frac
    f64_mant_def f64_exp_def f64_frac_def [symmetric] bits_hidden
  by (cases "f64_raw_exp d = 0") (simp_all only: of_nat_eq_0_iff if_True if_False fst_conv snd_conv simp_thms)

lemma exact_f64_parts_spec:
  assumes "f64_is_finite d" "\<not> f64_is_zero d" "exact_f64_parts d = (sign, digits, ex)"
  shows "fin_val sign digits ex = f64_val d" and "dec_ok digits"
    and "sign = (if f64_neg d then -1 else 1)"
proof -
  let ?m0 = "f64_mant d" and ?e0 = "f64_exp d"
  define tz where "tz = trailing_zeros ?m0"
  define m where "m = ?m0 div 2 ^ tz"
  define e where "e = ?e0 + int tz"
  define limbs where "limbs = pop_zero_limbs [m mod LIMB, m div LIMB mod LIMB, m div (LIMB * LIMB)]"
  define r where "r = (if 0 \<le> e then (shl_loop (nat e) limbs, 0) else (pow5_loop (nat (- e)) limbs, e))"
  have pos: "0 < ?m0" using assms(2) by (rule f64_mant_pos)
  have m0: "?m0 = m * 2 ^ tz"
    using trailing_zeros_dvd [of ?m0] pos by (simp add: m_def tz_def)
  have mpos: "0 < m" using m0 pos by (cases m) auto
  have "m < 2 ^ 53" using f64_mant_less [of d] by (metis div_le_dividend le_less_trans m_def)
  then have lim: "limbs_val limbs = m" "limbs_ok limbs"
    unfolding limbs_def by (rule split_limbs_spec)+
  have rv: "of_nat (limbs_val (fst r)) * 10 powi snd r = (of_nat m * 2 powi e :: rat)"
    and rok: "limbs_ok (fst r)"
    using scale_limbs_spec [OF lim(2), of e] lim(1) by (simp_all add: r_def)
  define p where "p = normalize_dec (limbs_digits (fst r)) (snd r)"
  have "exact_f64_parts d = (if f64_neg d then -1 else 1, fst p, snd p)"
    unfolding exact_f64_parts_eq p_def r_def limbs_def e_def m_def tz_def Let_def by (rule refl)
  with assms(3) have sg: "sign = (if f64_neg d then -1 else 1)" and "p = (digits, ex)"
    by (cases p; simp)+
  then have n: "normalize_dec (limbs_digits (fst r)) (snd r) = (digits, ex)" by (simp add: p_def)
  note ns = normalize_dec_spec [OF n limbs_digits_spec(2) [OF rok]]
  have v: "mag_val digits ex = (of_nat m * 2 powi e :: rat)"
    using ns(1) rv by (simp add: mag_val_def limbs_digits_spec(1) [OF rok])
  have "of_nat m * 2 powi e = (of_nat ?m0 * 2 powi ?e0 :: rat)"
    by (simp add: m0 e_def power_int_add)
  with v show "fin_val sign digits ex = f64_val d"
    by (simp add: fin_val_def f64_val_def sg)
  have "0 < (of_nat m * 2 powi e :: rat)" using mpos by simp
  then have "0 < mag_val digits ex" by (simp add: v)
  then have "digits \<noteq> []" by (auto simp: mag_val_def)
  then show "dec_ok digits" by (rule ns(2))
  show "sign = (if f64_neg d then -1 else 1)" by (rule sg)
qed

section \<open>Comparison by exact value\<close>

definition nv_ext :: "num_val \<Rightarrow> int \<times> rat" where
  "nv_ext v =
     (case v of Nan \<Rightarrow> (0, 0) | Inf s \<Rightarrow> (s, 0) | Zero \<Rightarrow> (0, 0)
      | Finite sign ds e \<Rightarrow> (0, fin_val sign ds e))"

definition nv_ok :: "num_val \<Rightarrow> bool" where
  "nv_ok v =
     (case v of Nan \<Rightarrow> True | Inf s \<Rightarrow> s = 1 \<or> s = -1 | Zero \<Rightarrow> True
      | Finite sign ds e \<Rightarrow> (sign = 1 \<or> sign = -1) \<and> dec_ok ds)"

lemma mag_val_pos: "dec_ok ds \<Longrightarrow> 0 < mag_val ds e"
  using mag_val_bounds(1) [of ds e] by (metis less_le_trans zero_less_numeral zero_less_power_int)

lemma cmp_of_uminus: "cmp_of (- a) (- b :: 'a::linordered_idom) = cmp_of b a"
  by (simp add: cmp_of_def)

lemma cmp_num_val:
  assumes "nv_ok a" "nv_ok b" "a \<noteq> Nan" "b \<noteq> Nan"
  shows "cmp_num a b = Some (ext_cmp (nv_ext a) (nv_ext b))"
  using assms mag_val_pos [of "nv_digits a" "nv_exp a"] mag_val_pos [of "nv_digits b" "nv_exp b"]
  by (cases a; cases b)
     (auto simp: cmp_num_def nv_ext_def nv_ok_def ext_cmp_def fin_val_def cmp_magnitude_val cmp_of_uminus
        reverse_ord_cmp_of cmp_of_def)

lemma nv_ok_from_int: "nv_ok (from_int n)" and nv_ext_from_int: "nv_ext (from_int n) = (0, of_int n)"
  and from_int_not_Nan: "from_int n \<noteq> Nan"
proof -
  let ?mag = "nat (if n < 0 then - n else n)"
  obtain ds e where n: "normalize_dec (nat_digits ?mag) 0 = (ds, e)" by force
  note ns = normalize_dec_spec [OF n] 
  have "nv_ok (from_int n) \<and> nv_ext (from_int n) = (0, of_int n)"
  proof (cases "n = 0")
    case False
    then have "ds \<noteq> []" using ns(3) nat_digits_less by simp
    then have "dec_ok ds" using ns(2) nat_digits_less by blast
    moreover have "mag_val ds e = of_nat ?mag"
      using ns(1) nat_digits_less by (simp add: mag_val_def)
    ultimately show ?thesis
      using False n by (simp add: from_int_def Let_def nv_ok_def nv_ext_def fin_val_def)
  qed (simp add: from_int_def nv_ok_def nv_ext_def)
  then show "nv_ok (from_int n)" "nv_ext (from_int n) = (0, of_int n)" by simp_all
  show "from_int n \<noteq> Nan" by (auto simp: from_int_def Let_def split: prod.splits)
qed

lemma from_f64_Nan_iff: "from_f64 d = Nan \<longleftrightarrow> f64_is_nan d"
  by (auto simp: from_f64_def split: prod.splits)

lemma nv_ok_from_f64: "nv_ok (from_f64 d)"
  and nv_ext_from_f64: "\<not> f64_is_nan d \<Longrightarrow> nv_ext (from_f64 d) = f64_ext d"
proof -
  obtain sign digits ex where p: "exact_f64_parts d = (sign, digits, ex)" by (metis prod_cases3)
  have "nv_ok (from_f64 d) \<and> (\<not> f64_is_nan d \<longrightarrow> nv_ext (from_f64 d) = f64_ext d)"
  proof (cases "f64_is_finite d \<and> \<not> f64_is_zero d")
    case True
    note sp = exact_f64_parts_spec [OF conjunct1 [OF True] conjunct2 [OF True] p]
    from True sp show ?thesis
      by (auto simp: from_f64_def p nv_ok_def nv_ext_def f64_ext_def f64_kinds(3))
  next
    case False
    then show ?thesis
      using f64_val_zero_iff [of d]
      by (auto simp: from_f64_def f64_kinds(3) f64_zero_finite nv_ok_def nv_ext_def f64_ext_def
          split: prod.splits)
  qed
  then show "nv_ok (from_f64 d)" "\<not> f64_is_nan d \<Longrightarrow> nv_ext (from_f64 d) = f64_ext d" by simp_all
qed

lemma filter_digits_less: "d \<in> set (filter_digits s) \<Longrightarrow> d < 10"
proof (induction s)
  case (Cons b s)
  have "digit_of b < 10" if "is_ascii_digit b"
    using that by (auto simp: is_ascii_digit_def digit_of_def word_le_nat_alt)
  with Cons show ?case by (auto simp: to_digit_def split: if_splits)
qed simp

lemma split_decimal_sign: "split_decimal s = (sign, i, f, e) \<Longrightarrow> sign = 1 \<or> sign = -1"
  by (auto simp: split_decimal_def Let_def split: option.splits prod.splits)

lemma nv_ok_normalized:
  assumes "sign = 1 \<or> sign = -1" "normalize_dec (filter_digits t) e0 = (digits, ex)"
  shows "nv_ok (if digits = [] then Zero else Finite sign digits ex)"
  using normalize_dec_spec(2) [OF assms(2)] filter_digits_less assms(1) by (auto simp: nv_ok_def)

lemma nv_ok_from_decimal_str: "nv_ok (from_decimal_str s)"
proof -
  obtain sign i f e where p: "split_decimal (trim s) = (sign, i, f, e)" by (metis prod_cases4)
  define x where "x = (case e of Some t \<Rightarrow> (case parse_i64 t of Some x \<Rightarrow> x | None \<Rightarrow> 0) | None \<Rightarrow> 0)"
  obtain digits ex where n: "normalize_dec (filter_digits (i @ f)) (x - int (length f)) = (digits, ex)"
    by force
  have "nv_ok (if digits = [] then Zero else Finite sign digits ex)"
    using split_decimal_sign [OF p] n by (rule nv_ok_normalized)
  then show ?thesis
    using p n by (simp add: from_decimal_str_def Let_def x_def nv_ok_def [of Nan] nv_ok_def [of "Inf _"])
qed

lemma nv_ok_classify: "classify v = Some nv \<Longrightarrow> nv_ok nv"
  by (auto simp: classify_def nv_ok_from_int nv_ok_from_f64 nv_ok_from_decimal_str split: bson.splits)

section \<open>The fast path\<close>

lemma cmp_trunc:
  fixes v :: rat
  shows "(case cmp_of i (rat_trunc v) of
            Equal \<Rightarrow> (let frac = v - of_int (rat_trunc v)
                     in if 0 < frac then Less else if frac < 0 then Greater else Equal)
          | other \<Rightarrow> other) = cmp_of (of_int i) v"
proof (cases i "rat_trunc v" rule: linorder_cases)
  case less
  then have "of_int i < v"
    by (simp add: rat_trunc_def less_ceiling_iff split: if_splits) linarith
  with less show ?thesis by (simp add: cmp_of_def)
next
  case greater
  then have "v < of_int i"
    by (simp add: rat_trunc_def floor_less_iff split: if_splits) linarith
  with greater show ?thesis by (simp add: cmp_of_def)
qed (auto simp: cmp_of_def Let_def)

lemma cmp_i64_f64_val:
  assumes "- (2 ^ 63) \<le> i" "i < 2 ^ 63" "\<not> f64_is_nan f"
  shows "cmp_i64_f64 i f = Some (ext_cmp (0, of_int i) (f64_ext f))"
proof -
  consider "f64_is_infinite f" | "f64_is_finite f" "2 ^ 63 \<le> f64_val f"
    | "f64_is_finite f" "f64_val f < - (2 ^ 63)"
    | "f64_is_finite f" "f64_val f < 2 ^ 63" "- (2 ^ 63) \<le> f64_val f"
    using assms(3) f64_kinds(1) [of f] by linarith
  then show ?thesis
  proof cases
    case 1
    with assms(3) show ?thesis by (auto simp: cmp_i64_f64_def f64_ext_def ext_cmp_def cmp_of_def)
  next
    case 2
    have "of_int i < (2 ^ 63 :: rat)" using assms(2) by (metis of_int_less_iff of_int_numeral of_int_power)
    with 2 have "of_int i < f64_val f" by linarith
    with 2 assms(3) show ?thesis by (simp add: cmp_i64_f64_def f64_ext_def ext_cmp_def cmp_of_def f64_kinds(3))
  next
    case 3
    have "- (2 ^ 63 :: rat) \<le> of_int i" using assms(1) by (metis of_int_le_iff of_int_minus of_int_numeral of_int_power)
    with 3 have "f64_val f < of_int i" by linarith
    with 3 assms(3) show ?thesis by (simp add: cmp_i64_f64_def f64_ext_def ext_cmp_def cmp_of_def f64_kinds(3))
  next
    case 4
    then have "cmp_i64_f64 i f = Some (cmp_of (of_int i) (f64_val f))"
      by (simp only: cmp_trunc cmp_i64_f64_def f64_kinds(3) not_less [symmetric] if_False simp_thms Let_def [of "rat_trunc _"])
    with 4 show ?thesis by (simp add: f64_ext_def ext_cmp_def f64_kinds(3))
  qed
qed

lemma sint_i32_bounds: "- (2 ^ 63) \<le> sint (x :: i32)" "sint (x :: i32) < 2 ^ 63"
  using sint_greater_eq [of x] sint_less [of x] by simp_all

lemma sint_i64_bounds: "- (2 ^ 63) \<le> sint (x :: i64)" "sint (x :: i64) < 2 ^ 63"
  using sint_greater_eq [of x] sint_less [of x] by simp_all

lemma cmp_num_from_int: "cmp_num (from_int x) (from_int y) = Some (cmp_of x y)"
proof -
  have "cmp_of (of_int x :: rat) (of_int y) = cmp_of x y" by (rule cmp_of_strict_mono) simp
  then show ?thesis
    by (simp add: cmp_num_val nv_ok_from_int from_int_not_Nan nv_ext_from_int ext_cmp_def)
qed

lemma cmp_num_Nan: "cmp_num Nan v = None" "cmp_num v Nan = None"
  by (auto simp: cmp_num_def split: num_val.splits)

lemma cmp_num_from_int_f64:
  assumes "- (2 ^ 63) \<le> i" "i < 2 ^ 63"
  shows "cmp_num (from_int i) (from_f64 f) = cmp_i64_f64 i f"
    and "cmp_num (from_f64 f) (from_int i) = map_option reverse_ord (cmp_i64_f64 i f)"
proof -
  have "cmp_num (from_int i) (from_f64 f) = cmp_i64_f64 i f \<and>
      cmp_num (from_f64 f) (from_int i) = map_option reverse_ord (cmp_i64_f64 i f)"
  proof (cases "f64_is_nan f")
    case True
    then show ?thesis by (simp add: from_f64_def cmp_i64_f64_def cmp_num_Nan)
  next
    case False
    with assms show ?thesis
      by (simp add: cmp_num_val nv_ok_from_int nv_ok_from_f64 from_int_not_Nan from_f64_Nan_iff
          nv_ext_from_int nv_ext_from_f64 cmp_i64_f64_val reverse_ext_cmp)
  qed
  then show "cmp_num (from_int i) (from_f64 f) = cmp_i64_f64 i f"
    "cmp_num (from_f64 f) (from_int i) = map_option reverse_ord (cmp_i64_f64 i f)" by simp_all
qed

lemma cmp_num_from_f64: "cmp_num (from_f64 x) (from_f64 y) = f64_partial_cmp x y"
proof (cases "f64_is_nan x \<or> f64_is_nan y")
  case True
  then show ?thesis
    using from_f64_Nan_iff cmp_num_Nan by (metis f64_partial_cmp_def)
next
  case False
  then show ?thesis
    by (simp add: f64_partial_cmp_def cmp_num_val nv_ok_from_f64 from_f64_Nan_iff nv_ext_from_f64)
qed

lemma fast_cmp_cmp_num:
  assumes "fast_cmp a b = Some r"
  shows "\<exists>na nb. classify a = Some na \<and> classify b = Some nb \<and> r = cmp_num na nb"
  using assms
  by (cases a; cases b)
     (auto simp: fast_cmp_def classify_def cmp_num_from_int cmp_num_from_f64
        cmp_num_from_int_f64 [OF sint_i32_bounds] cmp_num_from_int_f64 [OF sint_i64_bounds])

section \<open>The limbs as machine integers\<close>

text \<open>The closure \<open>mul\<close> on \<open>u64\<close> limbs, where every operation wraps.\<close>

function push_carry_u64 :: "u64 \<Rightarrow> u64 list" where
  "push_carry_u64 c = (if 0 < c then c mod 1000000000 # push_carry_u64 (c div 1000000000) else [])"
  by pat_completeness auto
termination
  by (relation "measure unat") (auto simp: unat_div word_less_nat_alt)

declare push_carry_u64.simps [simp del]

fun mul_limbs_u64 :: "u64 list \<Rightarrow> u64 \<Rightarrow> u64 \<Rightarrow> u64 list" where
  "mul_limbs_u64 [] k carry = push_carry_u64 carry"
| "mul_limbs_u64 (l # ls) k carry =
     (let v = l * k + carry in v mod 1000000000 # mul_limbs_u64 ls k (v div 1000000000))"

lemma unat_push_carry: "map unat (push_carry_u64 c) = push_carry (unat c)"
proof (induction c rule: push_carry_u64.induct)
  case (1 c)
  show ?case
  proof (cases "0 < c")
    case True
    with 1 show ?thesis
      by (subst push_carry_u64.simps, subst push_carry.simps)
         (simp add: unat_div unat_mod LIMB_def word_less_nat_alt)
  next
    case False
    then show ?thesis by (subst push_carry_u64.simps, subst push_carry.simps) (simp add: word_less_nat_alt)
  qed
qed

lemma unat_mul_limbs:
  assumes "unat k \<le> 5 ^ 13" "0 < k" "unat c < unat k" "\<forall>l \<in> set ls. unat l < LIMB"
  shows "map unat (mul_limbs_u64 ls k c) = mul_limbs (map unat ls) (unat k) (unat c)"
  using assms(3,4)
proof (induction ls arbitrary: c)
  case Nil
  then show ?case by (simp add: unat_push_carry)
next
  case (Cons l ls)
  have b: "unat l * unat k + unat c < 2 ^ 64" "(unat l * unat k + unat c) div LIMB < unat k"
    using mul_limb_no_overflow [OF _ assms(1) Cons.prems(1)] Cons.prems(2) by simp_all
  have p: "unat (l * k) = unat l * unat k" using b(1) by (intro unat_mult_lem [THEN iffD1]) simp
  then have v: "unat (l * k + c) = unat l * unat k + unat c"
    using b(1) by (subst unat_add_lem [THEN iffD1]) simp_all
  have "map unat (mul_limbs_u64 ls k ((l * k + c) div 1000000000))
      = mul_limbs (map unat ls) (unat k) (unat ((l * k + c) div 1000000000))"
    using Cons.prems(2) b(2) by (intro Cons.IH) (simp_all add: unat_div v LIMB_def)
  then show ?case by (simp add: Let_def unat_div unat_mod v LIMB_def)
qed

section \<open>Properties\<close>

text \<open>The digits \<open>exact_f64_parts\<close> builds from a finite non-zero double denote exactly the
  double's value, with its sign and with no leading or trailing zero.\<close>

theorem exact_f64_parts_exact:
  assumes "f64_is_finite d" "\<not> f64_is_zero d" "exact_f64_parts d = (sign, digits, ex)"
  shows "fin_val sign digits ex = f64_val d \<and> dec_ok digits \<and> sign = (if f64_neg d then -1 else 1)"
  using exact_f64_parts_spec [OF assms] by blast

theorem exact_f64_parts_exact_witness: "fin_val 1 [1, 5] (-1) = f64_val 0x3FF8000000000000"
proof -
  have "exact_f64_parts 0x3FF8000000000000 = (1, [1, 5], -1)"
    by (simp add: exact_f64_parts_def LIMB_def Let_def trailing_zeros.simps pop_zero_limbs.simps pow5_loop.simps
        push_carry.simps limbs_digits_def nat_digits.simps normalize_dec_def drop_trailing.simps)
  moreover have "f64_is_finite 0x3FF8000000000000" "\<not> f64_is_zero 0x3FF8000000000000" by code_simp+
  ultimately show ?thesis using exact_f64_parts_exact by blast
qed

text \<open>where the allocation-free \<open>fast_cmp\<close> answers at all, both operands are numbers and its answer is the
  one the digit form gives: \<open>cmp\<close> of the two classified operands.\<close>

theorem fast_cmp_agrees:
  assumes "fast_cmp a b = Some r"
  shows "\<exists>na nb. classify a = Some na \<and> classify b = Some nb \<and> r = cmp_num na nb"
  using assms by (rule fast_cmp_cmp_num)

theorem fast_cmp_agrees_witness:
  "\<exists>na nb. classify (Int64 7) = Some na \<and> classify (Int32 9) = Some nb \<and> Some Less = cmp_num na nb"
proof (rule fast_cmp_agrees)
  show "fast_cmp (Int64 7) (Int32 9) = Some (Some Less)" by code_simp
qed

text \<open>two numbers of any types compare as their exact values do: \<open>cmp\<close> of their classified forms is the order
  of the extended line, infinities outermost, and it is unordered exactly when one of them is a NaN.\<close>

theorem cmp_num_exact:
  assumes "classify a = Some na" "classify b = Some nb"
  shows "cmp_num na nb = (if na = Nan \<or> nb = Nan then None else Some (ext_cmp (nv_ext na) (nv_ext nb)))"
  using cmp_num_val [OF nv_ok_classify [OF assms(1)] nv_ok_classify [OF assms(2)]] by (auto simp: cmp_num_Nan)

theorem cmp_num_exact_witness:
  "cmp_num (from_decimal_str (lit ''2.50'')) (from_int 3) = Some (ext_cmp (0, 25/10) (0, 3))"
proof -
  have f: "from_decimal_str (lit ''2.50'') = Finite 1 [2, 5] (-1)" "from_int 3 = Finite 1 [3] 0" by code_simp+
  have c: "classify (Decimal128 (lit ''2.50'')) = Some (from_decimal_str (lit ''2.50''))"
    "classify (Int32 3) = Some (from_int 3)" by (simp_all add: classify_def)
  show ?thesis using cmp_num_exact [OF c] by (simp add: f nv_ext_def fin_val_def mag_val_def power_int_minus)
qed

text \<open>The integer an arithmetic result becomes has exactly the result's value, is an \<open>Int64\<close> when an
  operand was one or the value does not fit 32 bits, and there is none exactly when the value does not fit 64.\<close>

theorem int_promoted_to_bson_value:
  shows "case int_promoted_to_bson r wide of
           None \<Rightarrow> \<not> fits_i64 r
         | Some v \<Rightarrow> fits_i64 r \<and> as_int_like v = Some r \<and> is_int64 v = (wide \<or> \<not> fits_i32 r)"
  by (auto simp: int_promoted_to_bson_def as_int_like_def is_int64_def fits_i64_def fits_i32_def
      signed_of_int signed_take_bit_int_eq_self)

theorem int_promoted_to_bson_value_witness:
  "as_int_like (the (int_promoted_to_bson 2147483648 False)) = Some 2147483648
     \<and> is_int64 (the (int_promoted_to_bson 2147483648 False))"
  using int_promoted_to_bson_value [of 2147483648 False] by (simp add: int_promoted_to_bson_def fits_i64_def fits_i32_def)

text \<open>the limb multiplication never wraps a \<open>u64\<close>: on base-10^9 limbs, with a multiplier of at most 5^13,
  the machine loop computes the mathematical product's limbs.\<close>

theorem mul_limbs_no_wrap:
  assumes "unat k \<le> 5 ^ 13" "0 < k" "limbs_ok (map unat ls)"
  shows "map unat (mul_limbs_u64 ls k 0) = mul_limbs (map unat ls) (unat k) 0
       \<and> limbs_val (map unat (mul_limbs_u64 ls k 0)) = limbs_val (map unat ls) * unat k"
  using assms unat_mul_limbs [OF assms(1,2), of 0 ls]
  by (simp add: limbs_ok_def limbs_val_mul_limbs word_less_nat_alt)

theorem mul_limbs_no_wrap_witness:
  "limbs_val (map unat (mul_limbs_u64 [999999999, 999999999] 1220703125 0)) = 999999999999999999 * 1220703125"
proof -
  have "unat (1220703125 :: u64) \<le> 5 ^ 13" "(0 :: u64) < 1220703125"
    "limbs_ok (map unat [999999999, 999999999 :: u64])"
    by (simp_all add: limbs_ok_def LIMB_def)
  from conjunct2 [OF mul_limbs_no_wrap [OF this]] show ?thesis by (simp add: LIMB_def)
qed

end
