(* ===== verification/Order.thy ===== *)
theory Order
  imports Numeric
begin

text \<open>
  \<open>secantus-core/src/order.rs\<close>: the cross-type order of BSON values. \<open>cmp\<close> is the
  comparator every in-memory sort uses; \<open>bson_lt\<close> is the single strict-less relation
  behind \<open>$min\<close> and \<open>$max\<close>; \<open>array_sort_value\<close> picks the element an array sorts by.

  The sources keep three settings in thread-local cells (the BinData order, the key
  formats of older stores, and the active collation). They are the fields of
  \<open>thread_env\<close>, an argument of every definition that reads one.
\<close>

section \<open>The thread's settings\<close>

datatype bindata_order = Mongod | Bytes | Format4

text \<open>
  A collation is seen only through its collator (a third-party component): how it
  compares two texts, and the sort key it writes for one.
\<close>

record collation =
  coll_compare :: "rstr \<Rightarrow> rstr \<Rightarrow> ordering"
  coll_sort_key :: "rstr \<Rightarrow> bytes"

record thread_env =
  bindata_order_of :: bindata_order
  number_format_1 :: bool
  id_format_1 :: bool
  active_collation :: "collation option"
  f64_display :: "f64 \<Rightarrow> rstr"

definition active_compare :: "thread_env \<Rightarrow> rstr \<Rightarrow> rstr \<Rightarrow> ordering" where
  "active_compare env a b =
     (case active_collation env of Some c \<Rightarrow> coll_compare c a b | None \<Rightarrow> cmp_of a b)"

definition active_compare_bytes :: "thread_env \<Rightarrow> bytes \<Rightarrow> bytes \<Rightarrow> ordering" where
  "active_compare_bytes env a b =
     (case active_collation env of
        Some c \<Rightarrow> coll_compare c (lossy a) (lossy b)
      | None \<Rightarrow> cmp_of a b)"

section \<open>Ranks\<close>

definition EMPTY_ARRAY_SORT_MARKER :: bson where
  "EMPTY_ARRAY_SORT_MARKER = Undefined"

definition raw_text_rank :: "u8 \<Rightarrow> nat" where
  "raw_text_rank t =
     (if t = 0x0B then 120 else if t = 0x0C then 122 else if t = 0x0D then 125
      else if t = 0x0E then 40 else 127)"

definition type_rank :: "bson \<Rightarrow> nat" where
  "type_rank v =
     (case as_raw_text v of
        Some (t, _) \<Rightarrow> raw_text_rank t
      | None \<Rightarrow>
          if as_invalid_utf8 v \<noteq> None then 40
          else (case v of
                  MinKey \<Rightarrow> 10 | Undefined \<Rightarrow> 15 | Null \<Rightarrow> 20
                | Int32 _ \<Rightarrow> 30 | Int64 _ \<Rightarrow> 30 | Double _ \<Rightarrow> 30 | Decimal128 _ \<Rightarrow> 30
                | String _ \<Rightarrow> 40 | Document _ \<Rightarrow> 50 | Array _ \<Rightarrow> 60 | Binary _ _ \<Rightarrow> 70
                | ObjectId _ \<Rightarrow> 80 | Boolean _ \<Rightarrow> 90 | DateTime _ \<Rightarrow> 100 | Timestamp _ _ \<Rightarrow> 110
                | RegularExpression _ _ \<Rightarrow> 120 | JavaScriptCode _ \<Rightarrow> 125
                | JavaScriptCodeWithScope _ _ \<Rightarrow> 127 | MaxKey \<Rightarrow> 130
                | _ \<Rightarrow> 50))"

section \<open>The comparator\<close>

definition bindata_cmp :: "thread_env \<Rightarrow> u8 \<Rightarrow> bytes \<Rightarrow> u8 \<Rightarrow> bytes \<Rightarrow> ordering" where
  "bindata_cmp env st1 b1 st2 b2 =
     (case bindata_order_of env of
        Bytes \<Rightarrow> then_with (cmp_of b1 b2) (cmp_of st1 st2)
      | _ \<Rightarrow> then_with (cmp_of (length b1) (length b2))
              (then_with (cmp_of st1 st2) (cmp_of b1 b2)))"

text \<open>
  \<open>regexutil::regex_sort_key\<close>: the pattern, and the option characters sorted without
  repeats. A character is its UTF-8 bytes, whose order is the code points' order.
\<close>

definition regex_options_key :: "rstr \<Rightarrow> rstr" where
  "regex_options_key o1 = concat (remdups_adj (sort (map snd (utf8_items o1))))"

definition text_of :: "bson \<Rightarrow> bytes option" where
  "text_of v =
     (case as_raw_text v of
        Some (t, raw) \<Rightarrow> Some (raw_text_bytes t raw)
      | None \<Rightarrow>
          (case v of
             JavaScriptCode s \<Rightarrow> Some s
           | Symbol s \<Rightarrow> Some s
           | JavaScriptCodeWithScope c _ \<Rightarrow> Some c
           | RegularExpression p _ \<Rightarrow> Some p
           | _ \<Rightarrow> str_bytes v))"

definition raw_text_cmp :: "bson \<Rightarrow> bson \<Rightarrow> ordering option" where
  "raw_text_cmp a b =
     (if as_raw_text a = None \<and> as_raw_text b = None then None
      else (case text_of a of
              None \<Rightarrow> None
            | Some x \<Rightarrow> (case text_of b of None \<Rightarrow> None | Some y \<Rightarrow> Some (cmp_of x y))))"

text \<open>The last arms of \<open>cmp\<close>: NaN below every other number, then the numeric order.\<close>

definition numeric_arm :: "bson \<Rightarrow> bson \<Rightarrow> ordering" where
  "numeric_arm a b =
     (if is_nan_bson a \<or> is_nan_bson b then
        (case (is_nan_bson a, is_nan_bson b) of
           (True, True) \<Rightarrow> Equal
         | (True, False) \<Rightarrow> Less
         | _ \<Rightarrow> Greater)
      else (case fast_cmp a b of
              Some r \<Rightarrow> (case r of Some ord \<Rightarrow> ord | None \<Rightarrow> Equal)
            | None \<Rightarrow>
                (case (classify a, classify b) of
                   (Some na, Some nb) \<Rightarrow>
                     (case cmp_num na nb of Some ord \<Rightarrow> ord | None \<Rightarrow> Equal)
                 | _ \<Rightarrow> Equal)))"

fun cmp :: "thread_env \<Rightarrow> bson \<Rightarrow> bson \<Rightarrow> ordering"
  and doc_cmp :: "thread_env \<Rightarrow> document \<Rightarrow> document \<Rightarrow> ordering"
  and array_cmp :: "thread_env \<Rightarrow> bson list \<Rightarrow> bson list \<Rightarrow> ordering" where
  "cmp env a b =
     (if type_rank a \<noteq> type_rank b then cmp_of (type_rank a) (type_rank b)
      else case carrier_pair a b of
        Some (x, y) \<Rightarrow> active_compare_bytes env x y
      | None \<Rightarrow> (case raw_text_cmp a b of
          Some ord \<Rightarrow> ord
        | None \<Rightarrow> (case a of
            Null \<Rightarrow> Equal | MinKey \<Rightarrow> Equal | MaxKey \<Rightarrow> Equal
          | String x \<Rightarrow>
              (case b of String y \<Rightarrow> active_compare env x y | _ \<Rightarrow> numeric_arm a b)
          | Boolean x \<Rightarrow>
              (case b of Boolean y \<Rightarrow> cmp_of x y | _ \<Rightarrow> numeric_arm a b)
          | DateTime x \<Rightarrow>
              (case b of DateTime y \<Rightarrow> cmp_of (sint x) (sint y) | _ \<Rightarrow> numeric_arm a b)
          | Timestamp xt xi \<Rightarrow>
              (case b of Timestamp yt yi \<Rightarrow> then_with (cmp_of xt yt) (cmp_of xi yi)
               | _ \<Rightarrow> numeric_arm a b)
          | ObjectId x \<Rightarrow>
              (case b of ObjectId y \<Rightarrow> cmp_of x y | _ \<Rightarrow> numeric_arm a b)
          | Binary xs xb \<Rightarrow>
              (case b of Binary ys yb \<Rightarrow> bindata_cmp env xs xb ys yb | _ \<Rightarrow> numeric_arm a b)
          | RegularExpression xp xo \<Rightarrow>
              (case b of RegularExpression yp yo \<Rightarrow>
                 then_with (cmp_of xp yp) (cmp_of (regex_options_key xo) (regex_options_key yo))
               | _ \<Rightarrow> numeric_arm a b)
          | Document x \<Rightarrow>
              (case b of Document y \<Rightarrow> doc_cmp env x y | _ \<Rightarrow> numeric_arm a b)
          | Array x \<Rightarrow>
              (case b of Array y \<Rightarrow> array_cmp env x y | _ \<Rightarrow> numeric_arm a b)
          | JavaScriptCode x \<Rightarrow>
              (case b of JavaScriptCode y \<Rightarrow> cmp_of x y | _ \<Rightarrow> numeric_arm a b)
          | JavaScriptCodeWithScope xc xs \<Rightarrow>
              (case b of JavaScriptCodeWithScope yc ys \<Rightarrow>
                 then_with (cmp_of xc yc) (doc_cmp env xs ys)
               | _ \<Rightarrow> numeric_arm a b)
          | _ \<Rightarrow> numeric_arm a b)))"
| "doc_cmp env [] [] = Equal"
| "doc_cmp env [] (y # ys) = Less"
| "doc_cmp env (x # xs) [] = Greater"
| "doc_cmp env ((ak, av) # as) ((bk, bv) # bs) =
     (let r = cmp_of (type_rank av) (type_rank bv)
      in if r \<noteq> Equal then r
         else if ak \<noteq> bk then cmp_of ak bk
         else let c = cmp env av bv in if c \<noteq> Equal then c else doc_cmp env as bs)"
| "array_cmp env [] [] = Equal"
| "array_cmp env [] (y # ys) = Less"
| "array_cmp env (x # xs) [] = Greater"
| "array_cmp env (av # as) (bv # bs) =
     (let c = cmp env av bv in if c \<noteq> Equal then c else array_cmp env as bs)"

declare cmp.simps [simp del]

section \<open>What an array sorts by\<close>

fun is_comparable :: "bson \<Rightarrow> bool" where
  "is_comparable (DbPointer _ _) = False"
| "is_comparable (Document d) = list_all (\<lambda>(k, v). is_comparable v) d"
| "is_comparable (Array a) = list_all is_comparable a"
| "is_comparable _ = True"

definition is_sortable :: "bson \<Rightarrow> bool" where
  "is_sortable v = is_comparable v"

text \<open>The loop of \<open>array_sort_value\<close>: the best element so far, \<open>None\<close> when one cannot be ordered.\<close>

fun best_element :: "thread_env \<Rightarrow> bool \<Rightarrow> bson option \<Rightarrow> bson list \<Rightarrow> bson option option" where
  "best_element env reverse best [] = Some best"
| "best_element env reverse best (item # items) =
     (if \<not> is_sortable item then None
      else best_element env reverse
             (Some (case best of
                None \<Rightarrow> item
              | Some cur \<Rightarrow>
                  (let take = (if reverse then cmp env item cur = Greater
                               else cmp env item cur = Less)
                   in if take then item else cur)))
             items)"

definition array_sort_value :: "thread_env \<Rightarrow> bson \<Rightarrow> bool \<Rightarrow> bson option" where
  "array_sort_value env v reverse =
     (case v of
        Array items \<Rightarrow>
          (if items = [] then Some EMPTY_ARRAY_SORT_MARKER
           else (case best_element env reverse None items of
                   None \<Rightarrow> None
                 | Some best \<Rightarrow> Some (case best of Some r \<Rightarrow> r | None \<Rightarrow> Null)))
      | _ \<Rightarrow> Some v)"

definition sort_repr :: "thread_env \<Rightarrow> bson \<Rightarrow> bool \<Rightarrow> bson" where
  "sort_repr env v descending =
     (case v of
        Array _ \<Rightarrow> (case array_sort_value env v descending of
                     Some r \<Rightarrow> (if r = Undefined then MinKey else r)
                   | None \<Rightarrow> v)
      | _ \<Rightarrow> v)"

section \<open>The strict-less relation of \<open>$min\<close> and \<open>$max\<close>\<close>

definition lt_rank :: "bson \<Rightarrow> nat" where
  "lt_rank v =
     (case v of Symbol _ \<Rightarrow> type_rank (String []) | Undefined \<Rightarrow> type_rank Null | _ \<Rightarrow> type_rank v)"

definition lt_text :: "bson \<Rightarrow> rstr option" where
  "lt_text v =
     (case v of
        String s \<Rightarrow> Some s
      | Symbol s \<Rightarrow> Some s
      | JavaScriptCode s \<Rightarrow> Some s
      | JavaScriptCodeWithScope c _ \<Rightarrow> Some c
      | _ \<Rightarrow> None)"

text \<open>A DBPointer as BSON stores it: the namespace's length, the namespace with its
  terminator, and the twelve bytes of the id.\<close>

definition db_pointer_value :: "rstr \<Rightarrow> bytes \<Rightarrow> bytes" where
  "db_pointer_value ns oid = le_bytes 4 (length ns + 1) @ ns @ [0] @ oid"

definition DB_POINTER_RANK :: nat where
  "DB_POINTER_RANK = 122"

definition lt_numeric_arm :: "bson \<Rightarrow> bson \<Rightarrow> bool option" where
  "lt_numeric_arm a b =
     (if is_nan_bson a \<or> is_nan_bson b then Some (is_nan_bson a \<and> \<not> is_nan_bson b)
      else (case fast_cmp a b of
              Some r \<Rightarrow> Some (r = Some Less)
            | None \<Rightarrow>
                (case (classify a, classify b) of
                   (Some na, Some nb) \<Rightarrow> Some (cmp_num na nb = Some Less)
                 | _ \<Rightarrow> None)))"

definition lt_rest :: "thread_env \<Rightarrow> bson \<Rightarrow> bson \<Rightarrow> bool option" where
  "lt_rest env a b =
     (case (a, b) of
        (String x, String y) \<Rightarrow> Some (active_compare env x y = Less)
      | (_, _) \<Rightarrow> (case lt_text a of
               Some x \<Rightarrow> map_option (\<lambda>y. x < y) (lt_text b)
             | None \<Rightarrow> lt_numeric_arm a b))"

text \<open>The first match of \<open>bson_lt\<close>: the pairs with a DBPointer.\<close>

definition db_pointer_lt :: "bson \<Rightarrow> bson \<Rightarrow> bool option" where
  "db_pointer_lt a b =
     (case a of
        DbPointer xn xo \<Rightarrow>
          (case b of
             DbPointer yn yo \<Rightarrow>
               (let x = db_pointer_value xn xo; y = db_pointer_value yn yo
                in Some (length x < length y \<or> length x = length y \<and> x < y))
           | _ \<Rightarrow> Some (DB_POINTER_RANK < lt_rank b))
      | _ \<Rightarrow> (case b of DbPointer _ _ \<Rightarrow> Some (lt_rank a < DB_POINTER_RANK) | _ \<Rightarrow> None))"

text \<open>The arms between two scalars of one type; \<open>None\<close> where no such arm applies.\<close>

definition lt_scalar :: "thread_env \<Rightarrow> bson \<Rightarrow> bson \<Rightarrow> bool option" where
  "lt_scalar env a b =
     (case a of
        Boolean x \<Rightarrow> (case b of Boolean y \<Rightarrow> Some (x < y) | _ \<Rightarrow> None)
      | DateTime x \<Rightarrow> (case b of DateTime y \<Rightarrow> Some (sint x < sint y) | _ \<Rightarrow> None)
      | Timestamp xt xi \<Rightarrow>
          (case b of Timestamp yt yi \<Rightarrow> Some (xt < yt \<or> xt = yt \<and> xi < yi) | _ \<Rightarrow> None)
      | ObjectId x \<Rightarrow> (case b of ObjectId y \<Rightarrow> Some (x < y) | _ \<Rightarrow> None)
      | Binary xs xb \<Rightarrow>
          (case b of Binary ys yb \<Rightarrow> Some (bindata_cmp env xs xb ys yb = Less) | _ \<Rightarrow> None)
      | JavaScriptCodeWithScope xc xs \<Rightarrow>
          (case b of JavaScriptCodeWithScope yc ys \<Rightarrow>
             Some (then_with (cmp_of xc yc) (doc_cmp env xs ys) = Less) | _ \<Rightarrow> None)
      | RegularExpression xp xo \<Rightarrow>
          (case b of RegularExpression yp yo \<Rightarrow>
             Some (then_with (cmp_of xp yp)
                     (cmp_of (regex_options_key xo) (regex_options_key yo)) = Less)
           | _ \<Rightarrow> None)
      | MinKey \<Rightarrow> (case b of MinKey \<Rightarrow> Some False | _ \<Rightarrow> None)
      | MaxKey \<Rightarrow> (case b of MaxKey \<Rightarrow> Some False | _ \<Rightarrow> None)
      | _ \<Rightarrow> None)"

definition lt_null :: "bson \<Rightarrow> bool" where
  "lt_null v = (case v of Null \<Rightarrow> True | Undefined \<Rightarrow> True | _ \<Rightarrow> False)"

function bson_lt :: "thread_env \<Rightarrow> bson \<Rightarrow> bson \<Rightarrow> bool option"
  and doc_lt :: "thread_env \<Rightarrow> document \<Rightarrow> document \<Rightarrow> bool option"
  and array_lt :: "thread_env \<Rightarrow> bson list \<Rightarrow> bson list \<Rightarrow> bool option" where
  "bson_lt env a b =
     (case db_pointer_lt a b of
        Some r \<Rightarrow> Some r
      | None \<Rightarrow>
          if lt_rank a \<noteq> lt_rank b then Some (lt_rank a < lt_rank b)
          else if lt_null a \<or> lt_null b then Some False
          else (case carrier_pair a b of
            Some (x, y) \<Rightarrow> Some (active_compare_bytes env x y = Less)
          | None \<Rightarrow> (case lt_scalar env a b of
              Some r \<Rightarrow> Some r
            | None \<Rightarrow> (case a of
                Document x \<Rightarrow> (case b of Document y \<Rightarrow> doc_lt env x y | _ \<Rightarrow> lt_rest env a b)
              | Array x \<Rightarrow> (case b of Array y \<Rightarrow> array_lt env x y | _ \<Rightarrow> lt_rest env a b)
              | _ \<Rightarrow> lt_rest env a b))))"
| "doc_lt env [] ys = Some ([] \<noteq> ys)"
| "doc_lt env (x # xs) [] = Some False"
| "doc_lt env ((ak, av) # as) ((bk, bv) # bs) =
     (if lt_rank av \<noteq> lt_rank bv then Some (lt_rank av < lt_rank bv)
      else if ak \<noteq> bk then Some (ak < bk)
      else (case bson_lt env av bv of
              None \<Rightarrow> None
            | Some True \<Rightarrow> Some True
            | Some False \<Rightarrow> (case bson_lt env bv av of
                              None \<Rightarrow> None
                            | Some True \<Rightarrow> Some False
                            | Some False \<Rightarrow> doc_lt env as bs)))"
| "array_lt env [] ys = Some ([] \<noteq> ys)"
| "array_lt env (x # xs) [] = Some False"
| "array_lt env (av # as) (bv # bs) =
     (case bson_lt env av bv of
        None \<Rightarrow> None
      | Some True \<Rightarrow> Some True
      | Some False \<Rightarrow> (case bson_lt env bv av of
                        None \<Rightarrow> None
                      | Some True \<Rightarrow> Some False
                      | Some False \<Rightarrow> array_lt env as bs))"
  by pat_completeness auto
termination
  by (relation "measure (\<lambda>x. case x of
        Inl (env, a, b) \<Rightarrow> size a + size b
      | Inr (Inl (env, a, b)) \<Rightarrow> size (Document a) + size (Document b) - 1
      | Inr (Inr (env, a, b)) \<Rightarrow> size (Array a) + size (Array b) - 1)") auto

declare bson_lt.simps [simp del]

end
