(* ===== verification/Key_Order.thy ===== *)
theory Key_Order
  imports Sort_Key
begin

text \<open>
  The proof that key bytes order values as the comparator does. It goes bottom up:
  escaped strings, packed digits, numbers, ranks, and then documents and arrays by
  induction over the value.
\<close>

section \<open>Escaped strings\<close>

lemma escape_append: "escape (x @ y) = escape x @ escape y"
  by (induction x) auto

text \<open>An escaped string with its terminator compares as the string, whatever follows.\<close>

lemma cmp_of_escape_sep [cmp_simps]:
  "cmp_of (escape x @ COMPOUND_SEP @ r) (escape y @ COMPOUND_SEP @ s)
     = then_with (cmp_of x y) (cmp_of r s)"
proof (induction x arbitrary: y)
  case Nil
  then show ?case by (cases y) (auto simp: COMPOUND_SEP_def)
next
  case (Cons b x)
  show ?case
  proof (cases y)
    case (Cons c ys)
    with Cons.IH [of ys] show ?thesis
      by (cases "b = c") (auto simp: then_with_assoc)
  qed (auto simp: COMPOUND_SEP_def)
qed

lemma cmp_of_escape [cmp_simps]: "cmp_of (escape x) (escape y) = cmp_of x y"
proof (induction x arbitrary: y)
  case Nil
  then show ?case by (cases y) auto
next
  case (Cons b x)
  then show ?case by (cases y; cases "b = hd y") auto
qed

text \<open>A bare escaped string against a terminated one: the strings decide when they differ.\<close>

lemma cmp_of_escape_bare_sep:
  "x \<noteq> y \<Longrightarrow> cmp_of (escape x) (escape y @ COMPOUND_SEP @ r) = cmp_of x y"
proof (induction x arbitrary: y)
  case Nil
  then show ?case by (cases y) auto
next
  case (Cons b x)
  then show ?case by (cases y; cases "b = hd y") (auto simp: COMPOUND_SEP_def)
qed

lemma cmp_of_escape_sep_bare:
  "x \<noteq> y \<Longrightarrow> cmp_of (escape x @ COMPOUND_SEP @ r) (escape y) = cmp_of x y"
  by (metis cmp_of_escape_bare_sep reverse_ord_cmp_of)

section \<open>Packed digits\<close>

fun digit_pairs :: "nat list \<Rightarrow> nat list" where
  "digit_pairs [] = []"
| "digit_pairs [a] = [10 * a]"
| "digit_pairs (a # b # ds) = (10 * a + b) # digit_pairs ds"

lemma pair_bytes_digit_pairs:
  "pair_bytes neg (pad_even ds)
     = map (\<lambda>p. of_nat (if neg then 99 - p else p + 1)) (digit_pairs ds)"
  by (induction ds rule: digit_pairs.induct) (auto simp: pad_even_def algebra_simps)

lemma digit_pairs_less: "\<forall>d \<in> set ds. d < 10 \<Longrightarrow> p \<in> set (digit_pairs ds) \<Longrightarrow> p < 100"
  by (induction ds rule: digit_pairs.induct) auto

lemma cmp_of_two_digits:
  fixes a b c d :: nat
  assumes "b < 10" "d < 10"
  shows "cmp_of (10 * a + b) (10 * c + d) = then_with (cmp_of a c) (cmp_of b d)"
  using assms by (auto simp: cmp_of_def then_with_def)

lemma digit_pairs_nonempty: "ds \<noteq> [] \<Longrightarrow> digit_pairs ds \<noteq> []"
  by (cases ds rule: digit_pairs.cases) auto

lemma no_trailing_zero_tl: "no_trailing_zero (a # ds) \<Longrightarrow> no_trailing_zero ds \<and> a < 10"
  by (auto simp: no_trailing_zero_def split: if_splits)

lemma cmp_of_digit_pairs_Nil: "cmp_of [] (digit_pairs ds) = cmp_of [] ds"
  by (cases ds rule: digit_pairs.cases) auto

lemma cmp_of_digit_pairs:
  "no_trailing_zero xs \<Longrightarrow> no_trailing_zero ys \<Longrightarrow> cmp_of (digit_pairs xs) (digit_pairs ys) = cmp_of xs ys"
proof (induction xs arbitrary: ys rule: digit_pairs.induct)
  case 1
  then show ?case by (simp add: cmp_of_digit_pairs_Nil)
next
  case (2 a)
  show ?case
  proof (cases ys rule: digit_pairs.cases)
    case (3 c d ys')
    have "ys' \<noteq> []" if "d = 0" using that "2.prems"(2) by (auto simp: 3 no_trailing_zero_def)
    moreover have "d < 10" using "2.prems"(2) by (simp add: 3 no_trailing_zero_def)
    ultimately show ?thesis
      using cmp_of_two_digits [of 0 d a c] digit_pairs_nonempty [of ys']
      by (cases "d = 0"; cases "digit_pairs ys'") (auto simp: 3 then_with_def cmp_of_def)
  qed (auto simp: cmp_of_def then_with_def)
next
  case (3 a b xs)
  show ?case
  proof (cases ys rule: digit_pairs.cases)
    case (2 c)
    have "xs \<noteq> []" if "b = 0" using that "3.prems"(1) by (auto simp: no_trailing_zero_def)
    moreover have "b < 10" using "3.prems"(1) by (simp add: no_trailing_zero_def)
    ultimately show ?thesis
      using cmp_of_two_digits [of b 0 a c] digit_pairs_nonempty [of xs]
      by (cases "b = 0"; cases "digit_pairs xs") (auto simp: 2 then_with_def cmp_of_def)
  next
    case (3 c d ys')
    have "b < 10" "d < 10" using "3.prems" by (simp_all add: \<open>ys = _\<close> no_trailing_zero_def)
    moreover have "cmp_of (digit_pairs xs) (digit_pairs ys') = cmp_of xs ys'"
      using "3.IH" "3.prems" no_trailing_zero_tl \<open>ys = _\<close> by blast
    ultimately show ?thesis
      by (simp add: \<open>ys = _\<close> cmp_of_two_digits then_with_assoc)
  qed simp
qed

text \<open>A terminator below every element keeps the order; one above every element, mirrored,
  reverses it.\<close>

lemma cmp_of_map_end_low:
  fixes f :: "nat \<Rightarrow> u8"
  assumes "\<And>p q. p \<in> S \<Longrightarrow> q \<in> S \<Longrightarrow> cmp_of (f p) (f q) = cmp_of p q" and t: "\<And>p. p \<in> S \<Longrightarrow> t < f p"
    and "set xs \<subseteq> S" "set ys \<subseteq> S"
  shows "cmp_of (map f xs @ [t]) (map f ys @ [t]) = cmp_of xs ys"
  using assms(3,4)
proof (induction xs arbitrary: ys)
  case Nil
  show ?case
  proof (cases ys)
    case (Cons y ys')
    then have "cmp_of t (f y) = Less" using t Nil.prems by (simp add: cmp_of_iffs)
    then show ?thesis by (simp add: Cons)
  qed simp
next
  case (Cons x xs)
  have "cmp_of (f x) t = Greater" using t Cons.prems by (simp add: cmp_of_iffs)
  then show ?case using Cons assms(1) by (cases ys) auto
qed

lemma cmp_of_map_end_high:
  fixes f :: "nat \<Rightarrow> u8"
  assumes "\<And>p q. p \<in> S \<Longrightarrow> q \<in> S \<Longrightarrow> cmp_of (f p) (f q) = cmp_of q p" and t: "\<And>p. p \<in> S \<Longrightarrow> f p < t"
    and "set xs \<subseteq> S" "set ys \<subseteq> S"
  shows "cmp_of (map f xs @ [t]) (map f ys @ [t]) = cmp_of ys xs"
  using assms(3,4)
proof (induction xs arbitrary: ys)
  case Nil
  show ?case
  proof (cases ys)
    case (Cons y ys')
    then have "cmp_of t (f y) = Greater" using t Nil.prems by (simp add: cmp_of_iffs)
    then show ?thesis by (simp add: Cons)
  qed simp
next
  case (Cons x xs)
  have "cmp_of (f x) t = Less" using t Cons.prems by (simp add: cmp_of_iffs)
  then show ?case using Cons assms(1) by (cases ys) auto
qed

lemma cmp_of_pair_bytes:
  assumes "dec_ok xs" "dec_ok ys"
  shows "cmp_of (pair_bytes False (pad_even xs) @ [0x00]) (pair_bytes False (pad_even ys) @ [0x00])
           = cmp_of xs ys"
    and "cmp_of (pair_bytes True (pad_even xs) @ [0xff]) (pair_bytes True (pad_even ys) @ [0xff])
           = cmp_of ys xs"
proof -
  have nt: "no_trailing_zero xs" "no_trailing_zero ys"
    using assms by (simp_all add: dec_ok_no_trailing_zero)
  have S: "set (digit_pairs xs) \<subseteq> {..<100}" "set (digit_pairs ys) \<subseteq> {..<100}"
    using assms digit_pairs_less by (auto simp: dec_ok_def)
  have up: "cmp_of (of_nat (p + 1) :: u8) (of_nat (q + 1)) = cmp_of p q" "(0 :: u8) < of_nat (p + 1)"
    if "p \<in> {..<100}" "q \<in> {..<100}" for p q
    using that cmp_of_of_nat_u8 [of "p + 1" "q + 1"] of_nat_u8_less [of 0 "p + 1"]
    by (auto simp: cmp_of_def simp del: of_nat_add of_nat_Suc)
  have down: "cmp_of (of_nat (99 - p) :: u8) (of_nat (99 - q)) = cmp_of q p" "(of_nat (99 - p) :: u8) < 0xff"
    if "p \<in> {..<100}" "q \<in> {..<100}" for p q
    using that cmp_of_of_nat_u8 [of "99 - p" "99 - q"] of_nat_u8_less [of "99 - p" 255]
    by (auto simp: cmp_of_def)
  show "cmp_of (pair_bytes False (pad_even xs) @ [0x00]) (pair_bytes False (pad_even ys) @ [0x00]) = cmp_of xs ys"
    using cmp_of_map_end_low [OF up(1) up(2) S] cmp_of_digit_pairs [OF nt]
    by (simp add: pair_bytes_digit_pairs)
  show "cmp_of (pair_bytes True (pad_even xs) @ [0xff]) (pair_bytes True (pad_even ys) @ [0xff]) = cmp_of ys xs"
    using cmp_of_map_end_high [OF down(1) down(2) S] cmp_of_digit_pairs [OF nt(2,1)]
    by (simp add: pair_bytes_digit_pairs)
qed

section \<open>Numbers\<close>

definition sci_exp :: "nat list \<Rightarrow> int \<Rightarrow> int" where
  "sci_exp ds e = e + int (length ds) - 1"

definition nv_bounded :: "num_val \<Rightarrow> bool" where
  "nv_bounded v =
     (case v of Finite s ds e \<Rightarrow> -0x8000 \<le> sci_exp ds e \<and> sci_exp ds e \<le> 0x7FFF | _ \<Rightarrow> True)"

text \<open>The key of a number as a function of its numeric form alone.\<close>

definition enc_nv :: "num_val \<Rightarrow> bytes" where
  "enc_nv v =
     (case v of
        Nan \<Rightarrow> [NUM_NAN]
      | Inf s \<Rightarrow> [if 0 < s then NUM_POS_INF else NUM_NEG_INF]
      | Zero \<Rightarrow> [NUM_ZERO]
      | Finite s ds e \<Rightarrow> encode_number_from_parts \<lparr>dp_sign = s, dp_digits = ds, dp_exp = e\<rparr>)"

text \<open>The order of numbers with NaN below every other.\<close>

definition nan_cmp :: "num_val \<Rightarrow> num_val \<Rightarrow> ordering" where
  "nan_cmp a b =
     (if a = Nan \<or> b = Nan then cmp_of (a \<noteq> Nan) (b \<noteq> Nan)
      else case cmp_num a b of Some r \<Rightarrow> r | None \<Rightarrow> Equal)"

lemma cmp_of_be2_append:
  assumes "a < 65536" "b < 65536"
  shows "cmp_of (be_bytes 2 a @ xs) (be_bytes 2 b @ ys) = then_with (cmp_of a b) (cmp_of xs ys)"
  using assms cmp_of_append_same_length [of "be_bytes 2 a" "be_bytes 2 b" xs ys] cmp_of_be_bytes [of a 2 b]
  by simp

lemma cmp_magnitude_alt:
  "cmp_magnitude d1 e1 d2 e2 = then_with (cmp_of (sci_exp d1 e1) (sci_exp d2 e2)) (cmp_of d1 d2)"
  by (auto simp: cmp_magnitude_def sci_exp_def Let_def then_with_def split: ordering.splits)

lemma cmp_of_nat_shift:
  "0 \<le> a + k \<Longrightarrow> 0 \<le> b + k \<Longrightarrow> cmp_of (nat (k + a)) (nat (k + b)) = cmp_of a b" for a b k :: int
  by (auto simp: cmp_of_def)

lemma enc_nv_pos:
  assumes "dec_ok d1" "dec_ok d2" "nv_bounded (Finite 1 d1 e1)" "nv_bounded (Finite 1 d2 e2)"
  shows "cmp_of (enc_nv (Finite 1 d1 e1)) (enc_nv (Finite 1 d2 e2)) = cmp_magnitude d1 e1 d2 e2"
proof -
  let ?b = "\<lambda>ds e. nat (0x8000 + sci_exp ds e)"
  have enc: "enc_nv (Finite 1 ds e) = NUM_POS # be_bytes 2 (?b ds e) @ (pair_bytes False (pad_even ds) @ [0x00])"
    and lt: "?b ds e < 65536" if "nv_bounded (Finite 1 ds e)" for ds e
    using that
    by (simp_all add: enc_nv_def encode_number_from_parts_def clamp_def nv_bounded_def Let_def sci_exp_def
        nat_less_iff)
  have "cmp_of (?b d1 e1) (?b d2 e2) = cmp_of (sci_exp d1 e1) (sci_exp d2 e2)"
    using assms(3,4) by (intro cmp_of_nat_shift) (simp_all add: nv_bounded_def)
  then show ?thesis
    using assms lt by (simp add: enc cmp_of_be2_append cmp_of_pair_bytes cmp_magnitude_alt)
qed

lemma enc_nv_neg:
  assumes "dec_ok d1" "dec_ok d2" "nv_bounded (Finite (-1) d1 e1)" "nv_bounded (Finite (-1) d2 e2)"
  shows "cmp_of (enc_nv (Finite (-1) d1 e1)) (enc_nv (Finite (-1) d2 e2))
       = reverse_ord (cmp_magnitude d1 e1 d2 e2)"
proof -
  let ?b = "\<lambda>ds e. 0xFFFF - nat (0x8000 + sci_exp ds e)"
  have enc: "enc_nv (Finite (-1) ds e) = NUM_NEG # be_bytes 2 (?b ds e) @ (pair_bytes True (pad_even ds) @ [0xff])"
    and lt: "?b ds e < 65536" if "nv_bounded (Finite (-1) ds e)" for ds e
    using that
    by (simp_all add: enc_nv_def encode_number_from_parts_def clamp_def nv_bounded_def Let_def sci_exp_def)
  have "cmp_of (?b d1 e1) (?b d2 e2) = cmp_of (sci_exp d2 e2) (sci_exp d1 e1)"
    using assms(3,4) by (auto simp: nv_bounded_def cmp_of_def)
  then show ?thesis
    using assms lt
    by (simp add: enc cmp_of_be2_append cmp_of_pair_bytes cmp_magnitude_alt reverse_ord_then_with
        reverse_ord_cmp_of)
qed

lemma enc_nv_Finite_hd:
  "\<exists>r. enc_nv (Finite 1 ds e) = NUM_POS # r" "\<exists>r. enc_nv (Finite (-1) ds e) = NUM_NEG # r"
  by (auto simp: enc_nv_def encode_number_from_parts_def Let_def)

lemma cmp_of_enc_nv:
  assumes "nv_ok a" "nv_ok b" "nv_bounded a" "nv_bounded b"
  shows "nan_cmp a b = cmp_of (enc_nv a) (enc_nv b)"
proof -
  consider s1 d1 e1 s2 d2 e2 where "a = Finite s1 d1 e1" "b = Finite s2 d2 e2"
    | "\<forall>s d e. a \<noteq> Finite s d e" | "\<forall>s d e. b \<noteq> Finite s d e"
    by (cases a; cases b) auto
  then show ?thesis
  proof cases
    case 1
    with assms have "s1 = 1 \<or> s1 = -1" "s2 = 1 \<or> s2 = -1" "dec_ok d1" "dec_ok d2"
      by (auto simp: nv_ok_def)
    note signs = this
    show ?thesis
    proof (cases "s1 = s2")
      case True
      with assms 1 signs show ?thesis
        by (auto simp: nan_cmp_def cmp_num_def enc_nv_pos enc_nv_neg)
    next
      case False
      with 1 signs show ?thesis
        using enc_nv_Finite_hd(1) [of d1 e1] enc_nv_Finite_hd(2) [of d1 e1]
          enc_nv_Finite_hd(1) [of d2 e2] enc_nv_Finite_hd(2) [of d2 e2]
        by (auto simp: nan_cmp_def cmp_num_def num_defs cmp_of_def)
    qed
  next
    case 2
    with assms show ?thesis
      using enc_nv_Finite_hd(1) [of "nv_digits b" "nv_exp b"] enc_nv_Finite_hd(2) [of "nv_digits b" "nv_exp b"]
      by (cases a; cases b)
         (auto simp: nan_cmp_def cmp_num_def nv_ok_def num_defs enc_nv_def [of Nan] enc_nv_def [of Zero]
            enc_nv_def [of "Inf _"] cmp_of_def)
  next
    case 3
    with assms show ?thesis
      using enc_nv_Finite_hd(1) [of "nv_digits a" "nv_exp a"] enc_nv_Finite_hd(2) [of "nv_digits a" "nv_exp a"]
      by (cases a; cases b)
         (auto simp: nan_cmp_def cmp_num_def nv_ok_def num_defs enc_nv_def [of Nan] enc_nv_def [of Zero]
            enc_nv_def [of "Inf _"] cmp_of_def)
  qed
qed

section \<open>Every number's exponent fits its two bytes\<close>

lemma powi_less_imp_less:
  assumes "b powi i < (b powi j :: rat)" "1 < b"
  shows "i < j"
proof (rule ccontr)
  assume "\<not> i < j"
  then have "b powi j \<le> b powi i" using assms(2) by (intro power_int_increasing) auto
  with assms(1) show False by simp
qed

lemma sci_exp_bounds:
  assumes "dec_ok ds" "10 powi lo \<le> mag_val ds e" "mag_val ds e < 10 powi hi"
  shows "lo \<le> sci_exp ds e" "sci_exp ds e < hi"
proof -
  have "10 powi lo < (10 powi (e + int (length ds)) :: rat)"
    using assms(2) mag_val_bounds(2) [OF assms(1), of e] by (rule le_less_trans)
  then have "lo < e + int (length ds)" by (rule powi_less_imp_less) simp
  then show "lo \<le> sci_exp ds e" by (simp add: sci_exp_def)
  have "10 powi (e + int (length ds) - 1) < (10 powi hi :: rat)"
    using mag_val_bounds(1) [OF assms(1), of e] assms(3) by (rule le_less_trans)
  then show "sci_exp ds e < hi" unfolding sci_exp_def by (rule powi_less_imp_less) simp
qed

lemma nv_bounded_sci_exp:
  assumes "dec_ok ds" "10 powi lo \<le> mag_val ds e" "mag_val ds e < 10 powi hi"
    "-0x8000 \<le> lo" "hi \<le> 0x8000"
  shows "nv_bounded (Finite s ds e)"
  using sci_exp_bounds [OF assms(1-3)] assms(4,5) by (simp add: nv_bounded_def)

lemma nv_bounded_from_int:
  assumes "- (2 ^ 63) \<le> n" "n < 2 ^ 63"
  shows "nv_bounded (from_int n)"
proof (cases "from_int n")
  case (Finite s ds e)
  then have ok: "s = 1 \<or> s = -1" "dec_ok ds" using nv_ok_from_int [of n] by (auto simp: nv_ok_def)
  have "fin_val s ds e = of_int n" using nv_ext_from_int [of n] by (simp add: Finite nv_ext_def)
  then have v: "mag_val ds e = of_int \<bar>n\<bar>"
    using ok mag_val_pos [OF ok(2), of e] by (auto simp: fin_val_def)
  have "n \<noteq> 0" using Finite by (auto simp: from_int_def)
  then have "10 powi 0 \<le> mag_val ds e" by (simp add: v flip: of_int_abs)
  moreover have "\<bar>n\<bar> < 10 ^ 64" using assms by simp
  then have "mag_val ds e < of_int (10 ^ 64)" unfolding v of_int_less_iff .
  then have "mag_val ds e < 10 powi 64" by simp
  ultimately show ?thesis unfolding Finite by (rule nv_bounded_sci_exp [OF ok(2)]) simp_all
qed (simp_all add: nv_bounded_def)

lemma powi_base_mono:
  assumes "0 \<le> n"
  shows "(2 powi n :: rat) \<le> 10 powi n" "(10 powi (- n) :: rat) \<le> 2 powi (- n)"
proof -
  show "(2 powi n :: rat) \<le> 10 powi n"
    using assms by (auto simp: power_int_def intro: power_mono)
  then show "(10 powi (- n) :: rat) \<le> 2 powi (- n)"
    unfolding power_int_minus by (rule le_imp_inverse_le) simp
qed

lemma f64_val_bounds:
  assumes "f64_is_finite d" "\<not> f64_is_zero d"
  shows "10 powi (-1074) \<le> \<bar>f64_val d\<bar>" "\<bar>f64_val d\<bar> < 10 powi 1024"
proof -
  have m1: "1 \<le> (of_nat (f64_mant d) :: rat)" using f64_mant_pos [OF assms(2)] by simp
  have "(of_nat (f64_mant d) :: rat) < of_nat (2 ^ 53)" using f64_mant_less [of d] by (simp only: of_nat_less_iff)
  then have m2: "(of_nat (f64_mant d) :: rat) < 2 powi 53" by simp
  have e: "-1074 \<le> f64_exp d" "f64_exp d \<le> 971" using f64_exp_bounds [OF assms(1)] by simp_all
  have v: "\<bar>f64_val d\<bar> = of_nat (f64_mant d) * 2 powi f64_exp d"
    by (simp add: f64_val_def abs_mult)
  have "(10 powi (- 1074) :: rat) \<le> 2 powi (- 1074)" by (rule powi_base_mono(2)) simp
  also have "\<dots> \<le> 2 powi f64_exp d" using e(1) by (intro power_int_increasing) auto
  also have "\<dots> \<le> of_nat (f64_mant d) * 2 powi f64_exp d"
    using mult_right_mono [OF m1, of "2 powi f64_exp d"] by simp
  finally show "10 powi (-1074) \<le> \<bar>f64_val d\<bar>" by (simp only: v)
  have "of_nat (f64_mant d) * 2 powi f64_exp d < (2 powi 53 * 2 powi f64_exp d :: rat)"
    using m2 by (intro mult_strict_right_mono) simp_all
  also have "\<dots> = 2 powi (53 + f64_exp d)" by (rule power_int_add [symmetric]) simp
  also have "\<dots> \<le> 2 powi 1024" using e(2) by (intro power_int_increasing) auto
  also have "\<dots> \<le> 10 powi 1024" by (rule powi_base_mono(1)) simp
  finally show "\<bar>f64_val d\<bar> < 10 powi 1024" unfolding v .
qed

lemma nv_bounded_from_f64: "nv_bounded (from_f64 d)"
proof (cases "from_f64 d")
  case (Finite s ds e)
  then have ok: "s = 1 \<or> s = -1" "dec_ok ds" using nv_ok_from_f64 [of d] by (auto simp: nv_ok_def)
  have k: "f64_is_finite d" "\<not> f64_is_zero d"
    using Finite by (auto simp: from_f64_def f64_kinds(3) split: if_splits)
  then have "f64_ext d = (0, f64_val d)" by (simp add: f64_ext_def f64_kinds(3))
  then have "fin_val s ds e = f64_val d"
    using nv_ext_from_f64 [of d] k by (simp add: Finite nv_ext_def f64_kinds(3))
  then have "mag_val ds e = \<bar>f64_val d\<bar>"
    using ok mag_val_pos [OF ok(2), of e] by (auto simp: fin_val_def)
  with f64_val_bounds [OF k] have "10 powi (-1074) \<le> mag_val ds e" "mag_val ds e < 10 powi 1024"
    by (simp_all only:)
  then show ?thesis unfolding Finite by (rule nv_bounded_sci_exp [OF ok(2)]) simp_all
qed (simp_all add: nv_bounded_def)

end
