(* ===== verification/Comparator.thy ===== *)
theory Comparator
  imports Prelude
begin

text \<open>
  The contract of a comparator function: what the sorts, the extremum searches and the heaps
  of the server rely on. \<open>order::cmp\<close> provides it.
\<close>

text \<open>Keeping the better of the best so far and each item in turn; \<open>ord\<close> says which is better.\<close>

fun pick_best :: "('a \<Rightarrow> 'a \<Rightarrow> ordering) \<Rightarrow> ordering \<Rightarrow> 'a \<Rightarrow> 'a list \<Rightarrow> 'a" where
  "pick_best c ord cur [] = cur"
| "pick_best c ord cur (x # xs) = pick_best c ord (if c x cur = ord then x else cur) xs"

lemma pick_best_flip: "pick_best c Greater cur xs = pick_best (\<lambda>x y. reverse_ord (c x y)) Less cur xs"
  by (induction xs arbitrary: cur) (simp_all add: reverse_ord_iffs)

locale comparator =
  fixes D :: "'a \<Rightarrow> bool" and c :: "'a \<Rightarrow> 'a \<Rightarrow> ordering"
  assumes swap: "D x \<Longrightarrow> D y \<Longrightarrow> c y x = reverse_ord (c x y)"
    and trans: "D x \<Longrightarrow> D y \<Longrightarrow> D z \<Longrightarrow> c x y \<noteq> Greater \<Longrightarrow> c y z \<noteq> Greater \<Longrightarrow> c x z \<noteq> Greater"
begin

lemma refl: "D x \<Longrightarrow> c x x = Equal"
  using swap [of x x] by (cases "c x x") auto

lemma not_less: "D x \<Longrightarrow> D y \<Longrightarrow> c x y \<noteq> Less \<Longrightarrow> c y x \<noteq> Greater"
  using swap [of x y] by (cases "c x y") auto

lemma equal_trans:
  assumes "D x" "D y" "D z" "c x y = Equal" "c y z = Equal"
  shows "c x z = Equal"
  using trans [OF assms(1-3)] trans [OF assms(3,2,1)] swap [OF assms(1,2)] swap [OF assms(2,3)] swap [OF assms(1,3)]
    assms(4,5)
  by (cases "c x z") simp_all

lemma pick_best_least:
  assumes "D cur" "\<forall>x \<in> set xs. D x"
  shows "pick_best c Less cur xs \<in> insert cur (set xs)
       \<and> (\<forall>x \<in> insert cur (set xs). c (pick_best c Less cur xs) x \<noteq> Greater)"
  using assms
proof (induction xs arbitrary: cur)
  case Nil
  then show ?case using refl by simp
next
  case (Cons y ys)
  define n where "n = (if c y cur = Less then y else cur)"
  define b where "b = pick_best c Less n ys"
  have D: "D n" "D y" "D cur" using Cons.prems by (simp_all add: n_def)
  have IH: "b \<in> insert n (set ys)" "\<forall>x \<in> insert n (set ys). c b x \<noteq> Greater"
    using Cons.IH [OF D(1)] Cons.prems by (simp_all add: b_def)
  then have Db: "D b" using D(1) Cons.prems by auto
  have n: "c n y \<noteq> Greater \<and> c n cur \<noteq> Greater"
    using refl [OF D(2)] refl [OF D(3)] not_less [OF D(2,3)] by (simp add: n_def)
  then have "c b y \<noteq> Greater" "c b cur \<noteq> Greater"
    using trans [OF Db D(1,2)] trans [OF Db D(1,3)] IH(2) by simp_all
  moreover have "b \<in> insert cur (insert y (set ys))" using IH(1) by (auto simp: n_def)
  ultimately show ?case using IH(2) by (simp add: b_def n_def)
qed

text \<open>The reversed comparator meets the same contract, so the greatest item is found the same way.\<close>

lemma flipped: "comparator D (\<lambda>x y. reverse_ord (c x y))"
proof
  show "reverse_ord (c y x) = reverse_ord (reverse_ord (c x y))" if "D x" "D y" for x y
    using swap [OF that] by simp
  show "reverse_ord (c x z) \<noteq> Greater" if D: "D x" "D y" "D z"
    and le: "reverse_ord (c x y) \<noteq> Greater" "reverse_ord (c y z) \<noteq> Greater" for x y z
    using le trans [OF D(3,2,1)] swap [OF D(1,2)] swap [OF D(2,3)] swap [OF D(1,3)]
    by (cases "c x y"; cases "c y z"; cases "c x z") simp_all
qed

lemma pick_best_greatest:
  assumes "D cur" "\<forall>x \<in> set xs. D x"
  shows "pick_best c Greater cur xs \<in> insert cur (set xs)
       \<and> (\<forall>x \<in> insert cur (set xs). c (pick_best c Greater cur xs) x \<noteq> Less)"
  using comparator.pick_best_least [OF flipped assms] by (simp add: pick_best_flip reverse_ord_iffs)

end

text \<open>A comparator that is the order of keys.\<close>

lemma comparator_of_keys:
  assumes "\<And>x y. D x \<Longrightarrow> D y \<Longrightarrow> c x y = cmp_of (key x) (key y)"
  shows "comparator D c"
proof
  show "c y x = reverse_ord (c x y)" if "D x" "D y" for x y
    using that by (simp add: assms reverse_ord_cmp_of)
  show "c x z \<noteq> Greater" if "D x" "D y" "D z" "c x y \<noteq> Greater" "c y z \<noteq> Greater" for x y z
    using that by (simp add: assms cmp_of_iffs)
qed

end
