(* ===== verification/Value_Order.thy ===== *)
theory Value_Order
  imports Key_Order Comparator
begin

text \<open>
  The order of keys is the order of values. The values are those the server stores: the
  text of a Decimal128 is what the bson crate prints, a carrier document holds text that is
  not UTF-8, every other text is UTF-8, and no element of a document is the deprecated
  \<open>undefined\<close>. The settings are those of a current store.
\<close>

unbundle bit_operations_syntax

section \<open>The values and settings the theorems cover\<close>

text \<open>
  What the bson crate's \<open>Display for Decimal128\<close> prints: no surrounding blanks, \<open>NaN\<close> in
  full, and otherwise an infinity or digits with a decimal exponent of four digits.
\<close>

definition decimal_text_ok :: "rstr \<Rightarrow> bool" where
  "decimal_text_ok s \<longleftrightarrow>
     (if contains_str (lit ''nan'') (ascii_lower s)
      then ascii_lower s = lit ''nan'' \<or> ascii_lower s = lit ''-nan''
      else if contains_str (lit ''inf'') (ascii_lower s) then trim_start s = s
      else (let (sign, int_part, frac_part, exp_text) = split_decimal (trim s)
            in all_digits (int_part @ frac_part) \<noteq> None
               \<and> (case exp_text of Some e \<Rightarrow> parse_i64 e \<noteq> None | None \<Rightarrow> True))
           \<and> nv_bounded (from_decimal_str s))"

definition carrier_ok :: "bson \<Rightarrow> bool" where
  "carrier_ok v =
     (case as_raw_text v of Some (t, raw) \<Rightarrow> \<not> utf8_valid (raw_text_bytes t raw) | None \<Rightarrow> True)"

fun key_ok :: "bson \<Rightarrow> bool" where
  "key_ok (Decimal128 s) = decimal_text_ok s"
| "key_ok (Binary st bs) = (length bs < 2 ^ 32)"
| "key_ok (ObjectId bs) = (length bs = 12)"
| "key_ok (RegularExpression p opts) = utf8_valid p"
| "key_ok (JavaScriptCodeWithScope c scope) =
     (utf8_valid c \<and> list_all (\<lambda>(k, v). key_ok v \<and> v \<noteq> Undefined) scope)"
| "key_ok (Document d) =
     (carrier_ok (Document d) \<and> list_all (\<lambda>(k, v). key_ok v \<and> v \<noteq> Undefined) d)"
| "key_ok (Array a) = list_all key_ok a"
| "key_ok _ = True"

definition plain_env :: "thread_env \<Rightarrow> bool" where
  "plain_env env \<longleftrightarrow>
     bindata_order_of env \<noteq> Format4 \<and> \<not> number_format_1 env \<and> active_collation env = None"

section \<open>Numbers\<close>

lemma filter_digits_all_digits: "all_digits t = Some ds \<Longrightarrow> filter_digits t = ds"
  by (induction t arbitrary: ds) (auto split: option.splits)

lemma finish_parts:
  "(case parts_from_int n of None \<Rightarrow> [NUM_ZERO] | Some p \<Rightarrow> encode_number_from_parts p) = enc_nv (from_int n)"
  by (auto simp: parts_from_int_def from_int_def enc_nv_def Let_def split: prod.splits)

lemma encode_parsed_decimal:
  assumes "split_decimal (trim s) = (sign, i, f, e)" "all_digits (i @ f) = Some ds"
    and "case e of Some t \<Rightarrow> parse_i64 t \<noteq> None | None \<Rightarrow> True"
    and "\<not> contains_str (lit ''nan'') (ascii_lower s)" "\<not> contains_str (lit ''inf'') (ascii_lower s)"
  shows "(case parse_decimal_str s of None \<Rightarrow> [NUM_ZERO] | Some p \<Rightarrow> encode_number_from_parts p)
       = enc_nv (from_decimal_str s)"
  using assms filter_digits_all_digits [OF assms(2)]
  by (auto simp: parse_decimal_str_def from_decimal_str_def enc_nv_def Let_def split: option.splits prod.splits)

lemma strip_prefix_inf: "(strip_prefix [45] s \<noteq> None) = (\<exists>r. s = 45 # r)"
  by (cases s) auto

lemma encode_number_format_2_nv:
  assumes "classify v = Some nv" "key_ok v"
  shows "encode_number_format_2 v = enc_nv nv"
proof (cases v)
  case (Double d)
  with assms show ?thesis
    by (auto simp: classify_def encode_number_format_2_def from_f64_def enc_nv_def Let_def split: prod.splits)
next
  case (Decimal128 s)
  obtain sign i f e where p: "split_decimal (trim s) = (sign, i, f, e)" by (metis prod_cases4)
  show ?thesis
  proof (cases "contains_str (lit ''nan'') (ascii_lower s) \<or> contains_str (lit ''inf'') (ascii_lower s)")
    case True
    with assms Decimal128 show ?thesis
      by (auto simp: classify_def encode_number_format_2_def from_decimal_str_def enc_nv_def Let_def decimal_text_ok_def)
  next
    case False
    with assms Decimal128 p obtain ds where "all_digits (i @ f) = Some ds"
      and "case e of Some t \<Rightarrow> parse_i64 t \<noteq> None | None \<Rightarrow> True"
      by (auto simp: decimal_text_ok_def)
    with False encode_parsed_decimal [OF p] assms(1) show ?thesis
      by (auto simp: Decimal128 classify_def encode_number_format_2_def Let_def)
  qed
qed (use assms finish_parts in \<open>auto simp: classify_def encode_number_format_2_def Let_def\<close>)

lemma nv_bounded_classify:
  assumes "classify v = Some nv" "key_ok v"
  shows "nv_bounded nv"
  using assms nv_bounded_from_int [OF sint_i32_bounds] nv_bounded_from_int [OF sint_i64_bounds]
    nv_bounded_from_f64
  by (cases v) (auto simp: classify_def decimal_text_ok_def from_decimal_str_def nv_bounded_def [of Nan]
      nv_bounded_def [of "Inf _"] Let_def)

lemma contains_nan: "contains_str (lit ''nan'') (lit ''nan'')" "contains_str (lit ''nan'') (lit ''-nan'')"
  by code_simp+

lemma is_nan_bson_classify:
  assumes "classify v = Some nv" "key_ok v"
  shows "is_nan_bson v \<longleftrightarrow> nv = Nan"
  using assms contains_nan
  by (cases v) (auto simp: classify_def is_nan_bson_def from_int_not_Nan from_f64_Nan_iff decimal_text_ok_def
      from_decimal_str_def Let_def split: if_splits prod.splits)

lemma numeric_arm_nan_cmp:
  assumes "classify a = Some na" "classify b = Some nb" "key_ok a" "key_ok b"
  shows "numeric_arm a b = nan_cmp na nb"
proof -
  note nan = is_nan_bson_classify [OF assms(1,3)] is_nan_bson_classify [OF assms(2,4)]
  show ?thesis
  proof (cases "fast_cmp a b")
    case None
    then show ?thesis using assms nan
      by (auto simp: numeric_arm_def nan_cmp_def cmp_of_def split: option.splits)
  next
    case (Some r)
    with fast_cmp_cmp_num [OF Some] assms have "r = cmp_num na nb" by auto
    with Some assms nan show ?thesis
      by (auto simp: numeric_arm_def nan_cmp_def cmp_of_def split: option.splits)
  qed
qed

lemma number_keys:
  assumes "plain_env env" "classify a = Some na" "classify b = Some nb" "key_ok a" "key_ok b"
  shows "cmp_of (encode_number env a) (encode_number env b) = numeric_arm a b"
  using assms cmp_of_enc_nv nv_ok_classify nv_bounded_classify
  by (simp add: encode_number_def plain_env_def encode_number_format_2_nv numeric_arm_nan_cmp)

section \<open>Ranks\<close>

definition rank_code :: "nat \<Rightarrow> u8" where
  "rank_code r =
     (if r = 10 \<or> r = 15 then RANK_MINKEY else if r = 20 then RANK_NULL
      else if r = 30 then RANK_NUMBER else if r = 40 then RANK_STRING
      else if r = 50 then RANK_DOCUMENT else if r = 60 then RANK_ARRAY
      else if r = 70 then RANK_BINDATA else if r = 80 then RANK_OBJECTID
      else if r = 90 then RANK_BOOL else if r = 100 then RANK_DATE
      else if r = 110 then RANK_TIMESTAMP else if r = 120 then RANK_REGEX
      else if r = 125 then RANK_JAVASCRIPT else if r = 127 then RANK_JAVASCRIPT_SCOPE
      else RANK_MAXKEY)"

definition key_ranks :: "nat set" where
  "key_ranks = {10, 15, 20, 30, 40, 50, 60, 70, 80, 90, 100, 110, 120, 125, 127, 130}"

lemma rank_code_mono:
  assumes "a \<in> key_ranks" "b \<in> key_ranks" "a < b" "a = 10 \<Longrightarrow> b \<noteq> 15"
  shows "rank_code a < rank_code b"
  using assms unfolding key_ranks_def by (elim insertE; simp add: rank_code_def rank_defs)

lemma cmp_of_rank_code:
  assumes "a \<in> key_ranks" "b \<in> key_ranks" "a \<noteq> 15" "b \<noteq> 15"
  shows "cmp_of (rank_code a) (rank_code b) = cmp_of a b"
  using assms rank_code_mono [of a b] rank_code_mono [of b a]
  by (cases a b rule: linorder_cases) (auto simp: cmp_of_def)

lemma rank_code_neq_0 [simp]: "rank_code r \<noteq> 0"
  by (simp add: rank_code_def rank_defs)

lemma as_raw_text_not_Document: "(\<forall>d. v \<noteq> Document d) \<Longrightarrow> as_raw_text v = None"
  "(\<forall>d. v \<noteq> Document d) \<Longrightarrow> as_invalid_utf8 v = None"
  by (cases v; simp add: as_raw_text_def as_invalid_utf8_def)+

lemma raw_text_tags:
  "0x0B \<le> t \<Longrightarrow> t \<le> 0x0F \<Longrightarrow> t = 0x0B \<or> t = 0x0C \<or> t = 0x0D \<or> t = 0x0E \<or> t = (0x0F :: u8)"
  by unat_arith

text \<open>Every key starts with the byte of its value's rank.\<close>

lemma encode_raw_text_hd:
  assumes "encode_raw_text t raw = Inr k"
  shows "raw_text_rank t \<in> key_ranks \<and> raw_text_rank t \<noteq> 15 \<and> hd k = rank_code (raw_text_rank t) \<and> k \<noteq> []"
  using assms
  by (auto simp: encode_raw_text_def raw_text_rank_def key_ranks_def rank_code_def rank_defs split: if_splits)

lemma encode_scalar_hd:
  assumes "plain_env env" "encode_scalar env v None = Inr k" "\<forall>d. v \<noteq> Document d"
  shows "type_rank v \<in> key_ranks \<and> hd k = rank_code (type_rank v) \<and> k \<noteq> []"
  using assms as_raw_text_not_Document [OF assms(3)]
  by (cases v)
     (auto simp: encode_scalar_def type_rank_def key_ranks_def rank_code_def rank_defs plain_env_def encode_text_def)

lemma encode_value_hd:
  assumes "plain_env env" "encode_value env v None = Inr k"
  shows "type_rank v \<in> key_ranks \<and> hd k = rank_code (type_rank v) \<and> k \<noteq> []"
proof (cases "as_raw_text v")
  case (Some tr)
  then show ?thesis using assms encode_raw_text_hd [of "fst tr" "snd tr" k]
    by (cases tr) (simp add: encode_value.simps(1) [of env v] type_rank_def)
next
  case None
  show ?thesis
  proof (cases "(\<exists>c s. v = JavaScriptCodeWithScope c s) \<or> (\<exists>d. v = Document d) \<or> (\<exists>a. v = Array a)")
    case True
    with assms None show ?thesis
      by (auto simp: encode_value.simps(1) [of env v] type_rank_def key_ranks_def rank_code_def rank_defs
          bind_res_Inr_iff plain_env_def as_raw_text_not_Document split: option.splits)
  next
    case False
    then have nd: "\<forall>d. v \<noteq> Document d" by simp
    from False have "encode_value env v None = encode_scalar env v None"
      by (cases v) (simp_all add: encode_value.simps(1) as_raw_text_not_Document)
    with assms encode_scalar_hd [OF assms(1) _ nd] show ?thesis by simp
  qed
qed

lemma type_rank_Undefined: "type_rank v = 15 \<longleftrightarrow> v = Undefined"
  by (cases v; auto simp: type_rank_def raw_text_rank_def as_raw_text_def as_invalid_utf8_def
      split: option.splits prod.splits if_splits)

text \<open>Keys of values of different ranks.\<close>

lemma keys_across_ranks:
  assumes "plain_env env" "encode_value env v None = Inr k" "encode_value env w None = Inr l"
    and "type_rank v \<noteq> type_rank w"
  shows "cmp_of k l = cmp_of (type_rank v) (type_rank w)"
proof -
  note v = encode_value_hd [OF assms(1,2)] and w = encode_value_hd [OF assms(1,3)]
  obtain k' l' where kl: "k = rank_code (type_rank v) # k'" "l = rank_code (type_rank w) # l'"
    using v w by (metis list.collapse)
  have min: "x = MinKey" if "type_rank x = 10" for x
    using that by (cases x; auto simp: type_rank_def raw_text_rank_def split: option.splits prod.splits if_splits)
  have mu: "encode_value env MinKey None = Inr [1]" "encode_value env Undefined None = Inr [1, 0x80]"
    by (simp_all add: encode_value.simps(1) as_raw_text_def as_invalid_utf8_def encode_scalar_def rank_defs
        UNDEFINED_TAIL_def)
  show ?thesis
  proof (cases "{type_rank v, type_rank w} = {10, 15}")
    case True
    then consider "v = MinKey" "w = Undefined" | "v = Undefined" "w = MinKey"
      using min type_rank_Undefined by (fastforce simp: doubleton_eq_iff)
    then show ?thesis
      using assms(2,3) mu
      by cases (auto simp: type_rank_def as_raw_text_def as_invalid_utf8_def cmp_of_def)
  next
    case False
    with v w rank_code_mono [of "type_rank v" "type_rank w"] rank_code_mono [of "type_rank w" "type_rank v"] assms(4)
    have "cmp_of (rank_code (type_rank v)) (rank_code (type_rank w)) = cmp_of (type_rank v) (type_rank w)"
      by (cases "type_rank v" "type_rank w" rule: linorder_cases) (auto simp: cmp_of_def insert_commute)
    then show ?thesis using assms(4) by (simp add: kl then_with_def cmp_of_iffs)
  qed
qed

section \<open>Values with text that is not UTF-8\<close>

lemma encode_value_raw:
  assumes "as_raw_text v = Some (t, raw)" "encode_value env v None = Inr k"
  shows "k = rank_code (type_rank v) # escape (raw_text_bytes t raw)" "type_rank v \<in> {40, 120, 125, 127}"
proof -
  have "encode_raw_text t raw = Inr k" using assms by (simp add: encode_value.simps(1) [of env v])
  then show "k = rank_code (type_rank v) # escape (raw_text_bytes t raw)" "type_rank v \<in> {40, 120, 125, 127}"
    using assms(1)
    by (auto simp: encode_raw_text_def type_rank_def raw_text_rank_def rank_code_def rank_defs split: if_splits)
qed

lemma text_of_rank:
  assumes "type_rank w \<in> {40, 120, 125, 127}"
  shows "\<exists>y. text_of w = Some y"
proof (cases "as_raw_text w")
  case None
  with assms show ?thesis
    by (cases w) (auto simp: type_rank_def text_of_def str_bytes_def as_raw_text_not_Document split: option.splits if_splits)
qed (auto simp: text_of_def)

text \<open>The key of a value with text: the text escaped, or a UTF-8 text escaped and terminated.\<close>

lemma text_key:
  assumes "plain_env env" "type_rank w \<in> {40, 120, 125, 127}" "key_ok w" "encode_value env w None = Inr l"
    and "text_of w = Some y"
  shows "l = rank_code (type_rank w) # escape y \<or>
         (utf8_valid y \<and> (\<exists>r. l = rank_code (type_rank w) # escape y @ COMPOUND_SEP @ r))"
proof (cases "as_raw_text w")
  case (Some tr)
  then show ?thesis
    using encode_value_raw(1) [of w "fst tr" "snd tr" env l] assms by (simp add: text_of_def split: prod.splits)
next
  case None
  with assms show ?thesis
    by (cases w)
       (auto simp: encode_value.simps(1) encode_scalar_def encode_text_def type_rank_def text_of_def str_bytes_def
          as_raw_text_not_Document rank_code_def rank_defs bind_res_Inr_iff plain_env_def
          split: option.splits if_splits)
qed

lemma raw_text_keys:
  assumes env: "plain_env env" and ok: "key_ok v" "key_ok w"
    and k: "encode_value env v None = Inr k" and l: "encode_value env w None = Inr l"
    and rank: "type_rank v = type_rank w" and raw: "as_raw_text v = Some (t, raw)"
  shows "\<exists>y. text_of w = Some y \<and> cmp_of k l = cmp_of (raw_text_bytes t raw) y"
proof -
  have rw: "type_rank w \<in> {40, 120, 125, 127}" using encode_value_raw(2) [OF raw k] rank by simp
  obtain y where y: "text_of w = Some y" using text_of_rank [OF rw] by blast
  have inv: "\<not> utf8_valid (raw_text_bytes t raw)"
    using ok(1) raw as_raw_text_SomeD [OF raw] by (auto simp: carrier_ok_def)
  then have "cmp_of (escape (raw_text_bytes t raw)) (escape y @ COMPOUND_SEP @ r) = cmp_of (raw_text_bytes t raw) y"
    if "utf8_valid y" for r using that by (intro cmp_of_escape_bare_sep) auto
  then have "cmp_of k l = cmp_of (raw_text_bytes t raw) y"
    using encode_value_raw(1) [OF raw k] text_key [OF env rw ok(2) l y] rank
    by (auto simp: cmp_of_escape)
  with y show ?thesis by blast
qed

lemma carrier_pair_None: "str_bytes v = None \<or> str_bytes w = None \<Longrightarrow> carrier_pair v w = None"
  by (cases v; cases w; cases "str_bytes v") (auto simp: carrier_pair_def str_bytes_def)

lemma str_bytes_raw: "as_raw_text v \<noteq> None \<Longrightarrow> str_bytes v = None"
  using carriers_disjoint [of v] by (cases v) (auto simp: str_bytes_def as_raw_text_def)

lemma carrier_pair_raw: "as_raw_text v \<noteq> None \<or> as_raw_text w \<noteq> None \<Longrightarrow> carrier_pair v w = None"
  using carrier_pair_None str_bytes_raw by metis

lemma keys_raw_text:
  assumes "plain_env env" "key_ok v" "key_ok w"
    and "encode_value env v None = Inr k" "encode_value env w None = Inr l"
    and "type_rank v = type_rank w" "as_raw_text v \<noteq> None \<or> as_raw_text w \<noteq> None"
  shows "cmp env v w = cmp_of k l"
proof -
  have "raw_text_cmp v w = Some (cmp_of k l)"
  proof (cases "as_raw_text v")
    case (Some tr)
    then show ?thesis
      using raw_text_keys [OF assms(1-6), of "fst tr" "snd tr"]
      by (auto simp: raw_text_cmp_def text_of_def [of v] case_prod_beta)
  next
    case None
    then obtain tr where tr: "as_raw_text w = Some tr" using assms(7) by blast
    then show ?thesis
      using raw_text_keys [OF assms(1,3,2,5,4) assms(6) [symmetric], of "fst tr" "snd tr"]
      by (auto simp: raw_text_cmp_def text_of_def [of w] case_prod_beta dest: cmp_of_swap)
  qed
  then show ?thesis using assms(6) carrier_pair_raw [OF assms(7)] by (simp add: cmp.simps(1) [of env v])
qed

section \<open>Documents and arrays\<close>

lemma cmp_of_element:
  assumes "k \<noteq> []" "l \<noteq> []"
  shows "cmp_of (hd k # escape (tl k) @ COMPOUND_SEP @ r) (hd l # escape (tl l) @ COMPOUND_SEP @ s)
       = then_with (cmp_of k l) (cmp_of r s)"
  using assms by (cases k; cases l) (simp_all add: cmp_of_escape_sep then_with_assoc)

text \<open>The claim for one value against every other.\<close>

definition keyed :: "thread_env \<Rightarrow> bson \<Rightarrow> bool" where
  "keyed env v \<longleftrightarrow>
     (\<forall>w k l. key_ok v \<longrightarrow> key_ok w \<longrightarrow> encode_value env v None = Inr k \<longrightarrow> encode_value env w None = Inr l
        \<longrightarrow> cmp env v w = cmp_of k l)"

lemma encode_array_hd:
  assumes "plain_env env" "encode_array env (v # a) None = Inr k"
  shows "cmp_of [ELEMENTS_END] k = Less" "cmp_of k [ELEMENTS_END] = Greater"
proof -
  from assms(2) obtain key out where "encode_value env v None = Inr key" "k = hd key # escape (tl key) @ COMPOUND_SEP @ out"
    by (auto simp: bind_res_Inr_iff element_of_def)
  with encode_value_hd [OF assms(1)]
  show "cmp_of [ELEMENTS_END] k = Less" "cmp_of k [ELEMENTS_END] = Greater"
    by (auto simp: ELEMENTS_END_def)
qed

lemma encode_doc_hd:
  assumes "plain_env env" "encode_doc env (f # d) None = Inr k"
  shows "cmp_of [ELEMENTS_END] k = Less" "cmp_of k [ELEMENTS_END] = Greater"
proof -
  obtain n v where f: "f = (n, v)" by force
  with assms(2) obtain key r where "encode_value env v None = Inr key" "k = hd key # r"
    by (auto simp: bind_res_Inr_iff element_of_def)
  with encode_value_hd [OF assms(1)]
  show "cmp_of [ELEMENTS_END] k = Less" "cmp_of k [ELEMENTS_END] = Greater"
    by (auto simp: ELEMENTS_END_def)
qed

lemma encode_array_keyed:
  assumes "plain_env env" "\<forall>v \<in> set xs. keyed env v" "list_all key_ok xs" "list_all key_ok ys"
    and "encode_array env xs None = Inr k" "encode_array env ys None = Inr l"
  shows "array_cmp env xs ys = cmp_of k l"
  using assms(2-)
proof (induction xs arbitrary: ys k l)
  case Nil
  then show ?case using encode_array_hd [OF assms(1)] by (cases ys) auto
next
  case (Cons v xs)
  show ?case
  proof (cases ys)
    case Nil
    with Cons.prems show ?thesis using encode_array_hd [OF assms(1)] by (metis array_cmp.simps(3) encode_array.simps(1) sum.inject(2))
  next
    case (Cons w ys')
    obtain kv k' kw l' where e: "encode_value env v None = Inr kv" "encode_array env xs None = Inr k'"
        "encode_value env w None = Inr kw" "encode_array env ys' None = Inr l'"
      and k: "k = hd kv # escape (tl kv) @ COMPOUND_SEP @ k'" and l: "l = hd kw # escape (tl kw) @ COMPOUND_SEP @ l'"
      using Cons.prems(4,5) Cons by (auto simp: bind_res_Inr_iff element_of_def)
    have "cmp env v w = cmp_of kv kw" using Cons.prems(1-3) e Cons by (simp add: keyed_def)
    moreover have "array_cmp env xs ys' = cmp_of k' l'" using Cons.IH Cons.prems(1-3) e Cons by simp
    moreover have "kv \<noteq> []" "kw \<noteq> []" using e encode_value_hd [OF assms(1)] by blast+
    ultimately show ?thesis using cmp_of_element [of kv kw k' l']
      by (simp add: Cons k l Let_def del: cmp_of_list) (simp add: then_with_def)
  qed
qed

lemma encode_doc_keyed:
  assumes "plain_env env" "\<forall>(n, v) \<in> set xs. keyed env v"
    and "list_all (\<lambda>(n, v). key_ok v \<and> v \<noteq> Undefined) xs" "list_all (\<lambda>(n, v). key_ok v \<and> v \<noteq> Undefined) ys"
    and "encode_doc env xs None = Inr k" "encode_doc env ys None = Inr l"
  shows "doc_cmp env xs ys = cmp_of k l"
  using assms(2-)
proof (induction xs arbitrary: ys k l)
  case Nil
  then show ?case using encode_doc_hd [OF assms(1)] by (cases ys) auto
next
  case (Cons f xs)
  obtain n v where f: "f = (n, v)" by force
  show ?case
  proof (cases ys)
    case Nil
    with Cons.prems show ?thesis using encode_doc_hd [OF assms(1)] by (metis doc_cmp.simps(3) encode_doc.simps(1) sum.inject(2))
  next
    case (Cons g ys')
    obtain m w where g: "g = (m, w)" by force
    obtain kv k' kw l' where e: "encode_value env v None = Inr kv" "encode_doc env xs None = Inr k'"
        "encode_value env w None = Inr kw" "encode_doc env ys' None = Inr l'"
      and k: "k = hd kv # escape n @ COMPOUND_SEP @ escape (tl kv) @ COMPOUND_SEP @ k'"
      and l: "l = hd kw # escape m @ COMPOUND_SEP @ escape (tl kw) @ COMPOUND_SEP @ l'"
      using Cons.prems(4,5) Cons by (auto simp: f g bind_res_Inr_iff element_of_def)
    have c: "cmp env v w = cmp_of kv kw" using Cons.prems(1-3) e Cons by (simp add: f g keyed_def)
    have d: "doc_cmp env xs ys' = cmp_of k' l'" using Cons.IH Cons.prems(1-3) e Cons by simp
    have h: "hd kv = rank_code (type_rank v)" "hd kw = rank_code (type_rank w)" "kv \<noteq> []" "kw \<noteq> []"
      using e encode_value_hd [OF assms(1)] by blast+
    have r: "cmp_of (hd kv) (hd kw) = cmp_of (type_rank v) (type_rank w)"
      using encode_value_hd [OF assms(1) e(1)] encode_value_hd [OF assms(1) e(3)] Cons.prems(2,3) Cons
      by (simp add: f g cmp_of_rank_code type_rank_Undefined)
    then have "cmp_of (tl kv) (tl kw) = cmp_of kv kw" if "type_rank v = type_rank w"
      using h that by (cases kv; cases kw) auto
    moreover have "kv = kw \<longleftrightarrow> hd kv = hd kw \<and> tl kv = tl kw" using h by (cases kv; cases kw) auto
    moreover have "type_rank v = type_rank w \<longleftrightarrow> hd kv = hd kw" using r by (metis cmp_of_iffs(3))
    ultimately show ?thesis
      by (auto simp: Cons f g k l r cmp_of_escape_sep c d Let_def cmp_of_iffs then_with_def)
  qed
qed

section \<open>Scalars\<close>

lemma xor_top_bit: "uint (n XOR 0x8000000000000000 :: i64) = sint n + 2 ^ 63"
proof -
  have "uint (n XOR 0x8000000000000000) = uint n XOR 2 ^ 63" by (simp add: uint_xor)
  also have "\<dots> = flip_bit 63 (uint n)" by (simp add: flip_bit_def)
  also have "\<dots> = uint n + (if bit n 63 then - (2 ^ 63) else 2 ^ 63)"
    by (simp add: flip_bit_eq_if set_bit_eq unset_bit_eq bit_uint_iff)
  also have "\<dots> = sint n + 2 ^ 63"
    using take_bit_int_eq_self [of "uint n" 64] uint_bounded [of n]
    by (simp add: sint_uint signed_take_bit_eq_take_bit_minus bit_uint_iff)
  finally show ?thesis .
qed

lemma cmp_of_signed_int64: "cmp_of (signed_int64_sortable x) (signed_int64_sortable y) = cmp_of (sint x) (sint y)"
proof -
  have "unat (x XOR 0x8000000000000000) < 256 ^ 8" for x :: i64
    using unsigned_less [of "x XOR 0x8000000000000000", where ?'a = nat] by simp
  moreover have "cmp_of (unat (x XOR 0x8000000000000000)) (unat (y XOR 0x8000000000000000)) = cmp_of (sint x) (sint y)"
    using xor_top_bit [of x] xor_top_bit [of y] 
    by (auto simp: cmp_of_def  simp flip: word_less_nat_alt simp add: word_less_def)
  ultimately show ?thesis by (simp add: signed_int64_sortable_def cmp_of_be_bytes)
qed

definition is_nested :: "bson \<Rightarrow> bool" where
  "is_nested v = (case v of Document _ \<Rightarrow> True | Array _ \<Rightarrow> True | JavaScriptCodeWithScope _ _ \<Rightarrow> True | _ \<Rightarrow> False)"

lemma scalar_no_carrier: "\<not> is_nested v \<Longrightarrow> as_raw_text v = None \<and> as_invalid_utf8 v = None"
  by (cases v) (auto simp: is_nested_def as_raw_text_def as_invalid_utf8_def)

lemma encode_value_scalar: "\<not> is_nested v \<Longrightarrow> encode_value env v coll = encode_scalar env v coll"
  using scalar_no_carrier [of v] by (cases v) (simp_all add: encode_value.simps(1) is_nested_def)

lemma encode_value_carrier:
  "as_invalid_utf8 v = Some x \<Longrightarrow> encode_value env v None = Inr (RANK_STRING # escape x)"
  using carriers_disjoint [of v] by (cases "as_raw_text v") (simp_all add: encode_value.simps(1))

lemma string_key:
  assumes "str_bytes v = Some x"
  shows "encode_value env v None = Inr (RANK_STRING # escape x)" "type_rank v = 40" "as_raw_text v = None"
proof -
  show raw: "as_raw_text v = None" using assms str_bytes_raw [of v] by (cases "as_raw_text v") simp_all
  have "v = String x \<or> as_invalid_utf8 v = Some x" using assms by (cases v) (auto simp: str_bytes_def)
  then show "encode_value env v None = Inr (RANK_STRING # escape x)" "type_rank v = 40"
    using raw by (auto simp: encode_value_carrier encode_value_scalar is_nested_def encode_scalar_def encode_text_def
        type_rank_def as_invalid_utf8_def [of "String _"])
qed

lemma string_keys:
  assumes "plain_env env" "str_bytes v = Some x" "str_bytes w = Some y"
    and "encode_value env v None = Inr k" "encode_value env w None = Inr l"
  shows "cmp env v w = cmp_of k l"
proof -
  have "raw_text_cmp v w = None" using string_key(3) [OF assms(2)] string_key(3) [OF assms(3)] by (simp add: raw_text_cmp_def)
  then have "cmp env v w = cmp_of x y"
  proof (cases "\<exists>s t. v = String s \<and> w = String t")
    case True
    then show ?thesis using assms(1-3) \<open>raw_text_cmp v w = None\<close>
      by (auto simp: cmp.simps(1) carrier_pair_def active_compare_def plain_env_def str_bytes_def
          string_key(2) [of "String _"])
  next
    case False
    then have "carrier_pair v w = Some (x, y)"
      using assms(2,3) by (cases v; cases w) (auto simp: carrier_pair_def)
    then show ?thesis
      using string_key(2) [OF assms(2)] string_key(2) [OF assms(3)] assms(1)
      by (simp add: cmp.simps(1) [of env v] active_compare_bytes_def plain_env_def)
  qed
  then show ?thesis
    using assms(4,5) string_key(1) [OF assms(2)] string_key(1) [OF assms(3)] by (auto simp: cmp_of_escape)
qed

lemma cmp_of_be4: "cmp_of (be_bytes 4 (unat x) @ r) (be_bytes 4 (unat y) @ s) = then_with (cmp_of x y) (cmp_of r s)" for x y :: u32
  using unsigned_less [of x, where ?'a = nat] unsigned_less [of y, where ?'a = nat]
    cmp_of_append_same_length [of "be_bytes 4 (unat x)" "be_bytes 4 (unat y)" r s] cmp_of_be_bytes [of "unat x" 4 "unat y"]
  by (simp add: cmp_of_def word_less_nat_alt)

lemma bindata_keys:
  assumes "plain_env env" "length b1 < 2 ^ 32" "length b2 < 2 ^ 32"
  shows "cmp_of (encode_bindata env s1 b1) (encode_bindata env s2 b2) = bindata_cmp env s1 b1 s2 b2"
proof (cases "bindata_order_of env")
  case Mongod
  have "cmp_of (be_bytes 4 (length b1) @ r) (be_bytes 4 (length b2) @ s) = then_with (cmp_of (length b1) (length b2)) (cmp_of r s)" for r s
    using cmp_of_append_same_length [of "be_bytes 4 (length b1)" "be_bytes 4 (length b2)" r s] assms(2,3)
    by (simp add: cmp_of_be_bytes)
  with Mongod assms(2,3) show ?thesis
    by (simp add: encode_bindata_def bindata_cmp_def cmp_of_escape then_with_assoc)
next
  case Bytes
  then show ?thesis
    using cmp_of_escape_sep [of b1 "[s1]" b2 "[s2]"] by (simp add: encode_bindata_def bindata_cmp_def)
qed (use assms in \<open>simp add: plain_env_def\<close>)



lemma encode_value_supported: "encode_value env v coll = Inr k \<Longrightarrow> (\<forall>s. v \<noteq> Symbol s) \<and> (\<forall>n i. v \<noteq> DbPointer n i)"
  by (auto simp: encode_value_scalar is_nested_def encode_scalar_def)

lemma type_rank_scalar:
  "\<not> is_nested v \<Longrightarrow> type_rank v =
     (case v of MinKey \<Rightarrow> 10 | Undefined \<Rightarrow> 15 | Null \<Rightarrow> 20
      | Int32 _ \<Rightarrow> 30 | Int64 _ \<Rightarrow> 30 | Double _ \<Rightarrow> 30 | Decimal128 _ \<Rightarrow> 30
      | String _ \<Rightarrow> 40 | Binary _ _ \<Rightarrow> 70 | ObjectId _ \<Rightarrow> 80 | Boolean _ \<Rightarrow> 90 | DateTime _ \<Rightarrow> 100
      | Timestamp _ _ \<Rightarrow> 110 | RegularExpression _ _ \<Rightarrow> 120 | JavaScriptCode _ \<Rightarrow> 125 | MaxKey \<Rightarrow> 130 | _ \<Rightarrow> 50)"
  using scalar_no_carrier [of v] by (cases v) (simp_all add: type_rank_def is_nested_def)

lemma scalar_same_rank:
  assumes "type_rank v = type_rank w" "\<not> is_nested v" "\<not> is_nested w"
    and "(\<forall>s. v \<noteq> Symbol s) \<and> (\<forall>n i. v \<noteq> DbPointer n i)" "(\<forall>s. w \<noteq> Symbol s) \<and> (\<forall>n i. w \<noteq> DbPointer n i)"
  obtains (same) "v = w" "v \<in> {MinKey, Undefined, Null, MaxKey}"
    | (num) "type_rank v = 30" "classify v \<noteq> None" "classify w \<noteq> None"
    | (str) s t where "v = String s" "w = String t"
    | (bin) a b c d where "v = Binary a b" "w = Binary c d"
    | (oid) a b where "v = ObjectId a" "w = ObjectId b"
    | (bool) a b where "v = Boolean a" "w = Boolean b"
    | (date) a b where "v = DateTime a" "w = DateTime b"
    | (ts) a b c d where "v = Timestamp a b" "w = Timestamp c d"
    | (re) a b c d where "v = RegularExpression a b" "w = RegularExpression c d"
    | (js) a b where "v = JavaScriptCode a" "w = JavaScriptCode b"
  using assms(1,4,5) unfolding type_rank_scalar [OF assms(2)] type_rank_scalar [OF assms(3)]
  by (cases v; cases w) (use assms(2,3) in \<open>simp_all add: classify_def is_nested_def\<close>)

lemma keys_number:
  assumes "plain_env env" "key_ok v" "key_ok w" "type_rank v = type_rank w" "classify v \<noteq> None" "classify w \<noteq> None"
    and "raw_text_cmp v w = None" "carrier_pair v w = None"
  shows "cmp env v w = cmp_of (RANK_NUMBER # encode_number env v) (RANK_NUMBER # encode_number env w)"
proof -
  have "cmp_of (encode_number env v) (encode_number env w) = numeric_arm v w"
    using number_keys assms by blast
  moreover have "cmp env v w = numeric_arm v w"
    using assms(4-8) by (cases v) (simp_all add: cmp.simps(1) classify_def)
  ultimately show ?thesis by simp
qed

lemma encode_scalar_number: "classify v \<noteq> None \<Longrightarrow> encode_scalar env v coll = Inr (RANK_NUMBER # encode_number env v)"
  by (cases v) (simp_all add: classify_def encode_scalar_def)

lemma keys_scalar:
  assumes "plain_env env" "key_ok v" "key_ok w" "type_rank v = type_rank w"
    and "encode_value env v None = Inr k" "encode_value env w None = Inr l"
    and "\<not> is_nested v" "\<not> is_nested w" 
  shows "cmp env v w = cmp_of k l"
proof -
  have raw: "raw_text_cmp v w = None" using scalar_no_carrier assms(7,8) by (simp add: raw_text_cmp_def)
  have cp: "carrier_pair v w = None"
    using assms(7,8) scalar_no_carrier [of v] scalar_no_carrier [of w]
    by (cases v; cases w) (simp_all add: carrier_pair_def str_bytes_def is_nested_def)
  note enc = assms(5,6) [unfolded encode_value_scalar [OF assms(7)] encode_value_scalar [OF assms(8)], symmetric]
  have und: "numeric_arm Undefined Undefined = Equal"
    by (simp add: numeric_arm_def is_nan_bson_def fast_cmp_def classify_def)
  note simps = cmp.simps(1) encode_scalar_def encode_text_def bindata_keys cmp_of_escape cmp_of_escape_sep cmp_of_be4
    cmp_of_be4 [where r = "[]" and s = "[]", simplified] cmp_of_signed_int64 active_compare_def
  from assms(4,7,8) encode_value_supported [OF assms(5)] encode_value_supported [OF assms(6)] show ?thesis
  proof (cases rule: scalar_same_rank)
    case num
    then show ?thesis using keys_number [OF assms(1-4) num(2,3) raw cp] enc by (simp add: encode_scalar_number)
  next
    case (bool a b)
    then show ?thesis using enc raw assms(4) by (auto simp: simps carrier_pair_def str_bytes_def as_invalid_utf8_def cmp_of_def)
  next
    case str
    then show ?thesis using string_keys [OF assms(1) _ _ assms(5,6)] by (simp add: str_bytes_def)
  qed (use enc raw cp assms(1-4) und in \<open>auto simp: simps\<close>)
qed

section \<open>The order of keys\<close>

lemma same_rank_nested:
  assumes "as_raw_text v = None" "as_raw_text w = None" "type_rank v = type_rank w"
    and "encode_value env v None = Inr k" "encode_value env w None = Inr l"
    and "str_bytes v = None" "is_nested v \<or> is_nested w"
  obtains (docs) d d' where "v = Document d" "w = Document d'" "as_invalid_utf8 v = None" "as_invalid_utf8 w = None"
    | (arrays) a a' where "v = Array a" "w = Array a'"
    | (scopes) c s c' s' where "v = JavaScriptCodeWithScope c s" "w = JavaScriptCodeWithScope c' s'"
  using assms encode_value_supported [OF assms(4)] encode_value_supported [OF assms(5)]
  by (cases v; cases w)
     (auto simp: type_rank_def is_nested_def str_bytes_def scalar_no_carrier as_raw_text_not_Document split: if_splits)

lemma str_bytes_rank:
  assumes "as_raw_text v = None" "str_bytes v = None" "encode_value env v None = Inr k"
  shows "type_rank v \<noteq> 40"
  using assms encode_value_supported [OF assms(3)]
  by (cases v) (auto simp: type_rank_def str_bytes_def as_raw_text_not_Document)

lemma keys_nested:
  assumes env: "plain_env env" and ok: "key_ok v" "key_ok w"
    and rank: "type_rank v = type_rank w" and raw: "as_raw_text v = None" "as_raw_text w = None"
    and k: "encode_value env v None = Inr k" and l: "encode_value env w None = Inr l"
    and str: "str_bytes v = None" and nest: "is_nested v \<or> is_nested w"
    and docs: "\<And>d. v = Document d \<or> (\<exists>c. v = JavaScriptCodeWithScope c d) \<Longrightarrow> \<forall>(n, x) \<in> set d. keyed env x"
    and arrays: "\<And>a. v = Array a \<Longrightarrow> \<forall>x \<in> set a. keyed env x"
  shows "cmp env v w = cmp_of k l"
  using raw rank k l str nest
proof (cases rule: same_rank_nested)
  case (docs d d')
  then obtain kd kd' where "encode_doc env d None = Inr kd" "encode_doc env d' None = Inr kd'"
      "k = RANK_DOCUMENT # kd" "l = RANK_DOCUMENT # kd'"
    using k l raw by (auto simp: encode_value.simps(1) bind_res_Inr_iff)
  then show ?thesis
    using encode_doc_keyed [OF env assms(11), of d d' kd kd'] docs ok rank raw str
    by (simp add: cmp.simps(1) carrier_pair_None raw_text_cmp_def)
next
  case (arrays a a')
  then obtain ka ka' where "encode_array env a None = Inr ka" "encode_array env a' None = Inr ka'"
      "k = RANK_ARRAY # ka" "l = RANK_ARRAY # ka'"
    using k l by (auto simp: encode_value.simps(1) bind_res_Inr_iff as_raw_text_not_Document)
  then show ?thesis
    using encode_array_keyed [OF env assms(12), of a a' ka ka'] arrays ok rank raw str
    by (simp add: cmp.simps(1) carrier_pair_None raw_text_cmp_def)
next
  case (scopes c s c' s')
  then obtain ks ks' where "encode_doc env s None = Inr ks" "encode_doc env s' None = Inr ks'"
      "k = RANK_JAVASCRIPT_SCOPE # escape c @ COMPOUND_SEP @ ks"
      "l = RANK_JAVASCRIPT_SCOPE # escape c' @ COMPOUND_SEP @ ks'"
    using k l env by (auto simp: encode_value.simps(1) bind_res_Inr_iff as_raw_text_not_Document plain_env_def)
  then show ?thesis
    using encode_doc_keyed [OF env assms(11), of s s' ks ks'] scopes ok rank raw str
    by (simp add: cmp.simps(1) carrier_pair_None raw_text_cmp_def cmp_of_escape_sep)
qed

lemma keyed_step:
  assumes env: "plain_env env"
    and docs: "\<And>d. v = Document d \<or> (\<exists>c. v = JavaScriptCodeWithScope c d) \<Longrightarrow> \<forall>(n, x) \<in> set d. keyed env x"
    and arrays: "\<And>a. v = Array a \<Longrightarrow> \<forall>x \<in> set a. keyed env x"
  shows "keyed env v"
  unfolding keyed_def
proof (intro allI impI)
  fix w k l
  assume ok: "key_ok v" "key_ok w" and k: "encode_value env v None = Inr k" and l: "encode_value env w None = Inr l"
  consider "type_rank v \<noteq> type_rank w"
    | "type_rank v = type_rank w" "as_raw_text v \<noteq> None \<or> as_raw_text w \<noteq> None"
    | x y where "str_bytes v = Some x" "str_bytes w = Some y"
    | "type_rank v = type_rank w" "as_raw_text v = None" "as_raw_text w = None"
      "str_bytes v = None" "is_nested v \<or> is_nested w"
    | "type_rank v = type_rank w" "\<not> is_nested v" "\<not> is_nested w"
    using str_bytes_rank [OF _ _ k] str_bytes_rank [OF _ _ l] string_key(2) [of v] string_key(2) [of w]
    by (cases "str_bytes v"; cases "str_bytes w") metis+
  then show "cmp env v w = cmp_of k l"
  proof cases
    case 1
    then show ?thesis using keys_across_ranks [OF env k l] by (simp add: cmp.simps(1) [of env v])
  next
    case 2
    then show ?thesis by (rule keys_raw_text [OF env ok k l])
  next
    case (3 x y)
    then show ?thesis using k l by (rule string_keys [OF env])
  next
    case 4
    then show ?thesis using keys_nested [OF env ok _ _ _ k l] docs arrays by blast
  next
    case 5
    then show ?thesis using keys_scalar [OF env ok _ k l] by blast
  qed
qed

lemma keyed_all:
  assumes "plain_env env"
  shows "keyed env v"
  by (induction v; rule keyed_step [OF assms]; fastforce intro: snds.intros)

section \<open>The comparator's contract\<close>

definition storable :: "thread_env \<Rightarrow> bson \<Rightarrow> bool" where
  "storable env v \<longleftrightarrow> plain_env env \<and> key_ok v \<and> \<not> isl (encode_value env v None)"

lemma storable_key:
  assumes "storable env v"
  shows "encode_value env v None = Inr (projr (encode_value env v None))"
  using assms by (cases "encode_value env v None") (auto simp: storable_def)

lemma cmp_keys:
  assumes "storable env v" "storable env w"
  shows "cmp env v w = cmp_of (projr (encode_value env v None)) (projr (encode_value env w None))"
  using assms storable_key keyed_all by (simp add: storable_def keyed_def)

interpretation bson_order: comparator "storable env" "cmp env" for env
  by (rule comparator_of_keys [of _ _ "\<lambda>v. projr (encode_value env v None)"]) (rule cmp_keys)

lemma best_element_pick:
  assumes "list_all is_sortable items"
  shows "best_element env desc (Some cur) items
       = Some (Some (pick_best (cmp env) (if desc then Greater else Less) cur items))"
  using assms by (induction items arbitrary: cur) auto

lemma encode_value_comparable:
  "(\<forall>coll k. encode_value env v coll = Inr k \<longrightarrow> is_comparable v)"
proof (induction v)
  case (Array a)
  have "list_all is_comparable xs" if "encode_array env xs coll = Inr k" "set xs \<subseteq> set a" for xs coll k
    using that Array by (induction xs arbitrary: k) (auto simp: bind_res_Inr_iff element_of_def)
  then show ?case by (auto simp: encode_value.simps(1) bind_res_Inr_iff as_raw_text_not_Document)
next
  case (Document d)
  have doc: "list_all (\<lambda>(n, v). is_comparable v) xs" if "encode_doc env xs coll = Inr k" "set xs \<subseteq> set d" for xs coll k
    using that Document
    by (induction xs arbitrary: k) (fastforce simp: bind_res_Inr_iff element_of_def intro: snds.intros)+
  show ?case
  proof (intro allI impI)
    fix coll k
    assume enc: "encode_value env (Document d) coll = Inr k"
    show "is_comparable (Document d)"
    proof (cases "as_raw_text (Document d) = None \<and> as_invalid_utf8 (Document d) = None")
      case True
      with enc doc show ?thesis by (auto simp: encode_value.simps(1) bind_res_Inr_iff)
    next
      case False
      then show ?thesis by (auto dest!: as_raw_text_SomeD as_invalid_utf8_SomeD)
    qed
  qed
qed (auto simp: encode_value_scalar is_nested_def encode_scalar_def)

section \<open>Properties\<close>

text \<open>C1: the bytes of two index keys order as their values do: comparing the keys \<open>encode_value\<close> writes
  gives \<open>order::cmp\<close> of the values, across all types and every nesting of documents and arrays, so a scan of the B-tree
  returns documents in the comparator's order. This holds for keys of the current formats, without a collation, and for
  values in which no document has an undefined member (\<open>minkey_undefined_divergence\<close> shows that it fails there).\<close>

theorem encode_value_order:
  assumes "plain_env env" "key_ok v" "key_ok w"
    and "encode_value env v None = Inr k" "encode_value env w None = Inr l"
  shows "cmp env v w = cmp_of k l"
  using keyed_all [OF assms(1), of v] assms by (simp add: keyed_def)

text \<open>The settings of a current store.\<close>

definition store_env :: thread_env where
  "store_env =
     \<lparr>bindata_order_of = Mongod, number_format_1 = False, id_format_1 = False,
      active_collation = None, f64_display = (\<lambda>_. [])\<rparr>"

lemma plain_store_env: "plain_env store_env"
  by (simp add: plain_env_def store_env_def)

theorem encode_value_order_witness:
  "let v = Document [(lit ''a'', Array [Decimal128 (lit ''2.5''), String (lit ''x'')])];
       w = Document [(lit ''a'', Array [Int32 2, MaxKey])];
       k = projr (encode_value store_env v None); l = projr (encode_value store_env w None)
   in cmp store_env v w = cmp_of k l \<and> l < k"
proof -
  let ?v = "Document [(lit ''a'', Array [Decimal128 (lit ''2.5''), String (lit ''x'')])]"
    and ?w = "Document [(lit ''a'', Array [Int32 2, MaxKey])]"
  have "storable store_env ?v" "storable store_env ?w" by code_simp+
  note e = storable_key [OF this(1)] storable_key [OF this(2)]
  have "key_ok ?v" "key_ok ?w" by code_simp+
  moreover have "projr (encode_value store_env ?w None) < projr (encode_value store_env ?v None)" by code_simp
  ultimately show ?thesis
    using encode_value_order [OF plain_store_env _ _ e] by (simp add: Let_def)
qed

text \<open>C2: on the values a store keeps, \<open>order::cmp\<close> is a total order: reflexive, reversed by swapping its
  arguments, transitive, and \<open>Equal\<close> exactly for values that share an index key.\<close>

theorem cmp_total_order:
  assumes "storable env x" "storable env y" "storable env z"
  shows "cmp env x x = Equal \<and> cmp env y x = reverse_ord (cmp env x y)
       \<and> (cmp env x y \<noteq> Greater \<longrightarrow> cmp env y z \<noteq> Greater \<longrightarrow> cmp env x z \<noteq> Greater)
       \<and> (cmp env x y = Equal \<longleftrightarrow> encode_value env x None = encode_value env y None)"
proof -
  have "cmp env x y = Equal \<longleftrightarrow> encode_value env x None = encode_value env y None"
    using cmp_keys [OF assms(1,2)] storable_key [OF assms(1)] storable_key [OF assms(2)] by (metis cmp_of_iffs(3))
  then show ?thesis
    using bson_order.refl [OF assms(1)] bson_order.swap [OF assms(1,2)] bson_order.trans [OF assms] by simp
qed

theorem cmp_total_order_witness:
  "cmp store_env (Int64 5) (Int32 5) = Equal \<and> cmp store_env (Int32 5) (String []) = Less"
proof -
  have "storable store_env (Int64 5)" "storable store_env (Int32 5)" "storable store_env (String [])" by code_simp+
  moreover have "encode_value store_env (Int64 5) None = encode_value store_env (Int32 5) None"
    "cmp store_env (Int32 5) (String []) = Less" by code_simp+
  ultimately show ?thesis using cmp_total_order by blast
qed

text \<open>An array sorts by its least element ascending and its greatest descending: for storable
  elements \<open>array_sort_value\<close> returns an element of the array that no other element precedes in the sort direction, and
  for an empty array the marker that sorts between MinKey and null.\<close>

theorem array_sort_value_extremum:
  assumes "\<forall>x \<in> set items. storable env x"
  shows "if items = [] then array_sort_value env (Array items) desc = Some Undefined
       else \<exists>r \<in> set items. array_sort_value env (Array items) desc = Some r
              \<and> (\<forall>x \<in> set items. cmp env r x \<noteq> (if desc then Less else Greater))"
proof (cases items)
  case (Cons x xs)
  have "list_all is_sortable items"
    using assms storable_key encode_value_comparable by (fastforce simp: list_all_iff is_sortable_def)
  then have "array_sort_value env (Array items) desc
      = Some (pick_best (cmp env) (if desc then Greater else Less) x xs)"
    by (simp add: array_sort_value_def Cons best_element_pick)
  then show ?thesis
    using assms bson_order.pick_best_least [of env x xs] bson_order.pick_best_greatest [of env x xs]
    by (auto simp: Cons)
qed (simp add: array_sort_value_def EMPTY_ARRAY_SORT_MARKER_def)

theorem array_sort_value_extremum_witness:
  "array_sort_value store_env (Array [String [], Int32 3, Null]) False \<in> {Some (String []), Some (Int32 3), Some Null}"
  using array_sort_value_extremum [of "[String [], Int32 3, Null]" store_env False]
proof -
  have "\<forall>x \<in> set [String [], Int32 3, Null]. storable store_env x" by code_simp
  from array_sort_value_extremum [OF this, of False] show ?thesis by auto
qed

end
