(* ===== verification/Key_Layout.thy ===== *)
theory Key_Layout
  imports Value_Order
begin

text \<open>
  Reading keys back: the functions of \<open>secantus-core/src/sortkey.rs\<close> that find where one
  encoded value ends (\<open>value_len\<close>), and split a compound key into its fields' keys
  (\<open>split_compound\<close>, \<open>split_directed\<close>), with \<open>compound_join\<close> of
  \<open>secantus-storage/src/lib.rs\<close>, which writes compound keys. Every key delimits itself, so
  what was joined is split again, and compound keys order by their fields.
\<close>

unbundle bit_operations_syntax

section \<open>Definitions\<close>

fun escaped_len :: "bytes \<Rightarrow> nat" where
  "escaped_len (a # b # r) = (if [a, b] = COMPOUND_SEP then 0 else Suc (escaped_len (b # r)))"
| "escaped_len r = length r"

definition number_len :: "bytes \<Rightarrow> nat option" where
  "number_len body =
     (case body of
        [] \<Rightarrow> None
      | b # _ \<Rightarrow>
          if b = NUM_NAN \<or> b = NUM_NEG_INF \<or> b = NUM_ZERO \<or> b = NUM_POS_INF then Some 1
          else if b = NUM_POS then
            Option.bind (slice_from body 3) (\<lambda>r. map_option (\<lambda>p. 3 + p + 1) (position (\<lambda>x. x = 0x00) r))
          else if b = NUM_NEG then
            Option.bind (slice_from body 3) (\<lambda>r. map_option (\<lambda>p. 3 + p + 1) (position (\<lambda>x. x = 0xff) r))
          else None)"

text \<open>The loop of \<open>elements_len\<close>, at offset \<open>off\<close> of the body.\<close>

function elements_loop :: "bytes \<Rightarrow> bool \<Rightarrow> nat \<Rightarrow> nat option" where
  "elements_loop body named off =
     (case slice_get body off of
        None \<Rightarrow> None
      | Some rank \<Rightarrow>
          if rank = ELEMENTS_END then Some (off + 1)
          else
            (case (if named then map_option (\<lambda>r. off + 1 + escaped_len r + 2) (slice_from body (off + 1))
                   else Some (off + 1)) of
               None \<Rightarrow> None
             | Some off2 \<Rightarrow>
                 (case slice_from body off2 of
                    None \<Rightarrow> None
                  | Some r \<Rightarrow>
                      (let off3 = off2 + escaped_len r + 2
                       in if length body < off3 then None else elements_loop body named off3))))"
  by pat_completeness auto
termination
  by (relation "measure (\<lambda>(body, named, off). length body + 1 - off)")
     (auto simp: slice_get_def slice_from_def split: if_splits)

declare elements_loop.simps [simp del]

definition elements_len :: "bytes \<Rightarrow> bool \<Rightarrow> nat option" where
  "elements_len body named = elements_loop body named 0"

text \<open>Skipping \<open>n\<close> bytes, each one or two bytes escaped.\<close>

fun skip_escaped :: "bytes \<Rightarrow> nat \<Rightarrow> nat \<Rightarrow> nat option" where
  "skip_escaped body 0 off = Some off"
| "skip_escaped body (Suc n) off =
     (case slice_get body off of
        None \<Rightarrow> None
      | Some b \<Rightarrow> skip_escaped body n (off + (if b = 0 then 2 else 1)))"

definition bindata_len :: "bytes \<Rightarrow> nat option" where
  "bindata_len body =
     (if length body < 4 then None
      else (case skip_escaped body (from_be_bytes (take 4 body)) 5 of
              None \<Rightarrow> None
            | Some off \<Rightarrow> if length body < off then None else Some off))"

definition scope_len :: "bytes \<Rightarrow> nat option" where
  "scope_len body =
     (let code = escaped_len body
      in Option.bind (slice_from body code) (\<lambda>r. Option.bind (strip_prefix COMPOUND_SEP r) (\<lambda>rest.
           map_option (\<lambda>n. code + 2 + n) (elements_len rest True))))"

definition regex_len :: "bytes \<Rightarrow> nat option" where
  "regex_len body =
     (let pattern = escaped_len body
      in Option.bind (slice_from body pattern) (\<lambda>r. Option.bind (strip_prefix COMPOUND_SEP r) (\<lambda>rest.
           Some (pattern + 2 + escaped_len rest))))"

definition value_len :: "bytes \<Rightarrow> nat option" where
  "value_len key =
     (case key of
        [] \<Rightarrow> None
      | rank # body \<Rightarrow>
          Option.bind
            (if rank = RANK_MINKEY \<and> slice_get body 0 = Some UNDEFINED_TAIL then Some 1
             else if rank = RANK_MINKEY \<or> rank = RANK_NULL \<or> rank = RANK_MAXKEY then Some 0
             else if rank = RANK_NUMBER then number_len body
             else if rank = RANK_STRING \<or> rank = RANK_JAVASCRIPT then Some (escaped_len body)
             else if rank = RANK_JAVASCRIPT_SCOPE then scope_len body
             else if rank = RANK_DOCUMENT then elements_len body True
             else if rank = RANK_ARRAY then elements_len body False
             else if rank = RANK_BINDATA then bindata_len body
             else if rank = RANK_OBJECTID then Some 12
             else if rank = RANK_BOOL then Some 1
             else if rank = RANK_DATE \<or> rank = RANK_TIMESTAMP then Some 8
             else if rank = RANK_REGEX then regex_len body
             else None)
            (\<lambda>len. if len \<le> length body then Some (1 + len) else None))"

definition directed_len :: "bytes \<Rightarrow> int \<Rightarrow> nat option" where
  "directed_len key direction =
     (if direction \<noteq> -1 then value_len key
      else Option.bind (value_len (invert_bytes key)) (\<lambda>n.
             if n + 2 \<le> length key \<and> take 2 (drop n key) = DESC_END then Some (n + 2) else None))"

fun split_directed :: "bytes \<Rightarrow> int list \<Rightarrow> bytes list option" where
  "split_directed rest [] = (if rest = [] then Some [] else None)"
| "split_directed rest (dir # dirs) =
     Option.bind (directed_len rest dir) (\<lambda>n.
       Option.bind (if dirs \<noteq> [] then strip_prefix COMPOUND_SEP (drop n rest) else Some (drop n rest)) (\<lambda>rest'.
         map_option ((#) (take n rest)) (split_directed rest' dirs)))"

fun split_compound :: "bytes \<Rightarrow> nat \<Rightarrow> bytes list option" where
  "split_compound rest 0 = (if rest = [] then Some [] else None)"
| "split_compound rest (Suc count) =
     Option.bind (value_len rest) (\<lambda>n.
       Option.bind (if 0 < count then strip_prefix COMPOUND_SEP (drop n rest) else Some (drop n rest)) (\<lambda>rest'.
         map_option ((#) (take n rest)) (split_compound rest' count)))"

fun compound_join :: "bytes list \<Rightarrow> bytes" where
  "compound_join [] = []"
| "compound_join [p] = p"
| "compound_join (p # q # ps) = p @ COMPOUND_SEP @ compound_join (q # ps)"

section \<open>Self-delimiting keys\<close>

text \<open>What may follow a key inside a compound key: nothing, or a separator.\<close>

definition ends :: "bytes \<Rightarrow> bool" where
  "ends r \<longleftrightarrow> r = [] \<or> (\<exists>s. r = COMPOUND_SEP @ s)"

lemma ends_simps [simp]: "ends []" "ends (COMPOUND_SEP @ s)"
  by (auto simp: ends_def)

lemma xor_ff: "(x :: u8) XOR 0xFF = 255 - x"
proof -
  have "(0xFF :: u8) = -1" by simp
  then have "x XOR 0xFF = NOT x" by (simp only: bit.xor_one_right)
  then show ?thesis by (simp add: not_eq_complement)
qed

lemma cmp_of_xor_ff [simp]: "cmp_of (x XOR 0xFF) (y XOR 0xFF) = cmp_of y (x :: u8)"
proof -
  have "unat z \<le> 255" for z :: u8 using unsigned_less [of z, where ?'a = nat] by simp
  then have "unat (255 - z) = 255 - unat z \<and> unat z \<le> 255" for z :: u8 by (simp add: unat_sub_if')
  from this [of x] this [of y] show ?thesis
    unfolding xor_ff cmp_of_def word_less_nat_alt by auto
qed

lemma cmp_of_xor_ff_end [simp]:
  "cmp_of 0xFF (x XOR 0xFF) = (if x = 0 then Equal else Greater)"
  "cmp_of (x XOR 0xFF) 0xFF = (if (x :: u8) = 0 then Equal else Less)"
  using cmp_of_xor_ff [of 0 x] cmp_of_xor_ff [of x 0] by simp_all

text \<open>Two keys neither of which continues the other with what a separator could be.\<close>

definition separable :: "bytes \<Rightarrow> bytes \<Rightarrow> bool" where
  "separable k l \<longleftrightarrow> (\<forall>t. l = k @ 0 # t \<longrightarrow> t \<noteq> [] \<and> hd t \<noteq> 0) \<and> (\<forall>t. k = l @ 0 # t \<longrightarrow> t \<noteq> [] \<and> hd t \<noteq> 0)"

lemma separable_Cons: "separable (x # k) (x # l) = separable k l"
  by (auto simp: separable_def)

lemma separable_Nil: "separable [] (c # l) \<Longrightarrow> c \<noteq> 0 \<or> (\<exists>d l'. l = d # l' \<and> d \<noteq> 0)"
  "separable (c # l) [] \<Longrightarrow> c \<noteq> 0 \<or> (\<exists>d l'. l = d # l' \<and> d \<noteq> 0)"
  by (cases l; auto simp: separable_def)+

lemma cmp_of_sep:
  "separable k l \<Longrightarrow>
     cmp_of (k @ COMPOUND_SEP @ r) (l @ COMPOUND_SEP @ s) = then_with (cmp_of k l) (cmp_of r s)"
proof (induction k arbitrary: l)
  case Nil
  then show ?case by (cases l) (auto simp: COMPOUND_SEP_def dest!: separable_Nil)
next
  case (Cons x k)
  show ?case
  proof (cases l)
    case Nil
    with Cons.prems show ?thesis by (auto simp: COMPOUND_SEP_def dest!: separable_Nil)
  next
    case (Cons y l')
    with Cons.IH Cons.prems show ?thesis by (cases "x = y") (auto simp: separable_Cons)
  qed
qed

lemma cmp_of_desc:
  "separable k l \<Longrightarrow>
     cmp_of (invert_bytes k @ DESC_END @ r) (invert_bytes l @ DESC_END @ s) = then_with (cmp_of l k) (cmp_of r s)"
proof (induction k arbitrary: l)
  case Nil
  then show ?case by (cases l) (auto simp: DESC_END_def invert_bytes_def dest!: separable_Nil)
next
  case (Cons x k)
  show ?case
  proof (cases l)
    case Nil
    with Cons.prems show ?thesis by (auto simp: DESC_END_def invert_bytes_def dest!: separable_Nil)
  next
    case (Cons y l')
    with Cons.IH Cons.prems show ?thesis by (cases "x = y") (auto simp: separable_Cons invert_bytes_def)
  qed
qed

section \<open>Splitting what was joined\<close>

definition delimits :: "(bytes \<Rightarrow> nat option) \<Rightarrow> bytes \<Rightarrow> bool" where
  "delimits len k \<longleftrightarrow> (\<forall>r. ends r \<longrightarrow> len (k @ r) = Some (length k))"

text \<open>
  A key reader and the keys it delimits: whatever of a compound key follows, it finds where
  the key ends. Then a compound key has one reading, and keys compare as their fields do.
\<close>

locale delimited =
  fixes len :: "bytes \<Rightarrow> nat option" and K :: "bytes \<Rightarrow> bool"
  assumes len_key: "K k \<Longrightarrow> delimits len k"
begin

lemma len_append: "K k \<Longrightarrow> ends r \<Longrightarrow> len (k @ r) = Some (length k)"
  using len_key by (simp add: delimits_def)

lemma one_reading:
  assumes "K k" "K l" "ends r" "ends s" "k @ r = l @ s"
  shows "k = l \<and> r = s"
proof -
  have "length k = length l" using len_append [OF assms(1,3)] len_append [OF assms(2,4)] assms(5) by simp
  with assms(5) show ?thesis by simp
qed

lemma no_continuation:
  assumes "K k" "K l" "l = k @ 0 # t"
  shows "t \<noteq> [] \<and> hd t \<noteq> 0"
proof (rule ccontr)
  assume "\<not> (t \<noteq> [] \<and> hd t \<noteq> 0)"
  then consider "t = []" | t' where "t = 0 # t'" by (cases t) auto
  then show False
  proof cases
    case 1
    then have "l @ COMPOUND_SEP = k @ COMPOUND_SEP @ [0]" using assms(3) by (simp add: COMPOUND_SEP_def)
    then have "l = k" using one_reading [OF assms(2,1), of COMPOUND_SEP "COMPOUND_SEP @ [0]"] by (simp add: ends_def)
    then show False using assms(3) by simp
  next
    case (2 t')
    then have "l @ [] = k @ COMPOUND_SEP @ t'" using assms(3) by (simp add: COMPOUND_SEP_def)
    then have "l = k" by (rule one_reading [OF assms(2,1) ends_simps, THEN conjunct1])
    then show False using assms(3) by simp
  qed
qed

lemma keys_separable: "K k \<Longrightarrow> K l \<Longrightarrow> separable k l"
  using no_continuation by (auto simp: separable_def)

end

text \<open>The two splitters are one loop over the readers of the fields.\<close>

fun split_with :: "(bytes \<Rightarrow> nat option) list \<Rightarrow> bytes \<Rightarrow> bytes list option" where
  "split_with [] rest = (if rest = [] then Some [] else None)"
| "split_with (len # lens) rest =
     Option.bind (len rest) (\<lambda>n.
       Option.bind (if lens \<noteq> [] then strip_prefix COMPOUND_SEP (drop n rest) else Some (drop n rest)) (\<lambda>rest'.
         map_option ((#) (take n rest)) (split_with lens rest')))"

lemma split_directed_with: "split_directed rest dirs = split_with (map (\<lambda>d k. directed_len k d) dirs) rest"
  by (induction dirs arbitrary: rest) (simp_all cong: Option.bind_cong)

lemma split_compound_with: "split_compound rest n = split_with (replicate n value_len) rest"
  by (induction n arbitrary: rest) (simp_all cong: Option.bind_cong)

lemma split_with_join:
  "list_all2 delimits lens ps \<Longrightarrow> split_with lens (compound_join ps) = Some ps"
proof (induction lens ps rule: list_all2_induct)
  case (Cons len lens p ps)
  show ?case
  proof (cases ps)
    case Nil
    with Cons.hyps have "len p = Some (length p)" by (auto simp: delimits_def dest: spec [of _ "[]"])
    with Nil Cons.hyps show ?thesis by simp
  next
    case (Cons q qs)
    let ?r = "COMPOUND_SEP @ compound_join ps"
    have "len (p @ ?r) = Some (length p)" using \<open>delimits len p\<close> by (simp add: delimits_def)
    moreover have "lens \<noteq> []" using Cons \<open>list_all2 delimits lens ps\<close> by auto
    moreover have "compound_join (p # ps) = p @ ?r" by (simp add: Cons)
    ultimately show ?thesis using \<open>split_with lens (compound_join ps) = Some ps\<close> by simp
  qed
qed simp

text \<open>A descending field's key delimits itself as its ascending key does.\<close>

definition directed_key :: "int \<Rightarrow> bytes \<Rightarrow> bytes" where
  "directed_key dir k = (if dir = -1 then invert_bytes k @ DESC_END else k)"

lemma invert_invert [simp]: "invert_bytes (invert_bytes k) = k"
  by (simp add: invert_bytes_def comp_def xor.assoc)

lemma invert_append: "invert_bytes (a @ b) = invert_bytes a @ invert_bytes b"
  by (simp add: invert_bytes_def)

lemma invert_DESC_END [simp]: "invert_bytes DESC_END = COMPOUND_SEP"
  by (simp add: invert_bytes_def DESC_END_def COMPOUND_SEP_def)

lemma length_invert [simp]: "length (invert_bytes k) = length k"
  by (simp add: invert_bytes_def)

lemma length_DESC_END [simp]: "length DESC_END = 2"
  by (simp add: DESC_END_def)

lemma delimits_directed:
  assumes "delimits value_len k"
  shows "delimits (\<lambda>p. directed_len p dir) (directed_key dir k)"
proof -
  have "directed_len (invert_bytes k @ DESC_END @ r) (-1) = Some (length k + 2)" for r
    using assms by (simp add: directed_len_def invert_append delimits_def)
  with assms show ?thesis by (simp add: delimits_def directed_key_def directed_len_def)
qed

section \<open>Every key delimits itself\<close>

lemma escaped_len_Cons [simp]: "b \<noteq> 0 \<Longrightarrow> escaped_len (b # r) = Suc (escaped_len r)"
  by (cases r) (simp_all add: COMPOUND_SEP_def)

lemma escaped_len_escape:
  assumes "ends r"
  shows "escaped_len (escape x @ r) = length (escape x)"
proof (induction x)
  case Nil
  with assms show ?case by (auto simp: ends_def COMPOUND_SEP_def)
next
  case (Cons b x)
  have "escaped_len (0 # 255 # y) = Suc (escaped_len (255 # y))" for y by (simp add: COMPOUND_SEP_def del: escaped_len_Cons)
  with Cons show ?case by simp
qed

lemma length_COMPOUND_SEP [simp]: "length COMPOUND_SEP = 2"
  by (simp add: COMPOUND_SEP_def)

lemma elements_end: "elements_loop (pre @ ELEMENTS_END # rest) named (length pre) = Some (length pre + 1)"
  by (subst elements_loop.simps) simp

lemma elements_unnamed:
  assumes "rank \<noteq> ELEMENTS_END"
  shows "elements_loop (pre @ rank # escape x @ COMPOUND_SEP @ r) False (length pre)
       = elements_loop ((pre @ rank # escape x @ COMPOUND_SEP) @ r) False (length (pre @ rank # escape x @ COMPOUND_SEP))"
proof -
  let ?tail = "escape x @ COMPOUND_SEP @ r"
  have "slice_from (pre @ rank # ?tail) (length pre + 1) = Some ?tail"
    using slice_from_at [of "length pre + 1" "pre @ [rank]" ?tail] by simp
  then show ?thesis using assms
    by (subst elements_loop.simps) (simp add: escaped_len_escape Let_def algebra_simps)
qed

lemma elements_named:
  assumes "rank \<noteq> ELEMENTS_END"
  shows "elements_loop (pre @ rank # escape n @ COMPOUND_SEP @ escape x @ COMPOUND_SEP @ r) True (length pre)
       = elements_loop ((pre @ rank # escape n @ COMPOUND_SEP @ escape x @ COMPOUND_SEP) @ r) True
           (length (pre @ rank # escape n @ COMPOUND_SEP @ escape x @ COMPOUND_SEP))"
proof -
  let ?tail = "escape x @ COMPOUND_SEP @ r"
  let ?body = "pre @ rank # escape n @ COMPOUND_SEP @ ?tail"
  have "slice_from ?body (length pre + 1) = Some (escape n @ COMPOUND_SEP @ ?tail)"
    using slice_from_at [of "length pre + 1" "pre @ [rank]" "escape n @ COMPOUND_SEP @ ?tail"] by simp
  moreover have "slice_from ?body (length pre + 1 + length (escape n) + 2) = Some ?tail"
    using slice_from_at [of "length pre + 1 + length (escape n) + 2" "pre @ rank # escape n @ COMPOUND_SEP" ?tail] by simp
  ultimately show ?thesis using assms
    by (subst elements_loop.simps) (simp add: escaped_len_escape Let_def algebra_simps)
qed

lemma elements_array:
  assumes "plain_env env" "encode_array env a None = Inr k"
  shows "elements_loop (pre @ k @ rest) False (length pre) = Some (length pre + length k)"
  using assms(2)
proof (induction a arbitrary: pre k)
  case Nil
  then show ?case using elements_end by auto
next
  case (Cons v a)
  then obtain key out where v: "encode_value env v None = Inr key" and a: "encode_array env a None = Inr out"
    and k: "k = hd key # escape (tl key) @ COMPOUND_SEP @ out"
    by (auto simp: bind_res_Inr_iff element_of_def)
  have "hd key \<noteq> ELEMENTS_END" using encode_value_hd [OF assms(1) v] by (simp add: ELEMENTS_END_def)
  from elements_unnamed [OF this, of pre "tl key" "out @ rest"]
  show ?case using Cons.IH [OF a, of "pre @ hd key # escape (tl key) @ COMPOUND_SEP"] by (simp add: k)
qed

lemma elements_doc:
  assumes "plain_env env" "encode_doc env d None = Inr k"
  shows "elements_loop (pre @ k @ rest) True (length pre) = Some (length pre + length k)"
  using assms(2)
proof (induction d arbitrary: pre k)
  case Nil
  then show ?case using elements_end by auto
next
  case (Cons f d)
  obtain n v where f: "f = (n, v)" by force
  with Cons.prems obtain key out where v: "encode_value env v None = Inr key" and d: "encode_doc env d None = Inr out"
    and k: "k = hd key # escape n @ COMPOUND_SEP @ escape (tl key) @ COMPOUND_SEP @ out"
    by (auto simp: bind_res_Inr_iff element_of_def)
  have "hd key \<noteq> ELEMENTS_END" using encode_value_hd [OF assms(1) v] by (simp add: ELEMENTS_END_def)
  from elements_named [OF this, of pre n "tl key" "out @ rest"]
  show ?case
    using Cons.IH [OF d, of "pre @ hd key # escape n @ COMPOUND_SEP @ escape (tl key) @ COMPOUND_SEP"] by (simp add: k)
qed

lemma elements_len_doc: "plain_env env \<Longrightarrow> encode_doc env d None = Inr k \<Longrightarrow> elements_len (k @ rest) True = Some (length k)"
  using elements_doc [of env d k "[]"] by (simp add: elements_len_def)

lemma elements_len_array: "plain_env env \<Longrightarrow> encode_array env a None = Inr k \<Longrightarrow> elements_len (k @ rest) False = Some (length k)"
  using elements_array [of env a k "[]"] by (simp add: elements_len_def)

lemma skip_escaped_escape: "skip_escaped (pre @ escape bs @ r) (length bs) (length pre) = Some (length pre + length (escape bs))"
proof (induction bs arbitrary: pre)
  case (Cons b bs)
  then show ?case
    using Cons.IH [of "pre @ [b]"] Cons.IH [of "pre @ [b, 0xff]"] by (cases "b = 0") simp_all
qed simp

lemma bindata_len_key:
  assumes "bindata_order_of env = Mongod" "length bs < 2 ^ 32"
  shows "bindata_len (encode_bindata env st bs @ r) = Some (length (encode_bindata env st bs))"
  using assms skip_escaped_escape [of "be_bytes 4 (length bs) @ [st]" bs r]
  by (simp add: bindata_len_def encode_bindata_def)

lemma pair_bytes_end:
  assumes "dec_ok ds"
  shows "position (\<lambda>x. x = 0x00) (pair_bytes False (pad_even ds) @ 0x00 # r) = Some (length (pair_bytes False (pad_even ds)))"
    and "position (\<lambda>x. x = 0xff) (pair_bytes True (pad_even ds) @ 0xff # r) = Some (length (pair_bytes True (pad_even ds)))"
proof -
  have p: "p < 100" if "p \<in> set (digit_pairs ds)" for p
    using that assms digit_pairs_less by (auto simp: dec_ok_def)
  have "(of_nat (p + 1) :: u8) \<noteq> 0" "(of_nat (99 - p) :: u8) \<noteq> 0xff" if "p < 100" for p
  proof -
    have "unat (of_nat (p + 1) :: u8) = p + 1" "unat (of_nat (99 - p) :: u8) = 99 - p"
      using that by (intro unat_of_nat_u8; simp)+
    then show "(of_nat (p + 1) :: u8) \<noteq> 0" "(of_nat (99 - p) :: u8) \<noteq> 0xff" by auto
  qed
  with p show "position (\<lambda>x. x = 0x00) (pair_bytes False (pad_even ds) @ 0x00 # r) = Some (length (pair_bytes False (pad_even ds)))"
    "position (\<lambda>x. x = 0xff) (pair_bytes True (pad_even ds) @ 0xff # r) = Some (length (pair_bytes True (pad_even ds)))"
    by (intro position_append; force simp: pair_bytes_digit_pairs)+
qed

lemma number_len_nv:
  assumes "nv_ok nv"
  shows "number_len (enc_nv nv @ r) = Some (length (enc_nv nv))"
proof (cases nv)
  case (Finite s ds e)
  with assms have s: "s = 1 \<or> s = -1" and ds: "dec_ok ds" by (auto simp: nv_ok_def)
  define x where "x = nat (clamp 0 0xFFFF (0x8000 + (e + int (length ds) - 1)))"
  have ab: "\<exists>a b. be_bytes 2 n = [a, b]" for n by (simp add: numeral_2_eq_2)
  have "enc_nv nv = NUM_POS # be_bytes 2 x @ pair_bytes False (pad_even ds) @ [0x00]" if "s = 1"
    using that by (simp add: Finite enc_nv_def encode_number_from_parts_def x_def Let_def)
  moreover have "enc_nv nv = NUM_NEG # be_bytes 2 (0xFFFF - x) @ pair_bytes True (pad_even ds) @ [0xff]" if "s = -1"
    using that by (simp add: Finite enc_nv_def encode_number_from_parts_def x_def Let_def)
  ultimately show ?thesis using s pair_bytes_end [OF ds, of r] ab [of x] ab [of "0xFFFF - x"]
    by (auto simp: number_len_def slice_from_def num_defs)
qed (auto simp: enc_nv_def number_len_def num_defs)

definition self_delimiting :: "bson \<Rightarrow> bool" where
  "self_delimiting v =
     (case as_raw_text v of Some (t, raw) \<Rightarrow> t \<noteq> 0x0B \<and> t \<noteq> 0x0F | None \<Rightarrow> True)"

lemma value_len_raw:
  assumes "as_raw_text v = Some (t, raw)" "self_delimiting v" "encode_value env v None = Inr k" "ends r"
  shows "value_len (k @ r) = Some (length k)"
proof -
  have "encode_raw_text t raw = Inr k" using assms by (simp add: encode_value.simps(1) [of env v])
  then show ?thesis using assms(1,2,4)
    by (auto simp: encode_raw_text_def self_delimiting_def value_len_def rank_defs escaped_len_escape split: if_splits)
qed

lemma slice_strip:
  "escaped_len (escape x @ COMPOUND_SEP @ r) = length (escape x)"
    "slice_from (escape x @ COMPOUND_SEP @ s) (length (escape x)) = Some (COMPOUND_SEP @ s)"
  by (simp_all add: escaped_len_escape slice_from_at)

lemma value_len_scalar:
  assumes "plain_env env" "bindata_order_of env = Mongod" "key_ok v" "\<not> is_nested v"
    and "encode_value env v None = Inr k" "ends r"
  shows "value_len (k @ r) = Some (length k)"
proof -
  note enc = assms(5) [unfolded encode_value_scalar [OF assms(4)], symmetric]
  have num: "number_len (encode_number env v @ r) = Some (length (encode_number env v))" if "classify v = Some nv" for nv
    using number_len_nv [OF nv_ok_classify [OF that]] assms(1,3) that
    by (simp add: encode_number_def plain_env_def encode_number_format_2_nv)
  have min: "slice_get r 0 \<noteq> Some UNDEFINED_TAIL" using assms(6) by (auto simp: ends_def slice_get_def COMPOUND_SEP_def UNDEFINED_TAIL_def)
  have bin: "bindata_len (encode_bindata env st bs @ r) = Some (length (encode_bindata env st bs))" if "v = Binary st bs" for st bs
    using that assms(2,3) bindata_len_key by simp
  show ?thesis
    using assms(2,3,4,6) enc num min bin
    by (cases v) (simp_all add: encode_scalar_def value_len_def rank_defs escaped_len_escape classify_def encode_text_def
        is_nested_def signed_int64_sortable_def regex_len_def slice_strip slice_get_def UNDEFINED_TAIL_def)
qed

lemma value_len_nested:
  assumes "plain_env env" "is_nested v" "as_raw_text v = None" "as_invalid_utf8 v = None"
    and "encode_value env v None = Inr k" "ends r"
  shows "value_len (k @ r) = Some (length k)"
proof (cases v)
  case (Array a)
  then show ?thesis
    using assms elements_len_array [OF assms(1), of a]
    by (auto simp: encode_value.simps(1) bind_res_Inr_iff value_len_def rank_defs)
next
  case (Document d)
  then show ?thesis
    using assms elements_len_doc [OF assms(1), of d]
    by (auto simp: encode_value.simps(1) bind_res_Inr_iff value_len_def rank_defs)
next
  case (JavaScriptCodeWithScope c d)
  then obtain kd where "encode_doc env d None = Inr kd" and k: "k = RANK_JAVASCRIPT_SCOPE # escape c @ COMPOUND_SEP @ kd"
    using assms by (auto simp: encode_value.simps(1) bind_res_Inr_iff plain_env_def)
  then have "elements_len (kd @ r) True = Some (length kd)" by (intro elements_len_doc [OF assms(1)])
  then show ?thesis
    by (simp add: k value_len_def rank_defs scope_len_def slice_strip escaped_len_escape Let_def)
qed (use assms(2) in \<open>simp_all add: is_nested_def\<close>)

lemma value_len_encode:
  assumes "plain_env env" "bindata_order_of env = Mongod" "key_ok v" "self_delimiting v"
    and "encode_value env v None = Inr k"
  shows "delimits value_len k"
  unfolding delimits_def
proof (intro allI impI)
  fix r assume r: "ends r"
  consider t raw where "as_raw_text v = Some (t, raw)" | x where "as_invalid_utf8 v = Some x"
    | "as_raw_text v = None" "as_invalid_utf8 v = None" by (cases "as_raw_text v"; cases "as_invalid_utf8 v") auto
  then show "value_len (k @ r) = Some (length k)"
  proof cases
    case 1
    then show ?thesis by (rule value_len_raw [OF _ assms(4,5) r])
  next
    case 2
    then show ?thesis using encode_value_carrier [OF 2, of env] assms(5) r
      by (auto simp: value_len_def rank_defs escaped_len_escape)
  next
    case 3
    then show ?thesis using value_len_nested [OF assms(1) _ 3 assms(5) r] value_len_scalar [OF assms(1-3) _ assms(5) r]
      by (cases "is_nested v") auto
  qed
qed

section \<open>The keys of an index\<close>

definition index_key :: "bytes \<Rightarrow> bool" where
  "index_key k \<longleftrightarrow>
     (\<exists>env v. plain_env env \<and> bindata_order_of env = Mongod \<and> key_ok v \<and> self_delimiting v
        \<and> encode_value env v None = Inr k)"

interpretation index_reader: delimited value_len index_key
  by unfold_locales (use value_len_encode in \<open>auto simp: index_key_def\<close>)

interpretation directed_reader: delimited "\<lambda>p. directed_len p dir" "\<lambda>p. \<exists>k. index_key k \<and> p = directed_key dir k" for dir
  by unfold_locales (use index_reader.len_key delimits_directed in blast)

lemma cmp_of_directed_sep:
  assumes "index_key k" "index_key l"
  shows "cmp_of (directed_key dir k @ COMPOUND_SEP @ r) (directed_key dir l @ COMPOUND_SEP @ s)
       = then_with (cmp_of (directed_key dir k) (directed_key dir l)) (cmp_of r s)"
  using index_reader.keys_separable [OF assms] cmp_of_desc [of k l "COMPOUND_SEP @ r" "COMPOUND_SEP @ s"]
    cmp_of_desc [of k l "[]" "[]"] cmp_of_sep [of k l r s]
  by (simp add: directed_key_def)

lemma cmp_of_directed:
  assumes "index_key k" "index_key l"
  shows "cmp_of (directed_key dir k) (directed_key dir l) = (if dir = -1 then cmp_of l k else cmp_of k l)"
  using index_reader.keys_separable [OF assms] cmp_of_desc [of k l "[]" "[]"] by (simp add: directed_key_def)

lemma encode_value_directed_key:
  "encode_value_directed env v dir coll = Inr p \<longleftrightarrow> (\<exists>k. encode_value env v coll = Inr k \<and> p = directed_key dir k)"
  by (auto simp: encode_value_directed_def directed_key_def bind_res_Inr_iff)

lemma ascending_part_directed: "ascending_part (directed_key dir k) dir = k"
  by (simp add: ascending_part_def directed_key_def)

section \<open>Properties\<close>

text \<open>The values a compound index key is built from, in a current store.\<close>

definition index_value :: "thread_env \<Rightarrow> bson \<Rightarrow> bool" where
  "index_value env v \<longleftrightarrow>
     plain_env env \<and> bindata_order_of env = Mongod \<and> key_ok v \<and> self_delimiting v"

text \<open>The order a compound index declares: the first field that differs decides, in its direction.\<close>

fun fields_cmp :: "thread_env \<Rightarrow> int list \<Rightarrow> bson list \<Rightarrow> bson list \<Rightarrow> ordering" where
  "fields_cmp env (d # ds) (v # vs) (w # ws) =
     then_with (if d = -1 then reverse_ord (cmp env v w) else cmp env v w) (fields_cmp env ds vs ws)"
| "fields_cmp env _ _ _ = Equal"

definition encode_fields :: "thread_env \<Rightarrow> int list \<Rightarrow> bson list \<Rightarrow> (unsupported_value + bytes) list" where
  "encode_fields env dirs vs = map2 (\<lambda>d v. encode_value_directed env v d None) dirs vs"

lemma index_value_key:
  assumes "index_value env v" "encode_value_directed env v d None = Inr p"
  shows "\<exists>k. encode_value env v None = Inr k \<and> p = directed_key d k \<and> index_key k"
  using assms by (auto simp: encode_value_directed_key index_value_def index_key_def)

lemma encode_fields_Inr:
  "encode_fields env (d # ds) (v # vs) = map Inr ps \<longleftrightarrow>
     (\<exists>p ps'. ps = p # ps' \<and> encode_value_directed env v d None = Inr p \<and> encode_fields env ds vs = map Inr ps')"
  by (cases ps) (auto simp: encode_fields_def)

lemma encode_fields_delimits:
  assumes "length vs = length dirs" "\<forall>v \<in> set vs. index_value env v" "encode_fields env dirs vs = map Inr ps"
  shows "list_all2 (\<lambda>d p. delimits (\<lambda>k. directed_len k d) p) dirs ps"
  using assms
proof (induction dirs arbitrary: vs ps)
  case Nil
  then show ?case by (simp add: encode_fields_def)
next
  case (Cons d dirs)
  obtain v vs' where vs: "vs = v # vs'" using Cons.prems(1) by (cases vs) auto
  from Cons.prems(3) obtain p ps' where ps: "ps = p # ps'" "encode_value_directed env v d None = Inr p"
    and rest: "encode_fields env dirs vs' = map Inr ps'" by (auto simp: vs encode_fields_Inr)
  obtain k where "p = directed_key d k" "index_key k" using index_value_key [OF _ ps(2)] Cons.prems(2) vs by auto
  then have "delimits (\<lambda>k. directed_len k d) p" using directed_reader.len_key by blast
  moreover have "list_all2 (\<lambda>d p. delimits (\<lambda>k. directed_len k d) p) dirs ps'"
    using Cons.IH [OF _ _ rest] Cons.prems(1,2) vs by simp
  ultimately show ?case by (simp add: ps)
qed

lemma compound_join_Cons: "ps \<noteq> [] \<Longrightarrow> compound_join (p # ps) = p @ COMPOUND_SEP @ compound_join ps"
  by (cases ps) auto

lemma index_value_cmp:
  assumes "index_value env v" "index_value env w"
    and "encode_value env v None = Inr k" "encode_value env w None = Inr l"
  shows "cmp env v w = cmp_of k l"
  using keyed_all [of env v] assms by (simp add: index_value_def keyed_def)

text \<open>C6: compound index keys order by their fields: with each field encoded in its direction and the parts
  joined, the bytes of two keys compare as the first field whose values differ, reversed where the field is descending.\<close>

theorem compound_key_order:
  assumes "length vs = length dirs" "length ws = length dirs"
    and "\<forall>v \<in> set vs. index_value env v" "\<forall>w \<in> set ws. index_value env w"
    and "encode_fields env dirs vs = map Inr ps" "encode_fields env dirs ws = map Inr qs"
  shows "cmp_of (compound_join ps) (compound_join qs) = fields_cmp env dirs vs ws"
  using assms
proof (induction dirs arbitrary: vs ws ps qs)
  case Nil
  then show ?case by (simp add: encode_fields_def)
next
  case (Cons d dirs)
  obtain v vs' w ws' where vs: "vs = v # vs'" "ws = w # ws'"
    using Cons.prems(1,2) by (cases vs; cases ws) auto
  obtain p ps' q qs' where ps: "ps = p # ps'" "qs = q # qs'"
    and pq: "encode_value_directed env v d None = Inr p" "encode_value_directed env w d None = Inr q"
    and rest: "encode_fields env dirs vs' = map Inr ps'" "encode_fields env dirs ws' = map Inr qs'"
    using Cons.prems(5,6) by (auto simp: vs encode_fields_Inr)
  have iv: "index_value env v" "index_value env w" using Cons.prems(3,4) by (simp_all add: vs)
  obtain k l where kl: "encode_value env v None = Inr k" "encode_value env w None = Inr l"
      "p = directed_key d k" "q = directed_key d l" "index_key k" "index_key l"
    using index_value_key [OF iv(1) pq(1)] index_value_key [OF iv(2) pq(2)] by auto
  have head: "cmp_of p q = (if d = -1 then reverse_ord (cmp env v w) else cmp env v w)"
    using cmp_of_directed [OF kl(5,6)] index_value_cmp [OF iv kl(1,2)] by (simp add: kl(3,4) reverse_ord_cmp_of)
  have tail: "cmp_of (compound_join ps') (compound_join qs') = fields_cmp env dirs vs' ws'"
    using Cons.IH [OF _ _ _ _ rest] Cons.prems(1-4) by (simp add: vs)
  have "length ps' = length dirs" "length qs' = length dirs"
    using rest [THEN arg_cong, of length] Cons.prems(1,2) by (simp_all add: encode_fields_def vs)
  then have "ps' = [] \<longleftrightarrow> dirs = []" "qs' = [] \<longleftrightarrow> dirs = []" by auto
  then have "cmp_of (compound_join ps) (compound_join qs)
      = then_with (cmp_of p q) (cmp_of (compound_join ps') (compound_join qs'))"
    using cmp_of_directed_sep [OF kl(5,6), of d] by (cases "dirs = []") (auto simp: ps kl(3,4) compound_join_Cons)
  then show ?case using head tail by (simp add: vs)
qed


text \<open>A descending index field stores its values in exactly the reverse of the ascending order, prefixes
  included: the inverted, terminated keys compare as the comparator reversed.\<close>

theorem directed_key_order:
  assumes "index_value env v" "index_value env w"
    and "encode_value_directed env v (-1) None = Inr p" "encode_value_directed env w (-1) None = Inr q"
  shows "cmp_of p q = reverse_ord (cmp env v w)"
proof -
  obtain k l where kl: "encode_value env v None = Inr k" "encode_value env w None = Inr l"
      "p = directed_key (-1) k" "q = directed_key (-1) l" "index_key k" "index_key l"
    using index_value_key [OF assms(1,3)] index_value_key [OF assms(2,4)] by auto
  then show ?thesis
    using cmp_of_directed [OF kl(5,6), of "-1"] index_value_cmp [OF assms(1,2) kl(1,2)]
    by (simp add: reverse_ord_cmp_of)
qed

theorem directed_key_order_witness:
  "let p = projr (encode_value_directed store_env (String []) (-1) None);
       q = projr (encode_value_directed store_env (String (lit ''a'')) (-1) None)
   in cmp_of p q = reverse_ord (cmp store_env (String []) (String (lit ''a''))) \<and> q < p"
proof -
  have iv: "index_value store_env (String [])" "index_value store_env (String (lit ''a''))" by code_simp+
  have e: "encode_value_directed store_env (String []) (-1) None = Inr [0xFB, 0xFF, 0xFF]"
    "encode_value_directed store_env (String (lit ''a'')) (-1) None = Inr [0xFB, 0x9E, 0xFF, 0xFF]" by code_simp+
  have "[0xFB, 0x9E, 0xFF, 0xFF] < ([0xFB, 0xFF, 0xFF] :: bytes)" by simp
  with directed_key_order [OF iv e] show ?thesis by (simp only: Let_def e sum.sel)
qed

theorem compound_key_order_witness:
  "let env = store_env; ps = [[3, 193, 128, 0, 51, 0], [0xFB, 0x9E, 0xFF, 0xFF]];
       qs = [[3, 193, 128, 0, 51, 0], [0xFB, 0x9D, 0xFF, 0xFF]]
   in cmp_of (compound_join ps) (compound_join qs)
        = fields_cmp env [1, -1] [Int32 5, String (lit ''a'')] [Int64 5, String (lit ''b'')]"
proof -
  have "length [Int32 5, String (lit ''a'')] = length [1, -1 :: int]" "length [Int64 5, String (lit ''b'')] = length [1, -1 :: int]"
    by simp_all
  moreover have "\<forall>v \<in> set [Int32 5, String (lit ''a'')]. index_value store_env v"
    "\<forall>v \<in> set [Int64 5, String (lit ''b'')]. index_value store_env v" by code_simp+
  moreover have "encode_fields store_env [1, -1] [Int32 5, String (lit ''a'')] = map Inr [[3, 193, 128, 0, 51, 0], [0xFB, 0x9E, 0xFF, 0xFF]]"
    "encode_fields store_env [1, -1] [Int64 5, String (lit ''b'')] = map Inr [[3, 193, 128, 0, 51, 0], [0xFB, 0x9D, 0xFF, 0xFF]]"
    by code_simp+
  ultimately show ?thesis unfolding Let_def by (rule compound_key_order)
qed

text \<open>What was joined is split again: \<open>split_directed\<close> of a compound key returns exactly the fields' stored
  keys, and \<open>ascending_part\<close> of each is the ascending key of the field's value.\<close>

theorem split_directed_join:
  assumes "length vs = length dirs" "\<forall>v \<in> set vs. index_value env v" "encode_fields env dirs vs = map Inr ps"
  shows "split_directed (compound_join ps) dirs = Some ps
       \<and> map Inr (map2 ascending_part ps dirs) = map (\<lambda>v. encode_value env v None) vs"
proof -
  have "list_all2 delimits (map (\<lambda>d k. directed_len k d) dirs) ps"
    using encode_fields_delimits [OF assms] by (simp add: list_all2_map1)
  then have "split_directed (compound_join ps) dirs = Some ps"
    by (simp add: split_directed_with split_with_join)
  moreover have "map Inr (map2 ascending_part ps dirs) = map (\<lambda>v. encode_value env v None) vs"
    using assms(1,3)
  proof (induction dirs arbitrary: vs ps)
    case (Cons d dirs)
    then show ?case
      by (cases vs) (auto simp: encode_fields_Inr encode_value_directed_key ascending_part_directed)
  qed simp
  ultimately show ?thesis by blast
qed

theorem split_directed_join_witness:
  "split_directed (compound_join [[3, 193, 128, 0, 51, 0], [0xFB, 0x9E, 0xFF, 0xFF]]) [1, -1]
     = Some [[3, 193, 128, 0, 51, 0], [0xFB, 0x9E, 0xFF, 0xFF]]"
proof -
  have "length [Int32 5, String (lit ''a'')] = length [1, -1 :: int]" by simp
  moreover have "\<forall>v \<in> set [Int32 5, String (lit ''a'')]. index_value store_env v" by code_simp
  moreover have "encode_fields store_env [1, -1] [Int32 5, String (lit ''a'')] = map Inr [[3, 193, 128, 0, 51, 0], [0xFB, 0x9E, 0xFF, 0xFF]]"
    by code_simp
  ultimately show ?thesis by (rule split_directed_join [THEN conjunct1])
qed

text \<open>An ascending compound key splits into its values' keys at the right places, although a number's key
  may itself contain the separator's bytes.\<close>

theorem split_compound_join:
  assumes "\<forall>v \<in> set vs. index_value env v" "map (\<lambda>v. encode_value env v None) vs = map Inr ks"
  shows "split_compound (compound_join ks) (length vs) = Some ks"
proof -
  have "list_all2 delimits (replicate (length vs) value_len) ks"
    using assms
  proof (induction vs arbitrary: ks)
    case (Cons v vs)
    then show ?case using value_len_encode by (cases ks) (auto simp: index_value_def)
  qed simp
  then show ?thesis by (simp add: split_compound_with split_with_join)
qed

theorem split_compound_join_witness:
  "split_compound (compound_join [[3, 65, 127, 254, 0, 255], [4, 97]]) 2 = Some [[3, 65, 127, 254, 0, 255], [4, 97]]"
proof -
  have "\<forall>v \<in> set [Int32 (-99), String (lit ''a'')]. index_value store_env v" by code_simp
  moreover have "map (\<lambda>v. encode_value store_env v None) [Int32 (-99), String (lit ''a'')] = map Inr [[3, 65, 127, 254, 0, 255], [4, 97]]" by code_simp
  ultimately have "split_compound (compound_join [[3, 65, 127, 254, 0, 255], [4, 97]]) (length [Int32 (-99), String (lit ''a'')])
      = Some [[3, 65, 127, 254, 0, 255], [4, 97]]"
    by (rule split_compound_join)
  moreover have "length [Int32 (-99), String (lit ''a'')] = 2" by simp
  ultimately show ?thesis by (simp only:)
qed

text \<open>A regular expression whose pattern is not UTF-8 does not delimit itself, against what the sources state
  of every encoding: alone in an index its key has no readable length, and in a compound index reading its key takes the
  next field with it.\<close>

theorem regex_carrier_not_delimited:
  "let v = raw_text 0x0B [0xC3, 0x28, 0x00, 0x00]; k = projr (encode_value store_env v None)
   in key_ok v \<and> value_len k = None \<and> value_len (k @ COMPOUND_SEP @ [4, 97]) = Some (length (k @ COMPOUND_SEP @ [4, 97]))"
  by code_simp

text \<open>two documents that hold MinKey and undefined under different names are ordered one way by the comparator and
  the other way by their keys, which give both values the same rank byte.\<close>

theorem minkey_undefined_divergence:
  "let v = Document [(lit ''b'', MinKey)]; w = Document [(lit ''a'', Undefined)]
   in cmp store_env v w = Less
      \<and> cmp_of (projr (encode_value store_env v None)) (projr (encode_value store_env w None)) = Greater"
  by code_simp

end
