(* ===== verification/Paths.thy ===== *)
theory Paths
  imports Bson_Model
begin

text \<open>
  \<open>secantus-core/src/paths.rs\<close>: dotted paths. Reading (\<open>get_path\<close>), writing (\<open>set_path\<close>,
  \<open>unset_path\<close>), what blocks a write (\<open>path_block\<close>), and the two walks through arrays that
  give an index or a sort its values (\<open>get_path_values\<close>, \<open>sort_path_values\<close>).

  The sources mutate a document in place; the model returns the changed document. A path
  has at least one component (\<open>str::split\<close> yields one for the empty string), so the cases
  for no component are never reached.
\<close>

section \<open>Definitions\<close>

definition path_parts :: "rstr \<Rightarrow> rstr list" where
  "path_parts path = split_on 46 path"

definition is_digits :: "rstr \<Rightarrow> bool" where
  "is_digits s \<longleftrightarrow> s \<noteq> [] \<and> list_all is_ascii_digit s"

text \<open>\<open>is_digits(part)\<close>, \<open>part.parse::<usize>()\<close> and \<open>arr.get(idx)\<close>.\<close>

definition array_slot :: "bson list \<Rightarrow> rstr \<Rightarrow> nat option" where
  "array_slot arr part =
     (if \<not> is_digits part then None
      else (case parse_usize part of
              None \<Rightarrow> None
            | Some idx \<Rightarrow> if idx < length arr then Some idx else None))"

subsection \<open>Reading\<close>

fun get_in_doc :: "document \<Rightarrow> rstr list \<Rightarrow> bson option"
  and get_in_bson :: "bson \<Rightarrow> rstr list \<Rightarrow> bson option" where
  "get_in_doc d [] = None"
| "get_in_doc d (p # ps) =
     (case doc_get d p of
        None \<Rightarrow> None
      | Some child \<Rightarrow> if ps = [] then Some child else get_in_bson child ps)"
| "get_in_bson cur parts =
     (case (cur, parts) of
        (Document d, _) \<Rightarrow> get_in_doc d parts
      | (Array arr, p # ps) \<Rightarrow>
          (case array_slot arr p of
             None \<Rightarrow> None
           | Some idx \<Rightarrow> if ps = [] then Some (arr ! idx) else get_in_bson (arr ! idx) ps)
      | _ \<Rightarrow> None)"

definition get_path :: "document \<Rightarrow> rstr \<Rightarrow> bson option" where
  "get_path doc path = get_in_doc doc (path_parts path)"

definition has_path :: "document \<Rightarrow> rstr \<Rightarrow> bool" where
  "has_path doc path \<longleftrightarrow> get_path doc path \<noteq> None"

definition index_component :: "rstr \<Rightarrow> nat option" where
  "index_component part =
     (if \<not> is_digits part \<or> (1 < length part \<and> strip_prefix [48] part \<noteq> None) then None
      else parse_usize part)"

subsection \<open>Walks through arrays\<close>

definition MISSING_IN_ELEMENT :: bson where
  "MISSING_IN_ELEMENT = Null"

definition opt_list :: "'a option \<Rightarrow> 'a list" where
  "opt_list x = (case x of None \<Rightarrow> [] | Some y \<Rightarrow> [y])"

text \<open>One component of \<open>sort_path_values\<close>, applied to one value reached so far.\<close>

definition sort_step :: "rstr \<Rightarrow> bson \<Rightarrow> (bson \<times> bool) list" where
  "sort_step part cur =
     (case cur of
        Document d \<Rightarrow> map (\<lambda>v. (v, False)) (opt_list (doc_get d part))
      | Array arr \<Rightarrow>
          (case array_slot arr part of Some i \<Rightarrow> [(arr ! i, True)] | None \<Rightarrow> [])
          @ concat (map (\<lambda>elem.
              (case elem of
                 Document d \<Rightarrow>
                   (case doc_get d part of
                      Some v \<Rightarrow> [(v, False)]
                    | None \<Rightarrow> if \<not> is_digits part then [(MISSING_IN_ELEMENT, False)] else [])
               | _ \<Rightarrow> if \<not> is_digits part then [(MISSING_IN_ELEMENT, False)] else [])) arr)
      | _ \<Rightarrow> [])"

fun sort_walk :: "(bson \<times> bool) list \<Rightarrow> rstr list \<Rightarrow> (bson \<times> bool) list" where
  "sort_walk current [] = current"
| "sort_walk current (p # ps) = sort_walk (concat (map (\<lambda>(cur, _). sort_step p cur) current)) ps"

definition sort_path_values :: "document \<Rightarrow> rstr \<Rightarrow> (bson \<times> bool) list" where
  "sort_path_values doc path =
     (case path_parts path of
        [] \<Rightarrow> []
      | p # ps \<Rightarrow> sort_walk (map (\<lambda>v. (v, False)) (opt_list (doc_get doc p))) ps)"

definition values_step :: "rstr \<Rightarrow> bson \<Rightarrow> bson list" where
  "values_step part cur =
     (case cur of
        Document d \<Rightarrow> opt_list (doc_get d part)
      | Array arr \<Rightarrow>
          (case array_slot arr part of Some i \<Rightarrow> [arr ! i] | None \<Rightarrow> [])
          @ concat (map (\<lambda>elem. case elem of Document d \<Rightarrow> opt_list (doc_get d part) | _ \<Rightarrow> []) arr)
      | _ \<Rightarrow> [])"

definition is_array :: "bson \<Rightarrow> bool" where
  "is_array v = (case v of Array _ \<Rightarrow> True | _ \<Rightarrow> False)"

fun values_walk :: "bson list \<Rightarrow> bool \<Rightarrow> rstr list \<Rightarrow> bson list \<times> bool" where
  "values_walk current descended [] = (current, descended)"
| "values_walk current descended (p # ps) =
     values_walk (concat (map (values_step p) current)) (descended \<or> list_ex is_array current) ps"

definition get_path_values :: "document \<Rightarrow> rstr \<Rightarrow> bson list \<times> bool" where
  "get_path_values doc path =
     (case path_parts path of
        [] \<Rightarrow> ([], False)
      | p # ps \<Rightarrow> values_walk (opt_list (doc_get doc p)) False ps)"

subsection \<open>Sort paths with two readings\<close>

function ambiguity_walk :: "bson \<Rightarrow> rstr list \<Rightarrow> (rstr \<times> bson list) option" where
  "ambiguity_walk current [] = None"
| "ambiguity_walk current (part # tail) =
     (case current of
        Document d \<Rightarrow>
          (case doc_get d part of None \<Rightarrow> None | Some v \<Rightarrow> ambiguity_walk v tail)
      | Array items \<Rightarrow>
          (let index = (case index_component part of
                          Some i \<Rightarrow> if i < length items then Some i else None
                        | None \<Rightarrow> None);
               named = concat (map (\<lambda>e. case e of Document d \<Rightarrow> opt_list (doc_get d part) | _ \<Rightarrow> []) items)
           in if index \<noteq> None \<and> named \<noteq> [] then Some (part, items)
              else case (case index of Some i \<Rightarrow> ambiguity_walk (items ! i) tail | None \<Rightarrow> None) of
                     Some hit \<Rightarrow> Some hit
                   | None \<Rightarrow>
                       (case concat (map (\<lambda>v. opt_list (ambiguity_walk v tail)) named) of
                          [] \<Rightarrow> None
                        | hit # _ \<Rightarrow> Some hit))
      | _ \<Rightarrow> None)"
  by pat_completeness auto
termination by (relation "measure (\<lambda>(c, ps). length ps)") auto

definition ambiguous_sort_path :: "document \<Rightarrow> rstr \<Rightarrow> (rstr \<times> bson list) option" where
  "ambiguous_sort_path doc path =
     (case path_parts path of
        [] \<Rightarrow> None
      | p # ps \<Rightarrow> (case doc_get doc p of None \<Rightarrow> None | Some v \<Rightarrow> ambiguity_walk v ps))"

subsection \<open>What blocks a write\<close>

fun block_walk :: "rstr option \<Rightarrow> bson \<Rightarrow> rstr list \<Rightarrow> (rstr option \<times> bson \<times> rstr) option" where
  "block_walk last_key cur [] = None"
| "block_walk last_key cur (part # rest) =
     (let is_leaf = (rest = [])
      in case cur of
           Document d \<Rightarrow>
             (if \<not> doc_contains_key d part \<or> is_leaf then None
              else block_walk (Some part) (the (doc_get d part)) rest)
         | Array a \<Rightarrow>
             (if \<not> is_digits part then Some (last_key, cur, part)
              else case parse_usize part of
                     None \<Rightarrow> Some (last_key, cur, part)
                   | Some idx \<Rightarrow>
                       if length a \<le> idx \<or> is_leaf then None
                       else block_walk (Some part) (a ! idx) rest)
         | _ \<Rightarrow> Some (last_key, cur, part))"

definition path_block :: "document \<Rightarrow> rstr \<Rightarrow> (rstr option \<times> bson \<times> rstr) option" where
  "path_block doc path =
     (case path_parts path of
        p # q # ps \<Rightarrow>
          (case doc_get doc p of Some v \<Rightarrow> block_walk (Some p) v (q # ps) | None \<Rightarrow> None)
      | _ \<Rightarrow> None)"

subsection \<open>Writing\<close>

definition MAX_LIST_GROW_INDEX :: nat where
  "MAX_LIST_GROW_INDEX = 100000"

text \<open>\<open>while arr.len() <= idx { arr.push(Null) }; arr[idx] = value\<close>\<close>

definition grow_set :: "bson list \<Rightarrow> nat \<Rightarrow> bson \<Rightarrow> bson list" where
  "grow_set arr idx v = (arr @ replicate (Suc idx - length arr) Null)[idx := v]"

text \<open>A call on a part of the document, in place: whether it is refused or not, what it left of
  the part is in the whole. A refusal (\<open>Inl\<close>) carries the value as the call left it.\<close>

definition in_place :: "('a \<Rightarrow> 'b) \<Rightarrow> 'a + 'a \<Rightarrow> 'b + 'b" where
  "in_place f r = (case r of Inl x \<Rightarrow> Inl (f x) | Inr x \<Rightarrow> Inr (f x))"

fun set_in_doc :: "document \<Rightarrow> rstr list \<Rightarrow> bson \<Rightarrow> document + document"
  and set_in_bson :: "bson \<Rightarrow> rstr list \<Rightarrow> bson \<Rightarrow> bson + bson"
  and set_in_array :: "bson list \<Rightarrow> rstr list \<Rightarrow> bson \<Rightarrow> bson list + bson list" where
  "set_in_doc d [] value = Inr d"
| "set_in_doc d (head # rest) value =
     (if rest = [] then Inr (doc_insert d head value)
      else let d1 = (if \<not> doc_contains_key d head then doc_insert d head (Document []) else d)
           in in_place (doc_insert d1 head) (set_in_bson (the (doc_get d1 head)) rest value))"
| "set_in_bson cur parts value =
     (case cur of
        Document d \<Rightarrow> in_place Document (set_in_doc d parts value)
      | Array arr \<Rightarrow> in_place Array (set_in_array arr parts value)
      | _ \<Rightarrow> Inr cur)"
| "set_in_array arr [] value = Inr arr"
| "set_in_array arr (head # rest) value =
     (if \<not> is_digits head then Inr arr
      else case parse_usize head of
             None \<Rightarrow> Inl arr
           | Some idx \<Rightarrow>
               if rest = [] then
                 (if MAX_LIST_GROW_INDEX < idx then Inl arr else Inr (grow_set arr idx value))
               else if idx < length arr then
                 in_place (\<lambda>child. arr[idx := child]) (set_in_bson (arr ! idx) rest value)
               else Inr arr)"

definition set_path :: "document \<Rightarrow> rstr \<Rightarrow> bson \<Rightarrow> document + document" where
  "set_path doc path value = set_in_doc doc (path_parts path) value"

fun unset_in_doc :: "document \<Rightarrow> rstr list \<Rightarrow> document"
  and unset_in_bson :: "bson \<Rightarrow> rstr list \<Rightarrow> bson" where
  "unset_in_doc d [] = d"
| "unset_in_doc d (head # rest) =
     (if rest = [] then doc_remove d head
      else case doc_get d head of
             Some child \<Rightarrow> doc_insert d head (unset_in_bson child rest)
           | None \<Rightarrow> d)"
| "unset_in_bson cur parts =
     (case (cur, parts) of
        (Document d, _) \<Rightarrow> Document (unset_in_doc d parts)
      | (Array arr, p # ps) \<Rightarrow>
          (case array_slot arr p of
             None \<Rightarrow> cur
           | Some idx \<Rightarrow>
               Array (arr[idx := (if ps = [] then Null else unset_in_bson (arr ! idx) ps)]))
      | _ \<Rightarrow> cur)"

definition unset_path :: "document \<Rightarrow> rstr \<Rightarrow> document" where
  "unset_path doc path = unset_in_doc doc (path_parts path)"

section \<open>Where a write goes\<close>

text \<open>
  The walk of \<open>set_path\<close> reaches a slot it can write: every intermediate exists or can be
  made, and a final index is within the growth cap.
\<close>

fun viable_doc :: "document \<Rightarrow> rstr list \<Rightarrow> bool"
  and viable_bson :: "bson \<Rightarrow> rstr list \<Rightarrow> bool" where
  "viable_doc d [] = False"
| "viable_doc d (head # rest) =
     (rest = [] \<or> (case doc_get d head of None \<Rightarrow> True | Some child \<Rightarrow> viable_bson child rest))"
| "viable_bson cur parts =
     (case (cur, parts) of
        (Document d, _) \<Rightarrow> viable_doc d parts
      | (Array arr, head # rest) \<Rightarrow>
          is_digits head \<and>
          (case parse_usize head of
             None \<Rightarrow> False
           | Some idx \<Rightarrow>
               if rest = [] then idx \<le> MAX_LIST_GROW_INDEX
               else idx < length arr \<and> viable_bson (arr ! idx) rest)
      | _ \<Rightarrow> False)"

text \<open>The walks by the kind of value they stand on.\<close>

definition is_container :: "bson \<Rightarrow> bool" where
  "is_container v = (case v of Document _ \<Rightarrow> True | Array _ \<Rightarrow> True | _ \<Rightarrow> False)"

lemma viable_bson_simps [simp]:
  "viable_bson (Document d) ps = viable_doc d ps"
  "viable_bson (Array arr) [] = False"
  "viable_bson (Array arr) (head # rest) =
     (is_digits head \<and>
      (case parse_usize head of
         None \<Rightarrow> False
       | Some idx \<Rightarrow>
           if rest = [] then idx \<le> MAX_LIST_GROW_INDEX
           else idx < length arr \<and> viable_bson (arr ! idx) rest))"
  "\<not> is_container v \<Longrightarrow> \<not> viable_bson v ps"
  by (simp_all add: is_container_def split: bson.splits)

lemma get_in_bson_simps [simp]:
  "get_in_bson (Document d) ps = get_in_doc d ps"
  "get_in_bson (Array arr) [] = None"
  "get_in_bson (Array arr) (p # ps) =
     (case array_slot arr p of
        None \<Rightarrow> None
      | Some idx \<Rightarrow> if ps = [] then Some (arr ! idx) else get_in_bson (arr ! idx) ps)"
  "\<not> is_container v \<Longrightarrow> get_in_bson v ps = None"
  by (simp_all add: is_container_def split: bson.splits)

lemma in_place_simps [simp]: "in_place f (Inl x) = Inl (f x)" "in_place f (Inr x) = Inr (f x)"
  by (simp_all add: in_place_def)

lemma in_place_Inr_iff: "in_place f r = Inr y \<longleftrightarrow> (\<exists>x. r = Inr x \<and> y = f x)"
  by (cases r) auto

lemma set_in_bson_simps [simp]:
  "set_in_bson (Document d) ps v = in_place Document (set_in_doc d ps v)"
  "set_in_bson (Array arr) ps v = in_place Array (set_in_array arr ps v)"
  "\<not> is_container c \<Longrightarrow> set_in_bson c ps v = Inr c"
  by (simp_all add: is_container_def split: bson.splits)

lemma unset_in_bson_simps [simp]:
  "unset_in_bson (Document d) ps = Document (unset_in_doc d ps)"
  "unset_in_bson (Array arr) [] = Array arr"
  "unset_in_bson (Array arr) (p # ps) =
     (case array_slot arr p of
        None \<Rightarrow> Array arr
      | Some idx \<Rightarrow> Array (arr[idx := (if ps = [] then Null else unset_in_bson (arr ! idx) ps)]))"
  "\<not> is_container v \<Longrightarrow> unset_in_bson v ps = v"
  by (simp_all add: is_container_def split: bson.splits)

declare viable_bson.simps [simp del] get_in_bson.simps [simp del] set_in_bson.simps [simp del]
  unset_in_bson.simps [simp del]

lemma container_cases:
  obtains (Document) d where "c = Document d" | (Array) arr where "c = Array arr" | (leaf) "\<not> is_container c"
  by (cases c) (auto simp: is_container_def)

lemma doc_insert_id: "doc_get d k = Some v \<Longrightarrow> doc_insert d k v = d"
  by (induction d k v rule: doc_insert.induct) (auto split: if_splits)

lemma doc_contains_get: "doc_contains_key d k \<longleftrightarrow> doc_get d k \<noteq> None"
  by (simp add: doc_contains_key_def)

lemma nth_grow_set [simp]: "grow_set arr idx v ! idx = v" "idx < length (grow_set arr idx v)"
  by (simp_all add: grow_set_def)

lemma array_slot_Some: "array_slot arr p = Some i \<longleftrightarrow> is_digits p \<and> parse_usize p = Some i \<and> i < length arr"
  by (auto simp: array_slot_def split: option.splits)

lemma viable_fresh: "rest \<noteq> [] \<Longrightarrow> viable_bson (Document []) rest"
  by (cases rest) simp_all

text \<open>The document \<open>set_in_doc\<close> descends into, with the missing intermediate made.\<close>

definition with_child :: "document \<Rightarrow> rstr \<Rightarrow> document" where
  "with_child d head = (if \<not> doc_contains_key d head then doc_insert d head (Document []) else d)"

lemma get_with_child:
  "doc_get (with_child d head) k = (if k = head \<and> doc_get d head = None then Some (Document []) else doc_get d k)"
  by (auto simp: with_child_def doc_contains_get bson_doc.get_insert)

lemma set_in_doc_step:
  "rest \<noteq> [] \<Longrightarrow> set_in_doc d (head # rest) v =
     in_place (doc_insert (with_child d head) head) (set_in_bson (the (doc_get (with_child d head) head)) rest v)"
  by (simp add: with_child_def Let_def)

lemma set_viable:
  "viable_doc d ps \<Longrightarrow> \<exists>d'. set_in_doc d ps v = Inr d' \<and> get_in_doc d' ps = Some v"
  "viable_bson c ps \<Longrightarrow> \<exists>c'. set_in_bson c ps v = Inr c' \<and> get_in_bson c' ps = Some v"
  "viable_bson (Array arr) ps \<Longrightarrow> \<exists>arr'. set_in_array arr ps v = Inr arr' \<and> get_in_bson (Array arr') ps = Some v"
proof (induction d ps v and c ps v and arr ps v rule: set_in_doc_set_in_bson_set_in_array.induct)
  case (2 d head rest v)
  show ?case
  proof (cases "rest = []")
    case True
    then show ?thesis by (simp add: bson_doc.get_insert_same)
  next
    case rest: False
    let ?c = "the (doc_get (with_child d head) head)"
    have "viable_bson ?c rest"
      using "2.prems" rest viable_fresh [OF rest] by (auto simp: get_with_child split: option.splits)
    with "2.IH" rest obtain c' where "set_in_bson ?c rest v = Inr c'" "get_in_bson c' rest = Some v"
      by (auto simp: with_child_def)
    then show ?thesis using rest by (simp add: set_in_doc_step bson_doc.get_insert_same del: set_in_doc.simps)
  qed
next
  case (3 c ps v)
  then show ?case by (cases c rule: container_cases) auto
next
  case (5 arr head rest v)
  then show ?case
    by (cases "rest = []") (fastforce simp: array_slot_def split: option.splits if_splits)+
qed simp_all

lemma set_not_viable:
  "ps \<noteq> [] \<Longrightarrow> \<not> viable_doc d ps \<Longrightarrow> set_in_doc d ps v = Inr d \<or> set_in_doc d ps v = Inl d"
  "ps \<noteq> [] \<Longrightarrow> \<not> viable_bson c ps \<Longrightarrow> set_in_bson c ps v = Inr c \<or> set_in_bson c ps v = Inl c"
  "ps \<noteq> [] \<Longrightarrow> \<not> viable_bson (Array arr) ps \<Longrightarrow> set_in_array arr ps v = Inr arr \<or> set_in_array arr ps v = Inl arr"
proof (induction d ps v and c ps v and arr ps v rule: set_in_doc_set_in_bson_set_in_array.induct)
  case (2 d head rest v)
  then have rest: "rest \<noteq> []" and "\<exists>c. doc_get d head = Some c \<and> \<not> viable_bson c rest"
    by (auto split: option.splits)
  then obtain c where c: "doc_get d head = Some c" "\<not> viable_bson c rest" by blast
  then have "with_child d head = d" by (simp add: with_child_def doc_contains_get)
  moreover have "set_in_bson c rest v = Inr c \<or> set_in_bson c rest v = Inl c"
    using "2.IH" rest c by (simp add: doc_contains_get)
  ultimately show ?case
    using rest c by (auto simp: set_in_doc_step doc_insert_id simp del: set_in_doc.simps)
next
  case (3 c ps v)
  then show ?case by (cases c rule: container_cases) auto
next
  case (5 arr head rest v)
  then show ?case by (auto split: option.splits if_splits)
qed simp_all

text \<open>What \<open>path_block\<close> reports is never written to.\<close>

lemma block_walk_not_viable: "block_walk k cur ps = Some b \<Longrightarrow> \<not> viable_bson cur ps"
proof (induction ps arbitrary: k cur)
  case (Cons part rest)
  then show ?case
    by (cases cur rule: container_cases)
       (auto simp: doc_contains_get is_container_def split: if_splits option.splits bson.splits)
qed simp

section \<open>What a write leaves alone\<close>

text \<open>Two paths that part ways: at the first differing component, not two spellings of one index.\<close>

fun diverge :: "rstr list \<Rightarrow> rstr list \<Rightarrow> bool" where
  "diverge (p # ps) (q # qs) =
     (if p = q then diverge ps qs
      else \<not> (is_digits p \<and> is_digits q \<and> parse_usize p = parse_usize q))"
| "diverge _ _ = False"

text \<open>A read that may only have gained one of the nulls that pad a grown array.\<close>

definition same_or_padded :: "bson option \<Rightarrow> bson option \<Rightarrow> bool" where
  "same_or_padded before after \<longleftrightarrow> after = before \<or> (before = None \<and> after = Some Null)"

lemma get_grow_set:
  assumes "i \<noteq> idx"
  shows "(if i < length (grow_set arr idx v) then Some (grow_set arr idx v ! i) else None)
       = (if i < length arr then Some (arr ! i) else if i < idx then Some Null else None)"
  using assms by (auto simp: grow_set_def nth_append)

lemma diverge_nonempty: "diverge ps qs \<Longrightarrow> ps \<noteq> [] \<and> qs \<noteq> []"
  by (cases ps; cases qs) auto

lemma get_fresh [simp]: "get_in_doc [] qs = None"
  by (cases qs) simp_all

lemma get_array_other:
  assumes "\<not> (is_digits p \<and> is_digits q \<and> parse_usize p = parse_usize q)" "is_digits p" "parse_usize p = Some idx"
  shows "same_or_padded (get_in_bson (Array arr) (q # qs)) (get_in_bson (Array (grow_set arr idx v)) (q # qs))"
    and "get_in_bson (Array (arr[idx := w])) (q # qs) = get_in_bson (Array arr) (q # qs)"
proof -
  have ne: "j \<noteq> idx" if "is_digits q" "parse_usize q = Some j" for j using assms that by auto
  have null: "get_in_bson Null qs = None" by (simp add: is_container_def)
  show "same_or_padded (get_in_bson (Array arr) (q # qs)) (get_in_bson (Array (grow_set arr idx v)) (q # qs))"
  proof (cases "if is_digits q then parse_usize q else None")
    case None
    then have "array_slot a q = None" for a by (auto simp: array_slot_def split: if_splits)
    then show ?thesis by (simp add: same_or_padded_def)
  next
    case (Some j)
    then have q: "is_digits q" "parse_usize q = Some j" by (auto split: if_splits)
    from get_grow_set [OF ne [OF q], of arr v] null show ?thesis
      by (auto simp: q array_slot_def same_or_padded_def split: if_splits)
  qed
  show "get_in_bson (Array (arr[idx := w])) (q # qs) = get_in_bson (Array arr) (q # qs)"
    using ne by (auto simp: array_slot_def split: option.splits)
qed

lemma set_frame:
  "diverge ps qs \<Longrightarrow> set_in_doc d ps v = Inr d' \<Longrightarrow> same_or_padded (get_in_doc d qs) (get_in_doc d' qs)"
  "diverge ps qs \<Longrightarrow> set_in_bson c ps v = Inr c' \<Longrightarrow> same_or_padded (get_in_bson c qs) (get_in_bson c' qs)"
  "diverge ps qs \<Longrightarrow> set_in_array arr ps v = Inr arr' \<Longrightarrow>
     same_or_padded (get_in_bson (Array arr) qs) (get_in_bson (Array arr') qs)"
proof (induction d ps v and c ps v and arr ps v arbitrary: d' qs and c' qs and arr' qs
    rule: set_in_doc_set_in_bson_set_in_array.induct)
  case (2 d head rest v)
  then obtain q qs' where qs: "qs = q # qs'" by (cases qs) auto
  show ?case
  proof (cases "rest = [] \<or> q \<noteq> head")
    case True
    then have "q \<noteq> head" using "2.prems"(1) by (auto simp: qs dest: diverge_nonempty)
    then have "doc_get d' q = doc_get d q"
      using "2.prems"(2) by (auto simp: Let_def bson_doc.get_insert in_place_Inr_iff split: if_splits)
    then show ?thesis by (simp add: qs same_or_padded_def)
  next
    case False
    then have dv: "rest \<noteq> []" "q = head" "diverge rest qs'" using "2.prems"(1) by (auto simp: qs)
    let ?c = "the (doc_get (with_child d head) head)"
    obtain c' where c': "set_in_bson ?c rest v = Inr c'" "d' = doc_insert (with_child d head) head c'"
      using "2.prems"(2) dv by (auto simp: set_in_doc_step in_place_Inr_iff simp del: set_in_doc.simps)
    then have "same_or_padded (get_in_bson ?c qs') (get_in_bson c' qs')"
      using "2.IH" [OF dv(1) refl dv(3)] by (simp add: with_child_def)
    then show ?thesis
      using dv diverge_nonempty [OF dv(3)] by (auto simp: qs c'(2) bson_doc.get_insert get_with_child split: option.splits)
  qed
next
  case (3 c ps v)
  then show ?case by (cases c rule: container_cases) (fastforce simp: in_place_Inr_iff same_or_padded_def)+
next
  case (5 arr head rest v)
  then obtain q qs' where qs: "qs = q # qs'" by (cases qs) auto
  show ?case
  proof (cases "is_digits head \<and> (\<exists>idx. parse_usize head = Some idx \<and> (rest = [] \<or> idx < length arr))")
    case False
    then show ?thesis using "5.prems"(2) by (auto simp: same_or_padded_def split: option.splits if_splits)
  next
    case True
    then obtain idx where idx: "is_digits head" "parse_usize head = Some idx" "rest = [] \<or> idx < length arr" by blast
    show ?thesis
    proof (cases "q = head")
      case True
      then have dv: "diverge rest qs'" "rest \<noteq> []" "qs' \<noteq> []" using "5.prems"(1) diverge_nonempty by (auto simp: qs)
      obtain c' where c': "set_in_bson (arr ! idx) rest v = Inr c'" "arr' = arr[idx := c']"
        using "5.prems"(2) idx dv by (auto simp: in_place_Inr_iff)
      have "same_or_padded (get_in_bson (arr ! idx) qs') (get_in_bson c' qs')"
        using "5.IH" idx dv c' by auto
      then show ?thesis using True idx dv by (simp add: qs c' array_slot_def)
    next
      case False
      then have other: "\<not> (is_digits head \<and> is_digits q \<and> parse_usize head = parse_usize q)"
        using "5.prems"(1) by (simp add: qs)
      show ?thesis
        using "5.prems"(2) idx get_array_other [OF other idx(1,2)]
        by (auto simp: qs in_place_Inr_iff same_or_padded_def simp del: get_in_bson_simps split: if_splits)
    qed
  qed
qed (auto simp: same_or_padded_def)

section \<open>Removing\<close>

lemma doc_remove_absent: "doc_get d k = None \<Longrightarrow> doc_remove d k = d"
  by (induction d k rule: doc_remove.induct) (auto split: if_splits)

text \<open>Every document inside a value has distinct names.\<close>

fun wf_bson :: "bson \<Rightarrow> bool" where
  "wf_bson (Document d) = (doc_keys_distinct d \<and> list_all (\<lambda>(k, v). wf_bson v) d)"
| "wf_bson (Array a) = list_all wf_bson a"
| "wf_bson _ = True"

lemma wf_get: "list_all (\<lambda>(k, v). wf_bson v) d \<Longrightarrow> doc_get d k = Some v \<Longrightarrow> wf_bson v"
  by (induction d k rule: doc_get.induct) (auto split: if_splits)

lemma wf_insert: "list_all (\<lambda>(k, v). wf_bson v) d \<Longrightarrow> wf_bson v \<Longrightarrow> list_all (\<lambda>(k, v). wf_bson v) (doc_insert d k v)"
  by (induction d k v rule: doc_insert.induct) auto

lemma wf_remove: "list_all (\<lambda>(k, v). wf_bson v) d \<Longrightarrow> list_all (\<lambda>(k, v). wf_bson v) (doc_remove d k)"
  by (induction d k rule: doc_remove.induct) auto

lemma wf_doc_insert: "wf_bson (Document d) \<Longrightarrow> wf_bson v \<Longrightarrow> wf_bson (Document (doc_insert d k v))"
  using wf_insert bson_doc.invar_insert by simp

lemma wf_with_child: "wf_bson (Document d) \<Longrightarrow> wf_bson (Document (with_child d head))"
  using wf_doc_insert [of d "Document []" head] by (auto simp: with_child_def doc_keys_distinct_def [of "[]"])

lemma wf_set:
  "wf_bson (Document d) \<Longrightarrow> wf_bson v \<Longrightarrow> set_in_doc d ps v = Inr d' \<Longrightarrow> wf_bson (Document d')"
  "wf_bson c \<Longrightarrow> wf_bson v \<Longrightarrow> set_in_bson c ps v = Inr c' \<Longrightarrow> wf_bson c'"
  "wf_bson (Array arr) \<Longrightarrow> wf_bson v \<Longrightarrow> set_in_array arr ps v = Inr arr' \<Longrightarrow> wf_bson (Array arr')"
proof (induction d ps v and c ps v and arr ps v arbitrary: d' and c' and arr'
    rule: set_in_doc_set_in_bson_set_in_array.induct)
  case (2 d head rest v)
  show ?case
  proof (cases "rest = []")
    case True
    then show ?thesis using 2 wf_doc_insert by auto
  next
    case False
    let ?c = "the (doc_get (with_child d head) head)"
    obtain c' where c': "set_in_bson ?c rest v = Inr c'" "d' = doc_insert (with_child d head) head c'"
      using "2.prems"(3) False by (auto simp: set_in_doc_step in_place_Inr_iff simp del: set_in_doc.simps)
    have "doc_get (with_child d head) head = Some ?c" by (auto simp: get_with_child)
    then have "wf_bson ?c" using wf_get [of "with_child d head" head ?c] wf_with_child [OF "2.prems"(1), of head] by simp
    then have "wf_bson c'" using "2.IH" False "2.prems"(2) c'(1) by (auto simp: with_child_def)
    then show ?thesis unfolding c'(2) by (rule wf_doc_insert [OF wf_with_child [OF "2.prems"(1)]])
  qed
next
  case (3 c ps v)
  show ?case
  proof (cases c rule: container_cases)
    case (Document d)
    with "3.prems"(3) obtain d' where "set_in_doc d ps v = Inr d'" "c' = Document d'" by (auto simp: in_place_Inr_iff)
    with "3.IH"(2) [OF Document _ "3.prems"(2)] "3.prems"(1) Document show ?thesis by blast
  next
    case (Array arr)
    with "3.prems"(3) obtain arr' where "set_in_array arr ps v = Inr arr'" "c' = Array arr'" by (auto simp: in_place_Inr_iff)
    with "3.IH"(1) [OF Array _ "3.prems"(2)] "3.prems"(1) Array show ?thesis by blast
  next
    case leaf
    then show ?thesis using "3.prems" by simp
  qed
next
  case (5 arr head rest v)
  have upd: "list_all wf_bson (xs[i := w])" if "list_all wf_bson xs" "wf_bson w" for xs i w
    using that by (auto simp: list_all_iff dest!: subsetD [OF set_update_subset_insert])
  have grow: "list_all wf_bson (grow_set arr idx v)" if "list_all wf_bson arr" "wf_bson v" for idx
    unfolding grow_set_def using that by (intro upd) (auto simp: list_all_iff)
  consider "arr' = arr" | idx where "arr' = grow_set arr idx v"
    | idx c' where "is_digits head" "parse_usize head = Some idx" "rest \<noteq> []" "idx < length arr"
        "set_in_bson (arr ! idx) rest v = Inr c'" "arr' = arr[idx := c']"
    using "5.prems"(3) by (auto simp: in_place_Inr_iff split: if_splits option.splits)
  then show ?case
  proof cases
    case (3 idx c')
    then have "wf_bson (arr ! idx)" using "5.prems"(1) by (simp add: list_all_length)
    with 3 "5.IH" "5.prems"(2) have "wf_bson c'" by blast
    with 3 upd "5.prems"(1) show ?thesis by simp
  qed (use "5.prems"(1,2) grow in simp_all)
qed auto

lemma wf_unset:
  "wf_bson (Document d) \<Longrightarrow> wf_bson (Document (unset_in_doc d ps))"
  "wf_bson c \<Longrightarrow> wf_bson (unset_in_bson c ps)"
proof (induction d ps and c ps rule: unset_in_doc_unset_in_bson.induct)
  case (2 d head rest)
  show ?case
  proof (cases "rest = []")
    case True
    then show ?thesis using "2.prems" wf_remove bson_doc.invar_remove by simp
  next
    case False
    then show ?thesis
    proof (cases "doc_get d head")
      case (Some child)
      have "wf_bson child" using wf_get [OF _ Some] "2.prems" by simp
      then have "wf_bson (unset_in_bson child rest)" using "2.IH" False Some by simp
      from wf_doc_insert [OF "2.prems" this] show ?thesis by (simp add: False Some)
    qed (use "2.prems" False in simp)
  qed
next
  case (3 c ps)
  show ?case
  proof (cases c rule: container_cases)
    case (Array arr)
    then show ?thesis
      using 3 by (cases ps) (auto simp: array_slot_Some list_all_length nth_list_update split: option.splits)
  qed (use 3 in auto)
qed simp

lemma unset_get:
  "wf_bson (Document d) \<Longrightarrow> get_in_doc (unset_in_doc d ps) ps \<in> {None, Some Null}"
  "wf_bson c \<Longrightarrow> ps \<noteq> [] \<Longrightarrow> get_in_bson (unset_in_bson c ps) ps \<in> {None, Some Null}"
proof (induction d ps and c ps rule: unset_in_doc_unset_in_bson.induct)
  case (2 d head rest)
  then show ?case
    by (auto simp: bson_doc.get_remove bson_doc.get_insert wf_get split: option.splits)
next
  case (3 c ps)
  then show ?case
    by (cases c rule: container_cases; cases ps) (auto simp: array_slot_Some list_all_length split: option.splits)
qed simp

lemma unset_absent:
  "get_in_doc d ps = None \<Longrightarrow> unset_in_doc d ps = d"
  "get_in_bson c ps = None \<Longrightarrow> unset_in_bson c ps = c"
proof (induction d ps and c ps rule: unset_in_doc_unset_in_bson.induct)
  case (2 d head rest)
  then show ?case by (auto simp: doc_remove_absent doc_insert_id split: option.splits if_splits)
next
  case (3 c ps)
  then show ?case
    by (cases c rule: container_cases; cases ps) (auto split: option.splits if_splits)
qed simp

section \<open>Walking through arrays\<close>

lemma opt_list_set [simp]: "set (opt_list x) = set_option x"
  by (cases x) (auto simp: opt_list_def)

text \<open>One component of \<open>get_path\<close> is among what the index walk collects.\<close>

lemma get_step_value:
  assumes "get_in_bson c [p] = Some v"
  shows "v \<in> set (values_step p c)"
  using assms
  by (cases c rule: container_cases) (auto simp: values_step_def split: option.splits)

lemma get_in_bson_Cons:
  "ps \<noteq> [] \<Longrightarrow> get_in_bson c (p # ps) = Option.bind (get_in_bson c [p]) (\<lambda>v. get_in_bson v ps)"
  by (cases c rule: container_cases) (auto split: option.splits)

lemma get_in_values_walk:
  "c \<in> set current \<Longrightarrow> get_in_bson c ps = Some v \<Longrightarrow> v \<in> set (fst (values_walk current b ps))"
proof (induction ps arbitrary: c current b)
  case (Cons p ps)
  show ?case
  proof (cases "ps = []")
    case True
    then show ?thesis using Cons.prems get_step_value by auto
  next
    case False
    then obtain w where w: "get_in_bson c [p] = Some w" "get_in_bson w ps = Some v"
      using Cons.prems(2) by (auto simp: get_in_bson_Cons bind_eq_Some_conv)
    have "w \<in> set (concat (map (values_step p) current))" using Cons.prems(1) get_step_value [OF w(1)] by auto
    then show ?thesis using Cons.IH w(2) by simp
  qed
qed (auto simp: get_in_bson.simps split: bson.splits)

text \<open>Without an array on the way, the walk finds what \<open>get_path\<close> does and nothing else.\<close>

lemma values_walk_descended: "snd (values_walk current b ps) = False \<Longrightarrow> \<not> b"
  by (induction ps arbitrary: current b) auto

lemma values_walk_no_array:
  assumes "snd (values_walk (opt_list c) b ps) = False" "ps \<noteq> []"
  shows "fst (values_walk (opt_list c) b ps) = opt_list (Option.bind c (\<lambda>c. get_in_bson c ps))"
  using assms
proof (induction ps arbitrary: c b)
  case (Cons p ps)
  then have "\<not> list_ex is_array (opt_list c)" using values_walk_descended by fastforce
  then have step: "concat (map (values_step p) (opt_list c)) = opt_list (Option.bind c (\<lambda>c. get_in_bson c [p]))"
    by (cases c; cases "the c" rule: container_cases)
       (auto simp: opt_list_def values_step_def is_array_def is_container_def split: option.splits bson.splits)
  show ?case
  proof (cases "ps = []")
    case True
    then show ?thesis using step by simp
  next
    case False
    show ?thesis
      using Cons.IH [of "Option.bind c (\<lambda>c. get_in_bson c [p])"] Cons.prems(1) False
      by (simp add: step get_in_bson_Cons [OF False])
  qed
qed simp

text \<open>The sort walk collects the index walk's values, and nulls for elements that lack the field.\<close>

lemma sort_step_leaf: "\<not> is_container c \<Longrightarrow> sort_step p c = [] \<and> values_step p c = []"
  by (cases c) (simp_all add: sort_step_def values_step_def is_container_def)

lemma un_insert_mono: "S \<subseteq> insert x V \<Longrightarrow> A \<union> S \<subseteq> insert x (A \<union> V)"
  by blast

lemma sort_step_values:
  "set (values_step p c) \<subseteq> fst ` set (sort_step p c)
     \<and> fst ` set (sort_step p c) \<subseteq> insert Null (set (values_step p c))"
proof (cases c rule: container_cases)
  case (Document d)
  then show ?thesis by (cases "doc_get d p") (simp_all add: sort_step_def values_step_def opt_list_def)
next
  case (Array arr)
  let ?v = "\<lambda>e. case e of Document d \<Rightarrow> opt_list (doc_get d p) | _ \<Rightarrow> []"
  let ?s = "\<lambda>e. case e of
      Document d \<Rightarrow> (case doc_get d p of Some v \<Rightarrow> [(v, False)]
                    | None \<Rightarrow> if \<not> is_digits p then [(MISSING_IN_ELEMENT, False)] else [])
    | _ \<Rightarrow> if \<not> is_digits p then [(MISSING_IN_ELEMENT, False)] else []"
  have e: "set (?v e) \<subseteq> fst ` set (?s e) \<and> fst ` set (?s e) \<subseteq> insert Null (set (?v e))" for e
    by (cases e) (auto simp: opt_list_def MISSING_IN_ELEMENT_def split: option.splits)
  have "(\<Union>e \<in> set arr. set (?v e)) \<subseteq> (\<Union>e \<in> set arr. fst ` set (?s e))
      \<and> (\<Union>e \<in> set arr. fst ` set (?s e)) \<subseteq> insert Null (\<Union>e \<in> set arr. set (?v e))"
    using e by blast
  moreover have "set (values_step p c) = (case array_slot arr p of Some i \<Rightarrow> {arr ! i} | None \<Rightarrow> {}) \<union> (\<Union>e \<in> set arr. set (?v e))"
    "fst ` set (sort_step p c) = (case array_slot arr p of Some i \<Rightarrow> {arr ! i} | None \<Rightarrow> {}) \<union> (\<Union>e \<in> set arr. fst ` set (?s e))"
    by (cases "array_slot arr p"; simp add: Array sort_step_def values_step_def image_Un image_UN)+
  ultimately show ?thesis by (simp only: Un_mono [OF subset_refl] un_insert_mono)
next
  case leaf
  then show ?thesis by (simp add: sort_step_leaf)
qed

lemma sort_walk_values:
  assumes "set vs \<subseteq> fst ` set current" "fst ` set current \<subseteq> insert Null (set vs)"
  shows "set (fst (values_walk vs b ps)) \<subseteq> fst ` set (sort_walk current ps)
       \<and> fst ` set (sort_walk current ps) \<subseteq> insert Null (set (fst (values_walk vs b ps)))"
  using assms
proof (induction ps arbitrary: vs current b)
  case (Cons p ps)
  have null: "sort_step p Null = []" by (simp add: sort_step_leaf is_container_def)
  let ?V = "concat (map (values_step p) vs)" and ?S = "concat (map (\<lambda>(cur, _). sort_step p cur) current)"
  have S: "fst ` set ?S = (\<Union>c \<in> fst ` set current. fst ` set (sort_step p c))"
    by (simp add: image_UN case_prod_beta)
  have "set ?V \<subseteq> fst ` set ?S"
  proof -
    have "set ?V \<subseteq> (\<Union>c \<in> set vs. fst ` set (sort_step p c))" using sort_step_values [of p] by (simp add: UN_mono)
    also have "\<dots> \<subseteq> (\<Union>c \<in> fst ` set current. fst ` set (sort_step p c))" using Cons.prems(1) by (rule UN_mono) simp
    finally show ?thesis unfolding S .
  qed
  moreover have "fst ` set ?S \<subseteq> insert Null (set ?V)"
  proof
    fix x assume "x \<in> fst ` set ?S"
    then obtain c where "c \<in> fst ` set current" "x \<in> fst ` set (sort_step p c)" unfolding S by blast
    then have "x \<in> insert Null (set (values_step p c))" "c = Null \<or> c \<in> set vs"
      using Cons.prems(2) sort_step_values [of p c] by blast+
    with \<open>x \<in> fst ` set (sort_step p c)\<close> null have "x \<in> insert Null (set (values_step p c))" "c \<in> set vs" by auto
    then show "x \<in> insert Null (set ?V)" by auto
  qed
  ultimately show ?case using Cons.IH by simp
qed simp

section \<open>Properties\<close>

lemma path_parts_nonempty [simp]: "path_parts path \<noteq> []"
  by (simp add: path_parts_def)

text \<open>C7: \<open>set_path\<close> either writes or does nothing. Where its walk can reach the slot it succeeds and \<open>get_path\<close> then
  reads the value back; otherwise the document is left as it was, whether the call answers or is refused: it is never
  half-written.\<close>

theorem set_path_outcome:
  "if viable_doc doc (path_parts path)
   then (\<exists>doc'. set_path doc path v = Inr doc' \<and> get_path doc' path = Some v)
   else set_path doc path v \<in> {Inr doc, Inl doc}"
  using set_viable(1) [of doc "path_parts path" v] set_not_viable(1) [of "path_parts path" doc v]
  by (auto simp: set_path_def get_path_def)

text \<open>A write leaves every other path alone: reading a path that parts ways with the written one gives what it gave
  before, or a null that pads an array the write grew.\<close>

theorem set_path_frame:
  assumes "diverge (path_parts path) (path_parts other)" "set_path doc path v = Inr doc'"
  shows "get_path doc' other = get_path doc other \<or> (get_path doc other = None \<and> get_path doc' other = Some Null)"
  using set_frame(1) [OF assms(1)] assms(2) by (simp add: set_path_def get_path_def same_or_padded_def)

theorem set_path_frame_witness:
  "get_path (projr (set_path [(lit ''a'', Int32 1), (lit ''b'', Array [])] (lit ''b.2'') Null)) (lit ''a'') = Some (Int32 1)"
proof -
  let ?d = "[(lit ''a'', Int32 1), (lit ''b'', Array [])]"
  have s: "set_path ?d (lit ''b.2'') Null = Inr [(lit ''a'', Int32 1), (lit ''b'', Array [Null, Null, Null])]"
    and g: "get_path ?d (lit ''a'') = Some (Int32 1)" by code_simp+
  have "diverge (path_parts (lit ''b.2'')) (path_parts (lit ''a''))" by code_simp
  from set_path_frame [OF this s] show ?thesis by (simp add: s g)
qed

text \<open>What \<open>path_block\<close> reports really is blocked: a path with a block is never written, the setter leaves the
  document as it was or refuses.\<close>

theorem path_block_sound:
  assumes "path_block doc path = Some b"
  shows "set_path doc path v \<in> {Inr doc, Inl doc}"
proof -
  obtain p q ps where p: "path_parts path = p # q # ps"
    using assms by (auto simp: path_block_def split: list.splits)
  obtain w where "doc_get doc p = Some w" "block_walk (Some p) w (q # ps) = Some b"
    using assms by (auto simp: path_block_def p split: option.splits)
  then have "\<not> viable_doc doc (path_parts path)" using block_walk_not_viable by (simp add: p)
  then show ?thesis using set_not_viable(1) [of "path_parts path" doc v] by (auto simp: set_path_def)
qed

theorem path_block_sound_witness:
  "set_path [(lit ''a'', Int32 1)] (lit ''a.b.c'') Null \<in> {Inr [(lit ''a'', Int32 1)], Inl [(lit ''a'', Int32 1)]}"
proof (rule path_block_sound)
  show "path_block [(lit ''a'', Int32 1)] (lit ''a.b.c'') = Some (Some (lit ''a''), Int32 1, lit ''b'')" by code_simp
qed

text \<open>After \<open>unset_path\<close> the path reads as nothing, or as null where it named an array element; a path that was
  absent leaves the document unchanged.\<close>

theorem unset_path_removes:
  assumes "wf_bson (Document doc)"
  shows "get_path (unset_path doc path) path \<in> {None, Some Null}
       \<and> (get_path doc path = None \<longrightarrow> unset_path doc path = doc)"
  using unset_get(1) [OF assms] unset_absent(1) by (simp add: get_path_def unset_path_def)

theorem unset_path_removes_witness:
  "get_path (unset_path [(lit ''a'', Array [Int32 1, Int32 2])] (lit ''a.1'')) (lit ''a.1'') \<in> {None, Some Null}"
  by (rule unset_path_removes [THEN conjunct1]) code_simp

text \<open>No write makes a field name appear twice: on a document whose names are distinct at every level,
  setting a value of that kind and unsetting keep it so.\<close>

theorem path_writes_keep_distinct:
  assumes "wf_bson (Document doc)" "wf_bson v"
  shows "wf_bson (Document (unset_path doc path))
       \<and> (set_path doc path v = Inr doc' \<longrightarrow> wf_bson (Document doc'))"
  using wf_unset(1) [OF assms(1)] wf_set(1) [OF assms] by (simp add: unset_path_def set_path_def del: wf_bson.simps)

theorem path_writes_keep_distinct_witness:
  "wf_bson (Document (unset_path [(lit ''a'', Int32 1), (lit ''b'', Null)] (lit ''a'')))"
  by (rule path_writes_keep_distinct [THEN conjunct1, of _ Null]) code_simp+

text \<open>An index sees at least what a read sees: the value \<open>get_path\<close> returns is among \<open>get_path_values\<close>, and
  when the walk met no array it is the only one.\<close>

theorem get_path_values_complete:
  shows "set_option (get_path doc path) \<subseteq> set (fst (get_path_values doc path))
       \<and> (if snd (get_path_values doc path) then True
          else fst (get_path_values doc path) = opt_list (get_path doc path))"
proof -
  obtain p ps where p: "path_parts path = p # ps" by (cases "path_parts path") simp_all
  show ?thesis
  proof (cases "ps = []")
    case True
    then show ?thesis by (cases "doc_get doc p") (simp_all add: get_path_def get_path_values_def p opt_list_def)
  next
    case False
    have "get_path doc path = Option.bind (doc_get doc p) (\<lambda>c. get_in_bson c ps)"
      using False by (cases "doc_get doc p") (simp_all add: get_path_def p)
    then show ?thesis
      using False get_in_values_walk [of _ "opt_list (doc_get doc p)" ps] values_walk_no_array [of "doc_get doc p" False ps]
      by (auto simp: get_path_values_def p bind_eq_Some_conv)
  qed
qed

text \<open>A sort reads the values an index holds: \<open>sort_path_values\<close> yields every value of \<open>get_path_values\<close>, and
  beyond them only the null of an element that lacks the field.\<close>

theorem sort_path_values_agree:
  "set (fst (get_path_values doc path)) \<subseteq> fst ` set (sort_path_values doc path)
     \<and> fst ` set (sort_path_values doc path) \<subseteq> insert Null (set (fst (get_path_values doc path)))"
proof -
  obtain p ps where p: "path_parts path = p # ps" by (cases "path_parts path") simp_all
  have "fst ` set (map (\<lambda>v. (v, False)) (opt_list (doc_get doc p))) = set (opt_list (doc_get doc p))"
    by (simp add: image_image)
  then show ?thesis
    using sort_walk_values [of "opt_list (doc_get doc p)" "map (\<lambda>v. (v, False)) (opt_list (doc_get doc p))" False ps]
    by (simp add: sort_path_values_def get_path_values_def p subset_insertI)
qed

end
