(* ===== verification/Index_Keys.thy ===== *)
theory Index_Keys
  imports Paths
begin

text \<open>
  \<open>secantus-core/src/index_keys.rs\<close>: the values a document gives an index field.
\<close>

section \<open>Definitions\<close>

record field_keys_rec =
  mongod :: "bson list"
  whole_arrays :: "bson list"
  multikey :: bool

function element_lacks_leaf :: "bson \<Rightarrow> rstr list \<Rightarrow> bool \<Rightarrow> bool" where
  "element_lacks_leaf value [] in_array = False"
| "element_lacks_leaf value (first # rest) in_array =
     (case value of
        Document d \<Rightarrow>
          (case doc_get d first of
             Some nxt \<Rightarrow> element_lacks_leaf nxt rest in_array
           | None \<Rightarrow> in_array)
      | Array items \<Rightarrow>
          list_ex (\<lambda>item.
            (case item of
               Document d \<Rightarrow>
                 (case doc_get d first of
                    Some nxt \<Rightarrow> element_lacks_leaf nxt rest True
                  | None \<Rightarrow> True)
             | _ \<Rightarrow> True)) items
      | _ \<Rightarrow> in_array)"
  by pat_completeness auto
termination by (relation "measure (\<lambda>(v, ps, b). length ps)") auto

text \<open>The keys one reached value adds, and the whole array it adds besides.\<close>

definition mongod_keys :: "bson \<Rightarrow> bson list" where
  "mongod_keys v =
     (case v of
        Array items \<Rightarrow> if items = [] then [Undefined] else items
      | _ \<Rightarrow> [v])"

definition field_keys :: "document \<Rightarrow> rstr \<Rightarrow> bool \<Rightarrow> field_keys_rec" where
  "field_keys doc path sparse =
     (let (values, descended) = get_path_values doc path;
          keys = concat (map mongod_keys values);
          arrays = filter is_array values
      in \<lparr>mongod =
            (if keys = [] then [Null]
             else if \<not> sparse \<and> element_lacks_leaf (Document doc) (path_parts path) False
             then keys @ [Null] else keys),
          whole_arrays = arrays,
          multikey = descended \<or> arrays \<noteq> []\<rparr>)"

section \<open>Paths that meet no array\<close>

lemma lacks_no_array:
  assumes "snd (values_walk (opt_list (Some c)) b ps) = False" "get_in_bson c ps = Some v"
  shows "\<not> element_lacks_leaf c ps False"
  using assms
proof (induction ps arbitrary: c b)
  case (Cons p ps)
  have "\<not> is_array c"
    using Cons.prems(1) values_walk_descended [of "values_step p c" True ps] by (cases "is_array c") (simp_all add: opt_list_def)
  then obtain d where c: "c = Document d"
    using Cons.prems(2) by (cases c rule: container_cases) (auto simp: is_array_def)
  obtain n where n: "doc_get d p = Some n" using Cons.prems(2) by (cases "doc_get d p") (simp_all add: c)
  have step: "concat (map (values_step p) (opt_list (Some c))) = opt_list (Some n)"
    by (simp add: opt_list_def values_step_def c n)
  show ?case
  proof (cases "ps = []")
    case False
    have "\<not> element_lacks_leaf n ps False"
      using Cons.IH [of n] Cons.prems False unfolding values_walk.simps step by (simp add: c n)
    then show ?thesis by (simp add: c n)
  qed (simp add: c n)
qed simp

lemma mongod_keys_not_array: "\<not> is_array v \<Longrightarrow> mongod_keys v = [v]"
  by (cases v) (simp_all add: mongod_keys_def is_array_def)

lemma mongod_keys_nonempty [simp]: "mongod_keys v \<noteq> []"
  by (auto simp: mongod_keys_def split: bson.splits)

section \<open>Properties\<close>

text \<open>A field no array is involved in gives an index exactly one key, the value read at its path, or null when the
  document lacks it, and stores no whole-array key.\<close>

theorem field_keys_scalar:
  assumes "\<not> multikey (field_keys doc path sparse)"
  shows "mongod (field_keys doc path sparse) = [case get_path doc path of Some v \<Rightarrow> v | None \<Rightarrow> Null]
       \<and> whole_arrays (field_keys doc path sparse) = []"
proof -
  obtain vals descended where gv: "get_path_values doc path = (vals, descended)" by force
  have m: "\<not> descended" "filter is_array vals = []" using assms by (simp_all add: field_keys_def gv Let_def)
  obtain p ps where p: "path_parts path = p # ps" by (cases "path_parts path") simp_all
  have w: "values_walk (opt_list (doc_get doc p)) False ps = (vals, descended)"
    using gv by (simp add: get_path_values_def p)
  have reached: "vals = opt_list (get_path doc path)"
  proof (cases "ps = []")
    case True
    then show ?thesis using w by (cases "doc_get doc p") (simp_all add: get_path_def p)
  next
    case False
    then have "get_path doc path = Option.bind (doc_get doc p) (\<lambda>c. get_in_bson c ps)"
      by (cases "doc_get doc p") (simp_all add: get_path_def p)
    then show ?thesis using values_walk_no_array [of "doc_get doc p" False ps] w m(1) False by simp
  qed
  show ?thesis
  proof (cases "get_path doc path")
    case None
    then show ?thesis using m by (simp add: field_keys_def gv reached opt_list_def Let_def)
  next
    case (Some v)
    obtain c where c: "doc_get doc p = Some c" "ps \<noteq> [] \<Longrightarrow> get_in_bson c ps = Some v"
      using Some by (auto simp: get_path_def p split: option.splits if_splits)
    have "\<not> element_lacks_leaf (Document doc) (path_parts path) False"
    proof (cases "ps = []")
      case False
      then show ?thesis using lacks_no_array [of c False ps v] c w m(1) by (simp add: p)
    qed (simp add: p c)
    then show ?thesis using m Some by (simp add: field_keys_def gv reached opt_list_def Let_def mongod_keys_not_array split: if_splits)
  qed
qed

theorem field_keys_scalar_witness:
  "mongod (field_keys [(lit ''a'', Document [(lit ''b'', Int32 4)])] (lit ''a.b'') False) = [Int32 4]"
proof -
  let ?d = "[(lit ''a'', Document [(lit ''b'', Int32 4)])]"
  have "\<not> multikey (field_keys ?d (lit ''a.b'') False)" by code_simp
  moreover have "get_path ?d (lit ''a.b'') = Some (Int32 4)" by code_simp
  ultimately show ?thesis using field_keys_scalar by fastforce
qed

text \<open>a document is always under some key of every index on it: a field's keys are never empty, every value
  reached at the path (an array's elements, \<open>undefined\<close> for an empty one) is a key, each array reached is also a key as a
  whole, and any array involved makes the index multikey.\<close>

theorem field_keys_covers:
  "mongod (field_keys doc path sparse) \<noteq> []
     \<and> (\<Union>v \<in> set (fst (get_path_values doc path)). set (mongod_keys v)) \<subseteq> set (mongod (field_keys doc path sparse))
     \<and> set (mongod (field_keys doc path sparse))
         \<subseteq> insert Null (\<Union>v \<in> set (fst (get_path_values doc path)). set (mongod_keys v))
     \<and> whole_arrays (field_keys doc path sparse) = filter is_array (fst (get_path_values doc path))
     \<and> multikey (field_keys doc path sparse)
         = (snd (get_path_values doc path) \<or> list_ex is_array (fst (get_path_values doc path)))"
  by (cases "get_path_values doc path")
     (auto simp: field_keys_def Let_def list_ex_iff filter_empty_conv)

text \<open>An element that stops short of the last component but one is indexed as null and sorted as absent: for
  the path \<open>p.q.r\<close> over an array holding a number and a document that has the field, the index holds a null key that the
  in-memory sort does not see.\<close>

theorem deep_missing_element_divergence:
  "let doc = [(lit ''p'', Array [Int32 5, Document [(lit ''q'', Document [(lit ''r'', Int32 3)])]])]
   in mongod (field_keys doc (lit ''p.q.r'') False) = [Int32 3, Null]
      \<and> map fst (sort_path_values doc (lit ''p.q.r'')) = [Int32 3]"
  by code_simp

end
