(* ===== verification/Heap_Queue.thy ===== *)
theory Heap_Queue
  imports Prelude "HOL-Library.Multiset"
begin

text \<open>
  \<open>secantus-core/src/heap.rs\<close>: the priority queue behind \<open>$near\<close> results and region
  covering, a binary heap in a vector with libc++'s sift steps. The comparator is the
  trait's \<open>heap_less\<close>, a parameter of every operation. The queue is specified by the
  multiset of its entries and refined by the vector.
\<close>

section \<open>Definitions\<close>

type_synonym 'a cmp_less = "'a \<Rightarrow> 'a \<Rightarrow> bool"

text \<open>\<open>impl HeapOrder for (i32, T)\<close>\<close>

definition heap_less_i32 :: "(i32 \<times> 'a) cmp_less" where
  "heap_less_i32 x y \<longleftrightarrow> fst x <s fst y"

definition swap_at :: "'a list \<Rightarrow> nat \<Rightarrow> nat \<Rightarrow> 'a list" where
  "swap_at c i j = c[i := c ! j, j := c ! i]"

text \<open>The loop of \<open>sift_up\<close>, entered when the parent is less than the last.\<close>

function sift_up_loop :: "'a cmp_less \<Rightarrow> 'a list \<Rightarrow> nat \<Rightarrow> nat \<Rightarrow> 'a list" where
  "sift_up_loop below c parent bottom =
     (let c' = swap_at c parent bottom
      in if parent = 0 then c'
         else let up = (parent - 1) div 2
              in if \<not> below (c' ! up) (c' ! parent) then c' else sift_up_loop below c' up parent)"
  by pat_completeness auto
termination by (relation "measure (\<lambda>(below, c, parent, bottom). parent)") auto

declare sift_up_loop.simps [simp del]

definition sift_up :: "'a cmp_less \<Rightarrow> 'a list \<Rightarrow> nat \<Rightarrow> 'a list" where
  "sift_up below c len =
     (if len \<le> 1 then c
      else if \<not> below (c ! ((len - 2) div 2)) (c ! (len - 1)) then c
      else sift_up_loop below c ((len - 2) div 2) (len - 1))"

definition heap_push :: "'a cmp_less \<Rightarrow> 'a list \<Rightarrow> 'a \<Rightarrow> 'a list" where
  "heap_push below c x = (let c' = c @ [x] in sift_up below c' (length c'))"

definition heap_top :: "'a list \<Rightarrow> 'a option" where
  "heap_top c = (case c of [] \<Rightarrow> None | x # _ \<Rightarrow> Some x)"

text \<open>The greater child, the right one only when strictly greater.\<close>

definition greater_child :: "'a cmp_less \<Rightarrow> 'a list \<Rightarrow> nat \<Rightarrow> nat \<Rightarrow> nat" where
  "greater_child below c len i =
     (let l = 2 * i + 1 in if l + 1 < len \<and> below (c ! l) (c ! (l + 1)) then l + 1 else l)"

function floyd_loop :: "'a cmp_less \<Rightarrow> 'a list \<Rightarrow> nat \<Rightarrow> nat \<Rightarrow> 'a list \<times> nat" where
  "floyd_loop below c len hole =
     (let child = greater_child below c len hole;
          c' = swap_at c hole child
      in if (len - 2) div 2 < child then (c', child) else floyd_loop below c' len child)"
  by pat_completeness auto
termination
  by (relation "measure (\<lambda>(below, c, len, hole). len - hole)") (auto simp: greater_child_def Let_def split: if_splits)

declare floyd_loop.simps [simp del]

definition heap_pop :: "'a cmp_less \<Rightarrow> 'a list \<Rightarrow> 'a option \<times> 'a list" where
  "heap_pop below c =
     (let len = length c
      in if len = 0 then (None, c)
         else let c2 =
                (if 1 < len then
                   let (c1, hole) = floyd_loop below c len 0; end_i = len - 1
                   in if hole \<noteq> end_i
                      then let s = swap_at c1 hole end_i
                           in sift_up below (take end_i s) (hole + 1) @ drop end_i s
                      else c1
                 else c)
              in (Some (last c2), butlast c2))"

section \<open>The queue's contract\<close>

text \<open>A queue of a multiset of entries that gives a greatest one first.\<close>

locale max_queue =
  fixes below :: "'a cmp_less" and empty :: 'q and push :: "'q \<Rightarrow> 'a \<Rightarrow> 'q" and pop :: "'q \<Rightarrow> 'a option \<times> 'q"
    and entries :: "'q \<Rightarrow> 'a multiset" and invar :: "'q \<Rightarrow> bool"
  assumes empty: "invar empty \<and> entries empty = {#}"
    and push: "invar q \<Longrightarrow> invar (push q x) \<and> entries (push q x) = add_mset x (entries q)"
    and pop_none: "invar q \<Longrightarrow> entries q = {#} \<Longrightarrow> pop q = (None, q)"
    and pop_some: "invar q \<Longrightarrow> entries q \<noteq> {#} \<Longrightarrow>
      \<exists>x q'. pop q = (Some x, q') \<and> invar q' \<and> entries q = add_mset x (entries q') \<and> (\<forall>y \<in># entries q. \<not> below x y)"
begin

lemma push_list:
  "invar q \<Longrightarrow> invar (foldl push q xs) \<and> entries (foldl push q xs) = mset xs + entries q"
  by (induction xs arbitrary: q) (simp_all add: push)

text \<open>Emptying the queue gives its entries, greatest first.\<close>

lemma pop_order:
  assumes "invar q" "pop q = (Some x, q')" "pop q' = (Some y, q'')"
  shows "\<not> below x y"
proof -
  have nq: "entries q \<noteq> {#}" using assms(1,2) pop_none by fastforce
  then have q': "invar q'" "entries q = add_mset x (entries q')" "\<forall>z \<in># entries q. \<not> below x z"
    using pop_some [OF assms(1)] assms(2) by auto
  then have "entries q' \<noteq> {#}" using assms(3) pop_none by fastforce
  then have "entries q' = add_mset y (entries q'')" using pop_some [OF q'(1)] assms(3) by auto
  then show ?thesis using q' by simp
qed

end

text \<open>A strict weak order: what a comparator must be for a heap of it.\<close>

locale heap_order =
  fixes below :: "'a cmp_less"
  assumes asym: "below a b \<Longrightarrow> \<not> below b a"
    and neg_trans: "\<not> below a b \<Longrightarrow> \<not> below b c \<Longrightarrow> \<not> below a c"

section \<open>Swaps\<close>

definition par :: "nat \<Rightarrow> nat" where
  "par i = (i - 1) div 2"

lemma par_less: "0 < i \<Longrightarrow> par i < i"
  by (auto simp: par_def)

lemma par_children: "0 < i \<Longrightarrow> par i = h \<longleftrightarrow> i = 2 * h + 1 \<or> i = 2 * h + 2"
  by (auto simp: par_def)

lemma length_swap_at [simp]: "length (swap_at c i j) = length c"
  by (simp add: swap_at_def)

lemma nth_swap_at:
  "i < length c \<Longrightarrow> j < length c \<Longrightarrow> swap_at c i j ! k = (if k = i then c ! j else if k = j then c ! i else c ! k)"
  by (cases "k < length c") (auto simp: swap_at_def nth_list_update)

lemma mset_swap_at: "i < length c \<Longrightarrow> j < length c \<Longrightarrow> mset (swap_at c i j) = mset c"
  by (simp add: swap_at_def mset_swap)

lemma length_sift_up_loop [simp]: "length (sift_up_loop below c parent bottom) = length c"
  by (induction below c parent bottom rule: sift_up_loop.induct)
     (subst sift_up_loop.simps, simp add: Let_def)

lemma mset_sift_up_loop:
  "parent < bottom \<Longrightarrow> bottom < length c \<Longrightarrow> mset (sift_up_loop below c parent bottom) = mset c"
proof (induction below c parent bottom rule: sift_up_loop.induct)
  case (1 below c parent bottom)
  have "mset (swap_at c parent bottom) = mset c" using "1.prems" by (intro mset_swap_at) simp_all
  with 1 show ?case
    using par_less [of parent] by (subst sift_up_loop.simps) (auto simp: Let_def par_def)
qed

lemma sift_up_mset: "len \<le> length c \<Longrightarrow> mset (sift_up below c len) = mset c \<and> length (sift_up below c len) = length c"
  by (auto simp: sift_up_def intro!: mset_sift_up_loop)

section \<open>The heap invariant\<close>

text \<open>No entry among the first \<open>n\<close> is greater than its parent.\<close>

definition heap_upto :: "'a cmp_less \<Rightarrow> 'a list \<Rightarrow> nat \<Rightarrow> bool" where
  "heap_upto below c n \<longleftrightarrow> (\<forall>i. 0 < i \<longrightarrow> i < n \<longrightarrow> \<not> below (c ! par i) (c ! i))"

definition is_heap :: "'a cmp_less \<Rightarrow> 'a list \<Rightarrow> bool" where
  "is_heap below c \<longleftrightarrow> heap_upto below c (length c)"

text \<open>Sifting up: only the entry at \<open>at\<close> may be greater than its parent.\<close>

definition up_inv :: "'a cmp_less \<Rightarrow> 'a list \<Rightarrow> nat \<Rightarrow> nat \<Rightarrow> bool" where
  "up_inv below c n pos \<longleftrightarrow>
     (\<forall>i. 0 < i \<longrightarrow> i < n \<longrightarrow> i \<noteq> pos \<longrightarrow> \<not> below (c ! par i) (c ! i))
     \<and> (\<forall>i. 0 < i \<longrightarrow> i < n \<longrightarrow> par i = pos \<longrightarrow> 0 < pos \<longrightarrow> \<not> below (c ! par pos) (c ! i))"

text \<open>Sinking the hole: the order holds around the hole, whatever the hole holds.\<close>

definition hole_inv :: "'a cmp_less \<Rightarrow> 'a list \<Rightarrow> nat \<Rightarrow> nat \<Rightarrow> bool" where
  "hole_inv below c n h \<longleftrightarrow>
     (\<forall>i. 0 < i \<longrightarrow> i < n \<longrightarrow> i \<noteq> h \<longrightarrow> par i \<noteq> h \<longrightarrow> \<not> below (c ! par i) (c ! i))
     \<and> (\<forall>i. 0 < i \<longrightarrow> i < n \<longrightarrow> par i = h \<longrightarrow> 0 < h \<longrightarrow> \<not> below (c ! par h) (c ! i))"

context heap_order
begin

lemma up_inv_step:
  assumes inv: "up_inv below c n pos" and pos: "0 < pos" "pos < n" "n \<le> length c"
    and lt: "below (c ! par pos) (c ! pos)"
  shows "up_inv below (swap_at c (par pos) pos) n (par pos)"
proof -
  let ?p = "par pos" and ?c = "swap_at c (par pos) pos"
  have p: "?p < pos" using par_less [OF pos(1)] .
  have nth: "?c ! k = (if k = ?p then c ! pos else if k = pos then c ! ?p else c ! k)" for k
    using p pos by (simp add: nth_swap_at)
  have ord: "\<not> below (c ! par i) (c ! i)" if "0 < i" "i < n" "i \<noteq> pos" for i
    using inv that by (simp add: up_inv_def)
  have kids: "\<not> below (c ! ?p) (c ! i)" if "0 < i" "i < n" "par i = pos" for i
    using inv that pos by (simp add: up_inv_def)
  have "\<not> below (?c ! par i) (?c ! i)" if "0 < i" "i < n" "i \<noteq> ?p" for i
    using that ord [of i] kids [of i] asym [OF lt] neg_trans [of "c ! pos" "c ! ?p" "c ! i"] par_less [of i] p
    by (auto simp: nth)
  moreover have "\<not> below (?c ! par ?p) (?c ! i)" if "0 < i" "i < n" "par i = ?p" "0 < ?p" for i
    using that ord [of i] ord [of ?p] neg_trans [of "c ! par ?p" "c ! ?p" "c ! i"] par_less [of ?p] p pos
    by (auto simp: nth)
  ultimately show ?thesis by (simp add: up_inv_def)
qed

lemma up_inv_done:
  assumes "up_inv below c n pos" "pos = 0 \<or> \<not> below (c ! par pos) (c ! pos)"
  shows "heap_upto below c n"
  using assms by (auto simp: up_inv_def heap_upto_def)

lemma heap_sift_up_loop:
  assumes "up_inv below c n bottom" "0 < bottom" "bottom < n" "n \<le> length c" "below (c ! par bottom) (c ! bottom)"
  shows "heap_upto below (sift_up_loop below c (par bottom) bottom) n"
  using assms
proof (induction bottom arbitrary: c rule: less_induct)
  case (less bottom)
  let ?p = "par bottom" and ?c = "swap_at c (par bottom) bottom"
  have inv: "up_inv below ?c n ?p" using up_inv_step less.prems by blast
  have p: "?p < bottom" using par_less less.prems(2) by blast
  show ?case
  proof (cases "?p = 0 \<or> \<not> below (?c ! par ?p) (?c ! ?p)")
    case True
    then have "sift_up_loop below c ?p bottom = ?c" by (subst sift_up_loop.simps) (auto simp: Let_def par_def)
    then show ?thesis using up_inv_done [OF inv True] by simp
  next
    case False
    then have "sift_up_loop below c ?p bottom = sift_up_loop below ?c (par ?p) ?p"
      by (subst sift_up_loop.simps) (auto simp: Let_def par_def)
    then show ?thesis using less.IH [OF p inv] less.prems(3,4) p False by simp
  qed
qed

lemma heap_sift_up:
  assumes "up_inv below c n (len - 1)" "0 < len" "len \<le> n" "n \<le> length c"
  shows "heap_upto below (sift_up below c len) n"
proof (cases "len \<le> 1 \<or> \<not> below (c ! par (len - 1)) (c ! (len - 1))")
  case True
  then have "heap_upto below c n" using assms(1,2) up_inv_done [OF assms(1)] by auto
  moreover have "sift_up below c len = c" using True by (auto simp: sift_up_def par_def numeral_2_eq_2)
  ultimately show ?thesis by simp
next
  case False
  moreover have "(len - 2) div 2 = par (len - 1)" by (simp add: par_def numeral_2_eq_2)
  moreover have "0 < len - 1" "len - 1 < n" using assms(3) False by linarith+
  ultimately show ?thesis using heap_sift_up_loop [OF assms(1) _ _ assms(4)] by (simp add: sift_up_def)
qed

lemma heap_push_correct:
  assumes "is_heap below c"
  shows "is_heap below (heap_push below c x) \<and> mset (heap_push below c x) = add_mset x (mset c)"
proof -
  let ?c = "c @ [x]"
  have "up_inv below ?c (length ?c) (length ?c - 1)"
  proof -
    have "\<not> below (?c ! par i) (?c ! i)" if "0 < i" "i < length c" for i
      using assms that par_less [OF that(1)] by (simp add: is_heap_def heap_upto_def nth_append)
    moreover have "par i \<noteq> length c" if "0 < i" "i < Suc (length c)" for i using that par_less [of i] by simp
    ultimately show ?thesis by (auto simp: up_inv_def less_Suc_eq)
  qed
  from heap_sift_up [OF this] have "heap_upto below (heap_push below c x) (length ?c)"
    by (simp add: heap_push_def Let_def)
  then show ?thesis using sift_up_mset [of "length ?c" ?c below] by (simp add: heap_push_def is_heap_def Let_def)
qed

text \<open>The root of a heap is a greatest entry.\<close>

lemma heap_root:
  assumes "heap_upto below c n" "i < n"
  shows "\<not> below (c ! 0) (c ! i)"
  using assms(2)
proof (induction i rule: less_induct)
  case (less i)
  show ?case
  proof (cases "i = 0")
    case True
    then show ?thesis using asym by auto
  next
    case False
    then have "par i < i" by (simp add: par_less)
    then have "\<not> below (c ! 0) (c ! par i)" using less by simp
    moreover have "\<not> below (c ! par i) (c ! i)" using assms(1) less.prems False by (simp add: heap_upto_def)
    ultimately show ?thesis by (rule neg_trans)
  qed
qed

lemma hole_inv_step:
  assumes inv: "hole_inv below c n h" and h: "2 * h + 1 < n" "n \<le> length c"
  defines "m \<equiv> greater_child below c n h"
  shows "hole_inv below (swap_at c h m) n m \<and> h < m \<and> m < n \<and> par m = h"
proof -
  let ?c = "swap_at c h m"
  have m: "m = 2 * h + 1 \<or> m = 2 * h + 2" "m < n" using h by (auto simp: m_def greater_child_def Let_def)
  then have pm: "par m = h" "0 < m" "h < m" by (auto simp: par_def)
  have nth: "?c ! k = (if k = h then c ! m else if k = m then c ! h else c ! k)" for k
    using m pm h by (simp add: nth_swap_at)
  have ord: "\<not> below (c ! par i) (c ! i)" if "0 < i" "i < n" "i \<noteq> h" "par i \<noteq> h" for i
    using inv that by (simp add: hole_inv_def)
  have kids: "\<not> below (c ! par h) (c ! i)" if "0 < i" "i < n" "par i = h" "0 < h" for i
    using inv that by (simp add: hole_inv_def)
  have sib: "\<not> below (c ! m) (c ! i)" if "0 < i" "i < n" "par i = h" "i \<noteq> m" for i
    using that h asym by (auto simp: m_def greater_child_def Let_def par_children split: if_splits)
  have "\<not> below (?c ! par i) (?c ! i)" if "0 < i" "i < n" "i \<noteq> m" "par i \<noteq> m" for i
    using that ord [of i] kids [of m] sib [of i] pm m par_less [of h] by (auto simp: nth)
  moreover have "\<not> below (?c ! par m) (?c ! i)" if "0 < i" "i < n" "par i = m" for i
    using that ord [of i] pm par_less [of i] by (auto simp: nth)
  ultimately show ?thesis using m pm by (simp add: hole_inv_def)
qed

lemma floyd_correct:
  assumes "hole_inv below c n h" "2 * h + 1 < n" "n \<le> length c" "floyd_loop below c n h = (c', hole)"
  shows "hole_inv below c' n hole \<and> hole < n \<and> n \<le> 2 * hole + 1 \<and> length c' = length c
       \<and> mset c' = mset c \<and> c' ! hole = c ! h"
  using assms
proof (induction "n - h" arbitrary: c h rule: less_induct)
  case less
  let ?m = "greater_child below c n h"
  let ?c = "swap_at c h ?m"
  have st: "hole_inv below ?c n ?m" "h < ?m" "?m < n" using hole_inv_step less.prems(1-3) by blast+
  have ms: "mset ?c = mset c" "?c ! ?m = c ! h"
    using st less.prems(3) by (simp_all add: nth_swap_at mset_swap_at)
  show ?case
  proof (cases "(n - 2) div 2 < ?m")
    case True
    then have "(c', hole) = (?c, ?m)" using less.prems(4) by (subst (asm) floyd_loop.simps) (auto simp: Let_def)
    moreover have "n \<le> 2 * ?m + 1" using True by linarith
    ultimately show ?thesis using st ms by simp
  next
    case False
    then have "floyd_loop below ?c n ?m = (c', hole)" using less.prems(4) by (subst (asm) floyd_loop.simps) (simp add: Let_def)
    moreover have "2 * ?m + 1 < n" using False st by linarith
    ultimately show ?thesis using less.hyps [of ?m ?c] st ms less.prems(3) by simp
  qed
qed

text \<open>Dropping the last entry of a vector that is a heap before it.\<close>

lemma heap_butlast:
  assumes "heap_upto below c (length c - 1)" "c \<noteq> []"
  shows "is_heap below (butlast c) \<and> mset c = add_mset (last c) (mset (butlast c))"
proof -
  have "is_heap below (butlast c)"
    unfolding is_heap_def heap_upto_def
  proof (intro allI impI)
    fix i assume i: "0 < i" "i < length (butlast c)"
    then have "par i < length (butlast c)" using par_less [of i] by simp
    with i assms(1) show "\<not> below (butlast c ! par i) (butlast c ! i)" by (simp add: heap_upto_def nth_butlast)
  qed
  moreover have "mset c = add_mset (last c) (mset (butlast c))"
    using assms(2) by (metis append_butlast_last_id mset.simps add_mset_add_single mset_append)
  ultimately show ?thesis by blast
qed

text \<open>Filling the hole with the last entry and sifting it up.\<close>

lemma fill_hole:
  assumes inv: "hole_inv below c n hole" "hole < n" "n \<le> 2 * hole + 1" and n: "length c = n" "hole \<noteq> n - 1"
  defines "s \<equiv> swap_at c hole (n - 1)"
  defines "c2 \<equiv> sift_up below (take (n - 1) s) (hole + 1) @ drop (n - 1) s"
  shows "heap_upto below c2 (n - 1) \<and> mset c2 = mset c \<and> length c2 = n \<and> last c2 = c ! hole"
proof -
  let ?e = "n - 1"
  have e: "hole < ?e" "?e < n" using inv(2) n(2) by simp_all
  have nth: "s ! k = (if k = hole then c ! ?e else if k = ?e then c ! hole else c ! k)" for k
    using e n by (simp add: s_def nth_swap_at)
  have len: "length s = n" using n by (simp add: s_def)
  have "\<not> below (s ! par i) (s ! i)" if "0 < i" "i < ?e" "i \<noteq> hole" for i
  proof -
    have "par i \<noteq> hole" using that inv(3) by (auto simp: par_children)
    then show ?thesis using inv(1) that par_less [of i] e by (simp add: nth hole_inv_def)
  qed
  moreover have "par i \<noteq> hole" if "0 < i" "i < ?e" for i using that inv(3) by (auto simp: par_children)
  moreover have "take ?e s ! par i = s ! par i" if "0 < i" "i < ?e" for i using that par_less [of i] by simp
  ultimately have "up_inv below (take ?e s) ?e hole" by (simp add: up_inv_def)
  then have heap: "heap_upto below (sift_up below (take ?e s) (hole + 1)) ?e"
    using heap_sift_up [of "take ?e s" ?e "hole + 1"] e len by simp
  have sm: "mset (sift_up below (take ?e s) (hole + 1)) = mset (take ?e s)"
    "length (sift_up below (take ?e s) (hole + 1)) = ?e"
    using sift_up_mset [of "hole + 1" "take ?e s" below] e len by simp_all
  have d: "drop ?e s = [s ! ?e]" using len e Cons_nth_drop_Suc [of ?e s] by simp
  have "mset c2 = mset s" unfolding c2_def using sm(1) by (metis append_take_drop_id mset_append)
  moreover have "mset s = mset c" using e n by (simp add: s_def mset_swap_at)
  moreover have "heap_upto below c2 ?e"
    unfolding heap_upto_def
  proof (intro allI impI)
    fix i assume "0 < i" "i < ?e"
    then show "\<not> below (c2 ! par i) (c2 ! i)"
      using heap sm(2) par_less [of i] by (simp add: c2_def heap_upto_def nth_append)
  qed
  moreover have "c2 = sift_up below (take ?e s) (hole + 1) @ [c ! hole]" using e by (simp only: c2_def d nth if_True if_False simp_thms) auto
  ultimately show ?thesis using sm(2) e by simp
qed

lemma heap_pop_correct:
  assumes "is_heap below c" "c \<noteq> []"
  shows "\<exists>c'. heap_pop below c = (Some (c ! 0), c') \<and> is_heap below c' \<and> mset c = add_mset (c ! 0) (mset c')"
proof (cases "length c = 1")
  case True
  then obtain x where "c = [x]" by (cases c) auto
  then show ?thesis by (simp add: heap_pop_def is_heap_def heap_upto_def)
next
  case False
  let ?n = "length c"
  have n: "1 < ?n" using False assms(2) by (cases c) auto
  obtain c1 hole where fl: "floyd_loop below c ?n 0 = (c1, hole)" by force
  have "hole_inv below c ?n 0" using assms(1) by (auto simp: hole_inv_def is_heap_def heap_upto_def)
  from floyd_correct [OF this _ _ fl] n
  have inv: "hole_inv below c1 ?n hole" "hole < ?n" "?n \<le> 2 * hole + 1"
    and c1: "length c1 = ?n" "mset c1 = mset c" "c1 ! hole = c ! 0" by simp_all
  define c2 where "c2 = (if hole \<noteq> ?n - 1 then
      let s = swap_at c1 hole (?n - 1) in sift_up below (take (?n - 1) s) (hole + 1) @ drop (?n - 1) s else c1)"
  have "heap_upto below c2 (?n - 1) \<and> mset c2 = mset c \<and> length c2 = ?n \<and> last c2 = c ! 0"
  proof (cases "hole = ?n - 1")
    case True
    have "par i \<noteq> hole" if "0 < i" "i < ?n - 1" for i using that inv(3) by (auto simp: par_children)
    then have "heap_upto below c1 (?n - 1)" using inv(1) True by (auto simp: heap_upto_def hole_inv_def)
    moreover have "last c1 = c ! 0" using c1 True n by (metis last_conv_nth length_0_conv not_one_less_zero)
    ultimately show ?thesis using True c1 by (simp add: c2_def)
  next
    case False
    then show ?thesis using fill_hole [OF inv c1(1) False] c1 by (simp add: c2_def Let_def)
  qed
  moreover have "heap_pop below c = (Some (last c2), butlast c2)"
    using n assms(2) by (simp add: heap_pop_def fl c2_def Let_def)
  moreover have "c2 \<noteq> []" using calculation(1) n by auto
  ultimately show ?thesis using heap_butlast [of c2] by simp
qed

end

text \<open>The vector refines the multiset queue, for every comparator that is a strict weak order.\<close>

sublocale heap_order \<subseteq> queue: max_queue below "[]" "heap_push below" "heap_pop below" mset "is_heap below"
proof
  show "is_heap below [] \<and> mset [] = {#}" by (simp add: is_heap_def heap_upto_def)
  show "is_heap below (heap_push below q x) \<and> mset (heap_push below q x) = add_mset x (mset q)"
    if "is_heap below q" for q x using heap_push_correct [OF that] .
  show "heap_pop below q = (None, q)" if "is_heap below q" "mset q = {#}" for q
    using that by (simp add: heap_pop_def)
  show "\<exists>x q'. heap_pop below q = (Some x, q') \<and> is_heap below q' \<and> mset q = add_mset x (mset q')
          \<and> (\<forall>y \<in># mset q. \<not> below x y)"
    if "is_heap below q" "mset q \<noteq> {#}" for q
  proof -
    have ne: "q \<noteq> []" using that(2) by auto
    have "\<not> below (q ! 0) y" if "y \<in> set q" for y
      using heap_root [of q "length q"] \<open>is_heap below q\<close> that by (auto simp: is_heap_def in_set_conv_nth)
    with heap_pop_correct [OF that(1) ne] show ?thesis by auto
  qed
qed

context heap_order
begin

lemma queue_contract: "max_queue below [] (heap_push below) (heap_pop below) mset (is_heap below)"
  by (rule queue.max_queue_axioms)

end

interpretation i32_heap: heap_order heap_less_i32
  by unfold_locales (auto simp: heap_less_i32_def word_sless_alt)

section \<open>Properties\<close>

text \<open>C8: the vector queue refines a multiset of entries: from a heap, pushing keeps the heap and adds the entry;
  popping an empty one gives nothing; popping any other gives \<open>top\<close>, which no entry exceeds, and leaves a heap of the rest.\<close>

theorem heap_queue_refines:
  assumes "heap_order below" "is_heap below c"
  shows "is_heap below (heap_push below c x) \<and> mset (heap_push below c x) = add_mset x (mset c)
       \<and> (if c = [] then heap_pop below c = (None, [])
          else \<exists>c' t. heap_pop below c = (Some t, c') \<and> heap_top c = Some t \<and> is_heap below c'
                 \<and> mset c = add_mset t (mset c') \<and> (\<forall>y \<in> set c. \<not> below t y))"
proof -
  have "\<exists>c' t. heap_pop below c = (Some t, c') \<and> heap_top c = Some t \<and> is_heap below c'
      \<and> mset c = add_mset t (mset c') \<and> (\<forall>y \<in> set c. \<not> below t y)" if "c \<noteq> []"
  proof -
    have top: "heap_top c = Some (c ! 0)" using that by (cases c) (simp_all add: heap_top_def)
    have "\<not> below (c ! 0) y" if "y \<in> set c" for y
      using heap_order.heap_root [OF assms(1), of c "length c"] assms(2) that
      by (auto simp: is_heap_def in_set_conv_nth)
    then show ?thesis using heap_order.heap_pop_correct [OF assms that] top by auto
  qed
  then show ?thesis
    using heap_order.heap_push_correct [OF assms] by (simp add: heap_pop_def [of below "[]"])
qed

theorem heap_queue_refines_witness:
  "let c = [(9, True), (5, False), (7, True) :: i32 \<times> bool]
   in is_heap heap_less_i32 (heap_push heap_less_i32 c (8, False))
      \<and> (\<forall>y \<in> set c. \<not> heap_less_i32 (9, True) y)"
proof -
  have "(\<forall>i < 3. 0 < i \<longrightarrow> \<not> heap_less_i32 ([(9, True), (5, False), (7, True)] ! par i) ([(9, True), (5, False), (7, True) :: i32 \<times> bool] ! i))"
    by code_simp
  then have h: "is_heap heap_less_i32 [(9, True), (5, False), (7, True) :: i32 \<times> bool]"
    by (simp add: is_heap_def heap_upto_def)
  show ?thesis using heap_queue_refines [OF i32_heap.heap_order_axioms h, of "(8, False)"] by (auto simp: heap_top_def)
qed

text \<open>Entries come out in order: of two successive pops the later never exceeds the earlier, and a queue built by
  pushing any entries onto the empty queue holds exactly those entries.\<close>

theorem heap_drain_order:
  assumes "heap_order below" "heap_pop below (foldl (heap_push below) [] xs) = (Some a, q)" "heap_pop below q = (Some b, q')"
  shows "\<not> below a b \<and> mset xs = add_mset a (add_mset b (mset q'))"
proof -
  let ?q = "foldl (heap_push below) [] xs"
  note pq = heap_order.queue_contract [OF assms(1)]
  have q: "is_heap below ?q" "mset ?q = mset xs"
    using max_queue.push_list [OF pq, of "[]" xs] by (simp_all add: is_heap_def heap_upto_def)
  have "\<not> below a b" using max_queue.pop_order [OF pq q(1) assms(2,3)] .
  moreover have "?q \<noteq> []" using assms(2) by (auto simp: heap_pop_def)
  then have "mset ?q \<noteq> {#}" by simp
  then have q1: "is_heap below q" "mset xs = add_mset a (mset q)"
    using max_queue.pop_some [OF pq q(1)] assms(2) q(2) by fastforce+
  moreover have "q \<noteq> []" using assms(3) by (auto simp: heap_pop_def)
  then have "mset q = add_mset b (mset q')" using max_queue.pop_some [OF pq q1(1)] assms(3) by auto
  ultimately show ?thesis by simp
qed

theorem heap_drain_order_witness:
  "\<not> heap_less_i32 (7, ()) (4, ()) \<and> mset [(4, ()), (7, ()), (1, ()) :: i32 \<times> unit] = add_mset (7, ()) (add_mset (4, ()) (mset [(1, ())]))"
proof (rule heap_drain_order [OF i32_heap.heap_order_axioms])
  show "heap_pop heap_less_i32 (foldl (heap_push heap_less_i32) [] [(4, ()), (7, ()), (1, ())]) = (Some (7, ()), [(4, ()), (1, ())])"
    "heap_pop heap_less_i32 [(4, ()), (1, ())] = (Some (4, ()), [(1, ())])" by code_simp+
qed

end
