(* ===== verification/Admission.thy ===== *)
theory Admission
  imports Prelude
begin

text \<open>
  \<open>secantus-storage/src/admission.rs\<close>: the ticket pools that bound the writes inside the
  storage engine. Any number of threads acquire and drop tickets; a mutex guards each
  pool's count, so each of its critical sections is one step. A thread that finds no
  permit sleeps on the pool's condition variable, which wakes it when notified (or
  spuriously) to look again.

  Threads and pools are numbered. \<open>HOLDING\<close> is the sources' thread-local flag; a thread's
  tickets are the \<open>Ticket\<close> values it has and has not dropped, \<open>None\<close> for a no-op one. A
  ticket is dropped on the thread that acquired it, as the storage layer's scope guards do.
\<close>

section \<open>Definitions\<close>

datatype phase = Running | Waiting nat | Notified nat | Notifying nat

record tickets_state =
  limit_of :: "nat \<Rightarrow> nat"
  in_flight :: "nat \<Rightarrow> nat"
  waiting :: "nat \<Rightarrow> nat"
  holding :: "nat \<Rightarrow> bool"
  tickets :: "nat \<Rightarrow> nat option list"
  phase_of :: "nat \<Rightarrow> phase"

definition new_pools :: "(nat \<Rightarrow> nat) \<Rightarrow> tickets_state" where
  "new_pools limits =
     \<lparr>limit_of = limits, in_flight = (\<lambda>_. 0), waiting = (\<lambda>_. 0), holding = (\<lambda>_. False),
      tickets = (\<lambda>_. []), phase_of = (\<lambda>_. Running)\<rparr>"

definition enabled :: "tickets_state \<Rightarrow> nat \<Rightarrow> bool" where
  "enabled s p \<longleftrightarrow> 0 < limit_of s p"

text \<open>\<open>*n += 1; HOLDING.set(true)\<close>\<close>

definition admit :: "tickets_state \<Rightarrow> nat \<Rightarrow> nat \<Rightarrow> tickets_state" where
  "admit s t p =
     s\<lparr>in_flight := (in_flight s)(p := in_flight s p + 1), holding := (holding s)(t := True),
       tickets := (tickets s)(t := Some p # tickets s t)\<rparr>"

text \<open>\<open>acquire\<close> up to where it returns or first sleeps.\<close>

definition acquire :: "tickets_state \<Rightarrow> nat \<Rightarrow> nat \<Rightarrow> tickets_state" where
  "acquire s t p =
     (if limit_of s p = 0 \<or> holding s t then s\<lparr>tickets := (tickets s)(t := None # tickets s t)\<rparr>
      else if limit_of s p \<le> in_flight s p
      then s\<lparr>waiting := (waiting s)(p := waiting s p + 1), phase_of := (phase_of s)(t := Waiting p)\<rparr>
      else admit s t p)"

text \<open>A woken thread looks again: it sleeps on, or leaves the queue and is admitted.\<close>

definition recheck :: "tickets_state \<Rightarrow> nat \<Rightarrow> nat \<Rightarrow> tickets_state" where
  "recheck s t p =
     (if limit_of s p \<le> in_flight s p then s\<lparr>phase_of := (phase_of s)(t := Waiting p)\<rparr>
      else admit (s\<lparr>waiting := (waiting s)(p := waiting s p - 1), phase_of := (phase_of s)(t := Running)\<rparr>) t p)"

text \<open>\<open>Ticket::drop\<close> up to the notification; \<open>i\<close> is which of the thread's tickets.\<close>

definition drop_ticket :: "tickets_state \<Rightarrow> nat \<Rightarrow> nat \<Rightarrow> tickets_state" where
  "drop_ticket s t i =
     (let s' = s\<lparr>tickets := (tickets s)(t := take i (tickets s t) @ drop (Suc i) (tickets s t))\<rparr>
      in case tickets s t ! i of
           None \<Rightarrow> s'
         | Some p \<Rightarrow>
             s'\<lparr>in_flight := (in_flight s)(p := in_flight s p - 1), holding := (holding s)(t := False),
                phase_of := (phase_of s)(t := Notifying p)\<rparr>)"

text \<open>\<open>notify_one\<close>: it wakes one sleeping thread if there is one.\<close>

definition notify_one :: "tickets_state \<Rightarrow> nat \<Rightarrow> nat option \<Rightarrow> tickets_state" where
  "notify_one s t w =
     s\<lparr>phase_of :=
        (case (phase_of s t, w) of
           (Notifying p, Some v) \<Rightarrow> (phase_of s)(v := Notified p, t := Running)
         | _ \<Rightarrow> (phase_of s)(t := Running))\<rparr>"

text \<open>
  One step of the pools; \<open>fresh\<close> allows a thread to ask for a ticket, and \<open>wild\<close> allows the
  condition variable to wake a thread that nobody notified.
\<close>

inductive tick :: "bool \<Rightarrow> bool \<Rightarrow> tickets_state \<Rightarrow> tickets_state \<Rightarrow> bool" for fresh wild where
  acquire: "fresh \<Longrightarrow> phase_of s t = Running \<Longrightarrow> tick fresh wild s (acquire s t p)"
| recheck: "phase_of s t = Notified p \<Longrightarrow> tick fresh wild s (recheck s t p)"
| drop: "phase_of s t = Running \<Longrightarrow> i < length (tickets s t) \<Longrightarrow> tick fresh wild s (drop_ticket s t i)"
| notify:
    "phase_of s t = Notifying p \<Longrightarrow> phase_of s v = Waiting p \<Longrightarrow> tick fresh wild s (notify_one s t (Some v))"
| notify_none:
    "phase_of s t = Notifying p \<Longrightarrow> \<forall>v. phase_of s v \<noteq> Waiting p \<Longrightarrow> tick fresh wild s (notify_one s t None)"
| spurious:
    "wild \<Longrightarrow> phase_of s t = Waiting p \<Longrightarrow> tick fresh wild s (s\<lparr>phase_of := (phase_of s)(t := Notified p)\<rparr>)"

inductive reachable :: "(nat \<Rightarrow> nat) \<Rightarrow> tickets_state \<Rightarrow> bool" for limits where
  start: "reachable limits (new_pools limits)"
| step: "reachable limits s \<Longrightarrow> tick True True s s' \<Longrightarrow> reachable limits s'"

section \<open>The invariant\<close>

definition holders :: "tickets_state \<Rightarrow> nat \<Rightarrow> nat set" where
  "holders s p = {t. Some p \<in> set (tickets s t)}"

definition in_phase :: "tickets_state \<Rightarrow> phase \<Rightarrow> nat set" where
  "in_phase s ph = {t. phase_of s t = ph}"

definition real_tickets :: "tickets_state \<Rightarrow> nat \<Rightarrow> nat option list" where
  "real_tickets s t = filter (\<lambda>x. x \<noteq> None) (tickets s t)"

text \<open>A thread's flag says whether it has a ticket that counts, and it has one at most.\<close>

definition flag_ok :: "tickets_state \<Rightarrow> nat \<Rightarrow> bool" where
  "flag_ok s t \<longleftrightarrow> length (real_tickets s t) = (if holding s t then 1 else 0)"

text \<open>Only a running thread has a ticket that counts; only an enabled pool has a queue.\<close>

fun pool_of :: "phase \<Rightarrow> nat" where
  "pool_of Running = 0"
| "pool_of (Waiting p) = p"
| "pool_of (Notified p) = p"
| "pool_of (Notifying p) = p"

definition phase_ok :: "tickets_state \<Rightarrow> nat \<Rightarrow> bool" where
  "phase_ok s t \<longleftrightarrow>
     phase_of s t = Running \<or> \<not> holding s t \<and> 0 < limit_of s (pool_of (phase_of s t))"

definition count_ok :: "tickets_state \<Rightarrow> nat \<Rightarrow> bool" where
  "count_ok s p \<longleftrightarrow>
     finite (holders s p) \<and> card (holders s p) = in_flight s p \<and> in_flight s p \<le> limit_of s p"

definition queue_ok :: "tickets_state \<Rightarrow> nat \<Rightarrow> bool" where
  "queue_ok s p \<longleftrightarrow>
     finite (in_phase s (Waiting p)) \<and> finite (in_phase s (Notified p)) \<and>
     finite (in_phase s (Notifying p)) \<and>
     card (in_phase s (Waiting p)) + card (in_phase s (Notified p)) = waiting s p"

text \<open>
  No wake-up is lost: while a thread sleeps, every free permit is matched by a thread that
  is on its way to take it or to notify one.
\<close>

definition wake_ok :: "tickets_state \<Rightarrow> nat \<Rightarrow> bool" where
  "wake_ok s p \<longleftrightarrow>
     in_phase s (Waiting p) = {} \<or>
     limit_of s p \<le> in_flight s p + card (in_phase s (Notified p)) + card (in_phase s (Notifying p))"

definition adm_inv :: "tickets_state \<Rightarrow> bool" where
  "adm_inv s \<longleftrightarrow>
     (\<forall>t. flag_ok s t \<and> phase_ok s t) \<and> (\<forall>p. count_ok s p \<and> queue_ok s p \<and> wake_ok s p)"

lemmas thread_ok = flag_ok_def phase_ok_def
lemmas pool_ok = count_ok_def queue_ok_def wake_ok_def

lemma adm_invD:
  assumes "adm_inv s"
  shows "flag_ok s t" "phase_ok s t" "count_ok s p" "queue_ok s p" "wake_ok s p"
  using assms by (simp_all add: adm_inv_def)

lemma adm_invI:
  assumes "\<And>t. flag_ok s t" "\<And>t. phase_ok s t" "\<And>p. count_ok s p" "\<And>p. queue_ok s p" "\<And>p. wake_ok s p"
  shows "adm_inv s"
  using assms by (simp add: adm_inv_def)

lemma in_phase_set [simp]:
  "in_phase (s\<lparr>phase_of := (phase_of s)(t := ph)\<rparr>) q =
     (if ph = q then insert t (in_phase s q) else in_phase s q - {t})"
  by (auto simp: in_phase_def)

lemma in_phase_other [simp]:
  "in_phase (s\<lparr>in_flight := a\<rparr>) q = in_phase s q"
  "in_phase (s\<lparr>holding := b\<rparr>) q = in_phase s q"
  "in_phase (s\<lparr>tickets := c\<rparr>) q = in_phase s q"
  "in_phase (s\<lparr>waiting := w\<rparr>) q = in_phase s q"
  by (auto simp: in_phase_def)

lemma in_phase_iff [simp]: "t \<in> in_phase s ph \<longleftrightarrow> phase_of s t = ph"
  by (simp add: in_phase_def)

lemma holders_other [simp]:
  "holders (s\<lparr>in_flight := a\<rparr>) q = holders s q"
  "holders (s\<lparr>holding := b\<rparr>) q = holders s q"
  "holders (s\<lparr>waiting := w\<rparr>) q = holders s q"
  "holders (s\<lparr>phase_of := f\<rparr>) q = holders s q"
  by (auto simp: holders_def)

lemma holders_noop [simp]:
  "holders (s\<lparr>tickets := (tickets s)(t := None # tickets s t)\<rparr>) q = holders s q"
  by (auto simp: holders_def)

lemma holding_ticket:
  assumes "flag_ok s t" "holding s t"
  obtains p where "real_tickets s t = [Some p]"
proof -
  have "length (real_tickets s t) = 1" using assms by (simp add: flag_ok_def)
  then obtain x where "real_tickets s t = [x]" by (auto simp: length_Suc_conv)
  moreover have "x \<noteq> None"
    using arg_cong [OF calculation, of set] by (auto simp: real_tickets_def)
  ultimately show thesis using that by auto
qed

lemma holder_iff: "t \<in> holders s p \<longleftrightarrow> Some p \<in> set (real_tickets s t)"
  by (auto simp: holders_def real_tickets_def)

lemma holder_holding: "flag_ok s t \<Longrightarrow> t \<in> holders s p \<Longrightarrow> holding s t"
  by (cases "holding s t") (auto simp: holder_iff flag_ok_def)

text \<open>Taking out the ticket at \<open>i\<close>.\<close>

lemma real_tickets_removed:
  assumes "flag_ok s t" "i < length (tickets s t)" "tickets s t ! i = Some p"
  shows "real_tickets s t = [Some p]"
    and "filter (\<lambda>x. x \<noteq> None) (take i (tickets s t) @ drop (Suc i) (tickets s t)) = []"
proof -
  let ?f = "filter (\<lambda>x. x \<noteq> (None :: nat option))"
  have split: "tickets s t = take i (tickets s t) @ Some p # drop (Suc i) (tickets s t)"
    using assms(2,3) id_take_nth_drop by metis
  have "length (real_tickets s t) \<le> 1" using assms(1) by (simp add: flag_ok_def)
  moreover have "real_tickets s t = ?f (take i (tickets s t)) @ Some p # ?f (drop (Suc i) (tickets s t))"
    unfolding real_tickets_def by (subst split) simp
  ultimately have "?f (take i (tickets s t)) = [] \<and> ?f (drop (Suc i) (tickets s t)) = []" by simp
  then show "real_tickets s t = [Some p]" "?f (take i (tickets s t) @ drop (Suc i) (tickets s t)) = []"
    using \<open>real_tickets s t = _\<close> by simp_all
qed

lemma holders_drop_real:
  assumes "flag_ok s t" "i < length (tickets s t)" "tickets s t ! i = Some p"
  shows "holders (drop_ticket s t i) q = (if q = p then holders s p - {t} else holders s q)"
proof -
  have "Some q \<notin> set (take i (tickets s t) @ drop (Suc i) (tickets s t))" for q
    using real_tickets_removed(2) [OF assms] by (auto simp: filter_empty_conv)
  moreover have "Some q \<in> set (tickets s t) \<Longrightarrow> q = p" for q
    using real_tickets_removed(1) [OF assms] holder_iff [of t s q] by (auto simp: holders_def)
  ultimately show ?thesis
    using assms(3) by (auto simp: drop_ticket_def holders_def Let_def split: if_splits)
qed

lemma holders_drop_noop:
  assumes "i < length (tickets s t)" "tickets s t ! i = None"
  shows "holders (drop_ticket s t i) q = holders s q"
proof -
  have "set (tickets s t) = insert None (set (take i (tickets s t) @ drop (Suc i) (tickets s t)))"
    using id_take_nth_drop [OF assms(1)] assms(2)
    by (metis (no_types, lifting) Un_insert_right list.simps(15) set_append)
  then show ?thesis
    using assms(2) by (auto simp: drop_ticket_def holders_def Let_def)
qed

lemma real_tickets_upd [simp]:
  "real_tickets (s\<lparr>in_flight := a\<rparr>) = real_tickets s"
  "real_tickets (s\<lparr>holding := b\<rparr>) = real_tickets s"
  "real_tickets (s\<lparr>waiting := w\<rparr>) = real_tickets s"
  "real_tickets (s\<lparr>phase_of := f\<rparr>) = real_tickets s"
  "real_tickets (s\<lparr>tickets := (tickets s)(t := ts)\<rparr>) = (real_tickets s)(t := filter (\<lambda>x. x \<noteq> None) ts)"
  by (auto simp: real_tickets_def)

lemma not_holding_no_real: "flag_ok s t \<Longrightarrow> \<not> holding s t \<Longrightarrow> real_tickets s t = []"
  by (simp add: flag_ok_def)

lemma drop_noop_real:
  assumes "i < length (tickets s t)" "tickets s t ! i = None"
  shows "real_tickets (drop_ticket s t i) = real_tickets s"
proof -
  have "filter (\<lambda>x. x \<noteq> None) (take i (tickets s t) @ drop (Suc i) (tickets s t)) = real_tickets s t"
    unfolding real_tickets_def
    by (subst (3) id_take_nth_drop [OF assms(1)]) (simp add: assms(2))
  then show ?thesis
    using assms(2) by (simp add: drop_ticket_def Let_def fun_upd_idem)
qed

lemma in_phase_moved:
  "in_phase (s\<lparr>waiting := w, phase_of := (phase_of s)(t := ph)\<rparr>) q =
     (if ph = q then insert t (in_phase s q) else in_phase s q - {t})"
  by (auto simp: in_phase_def)

lemma adm_inv_new: "adm_inv (new_pools limits)"
  by (simp add: adm_inv_def thread_ok pool_ok new_pools_def holders_def in_phase_def real_tickets_def)

text \<open>A ticket that does not count changes nothing the invariant speaks of.\<close>

lemma adm_inv_noop:
  assumes "adm_inv s" shows "adm_inv (s\<lparr>tickets := (tickets s)(t := None # tickets s t)\<rparr>)"
proof -
  have "(real_tickets s)(t := filter (\<lambda>x. x \<noteq> None) (None # tickets s t)) = real_tickets s"
    by (auto simp: real_tickets_def)
  then show ?thesis using assms by (simp add: adm_inv_def thread_ok pool_ok)
qed

lemma holders_admit:
  "holders (admit s t p) q = (if q = p then insert t (holders s q) else holders s q)"
  by (auto simp: holders_def admit_def)

lemma adm_inv_admit:
  assumes inv: "adm_inv s" and t: "phase_of s t = Running" "\<not> holding s t" "in_flight s p < limit_of s p"
  shows "adm_inv (admit s t p)"
proof (rule adm_invI)
  have out: "t \<notin> holders s p"
    using t holder_holding adm_invD(1) [OF inv] by auto
  show "flag_ok (admit s t p) u" for u
    using not_holding_no_real [OF adm_invD(1) [OF inv] t(2)] adm_invD(1) [OF inv, of u]
    by (auto simp: flag_ok_def admit_def real_tickets_def split: if_splits)
  show "phase_ok (admit s t p) u" for u
    using adm_invD(2) [OF inv, of u] t by (auto simp: phase_ok_def admit_def)
  show "count_ok (admit s t p) q" for q
    using adm_invD(3) [OF inv, of q] t out by (cases "q = p") (simp_all add: count_ok_def holders_admit, simp_all add: admit_def)
  show "queue_ok (admit s t p) q" for q
    using adm_invD(4) [OF inv, of q] by (simp add: queue_ok_def admit_def)
  show "wake_ok (admit s t p) q" for q
    using adm_invD(5) [OF inv, of q] by (auto simp: wake_ok_def admit_def)
qed

lemma adm_inv_enqueue:
  assumes inv: "adm_inv s" and t: "phase_of s t = Running" "\<not> holding s t"
    and p: "0 < limit_of s p" "limit_of s p \<le> in_flight s p"
  shows "adm_inv (s\<lparr>waiting := (waiting s)(p := waiting s p + 1), phase_of := (phase_of s)(t := Waiting p)\<rparr>)"
    (is "adm_inv ?s'")
proof (rule adm_invI)
  show "flag_ok ?s' u" for u
    using adm_invD(1) [OF inv, of u] by (simp add: flag_ok_def)
  show "phase_ok ?s' u" for u
    using adm_invD(2) [OF inv, of u] t p by (auto simp: phase_ok_def)
  show "count_ok ?s' q" for q
    using adm_invD(3) [OF inv, of q] by (simp add: count_ok_def)
  show "queue_ok ?s' q" for q
    using adm_invD(4) [OF inv, of q] t by (auto simp: queue_ok_def in_phase_moved)
  show "wake_ok ?s' q" for q
    using adm_invD(5) [OF inv, of q] p t by (auto simp: wake_ok_def in_phase_moved)
qed

lemma adm_inv_acquire:
  assumes "adm_inv s" "phase_of s t = Running" shows "adm_inv (acquire s t p)"
  using assms adm_inv_noop adm_inv_enqueue adm_inv_admit by (simp add: acquire_def)


text \<open>A move between phases alone: the counts of tickets stay as they are.\<close>

lemma adm_inv_phase:
  assumes inv: "adm_inv s"
    and thr: "\<And>u. f u = phase_of s u \<or> f u = Running \<or> \<not> holding s u \<and> 0 < limit_of s (pool_of (f u))"
    and queue: "\<And>q. queue_ok (s\<lparr>phase_of := f\<rparr>) q" and wake: "\<And>q. wake_ok (s\<lparr>phase_of := f\<rparr>) q"
  shows "adm_inv (s\<lparr>phase_of := f\<rparr>)"
proof (rule adm_invI)
  show "flag_ok (s\<lparr>phase_of := f\<rparr>) u" for u
    using adm_invD(1) [OF inv, of u] by (simp add: flag_ok_def)
  show "phase_ok (s\<lparr>phase_of := f\<rparr>) u" for u
    using adm_invD(2) [OF inv, of u] thr [of u] by (auto simp: phase_ok_def)
  show "count_ok (s\<lparr>phase_of := f\<rparr>) q" for q
    using adm_invD(3) [OF inv, of q] by (simp add: count_ok_def)
qed (rule queue wake)+

lemma adm_inv_sleep:
  assumes inv: "adm_inv s" and t: "phase_of s t = Notified p" "limit_of s p \<le> in_flight s p"
  shows "adm_inv (s\<lparr>phase_of := (phase_of s)(t := Waiting p)\<rparr>)"
proof (rule adm_inv_phase [OF inv])
  show "((phase_of s)(t := Waiting p)) u = phase_of s u \<or> ((phase_of s)(t := Waiting p)) u = Running \<or>
        \<not> holding s u \<and> 0 < limit_of s (pool_of (((phase_of s)(t := Waiting p)) u))" for u
    using adm_invD(2) [OF inv, of t] t by (auto simp: phase_ok_def)
  have "0 < card (in_phase s (Notified p))"
    using adm_invD(4) [OF inv, of p] t by (auto simp: queue_ok_def card_gt_0_iff)
  then show "queue_ok (s\<lparr>phase_of := (phase_of s)(t := Waiting p)\<rparr>) q" for q
    using adm_invD(4) [OF inv, of q] t by (auto simp: queue_ok_def)
  show "wake_ok (s\<lparr>phase_of := (phase_of s)(t := Waiting p)\<rparr>) q" for q
    using adm_invD(5) [OF inv, of q] t by (auto simp: wake_ok_def)
qed

text \<open>Waking a sleeper, by a notification or not.\<close>

lemma adm_inv_wake:
  assumes inv: "adm_inv s" and t: "phase_of s t = Waiting p"
  shows "adm_inv (s\<lparr>phase_of := (phase_of s)(t := Notified p)\<rparr>)"
proof (rule adm_inv_phase [OF inv])
  show "((phase_of s)(t := Notified p)) u = phase_of s u \<or> ((phase_of s)(t := Notified p)) u = Running \<or>
        \<not> holding s u \<and> 0 < limit_of s (pool_of (((phase_of s)(t := Notified p)) u))" for u
    using adm_invD(2) [OF inv, of t] t by (auto simp: phase_ok_def)
  have "0 < card (in_phase s (Waiting p))"
    using adm_invD(4) [OF inv, of p] t by (auto simp: queue_ok_def card_gt_0_iff)
  then show "queue_ok (s\<lparr>phase_of := (phase_of s)(t := Notified p)\<rparr>) q" for q
    using adm_invD(4) [OF inv, of q] t by (auto simp: queue_ok_def)
  show "wake_ok (s\<lparr>phase_of := (phase_of s)(t := Notified p)\<rparr>) q" for q
    using adm_invD(4,5) [OF inv, of q] t by (auto simp: wake_ok_def queue_ok_def)
qed

text \<open>A thread that is done notifying, once its notification reached a sleeper or found none.\<close>

lemma adm_inv_notified:
  assumes inv: "adm_inv s" and t: "phase_of s t = Notifying p"
    and p: "in_phase s (Waiting p) = {} \<or>
      limit_of s p < in_flight s p + card (in_phase s (Notified p)) + card (in_phase s (Notifying p))"
  shows "adm_inv (s\<lparr>phase_of := (phase_of s)(t := Running)\<rparr>)"
proof (rule adm_inv_phase [OF inv])
  have "0 < card (in_phase s (Notifying p))"
    using adm_invD(4) [OF inv, of p] t by (auto simp: queue_ok_def card_gt_0_iff)
  then show "wake_ok (s\<lparr>phase_of := (phase_of s)(t := Running)\<rparr>) q" for q
    using adm_invD(4,5) [OF inv, of q] t p by (cases "q = p") (auto simp: wake_ok_def queue_ok_def)
  show "queue_ok (s\<lparr>phase_of := (phase_of s)(t := Running)\<rparr>) q" for q
    using adm_invD(4) [OF inv, of q] t by (auto simp: queue_ok_def)
qed simp


lemma adm_inv_notify:
  assumes inv: "adm_inv s" and t: "phase_of s t = Notifying p" and v: "phase_of s v = Waiting p"
  shows "adm_inv (notify_one s t (Some v))"
proof -
  let ?s = "s\<lparr>phase_of := (phase_of s)(v := Notified p)\<rparr>"
  have "limit_of s p \<le> in_flight s p + card (in_phase s (Notified p)) + card (in_phase s (Notifying p))"
    using adm_invD(5) [OF inv, of p] v by (auto simp: wake_ok_def)
  moreover have "card (in_phase ?s (Notified p)) = Suc (card (in_phase s (Notified p)))"
    using adm_invD(4) [OF inv, of p] v by (simp add: queue_ok_def)
  moreover have "in_phase ?s (Notifying p) = in_phase s (Notifying p)"
    using v by auto
  ultimately have "adm_inv (?s\<lparr>phase_of := (phase_of ?s)(t := Running)\<rparr>)"
    using t v by (intro adm_inv_notified [OF adm_inv_wake [OF inv v]]) auto
  then show ?thesis using t v by (simp add: notify_one_def)
qed

lemma adm_inv_notify_none:
  assumes "adm_inv s" "phase_of s t = Notifying p" "\<forall>v. phase_of s v \<noteq> Waiting p"
  shows "adm_inv (notify_one s t None)"
  using adm_inv_notified [OF assms(1,2)] assms(2,3) by (simp add: notify_one_def in_phase_def)

lemma adm_inv_recheck:
  assumes inv: "adm_inv s" and t: "phase_of s t = Notified p"
  shows "adm_inv (recheck s t p)"
proof (cases "limit_of s p \<le> in_flight s p")
  case True
  then show ?thesis using adm_inv_sleep [OF inv t] by (simp add: recheck_def)
next
  case False
  let ?s = "s\<lparr>waiting := (waiting s)(p := waiting s p - 1), phase_of := (phase_of s)(t := Running)\<rparr>"
  have ph: "\<not> holding s t" "0 < limit_of s p"
    using adm_invD(2) [OF inv, of t] t by (simp_all add: phase_ok_def)
  have pos: "0 < card (in_phase s (Notified p))" "t \<notin> holders s p"
    using adm_invD(4) [OF inv, of p] t holder_holding [OF adm_invD(1) [OF inv]] ph
    by (auto simp: queue_ok_def card_gt_0_iff)
  show ?thesis
  proof (rule adm_invI)
    show "flag_ok (recheck s t p) u" for u
      using not_holding_no_real [OF adm_invD(1) [OF inv] ph(1)] adm_invD(1) [OF inv, of u] False
      by (auto simp: flag_ok_def recheck_def admit_def real_tickets_def split: if_splits)
    show "phase_ok (recheck s t p) u" for u
      using adm_invD(2) [OF inv, of u] False by (auto simp: phase_ok_def recheck_def admit_def)
    show "count_ok (recheck s t p) q" for q
      using adm_invD(3) [OF inv, of q] pos False
      by (cases "q = p") (simp_all add: count_ok_def recheck_def holders_admit, simp_all add: admit_def)
    show "queue_ok (recheck s t p) q" for q
      using adm_invD(4) [OF inv, of q] pos t False
      by (cases "q = p") (auto simp: queue_ok_def recheck_def admit_def in_phase_moved)
    show "wake_ok (recheck s t p) q" for q
      using adm_invD(4,5) [OF inv, of q] pos t False
      by (cases "q = p") (auto simp: wake_ok_def queue_ok_def recheck_def admit_def in_phase_moved)
  qed
qed

lemma in_phase_drop:
  "tickets s t ! i = Some p \<Longrightarrow>
   in_phase (drop_ticket s t i) q =
     (if q = Notifying p then insert t (in_phase s q) else in_phase s q - {t})"
  by (auto simp: in_phase_def drop_ticket_def)

lemma drop_real_simps:
  "tickets s t ! i = Some p \<Longrightarrow> in_flight (drop_ticket s t i) = (in_flight s)(p := in_flight s p - 1)"
  "limit_of (drop_ticket s t i) = limit_of s" "waiting (drop_ticket s t i) = waiting s"
  by (simp_all add: drop_ticket_def Let_def split: option.split)

lemma adm_inv_drop_real:
  assumes inv: "adm_inv s" and t: "phase_of s t = Running" "i < length (tickets s t)"
    and p: "tickets s t ! i = Some p"
  shows "adm_inv (drop_ticket s t i)"
proof (rule adm_invI)
  note removed = real_tickets_removed [OF adm_invD(1) [OF inv] t(2) p]
  have hold: "t \<in> holders s p" using removed(1) by (simp add: holder_iff)
  then have "card (holders s p) \<noteq> 0"
    using adm_invD(3) [OF inv, of p] unfolding count_ok_def by (metis card_0_eq empty_iff)
  then have pos: "0 < card (holders s p)" "0 < limit_of s p"
    using adm_invD(3) [OF inv, of p] by (simp_all add: count_ok_def)
  show "flag_ok (drop_ticket s t i) u" for u
    using removed(2) adm_invD(1) [OF inv, of u] p
    by (auto simp: flag_ok_def drop_ticket_def real_tickets_def split: if_splits)
  show "phase_ok (drop_ticket s t i) u" for u
    using adm_invD(2) [OF inv, of u] p pos by (auto simp: phase_ok_def drop_ticket_def)
  show "count_ok (drop_ticket s t i) q" for q
    using adm_invD(3) [OF inv, of q] hold p
    by (cases "q = p")
      (simp_all add: count_ok_def holders_drop_real [OF adm_invD(1) [OF inv] t(2) p], auto simp: drop_ticket_def)
  show "queue_ok (drop_ticket s t i) q" for q
    using adm_invD(4) [OF inv, of q] t p by (auto simp: queue_ok_def drop_real_simps in_phase_drop)
  show "wake_ok (drop_ticket s t i) q" for q
    using adm_invD(3-5) [OF inv, of q] t p pos
    by (cases "q = p") (auto simp: wake_ok_def queue_ok_def count_ok_def drop_real_simps in_phase_drop)
qed

lemma adm_inv_drop:
  assumes inv: "adm_inv s" and t: "phase_of s t = Running" "i < length (tickets s t)"
  shows "adm_inv (drop_ticket s t i)"
proof (cases "tickets s t ! i")
  case None
  have "real_tickets (drop_ticket s t i) = real_tickets s" "holders (drop_ticket s t i) q = holders s q" for q
    using drop_noop_real [OF t(2) None] holders_drop_noop [OF t(2) None] by simp_all
  then show ?thesis
    using inv None by (simp add: adm_inv_def thread_ok pool_ok) (auto simp: drop_ticket_def)
qed (use adm_inv_drop_real [OF assms] in simp)

lemma adm_inv_tick: "tick fresh wild s s' \<Longrightarrow> adm_inv s \<Longrightarrow> adm_inv s'"
  by (induction rule: tick.induct)
    (simp_all add: adm_inv_acquire adm_inv_recheck adm_inv_drop adm_inv_notify adm_inv_notify_none adm_inv_wake)

lemma adm_inv_reachable: "reachable limits s \<Longrightarrow> adm_inv s"
  by (induction rule: reachable.induct) (simp_all add: adm_inv_new adm_inv_tick)


lemma limit_tick [simp]: "tick fresh wild s s' \<Longrightarrow> limit_of s' = limit_of s"
  by (induction rule: tick.induct)
    (simp_all add: acquire_def recheck_def admit_def drop_ticket_def notify_one_def Let_def
       split: option.split)

lemma limit_reachable: "reachable limits s \<Longrightarrow> limit_of s = limits"
  by (induction rule: reachable.induct) (simp_all add: new_pools_def)

section \<open>Progress\<close>

text \<open>The steps below need no spurious wake-up and no thread that asks for a ticket.\<close>

definition can_admit :: "tickets_state \<Rightarrow> nat \<Rightarrow> nat \<Rightarrow> bool" where
  "can_admit s t p \<longleftrightarrow> (\<exists>s'. (tick False False)\<^sup>*\<^sup>* s s' \<and> t \<in> holders s' p)"

lemma can_admit_step: "tick False False s s' \<Longrightarrow> can_admit s' t p \<Longrightarrow> can_admit s t p"
  unfolding can_admit_def by (meson converse_rtranclp_into_rtranclp)

lemma holder_running:
  assumes "adm_inv s" "t \<in> holders s p" shows "phase_of s t = Running"
  using adm_invD(2) [OF assms(1), of t] holder_holding [OF adm_invD(1) [OF assms(1)] assms(2)]
  by (simp add: phase_ok_def)

text \<open>A holder can always drop its ticket, which leaves it about to notify a sleeper.\<close>

lemma holder_drops:
  assumes inv: "adm_inv s" and h: "h \<in> holders s p"
  obtains i where "tick False False s (drop_ticket s h i)" "adm_inv (drop_ticket s h i)"
    "phase_of (drop_ticket s h i) = (phase_of s)(h := Notifying p)"
    "in_flight (drop_ticket s h i) p < limit_of (drop_ticket s h i) p"
proof -
  obtain i where i: "i < length (tickets s h)" "tickets s h ! i = Some p"
    using h by (auto simp: holders_def in_set_conv_nth)
  have run: "phase_of s h = Running" using holder_running [OF inv h] .
  have "card (holders s p) \<noteq> 0"
    using adm_invD(3) [OF inv, of p] h unfolding count_ok_def by (metis card_0_eq empty_iff)
  then have "0 < in_flight s p" "in_flight s p \<le> limit_of s p"
    using adm_invD(3) [OF inv, of p] by (simp_all add: count_ok_def)
  then show thesis
    using that [of i] tick.drop [OF run i(1)] adm_inv_drop [OF inv run i(1)] i(2)
    by (simp add: drop_ticket_def)
qed

lemma recheck_admits:
  assumes "phase_of s t = Notified p" "in_flight s p < limit_of s p"
  shows "can_admit s t p"
proof -
  have "tick False False s (recheck s t p)" using assms(1) by (rule tick.recheck)
  moreover have "t \<in> holders (recheck s t p) p" using assms(2) by (simp add: recheck_def holders_admit)
  ultimately show ?thesis unfolding can_admit_def by blast
qed

lemma full_pool_has_holder:
  assumes "adm_inv s" "0 < limit_of s p" "limit_of s p \<le> in_flight s p"
  obtains h where "h \<in> holders s p"
  using adm_invD(3) [OF assms(1), of p] assms(2,3) by (force simp: count_ok_def)

lemma notified_can_admit:
  assumes inv: "adm_inv s" and t: "phase_of s t = Notified p"
  shows "can_admit s t p"
proof (cases "limit_of s p \<le> in_flight s p")
  case True
  moreover have "0 < limit_of s p" using adm_invD(2) [OF inv, of t] t by (simp add: phase_ok_def)
  ultimately obtain h where h: "h \<in> holders s p" using full_pool_has_holder [OF inv] by blast
  obtain i where i: "tick False False s (drop_ticket s h i)"
      "phase_of (drop_ticket s h i) = (phase_of s)(h := Notifying p)"
      "in_flight (drop_ticket s h i) p < limit_of (drop_ticket s h i) p"
    using holder_drops [OF inv h] by blast
  have "h \<noteq> t" using holder_running [OF inv h] t by auto
  then show ?thesis using can_admit_step [OF i(1) recheck_admits] i t by simp
qed (use recheck_admits t in simp)

lemma notifying_can_admit:
  assumes inv: "adm_inv s" and t: "phase_of s t = Waiting p" and u: "phase_of s u = Notifying p"
  shows "can_admit s t p"
proof -
  have "tick False False s (notify_one s u (Some t))" using u t by (rule tick.notify)
  moreover have "phase_of (notify_one s u (Some t)) t = Notified p" using t u by (auto simp: notify_one_def)
  ultimately show ?thesis using can_admit_step notified_can_admit adm_inv_tick inv by blast
qed

lemma holder_can_admit:
  assumes inv: "adm_inv s" and t: "phase_of s t = Waiting p" and h: "h \<in> holders s p"
  shows "can_admit s t p"
proof -
  obtain i where i: "tick False False s (drop_ticket s h i)" "adm_inv (drop_ticket s h i)"
      "phase_of (drop_ticket s h i) = (phase_of s)(h := Notifying p)"
    using holder_drops [OF inv h] by blast
  have "h \<noteq> t" using holder_running [OF inv h] t by auto
  then show ?thesis using can_admit_step [OF i(1) notifying_can_admit [OF i(2), of t p h]] i(3) t by simp
qed

text \<open>What the wake-up invariant leaves a sleeper: a holder, a woken thread or one about to notify.\<close>

lemma sleeper_cases:
  assumes inv: "adm_inv s" and t: "phase_of s t = Waiting p"
  obtains (holder) h where "h \<in> holders s p"
    | (woken) u where "phase_of s u = Notified p"
    | (notifier) u where "phase_of s u = Notifying p"
proof -
  have "0 < limit_of s p" using adm_invD(2) [OF inv, of t] t by (simp add: phase_ok_def)
  moreover have "limit_of s p \<le> in_flight s p + card (in_phase s (Notified p)) + card (in_phase s (Notifying p))"
    using adm_invD(5) [OF inv, of p] t by (auto simp: wake_ok_def)
  ultimately have "0 < card (holders s p) \<or> 0 < card (in_phase s (Notified p)) \<or> 0 < card (in_phase s (Notifying p))"
    using adm_invD(3) [OF inv, of p] unfolding count_ok_def by linarith
  then show thesis using holder woken notifier by (auto simp: card_gt_0_iff)
qed

lemma waiting_can_admit:
  assumes inv: "adm_inv s" and t: "phase_of s t = Waiting p"
  shows "can_admit s t p"
  using inv t
proof (cases rule: sleeper_cases)
  case (woken u)
  show ?thesis
  proof (cases "limit_of s p \<le> in_flight s p")
    case True
    moreover have "0 < limit_of s p" using adm_invD(2) [OF inv, of t] t by (simp add: phase_ok_def)
    ultimately show ?thesis
      using full_pool_has_holder [OF inv] holder_can_admit [OF inv t] by blast
  next
    case False
    have step: "tick False False s (recheck s u p)" using woken by (rule tick.recheck)
    have "u \<in> holders (recheck s u p) p" "phase_of (recheck s u p) t = Waiting p"
      using False t woken by (auto simp: recheck_def holders_admit) (auto simp: admit_def)
    then show ?thesis
      using can_admit_step [OF step holder_can_admit [OF adm_inv_tick [OF step inv]]] by blast
  qed
qed (use holder_can_admit [OF inv t] notifying_can_admit [OF inv t] in blast)+


section \<open>Properties\<close>

text \<open>
  C17: whatever threads do, and with spurious wake-ups, the number of
  threads admitted to a pool is the pool's count and never exceeds its limit, each of them
  has one ticket that counts, and the reported queue length is the number of threads blocked
  in \<open>acquire\<close>.
\<close>

theorem tickets_within_limit:
  assumes "reachable limits s"
  shows "card (holders s p) = in_flight s p \<and> in_flight s p \<le> limits p \<and>
    length (real_tickets s t) = (if holding s t then 1 else 0) \<and>
    waiting s p = card {u. phase_of s u \<in> {Waiting p, Notified p}}"
proof (intro conjI)
  note inv = adm_inv_reachable [OF assms]
  have "{u. phase_of s u \<in> {Waiting p, Notified p}} = in_phase s (Waiting p) \<union> in_phase s (Notified p)"
    by auto
  moreover have "in_phase s (Waiting p) \<inter> in_phase s (Notified p) = {}" by auto
  ultimately show "waiting s p = card {u. phase_of s u \<in> {Waiting p, Notified p}}"
    using adm_invD(4) [OF inv, of p] by (simp add: queue_ok_def card_Un_disjoint)
  show "card (holders s p) = in_flight s p" "in_flight s p \<le> limits p"
    using adm_invD(3) [OF inv, of p] limit_reachable [OF assms] by (simp_all add: count_ok_def)
  show "length (real_tickets s t) = (if holding s t then 1 else 0)"
    using adm_invD(1) [OF inv, of t] by (simp add: flag_ok_def)
qed

text \<open>
  A thread that is already admitted is never blocked by a nested
  \<open>acquire\<close>: it goes on running with a ticket that does not count, and dropping that ticket
  gives back the state before, the outer ticket still held.
\<close>

theorem nested_acquire_rides:
  assumes "reachable limits s" "t \<in> holders s q"
  shows "phase_of (acquire s t p) t = Running \<and> in_flight (acquire s t p) = in_flight s \<and>
    t \<in> holders (acquire s t p) q \<and> drop_ticket (acquire s t p) t 0 = s"
proof (intro conjI)
  note inv = adm_inv_reachable [OF assms(1)]
  have "holding s t" using holder_holding [OF adm_invD(1) [OF inv] assms(2)] .
  then have a: "acquire s t p = s\<lparr>tickets := (tickets s)(t := None # tickets s t)\<rparr>"
    by (simp add: acquire_def)
  show "phase_of (acquire s t p) t = Running" using holder_running [OF inv assms(2)] by (simp add: a)
  show "in_flight (acquire s t p) = in_flight s" by (simp add: a)
  show "t \<in> holders (acquire s t p) q" using assms(2) by (simp add: a)
  show "drop_ticket (acquire s t p) t 0 = s" by (simp add: a drop_ticket_def)
qed

text \<open>
  C18: no wake-up is lost. In every reachable state in which a thread
  sleeps in \<open>acquire\<close>, every permit that is free is matched by a thread already notified, which is
  going to look, or by one that has dropped its ticket and is about to notify. So the sleeper can
  still be admitted by what the threads in the pool have left to do, without a spurious wake-up and
  without any thread that asks for a ticket from now on.
\<close>

theorem blocked_writer_not_stranded:
  assumes "reachable limits s" "phase_of s t = Waiting p"
  shows "limits p \<le> in_flight s p + card {u. phase_of s u = Notified p} + card {u. phase_of s u = Notifying p} \<and>
    (\<exists>s'. (tick False False)\<^sup>*\<^sup>* s s' \<and> t \<in> holders s' p)"
proof
  note inv = adm_inv_reachable [OF assms(1)]
  show "limits p \<le> in_flight s p + card {u. phase_of s u = Notified p} + card {u. phase_of s u = Notifying p}"
    using adm_invD(5) [OF inv, of p] assms(2) limit_reachable [OF assms(1)] by (auto simp: wake_ok_def in_phase_def)
  show "\<exists>s'. (tick False False)\<^sup>*\<^sup>* s s' \<and> t \<in> holders s' p"
    using waiting_can_admit [OF inv assms(2)] by (simp add: can_admit_def)
qed

text \<open>A pool of one permit, held by thread 0 while thread 1 waits.\<close>

definition contended :: tickets_state where
  "contended = acquire (acquire (new_pools (\<lambda>_. 1)) 0 0) 1 0"

lemma reachable_contended: "reachable (\<lambda>_. 1) contended"
proof -
  have "reachable (\<lambda>_. 1) (acquire (new_pools (\<lambda>_. 1)) 0 0)"
    by (rule reachable.step [OF reachable.start tick.acquire]) (simp_all add: new_pools_def)
  then show ?thesis unfolding contended_def
    by (rule reachable.step [OF _ tick.acquire]) (simp_all add: new_pools_def acquire_def admit_def)
qed

lemma contended_simps: "phase_of contended 1 = Waiting 0" "0 \<in> holders contended 0" "in_flight contended 0 = 1"
  by (simp_all add: contended_def new_pools_def acquire_def admit_def holders_def)

theorem tickets_within_limit_witness:
  "card (holders contended 0) = 1 \<and> in_flight contended 0 \<le> 1"
  using tickets_within_limit [OF reachable_contended, of 0] contended_simps(3) by simp

theorem nested_acquire_rides_witness:
  "drop_ticket (acquire contended 0 0) 0 0 = contended"
  using nested_acquire_rides [OF reachable_contended contended_simps(2)] by blast

theorem blocked_writer_not_stranded_witness:
  "\<exists>s'. (tick False False)\<^sup>*\<^sup>* contended s' \<and> 1 \<in> holders s' 0"
  using blocked_writer_not_stranded [OF reachable_contended contended_simps(1)] by blast

end
