(* ===== verification/Share_Locks.thy ===== *)
theory Share_Locks
  imports Rust_Std
begin

text \<open>
  Shared row locks: \<open>secantus-storage/src/share_locks.rs\<close> and the part of a transaction's
  \<open>Held\<close> record (\<open>secantus-storage/src/lib.rs\<close>) that takes, mirrors and releases them.

  The process-wide table maps a store and a row to the transactions that share it, each
  with its strength; \<open>COUNT\<close> is the sources' atomic entry counter, which lets a writer skip
  the table while it is zero. A transaction is identified by the address of its \<open>Held\<close>
  record. The thread-local variables a write reads and sets are the record \<open>thread\<close>.
\<close>

section \<open>Definitions\<close>

unbundle bit_operations_syntax

type_synonym usize = "64 word"
type_synonym written_row = "rstr \<times> rstr \<times> i64"

datatype share_mode = KeyShare | Share

text \<open>The derived order: \<open>KeyShare\<close> is the weaker.\<close>

fun mode_max :: "share_mode \<Rightarrow> share_mode \<Rightarrow> share_mode" where
  "mode_max KeyShare m = m"
| "mode_max Share m = Share"

record share_table =
  entries :: "usize \<times> written_row \<Rightarrow> (usize \<times> share_mode) list option"
  COUNT :: nat

definition mover_of :: "usize \<Rightarrow> usize" where
  "mover_of holder = holder OR 1"

text \<open>What a writer reads of the table, and its test of the counter before.\<close>

definition sharers_block :: "share_table \<Rightarrow> bool \<Rightarrow> usize \<Rightarrow> written_row \<Rightarrow> usize \<Rightarrow> bool" where
  "sharers_block T key_write store row me =
     (case entries T (store, row) of
        None \<Rightarrow> False
      | Some hs \<Rightarrow> list_ex (\<lambda>(h, m). h \<noteq> me \<and> h \<noteq> mover_of me \<and> (key_write \<or> m = Share)) hs)"

definition write_blocked :: "share_table \<Rightarrow> bool \<Rightarrow> usize \<Rightarrow> written_row \<Rightarrow> usize \<Rightarrow> bool" where
  "write_blocked T key_write store row me =
     (if COUNT T = 0 then False else sharers_block T key_write store row me)"

text \<open>\<open>iter_mut().find\<close> and the update of what it finds.\<close>

fun strengthen :: "usize \<Rightarrow> share_mode \<Rightarrow> (usize \<times> share_mode) list \<Rightarrow> (usize \<times> share_mode) list option" where
  "strengthen holder mode [] = None"
| "strengthen holder mode ((h, m) # hs) =
     (if h = holder then Some ((h, mode_max m mode) # hs)
      else map_option ((#) (h, m)) (strengthen holder mode hs))"

definition add :: "share_table \<Rightarrow> usize \<Rightarrow> written_row \<Rightarrow> usize \<Rightarrow> share_mode \<Rightarrow> share_table \<times> bool" where
  "add T store row holder mode =
     (let hs = (case entries T (store, row) of None \<Rightarrow> [] | Some hs \<Rightarrow> hs)
      in case strengthen holder mode hs of
           Some hs' \<Rightarrow> (T\<lparr>entries := (entries T)((store, row) \<mapsto> hs')\<rparr>, False)
         | None \<Rightarrow>
             (T\<lparr>entries := (entries T)((store, row) \<mapsto> hs @ [(holder, mode)]), COUNT := COUNT T + 1\<rparr>, True))"

definition remove :: "share_table \<Rightarrow> usize \<Rightarrow> written_row \<Rightarrow> usize \<Rightarrow> share_table" where
  "remove T store row holder =
     (case entries T (store, row) of
        None \<Rightarrow> T
      | Some hs \<Rightarrow>
          (let hs' = filter (\<lambda>(h, m). h \<noteq> holder) hs
           in T\<lparr>entries := (entries T)((store, row) := (if hs' = [] then None else Some hs')),
                COUNT := COUNT T - (length hs - length hs')\<rparr>))"

text \<open>
  A transaction's record. \<open>addr\<close> is its address, the holder it is in the table; the undo
  journal, which none of these operations touches, is left out.
\<close>

record held =
  addr :: usize
  rows :: "written_row set"
  collections :: "(rstr \<times> rstr) list"
  key_rows :: "written_row set"
  shared :: "written_row \<Rightarrow> share_mode option"
  shared_log :: "written_row list"
  moving :: "written_row set"
  store_of :: usize

definition clear :: "held \<Rightarrow> held" where
  "clear h = h\<lparr>rows := {}, collections := [], key_rows := {}\<rparr>"

definition share_row :: "held option \<Rightarrow> share_table \<Rightarrow> written_row \<Rightarrow> share_mode \<Rightarrow> held option \<times> share_table \<times> bool" where
  "share_row active T row mode =
     (case active of
        None \<Rightarrow> (None, T, False)
      | Some h \<Rightarrow>
          (let (T', new) = add T (store_of h) row (addr h) mode;
               prev = shared h row;
               h' = h\<lparr>shared := (shared h)(row \<mapsto> (case prev of None \<Rightarrow> mode | Some p \<Rightarrow> mode_max p mode)),
                     shared_log := (if prev = None then shared_log h @ [row] else shared_log h)\<rparr>
           in (Some h', T', new)))"

definition unshare_row :: "held option \<Rightarrow> share_table \<Rightarrow> written_row \<Rightarrow> held option \<times> share_table" where
  "unshare_row active T row =
     (case active of
        None \<Rightarrow> (None, T)
      | Some h \<Rightarrow>
          (Some (h\<lparr>shared := (shared h)(row := None), shared_log := filter (\<lambda>r. r \<noteq> row) (shared_log h)\<rparr>),
           remove T (store_of h) row (addr h)))"

fun release_rows :: "written_row list \<Rightarrow> held \<Rightarrow> share_table \<Rightarrow> held \<times> share_table" where
  "release_rows [] h T = (h, T)"
| "release_rows (row # rs) h T =
     release_rows rs (h\<lparr>shared := (shared h)(row := None)\<rparr>) (remove T (store_of h) row (addr h))"

definition release_shared_after :: "nat \<Rightarrow> held \<Rightarrow> share_table \<Rightarrow> held \<times> share_table" where
  "release_shared_after keep h T =
     (if length (shared_log h) \<le> keep then (h, T)
      else release_rows (drop keep (shared_log h)) (h\<lparr>shared_log := take keep (shared_log h)\<rparr>) T)"

definition release_shared :: "held \<Rightarrow> share_table \<Rightarrow> held \<times> share_table" where
  "release_shared h T = release_shared_after 0 h T"

text \<open>
  The guard of a transaction that moves: \<open>rs\<close> are its rows in the order the hash set yields
  them. The guard keeps the rows it added.
\<close>

fun guard_rows :: "held \<Rightarrow> written_row list \<Rightarrow> share_table \<Rightarrow> share_table \<times> written_row list" where
  "guard_rows h [] T = (T, [])"
| "guard_rows h (row # rs) T =
     (let (T', new) = add T (store_of h) row (mover_of (addr h)) Share;
          (T'', added) = guard_rows h rs T'
      in (T'', if new then row # added else added))"

definition move_guard_new :: "held \<Rightarrow> written_row list \<Rightarrow> share_table \<Rightarrow> held \<times> share_table \<times> written_row list" where
  "move_guard_new h rs T =
     (let (T', added) = guard_rows h rs T in (h\<lparr>moving := set rs\<rparr>, T', added))"

definition move_guard_drop :: "held \<Rightarrow> written_row list \<Rightarrow> share_table \<Rightarrow> held \<times> share_table" where
  "move_guard_drop h added T =
     (h\<lparr>moving := {}\<rparr>, fold (\<lambda>row T. remove T (store_of h) row (mover_of (addr h))) added T)"

record thread =
  txn_session :: bool
  active_rows :: "held option"
  KEY_WRITE :: bool
  stmt_written :: "(rstr \<times> rstr) list"
  last_row :: "written_row option"

definition ID_KEY_ROW_SUFFIX :: rstr where
  "ID_KEY_ROW_SUFFIX = 0 # lit ''_id''"

definition row_collection :: "rstr \<Rightarrow> rstr" where
  "row_collection coll = (case strip_suffix ID_KEY_ROW_SUFFIX coll of None \<Rightarrow> coll | Some base \<Rightarrow> base)"

text \<open>\<open>with_key_write\<close>: the closure runs with the flag set, which is then put back.\<close>

definition with_key_write :: "(thread \<Rightarrow> thread \<times> 'a) \<Rightarrow> thread \<Rightarrow> thread \<times> 'a" where
  "with_key_write f t =
     (let (t', r) = f (t\<lparr>KEY_WRITE := True\<rparr>) in (t'\<lparr>KEY_WRITE := KEY_WRITE t\<rparr>, r))"

definition note_collection :: "rstr \<Rightarrow> rstr \<Rightarrow> (rstr \<times> rstr) list \<Rightarrow> (rstr \<times> rstr) list" where
  "note_collection db coll cs =
     (if list_ex (\<lambda>(d, c). d = db \<and> c = row_collection coll) cs then cs else cs @ [(db, row_collection coll)])"

text \<open>The row enters the transaction's record.\<close>

definition publish_row :: "held \<Rightarrow> bool \<Rightarrow> rstr \<Rightarrow> rstr \<Rightarrow> i64 \<Rightarrow> held" where
  "publish_row h key_write db coll recordid =
     h\<lparr>collections := note_collection db coll (collections h),
       rows := insert (db, coll, recordid) (rows h),
       key_rows := (if key_write then insert (db, coll, recordid) (key_rows h) else key_rows h)\<rparr>"

datatype storage_error = WriteConflict

definition note_row :: "thread \<Rightarrow> share_table \<Rightarrow> rstr \<Rightarrow> rstr \<Rightarrow> i64 \<Rightarrow> thread \<times> (storage_error + unit)" where
  "note_row t T db coll recordid =
     (let row = (db, coll, recordid);
          active = (if txn_session t then active_rows t else None);
          me = (case active of None \<Rightarrow> 0 | Some h \<Rightarrow> addr h);
          store = (case active of None \<Rightarrow> 0 | Some h \<Rightarrow> store_of h);
          t1 = (case active of
                  None \<Rightarrow> t
                | Some h \<Rightarrow> t\<lparr>active_rows := Some (publish_row h (KEY_WRITE t) db coll recordid)\<rparr>);
          t2 = (if me = 0 then t1\<lparr>stmt_written := note_collection db coll (stmt_written t1)\<rparr> else t1);
          blocked = (store \<noteq> 0 \<and> write_blocked T (KEY_WRITE t) store row me);
          t3 = t2\<lparr>last_row := Some row\<rparr>
      in (t3, if blocked then Inl WriteConflict else Inr ()))"

section \<open>The table as a map from lock to strength\<close>

text \<open>
  A lock is a store, a row and a holder. What clients rely on: taking a lock enters it with
  the stronger of the two modes and answers whether it was new, letting it go removes it,
  and neither touches another lock.
\<close>

type_synonym lock_id = "usize \<times> written_row \<times> usize"

locale lock_registry =
  fixes ok :: "'t \<Rightarrow> bool"
    and lookup :: "'t \<Rightarrow> 'k \<Rightarrow> 'm option"
    and join :: "'m \<Rightarrow> 'm \<Rightarrow> 'm"
    and take_lock :: "'k \<Rightarrow> 'm \<Rightarrow> 't \<Rightarrow> 't \<times> bool"
    and drop_lock :: "'k \<Rightarrow> 't \<Rightarrow> 't"
  assumes ok_take: "ok t \<Longrightarrow> ok (fst (take_lock k m t))"
    and ok_drop: "ok t \<Longrightarrow> ok (drop_lock k t)"
    and lookup_take: "ok t \<Longrightarrow> lookup (fst (take_lock k m t)) =
      (lookup t)(k \<mapsto> (case lookup t k of None \<Rightarrow> m | Some p \<Rightarrow> join p m))"
    and take_new: "ok t \<Longrightarrow> snd (take_lock k m t) \<longleftrightarrow> lookup t k = None"
    and lookup_drop: "ok t \<Longrightarrow> lookup (drop_lock k t) = (lookup t)(k := None)"
begin

lemma ok_drop_all: "ok t \<Longrightarrow> ok (fold drop_lock ks t)"
  by (induction ks arbitrary: t) (simp_all add: ok_drop)

lemma lookup_drop_all:
  "ok t \<Longrightarrow> lookup (fold drop_lock ks t) = (\<lambda>k. if k \<in> set ks then None else lookup t k)"
  by (induction ks arbitrary: t) (auto simp: ok_drop lookup_drop)

text \<open>Taking a new lock and letting it go leaves the locks as they were.\<close>

lemma take_drop:
  assumes "ok t" "snd (take_lock k m t)"
  shows "lookup (drop_lock k (fst (take_lock k m t))) = lookup t"
  using assms by (simp add: ok_take lookup_take lookup_drop take_new fun_upd_idem)

end

definition mode_of :: "share_table \<Rightarrow> lock_id \<Rightarrow> share_mode option" where
  "mode_of T = (\<lambda>(store, row, holder).
     case entries T (store, row) of None \<Rightarrow> None | Some hs \<Rightarrow> map_of hs holder)"

definition total :: "share_table \<Rightarrow> nat" where
  "total T = (\<Sum>k\<in>dom (entries T). length (the (entries T k)))"

text \<open>
  No list of sharers is empty or names a holder twice, and the counter is the number of
  entries.
\<close>

definition table_ok :: "share_table \<Rightarrow> bool" where
  "table_ok T \<longleftrightarrow>
     finite (dom (entries T)) \<and>
     (\<forall>k hs. entries T k = Some hs \<longrightarrow> hs \<noteq> [] \<and> distinct (map fst hs)) \<and>
     COUNT T = total T"

definition take_share :: "lock_id \<Rightarrow> share_mode \<Rightarrow> share_table \<Rightarrow> share_table \<times> bool" where
  "take_share = (\<lambda>(store, row, holder) mode T. add T store row holder mode)"

definition drop_share :: "lock_id \<Rightarrow> share_table \<Rightarrow> share_table" where
  "drop_share = (\<lambda>(store, row, holder) T. remove T store row holder)"

lemma strengthen_None: "strengthen h m hs = None \<longleftrightarrow> h \<notin> fst ` set hs"
  by (induction hs) (auto split: if_splits)

lemma strengthen_keys: "strengthen h m hs = Some hs' \<Longrightarrow> map fst hs' = map fst hs"
  by (induction hs arbitrary: hs') (auto split: if_splits)

lemma strengthen_map_of:
  "strengthen h m hs = Some hs' \<Longrightarrow>
   map_of hs' = (map_of hs)(h \<mapsto> (case map_of hs h of None \<Rightarrow> m | Some p \<Rightarrow> mode_max p m))"
  by (induction hs arbitrary: hs') (auto simp: fun_upd_twist split: if_splits)

lemma total_update:
  assumes "finite (dom (entries T))"
  shows "total (T\<lparr>entries := (entries T)(k := v)\<rparr>) + (case entries T k of None \<Rightarrow> 0 | Some hs \<Rightarrow> length hs) =
    total T + (case v of None \<Rightarrow> 0 | Some hs \<Rightarrow> length hs)"
proof -
  let ?e = "entries T" and ?R = "dom (entries T) - {k}"
  have rest: "(\<Sum>j\<in>?R. length (the ((?e(k := v)) j))) = (\<Sum>j\<in>?R. length (the (?e j)))"
    by (rule sum.cong) auto
  have old: "total T = (\<Sum>j\<in>?R. length (the (?e j))) + (case ?e k of None \<Rightarrow> 0 | Some hs \<Rightarrow> length hs)"
  proof (cases "k \<in> dom ?e")
    case True
    then show ?thesis using assms unfolding total_def by (auto simp: sum.remove)
  next
    case False
    then show ?thesis by (simp add: total_def domIff)
  qed
  have "(\<Sum>j\<in>dom (?e(k := v)). length (the ((?e(k := v)) j))) =
      (\<Sum>j\<in>?R. length (the ((?e(k := v)) j))) + (case v of None \<Rightarrow> 0 | Some hs \<Rightarrow> length hs)"
  proof (cases v)
    case (Some hs)
    then have "dom (?e(k := v)) = insert k ?R" by auto
    moreover have "(\<Sum>j\<in>insert k ?R. f j) = f k + (\<Sum>j\<in>?R. f j)" for f :: "_ \<Rightarrow> nat"
      using assms by (subst sum.insert) simp_all
    ultimately show ?thesis using Some by (simp only:) simp
  qed simp
  then show ?thesis using rest old by (simp add: total_def)
qed

lemma table_okD:
  assumes "table_ok T" "entries T k = Some hs"
  shows "hs \<noteq> []" "distinct (map fst hs)"
  using assms unfolding table_ok_def by blast+

lemma total_count [simp]: "total (T\<lparr>COUNT := n\<rparr>) = total T"
  by (simp add: total_def)

lemma table_ok_update:
  assumes ok: "table_ok T" and v: "case v of None \<Rightarrow> True | Some hs \<Rightarrow> hs \<noteq> [] \<and> distinct (map fst hs)"
    and n: "n + (case entries T k of None \<Rightarrow> 0 | Some hs \<Rightarrow> length hs) =
      COUNT T + (case v of None \<Rightarrow> 0 | Some hs \<Rightarrow> length hs)"
  shows "table_ok (T\<lparr>entries := (entries T)(k := v), COUNT := n\<rparr>)"
proof -
  have fin: "finite (dom (entries T))" using ok by (simp add: table_ok_def)
  have "n = total (T\<lparr>entries := (entries T)(k := v)\<rparr>)"
    using total_update [OF fin, of k v] n ok by (simp add: table_ok_def)
  moreover have "total (T\<lparr>entries := (entries T)(k := v), COUNT := n\<rparr>) = total (T\<lparr>entries := (entries T)(k := v)\<rparr>)"
    by (simp add: total_def)
  moreover have "finite (dom ((entries T)(k := v)))" using fin by (cases v) simp_all
  ultimately show ?thesis
    using ok v by (auto simp: table_ok_def split: if_splits)
qed

lemma table_ok_add: "table_ok T \<Longrightarrow> table_ok (fst (add T store row holder mode))"
proof (cases "strengthen holder mode (case entries T (store, row) of None \<Rightarrow> [] | Some hs \<Rightarrow> hs)")
  case None
  assume ok: "table_ok T"
  let ?hs = "case entries T (store, row) of None \<Rightarrow> [] | Some hs \<Rightarrow> hs"
  have "distinct (map fst (?hs @ [(holder, mode)]))"
    using None table_okD(2) [OF ok] by (auto simp: strengthen_None split: option.splits)
  then show ?thesis
    using None table_ok_update [OF ok, of "Some (?hs @ [(holder, mode)])" "COUNT T + 1" "(store, row)"]
    by (simp add: add_def Let_def split: option.splits)
next
  case (Some hs')
  assume ok: "table_ok T"
  then obtain hs where hs: "entries T (store, row) = Some hs" "strengthen holder mode hs = Some hs'"
    using Some by (cases "entries T (store, row)") auto
  have same: "T\<lparr>entries := e\<rparr> = T\<lparr>entries := e, COUNT := COUNT T\<rparr>" for e by simp
  have "length hs' = length hs" "distinct (map fst hs')" "hs' \<noteq> []"
    using strengthen_keys [OF hs(2)]
    using table_okD [OF ok hs(1)] by (metis length_map, simp, metis list.map_disc_iff)
  then show ?thesis
    using Some hs(1) table_ok_update [OF ok, of "Some hs'" "COUNT T" "(store, row)"]
    by (simp add: add_def flip: same)
qed

lemma table_ok_remove: "table_ok T \<Longrightarrow> table_ok (remove T store row holder)"
proof (cases "entries T (store, row)")
  case (Some hs)
  assume ok: "table_ok T"
  let ?hs' = "filter (\<lambda>(h, m). h \<noteq> holder) hs"
  have "length ?hs' \<le> length hs" "distinct (map fst ?hs')"
    using table_okD(2) [OF ok Some] by (simp_all add: distinct_map_filter)
  moreover have "length hs \<le> COUNT T"
    using ok Some total_update [of T "(store, row)" None] by (simp add: table_ok_def)
  ultimately show ?thesis
    using Some by (auto simp: remove_def Let_def intro!: table_ok_update [OF ok])
qed (simp add: remove_def)


lemma mode_of_apply: "mode_of T (store, row, holder) =
    (case entries T (store, row) of None \<Rightarrow> None | Some hs \<Rightarrow> map_of hs holder)"
  by (simp add: mode_of_def)

lemma mode_of_update:
  "mode_of (T\<lparr>entries := (entries T)((store, row) := v)\<rparr>) (store', row', holder) =
     (if store' = store \<and> row' = row then (case v of None \<Rightarrow> None | Some hs \<Rightarrow> map_of hs holder)
      else mode_of T (store', row', holder))"
  by (simp add: mode_of_def)

lemma mode_of_count [simp]: "mode_of (T\<lparr>COUNT := n\<rparr>) = mode_of T"
  by (simp add: mode_of_def)

lemma mode_of_add:
  "mode_of (fst (add T store row holder mode)) =
     (mode_of T)((store, row, holder) \<mapsto>
        (case mode_of T (store, row, holder) of None \<Rightarrow> mode | Some p \<Rightarrow> mode_max p mode))"
proof (rule ext, clarify)
  fix s r h
  let ?hs = "case entries T (store, row) of None \<Rightarrow> [] | Some hs \<Rightarrow> hs"
  have hs: "mode_of T (store, row, h) = map_of ?hs h" for h
    by (simp add: mode_of_apply split: option.split)
  show "mode_of (fst (add T store row holder mode)) (s, r, h) =
      ((mode_of T)((store, row, holder) \<mapsto>
        (case mode_of T (store, row, holder) of None \<Rightarrow> mode | Some p \<Rightarrow> mode_max p mode))) (s, r, h)"
  proof (cases "strengthen holder mode ?hs")
    case None
    then have "map_of ?hs holder = None" by (simp add: strengthen_None map_of_eq_None_iff)
    then show ?thesis
      using None hs [of holder] hs [of h]
      by (auto simp: add_def Let_def mode_of_update map_add_def split: option.split)
  next
    case (Some hs')
    then show ?thesis
      using strengthen_map_of [OF Some] hs [of holder] hs [of h]
      by (auto simp: add_def Let_def mode_of_update)
  qed
qed

lemma add_new: "snd (add T store row holder mode) \<longleftrightarrow> mode_of T (store, row, holder) = None"
proof -
  have "strengthen holder mode hs = None \<longleftrightarrow> map_of hs holder = None" for hs
    by (simp add: strengthen_None map_of_eq_None_iff)
  from this [of "case entries T (store, row) of None \<Rightarrow> [] | Some hs \<Rightarrow> hs"] show ?thesis
    by (cases "strengthen holder mode (case entries T (store, row) of None \<Rightarrow> [] | Some hs \<Rightarrow> hs)")
      (simp_all add: add_def Let_def mode_of_apply split: option.splits)
qed

lemma mode_of_remove:
  "mode_of (remove T store row holder) = (mode_of T)((store, row, holder) := None)"
proof (rule ext, clarify)
  fix s r h
  have "map_of (filter (\<lambda>(h, m). h \<noteq> holder) hs) x = (if x = holder then None else map_of hs x)"
    for hs :: "(usize \<times> share_mode) list" and x
    by (induction hs) auto
  from this [of _ h] show "mode_of (remove T store row holder) (s, r, h) = ((mode_of T)((store, row, holder) := None)) (s, r, h)"
    by (cases "entries T (store, row)")
      (auto simp: remove_def Let_def mode_of_update mode_of_apply simp del: filter_empty_conv, metis map_of.simps(1))
qed

interpretation shares: lock_registry table_ok mode_of mode_max take_share drop_share
  by unfold_locales
    (auto simp: take_share_def drop_share_def table_ok_add table_ok_remove mode_of_add mode_of_remove add_new)

section \<open>Row-lock conflicts as the PostgreSQL server reads them\<close>

text \<open>\<open>secantus-pg/src/row_waits.rs\<close>: whether a transaction holds a row against a lock of a strength.\<close>

datatype strength = WantKeyShare | WantShare | WantNoKeyUpdate | WantUpdate

definition row_conflicts :: "held \<Rightarrow> written_row \<Rightarrow> strength \<Rightarrow> bool" where
  "row_conflicts h row want =
     (if row \<in> moving h then True
      else case want of
             WantKeyShare \<Rightarrow> row \<in> key_rows h
           | WantShare \<Rightarrow> row \<in> rows h
           | WantNoKeyUpdate \<Rightarrow> row \<in> rows h \<or> shared h row = Some Share
           | WantUpdate \<Rightarrow> row \<in> rows h \<or> shared h row \<noteq> None)"

fun want_of :: "share_mode \<Rightarrow> strength" where
  "want_of KeyShare = WantKeyShare"
| "want_of Share = WantShare"

section \<open>A write against the table\<close>

lemma count_zero_empty:
  assumes "table_ok T" shows "COUNT T = 0 \<longleftrightarrow> entries T = Map.empty"
proof
  assume "COUNT T = 0"
  then have "\<forall>k\<in>dom (entries T). length (the (entries T k)) = 0"
    using assms sum_eq_0_iff [of "dom (entries T)" "\<lambda>k. length (the (entries T k))"]
    unfolding table_ok_def total_def by argo
  then have "entries T k = None" for k
    using table_okD(1) [OF assms, of k] by (cases "entries T k") (auto dest!: bspec [of _ _ k])
  then show "entries T = Map.empty" by blast
next
  assume "entries T = Map.empty"
  then show "COUNT T = 0" using assms by (simp add: table_ok_def total_def)
qed

lemma mode_of_entry:
  assumes "table_ok T"
  shows "mode_of T (store, row, h) = Some m \<longleftrightarrow> (\<exists>hs. entries T (store, row) = Some hs \<and> (h, m) \<in> set hs)"
  using table_okD(2) [OF assms] by (auto simp: mode_of_apply split: option.split)

definition table_conflict :: "share_table \<Rightarrow> bool \<Rightarrow> usize \<Rightarrow> written_row \<Rightarrow> usize \<Rightarrow> bool" where
  "table_conflict T key_write store row me \<longleftrightarrow>
     (\<exists>h m. mode_of T (store, row, h) = Some m \<and> h \<noteq> me \<and> h \<noteq> mover_of me \<and> (key_write \<or> m = Share))"

lemma sharers_block_conflict:
  assumes "table_ok T"
  shows "sharers_block T key_write store row me \<longleftrightarrow> table_conflict T key_write store row me"
  unfolding table_conflict_def mode_of_entry [OF assms] sharers_block_def list_ex_iff
  by (auto split: option.split)

lemma write_blocked_conflict:
  assumes "table_ok T"
  shows "write_blocked T key_write store row me \<longleftrightarrow> table_conflict T key_write store row me"
  using count_zero_empty [OF assms] sharers_block_conflict [OF assms, of key_write store row me, symmetric]
  by (auto simp: write_blocked_def sharers_block_def)

section \<open>A transaction's mirror of its locks\<close>

definition held_ok :: "held \<Rightarrow> share_table \<Rightarrow> bool" where
  "held_ok h T \<longleftrightarrow>
     (\<forall>row. mode_of T (store_of h, row, addr h) = shared h row) \<and>
     distinct (shared_log h) \<and> set (shared_log h) = dom (shared h)"

lemma held_ok_other:
  assumes "held_ok h T" and "\<And>row. mode_of T' (store_of h, row, addr h) = mode_of T (store_of h, row, addr h)"
  shows "held_ok h T'"
  using assms by (simp add: held_ok_def)

lemma held_okD: "held_ok h T \<Longrightarrow> mode_of T (store_of h, row, addr h) = shared h row"
  unfolding held_ok_def by blast

lemma held_ok_share:
  assumes ok: "table_ok T" and h: "held_ok h T" and r: "share_row (Some h) T row mode = (Some h', T', new)"
  shows "table_ok T'" "held_ok h' T'" "new \<longleftrightarrow> shared h row = None"
    "mode_of T' = (mode_of T)((store_of h, row, addr h) \<mapsto> (case shared h row of None \<Rightarrow> mode | Some p \<Rightarrow> mode_max p mode))"
    "addr h' = addr h" "store_of h' = store_of h"
    "shared h' = (shared h)(row \<mapsto> (case shared h row of None \<Rightarrow> mode | Some p \<Rightarrow> mode_max p mode))"
proof -
  have T': "T' = fst (add T (store_of h) row (addr h) mode)" and new: "new = snd (add T (store_of h) row (addr h) mode)"
    and h': "h' = h\<lparr>shared := (shared h)(row \<mapsto> (case shared h row of None \<Rightarrow> mode | Some p \<Rightarrow> mode_max p mode)),
       shared_log := (if shared h row = None then shared_log h @ [row] else shared_log h)\<rparr>"
    using r by (simp_all add: share_row_def Let_def split: prod.splits)
  show "table_ok T'" using ok by (simp add: T' table_ok_add)
  show "new \<longleftrightarrow> shared h row = None" by (simp add: new add_new held_okD [OF h])
  show mode: "mode_of T' = (mode_of T)((store_of h, row, addr h) \<mapsto> (case shared h row of None \<Rightarrow> mode | Some p \<Rightarrow> mode_max p mode))"
    by (simp add: T' mode_of_add held_okD [OF h])
  show "addr h' = addr h" "store_of h' = store_of h"
    "shared h' = (shared h)(row \<mapsto> (case shared h row of None \<Rightarrow> mode | Some p \<Rightarrow> mode_max p mode))"
    by (simp_all add: h')
  have "row \<in> set (shared_log h) \<longleftrightarrow> shared h row \<noteq> None" using h by (auto simp: held_ok_def)
  then show "held_ok h' T'"
    using h by (auto simp: held_ok_def mode h')
qed

lemma release_rows_fold:
  "release_rows rs h T =
     (h\<lparr>shared := (\<lambda>r. if r \<in> set rs then None else shared h r)\<rparr>,
      fold drop_share (map (\<lambda>r. (store_of h, r, addr h)) rs) T)"
  by (induction rs arbitrary: h T) (auto simp: drop_share_def fun_eq_iff)

lemma release_after:
  assumes ok: "table_ok T" and h: "held_ok h T" and r: "release_shared_after keep h T = (h', T')"
  shows "table_ok T'" "held_ok h' T'" "shared_log h' = take keep (shared_log h)"
    "shared h' = (shared h) |` set (take keep (shared_log h))"
    "addr h' = addr h" "store_of h' = store_of h"
    "mode_of T' = (\<lambda>(s, row, a). if s = store_of h \<and> a = addr h \<and> row \<notin> set (take keep (shared_log h)) then None
       else mode_of T (s, row, a))"
proof -
  let ?keep = "take keep (shared_log h)" and ?gone = "drop keep (shared_log h)"
  have dist: "set ?keep \<inter> set ?gone = {}" "distinct ?keep" and dom: "dom (shared h) = set ?keep \<union> set ?gone"
    using h set_take_disj_set_drop_if_distinct [of "shared_log h" keep keep]
    by (simp_all add: held_ok_def) (simp flip: set_append)
  let ?ks = "map (\<lambda>r. (store_of h, r, addr h)) ?gone"
  have T': "T' = fold drop_share ?ks T"
    and h': "h' = h\<lparr>shared := (\<lambda>r. if r \<in> set ?gone then None else shared h r), shared_log := ?keep\<rparr>"
    using r by (auto simp: release_shared_after_def release_rows_fold cong: if_cong split: if_splits)
  show "table_ok T'" using ok by (simp only: T' shares.ok_drop_all)
  show log: "shared_log h' = ?keep" and "addr h' = addr h" "store_of h' = store_of h" by (simp_all add: h')
  show sh: "shared h' = (shared h) |` set ?keep"
    using dist dom by (auto simp: h' restrict_map_def fun_eq_iff)
  have gone: "mode_of T (store_of h, row, addr h) = None" if "row \<notin> set ?keep" "row \<notin> set ?gone" for row
    using that dom by (auto simp: held_okD [OF h])
  then show mode: "mode_of T' = (\<lambda>(s, row, a). if s = store_of h \<and> a = addr h \<and> row \<notin> set ?keep then None
       else mode_of T (s, row, a))"
    using dist unfolding T' by (subst shares.lookup_drop_all [OF ok]) (auto simp: fun_eq_iff image_iff)
  show "held_ok h' T'"
    using dist dom by (auto simp: held_ok_def mode sh log held_okD [OF h] restrict_map_def) (auto simp: h')
qed


lemma guard_rows_outcome:
  assumes "table_ok T" "guard_rows h rs T = (T', added)" "distinct rs"
    "\<And>row. mode_of T (store_of h, row, mover_of (addr h)) = None"
  shows "table_ok T' \<and> set added = set rs \<and>
    mode_of T' = (\<lambda>(s, row, a). if s = store_of h \<and> a = mover_of (addr h) \<and> row \<in> set rs then Some Share
      else mode_of T (s, row, a))"
proof -
  let ?key = "\<lambda>row. (store_of h, row, mover_of (addr h))"
  have "table_ok T' \<and> set added = set rs \<and> mode_of T' = (\<lambda>k. if k \<in> ?key ` set rs then Some Share else mode_of T k)"
    if "table_ok T" "guard_rows h rs T = (T', added)" "distinct rs" "\<forall>row\<in>set rs. mode_of T (?key row) = None"
    for T added using that
  proof (induction rs arbitrary: T added)
    case (Cons row rs)
    obtain T1 new where a: "add T (store_of h) row (mover_of (addr h)) Share = (T1, new)" by fastforce
    then have T1: "T1 = fst (take_share (?key row) Share T)" "new = snd (take_share (?key row) Share T)"
      by (simp_all add: take_share_def)
    obtain added' where g: "guard_rows h rs T1 = (T', added')" "added = (if new then row # added' else added')"
      using Cons.prems(2) a by (auto simp: Let_def split: prod.splits)
    have new: "new" and m1: "mode_of T1 = (mode_of T)(?key row \<mapsto> Share)" and "table_ok T1"
      using Cons.prems(1,4) by (simp_all add: T1 shares.take_new shares.lookup_take shares.ok_take)
    then have "table_ok T' \<and> set added' = set rs \<and> mode_of T' = (\<lambda>k. if k \<in> ?key ` set rs then Some Share else mode_of T1 k)"
      using Cons.prems(3,4) by (intro Cons.IH [OF _ g(1)]) auto
    then show ?case using g(2) new m1 by (auto simp: fun_eq_iff)
  qed auto
  from this [OF assms(1-3)] assms(4) show ?thesis by (auto simp: fun_eq_iff image_iff)
qed

lemma move_guard_drop_fold:
  "snd (move_guard_drop h added T) =
     fold drop_share (map (\<lambda>row. (store_of h, row, mover_of (addr h))) added) T"
  by (simp add: move_guard_drop_def fold_map comp_def drop_share_def)

lemma note_row_active:
  assumes "txn_session t" "active_rows t = Some h" "addr h \<noteq> 0"
  shows "note_row t T db coll recordid =
    (t\<lparr>active_rows := Some (publish_row h (KEY_WRITE t) db coll recordid), last_row := Some (db, coll, recordid)\<rparr>,
     if store_of h \<noteq> 0 \<and> write_blocked T (KEY_WRITE t) (store_of h) (db, coll, recordid) (addr h)
     then Inl WriteConflict else Inr ())"
  using assms by (simp add: note_row_def Let_def)

text \<open>Addresses of records are even, so no record has the address a move is entered under.\<close>

lemma mover_not_holder: "even a \<Longrightarrow> a \<noteq> mover_of b"
  by (metis bit_or_iff bit_0 bit_1_iff even_numeral mover_of_def)


section \<open>The race between a writer and a taker\<close>

text \<open>
  One transaction writes a row while another takes a shared lock on it. The writer enters
  the row in its record, reads the counter, and only then the table; the taker enters its
  lock (the entry, then the counter, under the table's mutex) and only then reads the
  writer's record. Any other transaction may take and let go of locks in between.
\<close>

datatype writer_at = WStart | WPublished | WCounted | WDone bool
datatype taker_at = TStart | TPushed bool | TAdded | TDone bool

record race =
  r_table :: share_table
  r_writer :: held
  r_w :: writer_at
  r_t :: taker_at

definition table_free :: "race \<Rightarrow> bool" where
  "table_free s \<longleftrightarrow> (case r_t s of TPushed _ \<Rightarrow> False | _ \<Rightarrow> True)"

inductive race_step :: "bool \<Rightarrow> share_mode \<Rightarrow> usize \<Rightarrow> written_row \<Rightarrow> race \<Rightarrow> race \<Rightarrow> bool"
  for key_write mode taker row where
  publish: "r_w s = WStart \<Longrightarrow> row = (db, coll, recordid) \<Longrightarrow>
    race_step key_write mode taker row s
      (s\<lparr>r_writer := publish_row (r_writer s) key_write db coll recordid, r_w := WPublished\<rparr>)"
| read_count: "r_w s = WPublished \<Longrightarrow>
    race_step key_write mode taker row s (s\<lparr>r_w := (if COUNT (r_table s) = 0 then WDone False else WCounted)\<rparr>)"
| read_table: "r_w s = WCounted \<Longrightarrow> table_free s \<Longrightarrow>
    race_step key_write mode taker row s
      (s\<lparr>r_w := WDone (sharers_block (r_table s) key_write (store_of (r_writer s)) row (addr (r_writer s)))\<rparr>)"
| push: "r_t s = TStart \<Longrightarrow> add (r_table s) (store_of (r_writer s)) row taker mode = (T', new) \<Longrightarrow>
    race_step key_write mode taker row s (s\<lparr>r_table := T'\<lparr>COUNT := COUNT (r_table s)\<rparr>, r_t := TPushed new\<rparr>)"
| bump: "r_t s = TPushed new \<Longrightarrow>
    race_step key_write mode taker row s
      (s\<lparr>r_table := (r_table s)\<lparr>COUNT := COUNT (r_table s) + (if new then 1 else 0)\<rparr>, r_t := TAdded\<rparr>)"
| read_held: "r_t s = TAdded \<Longrightarrow>
    race_step key_write mode taker row s (s\<lparr>r_t := TDone (row_conflicts (r_writer s) row (want_of mode))\<rparr>)"
| other_add: "table_free s \<Longrightarrow> h \<noteq> taker \<Longrightarrow>
    race_step key_write mode taker row s (s\<lparr>r_table := fst (add (r_table s) st r h m)\<rparr>)"
| other_remove: "table_free s \<Longrightarrow> h \<noteq> taker \<Longrightarrow>
    race_step key_write mode taker row s (s\<lparr>r_table := remove (r_table s) st r h\<rparr>)"

text \<open>What holds of the table at each point of the taker, and of the two together.\<close>

definition taker_ok :: "share_mode \<Rightarrow> usize \<Rightarrow> written_row \<Rightarrow> race \<Rightarrow> bool" where
  "taker_ok mode taker row s \<longleftrightarrow>
     (case r_t s of
        TStart \<Rightarrow> table_ok (r_table s)
      | TPushed new \<Rightarrow>
          table_ok ((r_table s)\<lparr>COUNT := COUNT (r_table s) + (if new then 1 else 0)\<rparr>) \<and>
          (\<exists>m. mode_of (r_table s) (store_of (r_writer s), row, taker) = Some m \<and> mode_max m mode = m)
      | _ \<Rightarrow> table_ok (r_table s) \<and>
          (\<exists>m. mode_of (r_table s) (store_of (r_writer s), row, taker) = Some m \<and> mode_max m mode = m))"

definition race_ok :: "bool \<Rightarrow> share_mode \<Rightarrow> usize \<Rightarrow> written_row \<Rightarrow> race \<Rightarrow> bool" where
  "race_ok key_write mode taker row s \<longleftrightarrow>
     taker_ok mode taker row s \<and>
     (r_w s = WStart \<or> row \<in> rows (r_writer s) \<and> (key_write \<longrightarrow> row \<in> key_rows (r_writer s))) \<and>
     (r_t s = TDone False \<longrightarrow> r_w s \<noteq> WDone False)"

lemma taker_ok_writer_at [simp]: "taker_ok mode taker row (s\<lparr>r_w := x\<rparr>) = taker_ok mode taker row s"
  by (simp add: taker_ok_def split: taker_at.split)

lemma mode_max_idem [simp]: "mode_max (mode_max p m) m = mode_max p m" "mode_max m m = m"
  by (cases p; cases m; simp) (cases m; simp)

lemma mode_max_add: "\<exists>m'. (case x of None \<Rightarrow> m | Some p \<Rightarrow> mode_max p m) = m' \<and> mode_max m' m = m'"
  by (cases x) auto

lemma table_ok_count [simp]: "T\<lparr>COUNT := COUNT T\<rparr> = T"
  by simp

lemma taker_ok_push:
  assumes "table_ok (r_table s)" "add (r_table s) (store_of (r_writer s)) row taker mode = (T', new)"
  shows "taker_ok mode taker row (s\<lparr>r_table := T'\<lparr>COUNT := COUNT (r_table s)\<rparr>, r_t := TPushed new\<rparr>)"
proof -
  have T': "T' = fst (add (r_table s) (store_of (r_writer s)) row taker mode)"
    and new: "new = snd (add (r_table s) (store_of (r_writer s)) row taker mode)"
    using assms(2) by simp_all
  have "COUNT T' = COUNT (r_table s) + (if new then 1 else 0)"
    unfolding T' new by (simp add: add_def Let_def split: option.split)
  then have "T'\<lparr>COUNT := COUNT (r_table s) + (if new then 1 else 0)\<rparr> = T'"
    by (metis table_ok_count)
  moreover have "table_ok T'" using assms(1) by (simp add: T' table_ok_add)
  ultimately show ?thesis
    by (auto simp: taker_ok_def T' mode_of_add split: option.split)
qed

lemma race_ok_other:
  assumes "race_ok key_write mode taker row s" "table_free s" "table_ok (r_table s) \<Longrightarrow> table_ok T'"
    and "\<And>st r. mode_of T' (st, r, taker) = mode_of (r_table s) (st, r, taker)"
  shows "race_ok key_write mode taker row (s\<lparr>r_table := T'\<rparr>)"
  using assms by (auto simp: race_ok_def taker_ok_def table_free_def split: taker_at.splits)

lemma seen_conflict:
  assumes "key_write \<or> mode = Share"
    and "row \<in> rows h \<and> (key_write \<longrightarrow> row \<in> key_rows h)"
  shows "row_conflicts h row (want_of mode)"
  using assms by (cases mode) (auto simp: row_conflicts_def)

lemma added_blocks:
  assumes "taker_ok mode taker row s" "r_t s = TDone b" "key_write \<or> mode = Share"
    and "taker \<noteq> addr (r_writer s)" "taker \<noteq> mover_of (addr (r_writer s))"
  shows "COUNT (r_table s) \<noteq> 0"
    and "sharers_block (r_table s) key_write (store_of (r_writer s)) row (addr (r_writer s))"
proof -
  obtain m where ok: "table_ok (r_table s)"
    and m: "mode_of (r_table s) (store_of (r_writer s), row, taker) = Some m" "mode_max m mode = m"
    using assms(1,2) by (auto simp: taker_ok_def)
  have "key_write \<or> m = Share" using assms(3) m(2) by (cases m) auto
  then have "table_conflict (r_table s) key_write (store_of (r_writer s)) row (addr (r_writer s))"
    using m(1) assms(4,5) unfolding table_conflict_def by blast
  then show "sharers_block (r_table s) key_write (store_of (r_writer s)) row (addr (r_writer s))"
    by (simp add: sharers_block_conflict [OF ok])
  show "COUNT (r_table s) \<noteq> 0"
    using m(1) by (auto simp: count_zero_empty [OF ok] mode_of_apply)
qed

lemma race_step_same:
  "race_step key_write mode taker row s s' \<Longrightarrow>
   addr (r_writer s') = addr (r_writer s) \<and> store_of (r_writer s') = store_of (r_writer s)"
  by (induction rule: race_step.induct) (auto simp: publish_row_def)

lemma race_ok_step:
  assumes "race_step key_write mode taker row s s'" "race_ok key_write mode taker row s"
    and "key_write \<or> mode = Share" "taker \<noteq> addr (r_writer s)" "taker \<noteq> mover_of (addr (r_writer s))"
  shows "race_ok key_write mode taker row s'"
  using assms
proof (induction rule: race_step.induct)
  case (publish s db coll recordid)
  then show ?case by (auto simp: race_ok_def taker_ok_def publish_row_def split: taker_at.splits)
next
  case (read_count s)
  then show ?case
    using added_blocks(1) [of mode taker row s False key_write] by (auto simp: race_ok_def)
next
  case (read_table s)
  then show ?case
    using added_blocks(2) [of mode taker row s False key_write] by (auto simp: race_ok_def)
next
  case (push s T' new)
  then have "table_ok (r_table s)" by (simp add: race_ok_def taker_ok_def)
  from taker_ok_push [OF this push.hyps(2)] show ?case using push.prems by (simp add: race_ok_def)
next
  case (bump s new)
  then show ?case by (auto simp: race_ok_def taker_ok_def)
next
  case (read_held s)
  then show ?case
    using seen_conflict [of key_write mode row "r_writer s"] by (auto simp: race_ok_def taker_ok_def)
next
  case (other_add s h st r m)
  then show ?case by (intro race_ok_other) (auto simp: table_ok_add mode_of_add)
next
  case (other_remove s h st r)
  then show ?case by (intro race_ok_other) (auto simp: table_ok_remove mode_of_remove)
qed

lemma race_ok_steps:
  assumes "(race_step key_write mode taker row)\<^sup>*\<^sup>* s s'" "race_ok key_write mode taker row s"
    and "key_write \<or> mode = Share" "taker \<noteq> addr (r_writer s)" "taker \<noteq> mover_of (addr (r_writer s))"
  shows "race_ok key_write mode taker row s' \<and> addr (r_writer s') = addr (r_writer s)"
  using assms
  by (induction rule: rtranclp_induct) (auto dest: race_step_same intro: race_ok_step)


section \<open>Properties\<close>

text \<open>
  C9: the table of sharers is a map from store, row and holder to the
  strength held: \<open>add\<close> enters the stronger of the old and the new strength and says whether
  the lock is new, \<open>remove\<close> takes the lock out, neither touches another one, both keep the
  table well formed with an exact entry count, and a write is blocked exactly when another
  transaction shares the row in a conflicting strength, the counter's short cut included.
\<close>

theorem share_table_refines:
  assumes "table_ok T"
  shows "table_ok (fst (add T store row holder mode)) \<and> table_ok (remove T store row holder) \<and>
    mode_of (fst (add T store row holder mode)) =
      (mode_of T)((store, row, holder) \<mapsto>
        (case mode_of T (store, row, holder) of None \<Rightarrow> mode | Some p \<Rightarrow> mode_max p mode)) \<and>
    (snd (add T store row holder mode) \<longleftrightarrow> mode_of T (store, row, holder) = None) \<and>
    mode_of (remove T store row holder) = (mode_of T)((store, row, holder) := None) \<and>
    (write_blocked T key_write store row me \<longleftrightarrow>
      (\<exists>h m. mode_of T (store, row, h) = Some m \<and> h \<noteq> me \<and> h \<noteq> mover_of me \<and> (key_write \<or> m = Share)))"
  using assms
  by (simp only: table_ok_add table_ok_remove mode_of_add add_new mode_of_remove write_blocked_conflict
      table_conflict_def)

text \<open>
  A transaction's own record of its shared locks and the table
  never disagree: taking a lock, backing it out and rolling back to a savepoint keep the
  mirror, of this transaction and of every other one. A rollback keeps exactly the rows
  shared before the savepoint, and the end of the transaction leaves it no lock.
\<close>

theorem shared_locks_mirrored:
  assumes "table_ok T" "held_ok h T" "held_ok h2 T" "addr h2 \<noteq> addr h"
    and "share_row (Some h) T row mode = (Some h', T', new)"
    and "release_shared_after keep h T = (hr, Tr)"
  shows "table_ok T' \<and> held_ok h' T' \<and> held_ok h2 T' \<and> (new \<longleftrightarrow> shared h row = None) \<and>
    table_ok Tr \<and> held_ok hr Tr \<and> held_ok h2 Tr \<and>
    shared hr = (shared h) |` set (take keep (shared_log h)) \<and>
    (mode_of (snd (release_shared h T)) (store_of h, r, addr h) = None) \<and>
    (new \<longrightarrow> mode_of (snd (unshare_row (Some h') T' row)) = mode_of T)"
proof -
  note s = held_ok_share [OF assms(1,2,5)] and r = release_after [OF assms(1,2,6)]
  have other: "held_ok h2 T'" "held_ok h2 Tr"
    using assms(4) by (auto intro!: held_ok_other [OF assms(3)] simp: s(4) r(7))
  obtain he Te where e: "release_shared_after 0 h T = (he, Te)" by fastforce
  have "mode_of (snd (release_shared h T)) (store_of h, r, addr h) = None"
    by (simp add: release_shared_def e release_after(7) [OF assms(1,2) e])
  moreover have "mode_of (snd (unshare_row (Some h') T' row)) = mode_of T" if new
    using that s(3) held_okD [OF assms(2), of row]
    by (simp add: unshare_row_def mode_of_remove s(4-6) fun_upd_idem)
  ultimately show ?thesis using s(1-3) r(1,2,4) other by blast
qed

text \<open>
  while a transaction moves onto a new engine transaction, its rows
  stay guarded: a write of any of them by another transaction conflicts, the guard never
  blocks its own replay, and dropping the guard gives back the locks of before.
\<close>

theorem move_guard_protects:
  assumes "table_ok T" "distinct rs" "move_guard_new h rs T = (h', T', added)"
    and "\<And>row. mode_of T (store_of h, row, mover_of (addr h)) = None"
  shows "(row \<in> set rs \<and> me \<noteq> mover_of (addr h) \<and> mover_of me \<noteq> mover_of (addr h) \<longrightarrow>
      write_blocked T' key_write (store_of h) row me) \<and>
    (write_blocked T' key_write (store_of h) row (addr h) \<longleftrightarrow> write_blocked T key_write (store_of h) row (addr h)) \<and>
    mode_of (snd (move_guard_drop h' added T')) = mode_of T"
proof -
  have g: "guard_rows h rs T = (T', added)" and h': "h' = h\<lparr>moving := set rs\<rparr>"
    using assms(3) by (simp_all add: move_guard_new_def split: prod.splits)
  have ok: "table_ok T'" and added: "set added = set rs"
    and m: "mode_of T' = (\<lambda>(s, row, a). if s = store_of h \<and> a = mover_of (addr h) \<and> row \<in> set rs then Some Share
      else mode_of T (s, row, a))"
    using guard_rows_outcome [OF assms(1) g assms(2,4)] by blast+
  have "mode_of (snd (move_guard_drop h' added T')) = mode_of T"
    unfolding move_guard_drop_fold shares.lookup_drop_all [OF ok]
    using assms(4) by (auto simp: m added h' fun_eq_iff image_iff)
  moreover have "row \<in> set rs \<and> me \<noteq> mover_of (addr h) \<and> mover_of me \<noteq> mover_of (addr h) \<longrightarrow>
      write_blocked T' key_write (store_of h) row me"
    unfolding write_blocked_conflict [OF ok] table_conflict_def m by auto
  moreover have "write_blocked T' key_write (store_of h) row (addr h) \<longleftrightarrow>
      write_blocked T key_write (store_of h) row (addr h)"
    unfolding write_blocked_conflict [OF ok] write_blocked_conflict [OF assms(1)] table_conflict_def m by auto
  ultimately show ?thesis by blast
qed

text \<open>
  C16: of a transaction that writes a row and one that takes a
  conflicting shared lock on it at the same time, at least one sees the other, however
  their steps and those of other transactions interleave.
\<close>

theorem writer_and_taker_meet:
  assumes "(race_step key_write mode taker row)\<^sup>*\<^sup>* s s'"
    and "table_ok (r_table s)" "r_w s = WStart" "r_t s = TStart"
    and "key_write \<or> mode = Share" "taker \<noteq> addr (r_writer s)" "taker \<noteq> mover_of (addr (r_writer s))"
    and "r_w s' = WDone blocked" "r_t s' = TDone seen"
  shows "blocked \<or> seen"
proof -
  have "race_ok key_write mode taker row s"
    using assms(2-4) by (simp add: race_ok_def taker_ok_def)
  then have "race_ok key_write mode taker row s'"
    using race_ok_steps [OF assms(1) _ assms(5-7)] by blast
  then show ?thesis using assms(8,9) by (auto simp: race_ok_def)
qed

text \<open>
  A write in a user transaction enters the row in the transaction's
  record and fails with a write conflict exactly when another transaction shares the row in
  a strength the write conflicts with; a write outside one never conflicts.
\<close>

theorem note_row_conflict:
  assumes "table_ok T" "note_row t T db coll recordid = (t', result)"
    and "txn_session t" "active_rows t = Some h" "addr h \<noteq> 0" "store_of h \<noteq> 0"
    and "note_row (t\<lparr>txn_session := False\<rparr>) T db coll recordid = (t2, result2)"
  shows "(result = Inl WriteConflict \<longleftrightarrow>
      (\<exists>a m. mode_of T (store_of h, (db, coll, recordid), a) = Some m \<and> a \<noteq> addr h \<and> a \<noteq> mover_of (addr h) \<and>
        (KEY_WRITE t \<or> m = Share))) \<and>
    (\<exists>h'. active_rows t' = Some h' \<and> (db, coll, recordid) \<in> rows h' \<and>
      (KEY_WRITE t \<longrightarrow> (db, coll, recordid) \<in> key_rows h') \<and> (db, row_collection coll) \<in> set (collections h')) \<and>
    last_row t' = Some (db, coll, recordid) \<and> result2 = Inr ()"
proof -
  have "result2 = Inr ()" using assms(7) by (simp add: note_row_def Let_def)
  moreover have "t' = t\<lparr>active_rows := Some (publish_row h (KEY_WRITE t) db coll recordid), last_row := Some (db, coll, recordid)\<rparr>"
    and "result = (if write_blocked T (KEY_WRITE t) (store_of h) (db, coll, recordid) (addr h) then Inl WriteConflict else Inr ())"
    using assms(2) by (simp_all add: note_row_active [OF assms(3-5)] assms(6))
  moreover have "(db, row_collection coll) \<in> set (note_collection db coll cs)" for cs
    by (auto simp: note_collection_def list_ex_iff)
  ultimately show ?thesis
    by (auto simp: publish_row_def write_blocked_conflict [OF assms(1)] table_conflict_def)
qed


section \<open>Witnesses\<close>

definition no_shares :: share_table where
  "no_shares = \<lparr>entries = Map.empty, COUNT = 0\<rparr>"

definition blank_held :: "usize \<Rightarrow> held" where
  "blank_held a = \<lparr>addr = a, rows = {}, collections = [], key_rows = {}, shared = Map.empty,
     shared_log = [], moving = {}, store_of = 16\<rparr>"

definition row1 :: written_row where
  "row1 = (lit ''db'', lit ''c'', 1)"

definition thread1 :: thread where
  "thread1 = \<lparr>txn_session = True, active_rows = Some (blank_held 8), KEY_WRITE = False, stmt_written = [],
     last_row = None\<rparr>"

definition race1 :: race where
  "race1 = \<lparr>r_table = no_shares, r_writer = blank_held 8, r_w = WStart, r_t = TStart\<rparr>"

text \<open>Transaction 32 shares the row.\<close>

definition shared1 :: share_table where
  "shared1 = fst (add no_shares 16 row1 32 Share)"

lemma table_ok_no_shares: "table_ok no_shares"
  by (simp add: table_ok_def total_def no_shares_def)

lemma table_ok_shared1: "table_ok shared1"
  unfolding shared1_def by (rule table_ok_add [OF table_ok_no_shares])

lemma mode_of_no_shares: "mode_of no_shares k = None"
  by (simp add: mode_of_def no_shares_def split: prod.split)

lemma held_ok_blank: "held_ok (blank_held a) no_shares"
  by (simp add: held_ok_def mode_of_no_shares blank_held_def)

lemma mover_8: "mover_of 8 = 9"
  by (simp add: mover_of_def)

theorem share_table_refines_witness: "write_blocked shared1 False 16 row1 8"
proof -
  have "mode_of shared1 (16, row1, 32) = Some Share"
    by (simp add: shared1_def mode_of_add mode_of_no_shares)
  then show ?thesis
    using share_table_refines [OF table_ok_shared1, of 16 row1 0 KeyShare False 8]
    by (auto simp: mover_8)
qed

theorem shared_locks_mirrored_witness:
  "held_ok (blank_held 32) (fst (snd (share_row (Some (blank_held 8)) no_shares row1 KeyShare))) \<and>
   mode_of (snd (release_shared (blank_held 8) no_shares)) (16, row1, 8) = None"
proof -
  obtain h' T' new where s: "share_row (Some (blank_held 8)) no_shares row1 KeyShare = (Some h', T', new)"
    by (cases "add no_shares (store_of (blank_held 8)) row1 (addr (blank_held 8)) KeyShare")
      (simp add: share_row_def Let_def)
  obtain hr Tr where r: "release_shared_after 0 (blank_held 8) no_shares = (hr, Tr)" by fastforce
  have "addr (blank_held 32) \<noteq> addr (blank_held 8)" by (simp add: blank_held_def)
  from shared_locks_mirrored [OF table_ok_no_shares held_ok_blank held_ok_blank this s r, of row1]
  show ?thesis using s by (simp add: blank_held_def)
qed

theorem move_guard_protects_witness:
  "write_blocked (fst (snd (move_guard_new (blank_held 8) [row1] no_shares))) False 16 row1 32"
proof -
  obtain h' T' added where g: "move_guard_new (blank_held 8) [row1] no_shares = (h', T', added)"
    by (metis prod_cases3)
  have "mover_of 32 = (33 :: usize)" by (simp add: mover_of_def)
  then show ?thesis
    using move_guard_protects [OF table_ok_no_shares _ g, of row1 32 False] g
    by (simp add: mode_of_no_shares blank_held_def mover_8)
qed

theorem note_row_conflict_witness:
  "snd (note_row thread1 shared1 (lit ''db'') (lit ''c'') 1) = Inl WriteConflict"
proof -
  obtain t' result where n: "note_row thread1 shared1 (lit ''db'') (lit ''c'') 1 = (t', result)" by fastforce
  obtain t2 result2 where n2: "note_row (thread1\<lparr>txn_session := False\<rparr>) shared1 (lit ''db'') (lit ''c'') 1 = (t2, result2)"
    by fastforce
  have "mode_of shared1 (16, row1, 32) = Some Share"
    by (simp add: shared1_def mode_of_add mode_of_no_shares)
  then have "\<exists>a m. mode_of shared1 (store_of (blank_held 8), (lit ''db'', lit ''c'', 1), a) = Some m \<and>
      a \<noteq> addr (blank_held 8) \<and> a \<noteq> mover_of (addr (blank_held 8)) \<and> (KEY_WRITE thread1 \<or> m = Share)"
    by (intro exI [of _ 32] exI [of _ Share]) (simp add: row1_def blank_held_def mover_8)
  then show ?thesis
    using note_row_conflict [OF table_ok_shared1 n _ _ _ _ n2, of "blank_held 8"] n
    by (simp add: thread1_def) (simp add: blank_held_def)
qed

lemma race1_run:
  obtains s' b where "(race_step False Share 32 row1)\<^sup>*\<^sup>* race1 s'" "r_w s' = WDone b" "r_t s' = TDone False"
proof -
  let ?step = "race_step False Share 32 row1"
  obtain T' new where a: "add no_shares 16 row1 32 Share = (T', new)" by fastforce
  let ?s1 = "race1\<lparr>r_table := T'\<lparr>COUNT := COUNT (r_table race1)\<rparr>, r_t := TPushed new\<rparr>"
  let ?s2 = "?s1\<lparr>r_table := (r_table ?s1)\<lparr>COUNT := COUNT (r_table ?s1) + (if new then 1 else 0)\<rparr>, r_t := TAdded\<rparr>"
  let ?s3 = "?s2\<lparr>r_t := TDone (row_conflicts (r_writer ?s2) row1 (want_of Share))\<rparr>"
  let ?s4 = "?s3\<lparr>r_writer := publish_row (r_writer ?s3) False (lit ''db'') (lit ''c'') 1, r_w := WPublished\<rparr>"
  let ?s5 = "?s4\<lparr>r_w := (if COUNT (r_table ?s4) = 0 then WDone False else WCounted)\<rparr>"
  have seen: "\<not> row_conflicts (r_writer ?s2) row1 (want_of Share)"
    by (simp add: row_conflicts_def race1_def blank_held_def)
  have "?step race1 ?s1"
    using a by (intro race_step.push) (simp_all add: race1_def blank_held_def)
  moreover have "?step ?s1 ?s2" by (rule race_step.bump) simp
  moreover have "?step ?s2 ?s3" by (rule race_step.read_held) simp
  moreover have "?step ?s3 ?s4" by (rule race_step.publish) (simp_all add: race1_def row1_def)
  moreover have "?step ?s4 ?s5" by (rule race_step.read_count) simp
  ultimately have run: "?step\<^sup>*\<^sup>* race1 ?s5" by (meson r_into_rtranclp rtranclp_trans)
  show thesis
  proof (cases "COUNT (r_table ?s4) = 0")
    case True
    then show thesis using that [OF run] seen by simp
  next
    case False
    let ?s6 = "?s5\<lparr>r_w := WDone (sharers_block (r_table ?s5) False (store_of (r_writer ?s5)) row1 (addr (r_writer ?s5)))\<rparr>"
    have "?step ?s5 ?s6"
      using False by (intro race_step.read_table) (simp_all add: table_free_def)
    with run have "?step\<^sup>*\<^sup>* race1 ?s6" by simp
    then show thesis using that [of ?s6] seen by simp
  qed
qed

theorem writer_and_taker_meet_witness:
  "\<exists>s'. (race_step False Share 32 row1)\<^sup>*\<^sup>* race1 s' \<and> r_w s' = WDone True"
proof -
  obtain s' b where run: "(race_step False Share 32 row1)\<^sup>*\<^sup>* race1 s'" and d: "r_w s' = WDone b" "r_t s' = TDone False"
    by (rule race1_run)
  have "table_ok (r_table race1)" "r_w race1 = WStart" "r_t race1 = TStart" "False \<or> Share = Share"
    "32 \<noteq> addr (r_writer race1)" "32 \<noteq> mover_of (addr (r_writer race1))"
    by (simp_all add: race1_def blank_held_def mover_8 table_ok_no_shares)
  from writer_and_taker_meet [OF run this d] d run show ?thesis by auto
qed

end
