(* ===== verification/Lock_Modes.thy ===== *)
theory Lock_Modes
  imports Prelude
begin

text \<open>
  Holds of a lock by several owners under a table of conflicting modes: what the lock
  managers share. Holds are compatible when no two owners hold conflicting modes.
\<close>

definition compatible :: "('m \<Rightarrow> 'm \<Rightarrow> bool) \<Rightarrow> ('o \<times> 'm) list \<Rightarrow> bool" where
  "compatible conf hs \<longleftrightarrow>
     (\<forall>a\<in>set hs. \<forall>b\<in>set hs. fst a \<noteq> fst b \<longrightarrow> \<not> conf (snd a) (snd b))"

definition clashes :: "('m \<Rightarrow> 'm \<Rightarrow> bool) \<Rightarrow> ('o \<times> 'm) list \<Rightarrow> 'o \<Rightarrow> 'm \<Rightarrow> bool" where
  "clashes conf hs owner mode \<longleftrightarrow> list_ex (\<lambda>(o', m). o' \<noteq> owner \<and> conf mode m) hs"

lemma compatible_Nil [simp]: "compatible conf []"
  by (simp add: compatible_def)

lemma compatible_subset: "compatible conf hs \<Longrightarrow> set hs' \<subseteq> set hs \<Longrightarrow> compatible conf hs'"
  unfolding compatible_def by blast

lemma compatible_filter [simp]: "compatible conf hs \<Longrightarrow> compatible conf (filter P hs)"
  by (erule compatible_subset) auto

lemma clashes_append [simp]:
  "clashes conf (xs @ ys) owner mode \<longleftrightarrow> clashes conf xs owner mode \<or> clashes conf ys owner mode"
  by (auto simp: clashes_def)

lemma clashes_Nil [simp]: "\<not> clashes conf [] owner mode"
  by (simp add: clashes_def)

text \<open>A symmetric table: a request compatible with the holds leaves them compatible.\<close>

locale conflict_table =
  fixes conf :: "'m \<Rightarrow> 'm \<Rightarrow> bool"
  assumes conf_sym: "conf a b \<Longrightarrow> conf b a"
begin

lemma compatible_snoc:
  "compatible conf (hs @ [(owner, mode)]) \<longleftrightarrow> compatible conf hs \<and> \<not> clashes conf hs owner mode"
  unfolding compatible_def clashes_def list_ex_iff
  by (auto simp: split_beta dest: conf_sym)

text \<open>An exclusive mode: its holder is alone.\<close>

lemma exclusive_alone:
  assumes "compatible conf hs" "(owner, mode) \<in> set hs" "\<And>m. conf mode m"
  shows "fst ` set hs = {owner}"
proof
  show "fst ` set hs \<subseteq> {owner}"
    using assms(1) bspec [OF assms(1) [unfolded compatible_def] assms(2)] assms(3) by auto
  show "{owner} \<subseteq> fst ` set hs" using assms(2) by force
qed

end

end
