(* ===== verification/Lock_Manager.thy ===== *)
theory Lock_Manager
  imports Bson_Model Lock_Modes
begin

text \<open>
  \<open>secantus-commands/src/lock_manager.rs\<close>: hierarchical resource locks. A mutex guards the
  lock heads, so each critical section is one step. A request is granted at once or waits:
  \<open>acquire_start\<close> is the request up to where it returns or starts to wait, and
  \<open>acquire_poll\<close> one turn of its loop. The deadline of the request and the time it has
  waited are arguments of the turn. Counters that would take \<open>2^64\<close> requests to wrap are
  natural numbers.
\<close>

section \<open>Modes and resources\<close>

datatype lock_mode = Is | Ix | S | X

fun mode_name :: "lock_mode \<Rightarrow> rstr" where
  "mode_name Is = lit ''IS''"
| "mode_name Ix = lit ''IX''"
| "mode_name S = lit ''S''"
| "mode_name X = lit ''X''"

fun letter :: "lock_mode \<Rightarrow> rstr" where
  "letter Is = lit ''r''"
| "letter Ix = lit ''w''"
| "letter S = lit ''R''"
| "letter X = lit ''W''"

fun conflicts_with :: "lock_mode \<Rightarrow> lock_mode \<Rightarrow> bool" where
  "conflicts_with Is X = True"
| "conflicts_with S Ix = True"
| "conflicts_with S X = True"
| "conflicts_with X Is = True"
| "conflicts_with X Ix = True"
| "conflicts_with X S = True"
| "conflicts_with X X = True"
| "conflicts_with Ix S = True"
| "conflicts_with Ix X = True"
| "conflicts_with _ _ = False"

datatype resource =
    Global
  | Database rstr
  | Collection rstr
  | MutexRes
  | Metadata
  | Oplog
  | ReplicationStateTransition
  | MdtBarrier

fun kind :: "resource \<Rightarrow> rstr" where
  "kind Global = lit ''Global''"
| "kind (Database _) = lit ''Database''"
| "kind (Collection _) = lit ''Collection''"
| "kind MutexRes = lit ''Mutex''"
| "kind Metadata = lit ''Metadata''"
| "kind Oplog = lit ''oplog''"
| "kind ReplicationStateTransition = lit ''ReplicationStateTransition''"
| "kind MdtBarrier = lit ''MultiDocumentTransactionsBarrier''"

fun described :: "resource \<Rightarrow> rstr" where
  "described (Collection ns) = lit ''{Collection : '' @ ns @ lit ''}''"
| "described (Database db) = lit ''{Database : '' @ db @ lit ''}''"
| "described Global = lit ''{Global : 0}''"
| "described other = lit ''{'' @ kind other @ lit '' : '' @ kind other @ lit ''}''"

datatype owner = Transaction nat | Statement nat

section \<open>Lock heads\<close>

record head =
  holders :: "(owner \<times> lock_mode) list"
  queue :: "(nat \<times> owner \<times> lock_mode) list"

definition empty_head :: head where
  "empty_head = \<lparr>holders = [], queue = []\<rparr>"

definition blocks :: "head \<Rightarrow> owner \<Rightarrow> lock_mode \<Rightarrow> bool" where
  "blocks h owner mode = list_ex (\<lambda>(o', m). o' \<noteq> owner \<and> conflicts_with mode m) (holders h)"

definition holds :: "head \<Rightarrow> owner \<Rightarrow> bool" where
  "holds h owner = list_ex (\<lambda>(o', _). o' = owner) (holders h)"

text \<open>The loop of \<open>grantable\<close> over the queue, with those granted before.\<close>

fun grant_walk :: "head \<Rightarrow> nat \<Rightarrow> (nat \<times> owner \<times> lock_mode) list \<Rightarrow> (owner \<times> lock_mode) list \<Rightarrow> bool" where
  "grant_walk h ticket [] granted = False"
| "grant_walk h ticket ((t, owner, mode) # q) granted =
     (if blocks h owner mode \<or> list_ex (\<lambda>(o', m). o' \<noteq> owner \<and> conflicts_with mode m) granted then False
      else if t = ticket then True
      else grant_walk h ticket q (granted @ [(owner, mode)]))"

definition grantable :: "head \<Rightarrow> nat \<Rightarrow> bool" where
  "grantable h ticket = grant_walk h ticket (queue h) []"

section \<open>The manager\<close>

record stats =
  acquire_count :: "lock_mode \<Rightarrow> nat option"
  acquire_wait_count :: "lock_mode \<Rightarrow> nat option"
  time_acquiring_micros :: "lock_mode \<Rightarrow> nat option"

record lock_manager =
  heads :: "resource \<Rightarrow> head option"
  stats_of :: "rstr \<Rightarrow> stats option"
  next_owner :: nat
  next_ticket :: nat
  fsync :: "nat \<times> owner option"

definition new_manager :: lock_manager where
  "new_manager = \<lparr>heads = Map.empty, stats_of = Map.empty, next_owner = 1, next_ticket = 1, fsync = (0, None)\<rparr>"

text \<open>What an operation's thread keeps of the locks it took.\<close>

record op_state =
  took_global :: bool
  op_locks :: "(rstr \<times> lock_mode \<times> nat \<times> nat) list"
  flow_control :: int

definition begin_operation :: "op_state \<Rightarrow> op_state" where
  "begin_operation s = s\<lparr>took_global := False, op_locks := [], flow_control := 0\<rparr>"

fun bump_lock :: "rstr \<Rightarrow> lock_mode \<Rightarrow> nat \<Rightarrow> (rstr \<times> lock_mode \<times> nat \<times> nat) list \<Rightarrow> (rstr \<times> lock_mode \<times> nat \<times> nat) list" where
  "bump_lock k m waited [] = [(k, m, 1, waited)]"
| "bump_lock k m waited ((k', m', n, w) # l) =
     (if k' = k \<and> m' = m then (k', m', n + 1, w + waited) # l else (k', m', n, w) # bump_lock k m waited l)"

definition note_operation_lock :: "rstr \<Rightarrow> lock_mode \<Rightarrow> bool \<Rightarrow> op_state \<Rightarrow> op_state" where
  "note_operation_lock k m waited s = s\<lparr>op_locks := bump_lock k m (if waited then 1 else 0) (op_locks s)\<rparr>"

definition note_taken :: "resource \<Rightarrow> op_state \<Rightarrow> op_state" where
  "note_taken res s = (if res = Global then s\<lparr>took_global := True\<rparr> else s)"

definition note_flow_control_ticket :: "op_state \<Rightarrow> op_state" where
  "note_flow_control_ticket s = s\<lparr>flow_control := flow_control s + 1\<rparr>"

definition bump :: "nat \<Rightarrow> lock_mode \<Rightarrow> (lock_mode \<Rightarrow> nat option) \<Rightarrow> lock_mode \<Rightarrow> nat option" where
  "bump n m c = c(m \<mapsto> (case c m of None \<Rightarrow> 0 | Some k \<Rightarrow> k) + n)"

definition empty_stats :: stats where
  "empty_stats = \<lparr>acquire_count = Map.empty, acquire_wait_count = Map.empty, time_acquiring_micros = Map.empty\<rparr>"

text \<open>\<open>count\<close>: \<open>waited\<close> is the time a wait took, in microseconds.\<close>

definition count_acquire :: "resource \<Rightarrow> lock_mode \<Rightarrow> nat option \<Rightarrow> lock_manager \<times> op_state \<Rightarrow> lock_manager \<times> op_state" where
  "count_acquire res mode waited = (\<lambda>(lm, s).
     (let st = (case stats_of lm (kind res) of None \<Rightarrow> empty_stats | Some st \<Rightarrow> st);
          st1 = st\<lparr>acquire_count := bump 1 mode (acquire_count st)\<rparr>;
          st2 = (case waited of
                   None \<Rightarrow> st1
                 | Some d \<Rightarrow>
                     st1\<lparr>acquire_wait_count := bump 1 mode (acquire_wait_count st1),
                         time_acquiring_micros := bump d mode (time_acquiring_micros st1)\<rparr>)
      in (lm\<lparr>stats_of := (stats_of lm)(kind res \<mapsto> st2)\<rparr>,
          note_operation_lock (kind res) mode (waited \<noteq> None) s)))"

definition statement_owner :: "lock_manager \<Rightarrow> owner \<times> lock_manager" where
  "statement_owner lm = (Statement (next_owner lm), lm\<lparr>next_owner := next_owner lm + 1\<rparr>)"

definition transaction_owner :: "lock_manager \<Rightarrow> owner \<times> lock_manager" where
  "transaction_owner lm = (Transaction (next_owner lm), lm\<lparr>next_owner := next_owner lm + 1\<rparr>)"

definition head_of :: "lock_manager \<Rightarrow> resource \<Rightarrow> head" where
  "head_of lm res = (case heads lm res of None \<Rightarrow> empty_head | Some h \<Rightarrow> h)"

definition set_head :: "resource \<Rightarrow> head \<Rightarrow> lock_manager \<Rightarrow> lock_manager" where
  "set_head res h lm = lm\<lparr>heads := (heads lm)(res \<mapsto> h)\<rparr>"

fun is_statement :: "owner \<Rightarrow> bool" where
  "is_statement (Statement _) = True"
| "is_statement (Transaction _) = False"

definition takes_flow_control_ticket :: "lock_manager \<Rightarrow> owner \<Rightarrow> resource \<Rightarrow> lock_mode \<Rightarrow> bool" where
  "takes_flow_control_ticket lm owner res mode \<longleftrightarrow>
     res = Global \<and> mode = Ix \<and> is_statement owner \<and>
     \<not> (case heads lm res of None \<Rightarrow> False | Some h \<Rightarrow> holds h owner)"

text \<open>A request that waits: what its loop keeps between turns.\<close>

record waiter =
  w_ticket :: nat
  w_owner :: owner
  w_res :: resource
  w_mode :: lock_mode
  w_converting :: bool
  w_ticket_first :: bool

definition push_holder :: "owner \<Rightarrow> lock_mode \<Rightarrow> head \<Rightarrow> head" where
  "push_holder owner mode h = h\<lparr>holders := holders h @ [(owner, mode)]\<rparr>"

definition unqueue :: "nat \<Rightarrow> head \<Rightarrow> head" where
  "unqueue ticket h = h\<lparr>queue := filter (\<lambda>(t, _, _). t \<noteq> ticket) (queue h)\<rparr>"

text \<open>What follows a grant outside the mutex.\<close>

definition note_grant :: "resource \<Rightarrow> lock_mode \<Rightarrow> bool \<Rightarrow> nat option \<Rightarrow> lock_manager \<times> op_state \<Rightarrow> lock_manager \<times> op_state" where
  "note_grant res mode ticket_first waited = (\<lambda>(lm, s).
     (let (lm', s') = count_acquire res mode waited (lm, if ticket_first then note_flow_control_ticket s else s)
      in (lm', note_taken res s')))"

definition acquire_start :: "owner \<Rightarrow> resource \<Rightarrow> lock_mode \<Rightarrow> lock_manager \<times> op_state \<Rightarrow> (lock_manager \<times> op_state) \<times> waiter option" where
  "acquire_start owner res mode = (\<lambda>(lm, s).
     (let ticket_first = takes_flow_control_ticket lm owner res mode;
          h = head_of lm res
      in if \<not> blocks h owner mode \<and> (queue h = [] \<or> holds h owner)
         then (note_grant res mode ticket_first None (set_head res (push_holder owner mode h) lm, s), None)
         else
           (let converting = holds h owner;
                ticket = next_ticket lm;
                h' = (if converting then h else h\<lparr>queue := queue h @ [(ticket, owner, mode)]\<rparr>)
            in (((set_head res h' lm)\<lparr>next_ticket := ticket + 1\<rparr>, s),
                Some \<lparr>w_ticket = ticket, w_owner = owner, w_res = res, w_mode = mode,
                      w_converting = converting, w_ticket_first = ticket_first\<rparr>))))"

datatype poll_result = Granted | Expired | Waits

definition ready :: "lock_manager \<Rightarrow> waiter \<Rightarrow> bool" where
  "ready lm w =
     (let h = head_of lm (w_res w)
      in if w_converting w then \<not> blocks h (w_owner w) (w_mode w) else grantable h (w_ticket w))"

definition acquire_poll :: "waiter \<Rightarrow> bool \<Rightarrow> nat \<Rightarrow> lock_manager \<times> op_state \<Rightarrow> (lock_manager \<times> op_state) \<times> poll_result" where
  "acquire_poll w expired elapsed = (\<lambda>(lm, s).
     (let h = head_of lm (w_res w)
      in if ready lm w
         then (note_grant (w_res w) (w_mode w) (w_ticket_first w) (Some elapsed)
                 (set_head (w_res w) (push_holder (w_owner w) (w_mode w) (unqueue (w_ticket w) h)) lm, s), Granted)
         else if expired
         then (count_acquire (w_res w) (w_mode w) (Some elapsed) (set_head (w_res w) (unqueue (w_ticket w) h) lm, s), Expired)
         else ((set_head (w_res w) h lm, s), Waits)))"

definition retain_heads :: "(resource \<Rightarrow> head option) \<Rightarrow> resource \<Rightarrow> head option" where
  "retain_heads hs = (\<lambda>res. case hs res of
     None \<Rightarrow> None
   | Some h \<Rightarrow> if holders h \<noteq> [] \<or> queue h \<noteq> [] then Some h else None)"

definition release :: "owner \<Rightarrow> lock_manager \<Rightarrow> lock_manager" where
  "release owner lm =
     lm\<lparr>heads := retain_heads (\<lambda>res. map_option
       (\<lambda>h. h\<lparr>holders := filter (\<lambda>(o', _). o' \<noteq> owner) (holders h)\<rparr>) (heads lm res))\<rparr>"

text \<open>\<open>rposition\<close> and the removal of what it finds: the latest such hold.\<close>

fun remove_first :: "'a \<Rightarrow> 'a list \<Rightarrow> 'a list" where
  "remove_first x [] = []"
| "remove_first x (y # ys) = (if y = x then ys else y # remove_first x ys)"

definition remove_latest :: "owner \<Rightarrow> lock_mode \<Rightarrow> head \<Rightarrow> head" where
  "remove_latest owner mode h = h\<lparr>holders := rev (remove_first (owner, mode) (rev (holders h)))\<rparr>"

definition release_hold :: "owner \<Rightarrow> resource \<times> lock_mode \<Rightarrow> lock_manager \<Rightarrow> lock_manager" where
  "release_hold owner = (\<lambda>(res, mode) lm.
     case heads lm res of None \<Rightarrow> lm | Some h \<Rightarrow> set_head res (remove_latest owner mode h) lm)"

definition release_holds :: "owner \<Rightarrow> (resource \<times> lock_mode) list \<Rightarrow> lock_manager \<Rightarrow> lock_manager" where
  "release_holds owner chain lm =
     (let lm' = fold (release_hold owner) chain lm in lm'\<lparr>heads := retain_heads (heads lm')\<rparr>)"

section \<open>The write lock of a backup\<close>

text \<open>
  \<open>fsync_lock\<close> up to where its request is granted or waits, with the owner it made; and its
  end, once the request has returned, whether or not it was granted: the source drops the
  answer.
\<close>

definition fsync_begin :: "lock_manager \<times> op_state \<Rightarrow> (lock_manager \<times> op_state) \<times> (owner \<times> waiter option) option" where
  "fsync_begin = (\<lambda>(lm, s).
     if fst (fsync lm) = 0
     then (let (owner, lm1) = statement_owner lm;
               (st, w) = acquire_start owner Global S (lm1, s)
           in (st, Some (owner, w)))
     else ((lm, s), None))"

definition fsync_end :: "owner option \<Rightarrow> lock_manager \<Rightarrow> lock_manager \<times> nat" where
  "fsync_end made lm =
     (let held = (case made of None \<Rightarrow> snd (fsync lm) | Some owner \<Rightarrow> Some owner);
          n = fst (fsync lm) + 1
      in (lm\<lparr>fsync := (n, held)\<rparr>, n))"

definition fsync_unlock :: "lock_manager \<Rightarrow> lock_manager \<times> nat option" where
  "fsync_unlock lm =
     (let (n, held) = fsync lm
      in if n = 0 then (lm, None)
         else if n - 1 = 0
         then ((case held of
                  None \<Rightarrow> lm\<lparr>fsync := (0, None)\<rparr>
                | Some owner \<Rightarrow> release owner (lm\<lparr>fsync := (0, None)\<rparr>)), Some 0)
         else (lm\<lparr>fsync := (n - 1, held)\<rparr>, Some (n - 1)))"

section \<open>Chains\<close>

text \<open>
  A request with all its turns. Between two turns other threads change the manager: a turn
  is that change, whether the deadline has passed, and the time waited. \<open>None\<close> is a request
  that still waits when the turns are over.
\<close>

type_synonym turn = "(lock_manager \<Rightarrow> lock_manager) \<times> bool \<times> nat"

fun poll_turns :: "waiter \<Rightarrow> turn list \<Rightarrow> lock_manager \<times> op_state \<Rightarrow> (lock_manager \<times> op_state) \<times> bool option" where
  "poll_turns w [] st = (st, None)"
| "poll_turns w ((env, expired, elapsed) # ts) st =
     (let (st', r) = acquire_poll w expired elapsed (env (fst st), snd st)
      in case r of
           Granted \<Rightarrow> (st', Some True)
         | Expired \<Rightarrow> (st', Some False)
         | Waits \<Rightarrow> poll_turns w ts st')"

definition acquire_full :: "owner \<Rightarrow> resource \<Rightarrow> lock_mode \<Rightarrow> turn list \<Rightarrow> lock_manager \<times> op_state \<Rightarrow> (lock_manager \<times> op_state) \<times> bool option" where
  "acquire_full owner res mode ts st =
     (case acquire_start owner res mode st of
        (st', None) \<Rightarrow> (st', Some True)
      | (st', Some w) \<Rightarrow> poll_turns w ts st')"

text \<open>\<open>acquire_chain\<close>; the turns of each link in order.\<close>

fun acquire_chain :: "owner \<Rightarrow> (resource \<times> lock_mode) list \<Rightarrow> turn list list \<Rightarrow> lock_manager \<times> op_state \<Rightarrow> (lock_manager \<times> op_state) \<times> bool option" where
  "acquire_chain owner [] tss st = (st, Some True)"
| "acquire_chain owner ((res, mode) # chain) tss st =
     (let (ts, tss') = (case tss of [] \<Rightarrow> ([], []) | t # ts' \<Rightarrow> (t, ts'));
          (st', r) = acquire_full owner res mode ts st
      in case r of
           None \<Rightarrow> (st', None)
         | Some True \<Rightarrow> acquire_chain owner chain tss' st'
         | Some False \<Rightarrow> ((release owner (fst st'), snd st'), Some False))"

section \<open>Holds never conflict\<close>

lemma conflicts_sym: "conflicts_with a b \<Longrightarrow> conflicts_with b a"
  by (cases a; cases b) auto

interpretation modes: conflict_table conflicts_with
  by unfold_locales (rule conflicts_sym)

lemma blocks_clashes: "blocks h owner mode \<longleftrightarrow> clashes conflicts_with (holders h) owner mode"
  by (simp add: blocks_def clashes_def)

text \<open>The manager together with the requests that wait.\<close>

type_synonym lock_sys = "lock_manager \<times> waiter list"

inductive lm_step :: "lock_sys \<Rightarrow> lock_sys \<Rightarrow> bool" where
  request: "acquire_start owner res mode (lm, s) = ((lm', s'), None) \<Longrightarrow> lm_step (lm, ws) (lm', ws)"
| enqueue: "acquire_start owner res mode (lm, s) = ((lm', s'), Some w) \<Longrightarrow> lm_step (lm, ws) (lm', ws @ [w])"
| sleep: "w \<in> set ws \<Longrightarrow> acquire_poll w expired elapsed (lm, s) = ((lm', s'), Waits) \<Longrightarrow> lm_step (lm, ws) (lm', ws)"
| leave: "w \<in> set ws \<Longrightarrow> acquire_poll w expired elapsed (lm, s) = ((lm', s'), r) \<Longrightarrow> r \<noteq> Waits \<Longrightarrow>
    lm_step (lm, ws) (lm', removeAll w ws)"
| release_all: "lm_step (lm, ws) (release owner lm, ws)"
| release_some: "lm_step (lm, ws) (release_holds owner chain lm, ws)"
| new_statement: "lm_step (lm, ws) (snd (statement_owner lm), ws)"
| new_transaction: "lm_step (lm, ws) (snd (transaction_owner lm), ws)"

inductive lm_reachable :: "lock_sys \<Rightarrow> bool" where
  start: "lm_reachable (new_manager, [])"
| step: "lm_reachable a \<Longrightarrow> lm_step a b \<Longrightarrow> lm_reachable b"

definition entry_of :: "waiter \<Rightarrow> nat \<times> owner \<times> lock_mode" where
  "entry_of w = (w_ticket w, w_owner w, w_mode w)"

definition queued :: "resource \<Rightarrow> waiter list \<Rightarrow> waiter list" where
  "queued res ws = filter (\<lambda>w. w_res w = res \<and> \<not> w_converting w) ws"

text \<open>
  At every resource the holds are compatible and the queue is exactly the requests that
  wait there, in the order they came; tickets are handed out in increasing order.
\<close>

definition head_ok :: "waiter list \<Rightarrow> resource \<Rightarrow> head \<Rightarrow> bool" where
  "head_ok ws res h \<longleftrightarrow> compatible conflicts_with (holders h) \<and> queue h = map entry_of (queued res ws)"

definition sys_ok :: "lock_sys \<Rightarrow> bool" where
  "sys_ok = (\<lambda>(lm, ws).
     (\<forall>res. head_ok ws res (head_of lm res)) \<and>
     sorted_wrt (<) (map w_ticket ws) \<and> (\<forall>w\<in>set ws. w_ticket w < next_ticket lm))"

lemma head_of_set_head [simp]:
  "head_of (set_head res h lm) r = (if r = res then h else head_of lm r)"
  by (simp add: head_of_def set_head_def)

lemma head_of_upd [simp]:
  "head_of (lm\<lparr>stats_of := a\<rparr>) r = head_of lm r" "head_of (lm\<lparr>next_ticket := n\<rparr>) r = head_of lm r"
  "head_of (lm\<lparr>next_owner := n\<rparr>) r = head_of lm r" "head_of (lm\<lparr>fsync := f\<rparr>) r = head_of lm r"
  by (simp_all add: head_of_def)

lemma set_head_fields [simp]: "next_ticket (set_head res h lm) = next_ticket lm"
  by (simp add: set_head_def)

lemma count_fields [simp]:
  "head_of (fst (count_acquire res mode d (lm, s))) r = head_of lm r"
  "next_ticket (fst (count_acquire res mode d (lm, s))) = next_ticket lm"
  by (simp_all add: count_acquire_def Let_def)

lemma note_grant_fields [simp]:
  "head_of (fst (note_grant res mode tf d (lm, s))) r = head_of lm r"
  "next_ticket (fst (note_grant res mode tf d (lm, s))) = next_ticket lm"
  by (simp_all add: note_grant_def split_beta Let_def)

lemma head_fields [simp]:
  "holders (push_holder owner mode h) = holders h @ [(owner, mode)]" "queue (push_holder owner mode h) = queue h"
  "holders (unqueue t h) = holders h" "queue (unqueue t h) = filter (\<lambda>e. fst e \<noteq> t) (queue h)"
  by (simp_all add: push_holder_def unqueue_def) (rule filter_cong; auto)

lemma head_of_retain: "head_of (lm\<lparr>heads := retain_heads hs\<rparr>) r = head_of (lm\<lparr>heads := hs\<rparr>) r"
  by (auto simp: head_of_def retain_heads_def empty_head_def split: option.split)

lemma holders_release:
  "holders (head_of (release owner lm) res) = filter (\<lambda>(o', _). o' \<noteq> owner) (holders (head_of lm res))"
  "queue (head_of (release owner lm) res) = queue (head_of lm res)"
  by (simp_all add: release_def head_of_retain) (simp_all add: head_of_def empty_head_def split: option.split)

lemma set_remove_first: "set (remove_first x xs) \<subseteq> set xs"
  by (induction xs) auto

lemma release_hold_head:
  "set (holders (head_of (release_hold owner rm lm) res)) \<subseteq> set (holders (head_of lm res))"
  "queue (head_of (release_hold owner rm lm) res) = queue (head_of lm res)"
  using set_remove_first [of "(owner, snd rm)" "rev (holders (head_of lm (fst rm)))"]
  by (auto simp: release_hold_def remove_latest_def split_beta head_of_def set_head_def split: option.splits)

lemma release_holds_fields:
  "set (holders (head_of (release_holds owner chain lm) res)) \<subseteq> set (holders (head_of lm res))"
  "queue (head_of (release_holds owner chain lm) res) = queue (head_of lm res)"
  "next_ticket (release_holds owner chain lm) = next_ticket lm"
proof -
  have "set (holders (head_of (fold (release_hold owner) chain lm) res)) \<subseteq> set (holders (head_of lm res)) \<and>
      queue (head_of (fold (release_hold owner) chain lm) res) = queue (head_of lm res) \<and>
      next_ticket (fold (release_hold owner) chain lm) = next_ticket lm"
  proof (induction chain arbitrary: lm)
    case (Cons rm chain)
    have "next_ticket (release_hold owner rm lm) = next_ticket lm"
      by (simp add: release_hold_def set_head_def split_beta split: option.split)
    then show ?case
      using Cons.IH [of "release_hold owner rm lm"] release_hold_head [of owner rm lm res] by auto
  qed simp
  then show "set (holders (head_of (release_holds owner chain lm) res)) \<subseteq> set (holders (head_of lm res))"
    "queue (head_of (release_holds owner chain lm) res) = queue (head_of lm res)"
    "next_ticket (release_holds owner chain lm) = next_ticket lm"
    by (simp_all add: release_holds_def Let_def head_of_retain)
qed

lemma release_fields [simp]: "next_ticket (release owner lm) = next_ticket lm"
  by (simp add: release_def)


section \<open>The queue is granted in order\<close>

text \<open>
  A request is granted when it and all that came before it go together with the holds and
  with one another.
\<close>

lemma grant_walk_iff:
  assumes "compatible conflicts_with granted"
  shows "grant_walk h ticket q granted \<longleftrightarrow>
    (\<exists>pre owner mode post. q = pre @ (ticket, owner, mode) # post \<and> ticket \<notin> fst ` set pre \<and>
       (\<forall>(t, o', m)\<in>set (pre @ [(ticket, owner, mode)]). \<not> blocks h o' m) \<and>
       compatible conflicts_with (granted @ map snd pre @ [(owner, mode)]))"
    (is "_ \<longleftrightarrow> (\<exists>pre owner mode post. ?P q granted pre owner mode post)")
  using assms
proof (induction q arbitrary: granted)
  case (Cons e q)
  obtain t o1 m1 where e: "e = (t, o1, m1)" by (cases e)
  have clash: "list_ex (\<lambda>(o', m). o' \<noteq> o1 \<and> conflicts_with m1 m) granted \<longleftrightarrow> clashes conflicts_with granted o1 m1"
    by (simp add: clashes_def)
  have snoc: "\<not> clashes conflicts_with granted o1 m1 \<longleftrightarrow> compatible conflicts_with (granted @ [(o1, m1)])"
    using Cons.prems by (simp add: modes.compatible_snoc)
  show ?case
  proof (cases "blocks h o1 m1 \<or> clashes conflicts_with granted o1 m1")
    case True
    have "\<not> ?P (e # q) granted pre owner mode post" for pre owner mode post
    proof
      assume p: "?P (e # q) granted pre owner mode post"
      then have "e \<in> set (pre @ [(ticket, owner, mode)])" by (cases pre) auto
      then have "\<not> blocks h o1 m1" "(o1, m1) \<in> set (map snd pre @ [(owner, mode)])" using p e by force+
      moreover have "compatible conflicts_with (granted @ [(o1, m1)])"
        by (rule compatible_subset [of _ "granted @ map snd pre @ [(owner, mode)]"]) (use p calculation(2) in auto)
      ultimately show False using True snoc by blast
    qed
    then show ?thesis using True e clash by auto
  next
    case False
    then have ok: "compatible conflicts_with (granted @ [(o1, m1)])" using snoc by blast
    show ?thesis
    proof (cases "t = ticket")
      case True
      have "?P (e # q) granted [] o1 m1 q" using True False ok e by simp
      then have "\<exists>pre owner mode post. ?P (e # q) granted pre owner mode post" by blast
      moreover have "grant_walk h ticket (e # q) granted" using True False e clash by simp
      ultimately show ?thesis by simp
    next
      case neq: False
      have step: "?P (e # q) granted (e # pre) owner mode post \<longleftrightarrow> ?P q (granted @ [(o1, m1)]) pre owner mode post"
        for pre owner mode post using neq False e by auto
      have "(\<exists>pre owner mode post. ?P (e # q) granted pre owner mode post) \<longleftrightarrow>
          (\<exists>pre owner mode post. ?P q (granted @ [(o1, m1)]) pre owner mode post)"
      proof
        assume "\<exists>pre owner mode post. ?P (e # q) granted pre owner mode post"
        then obtain pre owner mode post where p: "?P (e # q) granted pre owner mode post" by blast
        obtain pre' where pre: "pre = e # pre'" using conjunct1 [OF p] neq e by (cases pre) auto
        have "?P q (granted @ [(o1, m1)]) pre' owner mode post"
          by (rule step [THEN iffD1], insert p, unfold pre, assumption)
        then show "\<exists>pre owner mode post. ?P q (granted @ [(o1, m1)]) pre owner mode post" by blast
      next
        assume "\<exists>pre owner mode post. ?P q (granted @ [(o1, m1)]) pre owner mode post"
        then obtain pre owner mode post where "?P q (granted @ [(o1, m1)]) pre owner mode post" by blast
        then have "?P (e # q) granted (e # pre) owner mode post" by (rule step [THEN iffD2])
        then show "\<exists>pre owner mode post. ?P (e # q) granted pre owner mode post" by blast
      qed
      then show ?thesis using Cons.IH [OF ok] neq False e clash by auto
    qed
  qed
qed simp

lemma grantable_iff:
  "grantable h ticket \<longleftrightarrow>
    (\<exists>pre owner mode post. queue h = pre @ (ticket, owner, mode) # post \<and> ticket \<notin> fst ` set pre \<and>
       (\<forall>(t, o', m)\<in>set (pre @ [(ticket, owner, mode)]). \<not> blocks h o' m) \<and>
       compatible conflicts_with (map snd pre @ [(owner, mode)]))"
  using grant_walk_iff [of "[]"] by (simp add: grantable_def)

lemma split_first_unique:
  assumes "xs @ (k, a) # ys = xs' @ (k, b) # ys'" "k \<notin> fst ` set xs" "k \<notin> fst ` set xs'"
  shows "xs = xs'"
  using assms
proof (induction xs arbitrary: xs')
  case Nil
  then show ?case by (cases xs') auto
next
  case (Cons x xs)
  then show ?case by (cases xs') auto
qed

text \<open>Whoever stands before a request that can be granted can be granted too.\<close>

lemma grantable_before:
  assumes "grantable h ticket" "queue h = pre @ (ticket, owner, mode) # post" "ticket \<notin> fst ` set pre"
    and "pre = pre1 @ (t, o1, m1) # pre2" "t \<notin> fst ` set pre1"
  shows "grantable h t"
proof -
  obtain pre' owner' mode' post' where
    q: "queue h = pre' @ (ticket, owner', mode') # post'" "ticket \<notin> fst ` set pre'"
    and g: "\<forall>(t, o', m)\<in>set (pre' @ [(ticket, owner', mode')]). \<not> blocks h o' m"
      "compatible conflicts_with (map snd pre' @ [(owner', mode')])"
    using assms(1) unfolding grantable_iff by blast
  have "pre' = pre"
    using split_first_unique [of pre' ticket "(owner', mode')" post' pre "(owner, mode)" post] q assms(2,3) by simp
  then have sub: "pre1 @ [(t, o1, m1)] @ pre2 = pre'" using assms(4) by simp
  have "compatible conflicts_with (map snd pre1 @ [(o1, m1)])"
    by (rule compatible_subset [OF g(2)]) (use sub in auto)
  moreover have "set (pre1 @ [(t, o1, m1)]) \<subseteq> set (pre' @ [(ticket, owner', mode')])" using sub by auto
  then have "\<forall>(t, o', m)\<in>set (pre1 @ [(t, o1, m1)]). \<not> blocks h o' m" using g(1) by blast
  moreover have "queue h = pre1 @ (t, o1, m1) # pre2 @ (ticket, owner, mode) # post" using assms(2,4) by simp
  ultimately show ?thesis using assms(5) unfolding grantable_iff by blast
qed

lemma grantable_not_blocked:
  assumes "grantable h ticket" "distinct (map fst (queue h))" "(ticket, owner, mode) \<in> set (queue h)"
  shows "\<not> blocks h owner mode"
proof -
  obtain pre owner' mode' post where q: "queue h = pre @ (ticket, owner', mode') # post"
    and g: "\<forall>(t, o', m)\<in>set (pre @ [(ticket, owner', mode')]). \<not> blocks h o' m"
    using assms(1) unfolding grantable_iff by blast
  have "(owner', mode') = (owner, mode)"
    using assms(2,3) q by (metis eq_key_imp_eq_value in_set_conv_decomp)
  then show ?thesis using g by auto
qed


section \<open>The invariant\<close>

lemma sys_ok_start: "sys_ok (new_manager, [])"
  by (simp add: sys_ok_def new_manager_def head_ok_def head_of_def empty_head_def queued_def)

lemma sys_ok_tickets: "sys_ok (lm, ws) \<Longrightarrow> distinct (map w_ticket ws)"
  by (simp add: sys_ok_def strict_sorted_iff)

lemma queued_snoc: "queued res (ws @ [w]) = queued res ws @ (if w_res w = res \<and> \<not> w_converting w then [w] else [])"
  by (simp add: queued_def)

lemma unqueued:
  assumes "distinct (map w_ticket ws)" "w \<in> set ws"
  shows "filter (\<lambda>e. fst e \<noteq> w_ticket w) (map entry_of (queued res ws)) = map entry_of (queued res (removeAll w ws))"
proof -
  have "w_ticket x \<noteq> w_ticket w \<longleftrightarrow> x \<noteq> w" if "x \<in> set ws" for x
    using assms that by (auto simp: distinct_map inj_on_def)
  then have "filter (\<lambda>x. w_res x = res \<and> \<not> w_converting x \<and> w_ticket x \<noteq> w_ticket w) ws =
      filter (\<lambda>x. w \<noteq> x \<and> w_res x = res \<and> \<not> w_converting x) ws"
    by (intro filter_cong) auto
  then show ?thesis
    by (simp add: queued_def filter_map entry_of_def removeAll_filter_not_eq comp_def)
qed

lemma queued_other:
  assumes "w_converting w \<or> w_res w \<noteq> res" shows "queued res (removeAll w ws) = queued res ws"
  using assms by (auto simp: queued_def removeAll_filter_not_eq intro!: filter_cong)

lemma unqueue_head:
  assumes "sys_ok (lm, ws)" "w \<in> set ws"
  shows "queue (unqueue (w_ticket w) (head_of lm (w_res w))) = map entry_of (queued (w_res w) (removeAll w ws))"
  using assms unqueued [OF sys_ok_tickets [OF assms(1)] assms(2)] by (simp add: sys_ok_def head_ok_def)

lemma queued_tickets:
  assumes "sys_ok (lm, ws)"
  shows "sorted_wrt (<) (map fst (queue (head_of lm res)))" "distinct (map fst (queue (head_of lm res)))"
proof -
  have "queue (head_of lm res) = map entry_of (queued res ws)"
    using assms by (simp add: sys_ok_def head_ok_def)
  then have "map fst (queue (head_of lm res)) = map w_ticket (queued res ws)"
    by (simp add: entry_of_def comp_def)
  moreover have "sorted_wrt (<) (map w_ticket (queued res ws))"
    using assms by (simp add: sys_ok_def queued_def sorted_wrt_map sorted_wrt_filter)
  ultimately show "sorted_wrt (<) (map fst (queue (head_of lm res)))" "distinct (map fst (queue (head_of lm res)))"
    by (simp_all add: strict_sorted_iff)
qed

lemma waiter_queued:
  assumes "sys_ok (lm, ws)" "w \<in> set ws" "\<not> w_converting w"
  shows "entry_of w \<in> set (queue (head_of lm (w_res w)))"
  using assms by (auto simp: sys_ok_def head_ok_def queued_def)

lemma ready_not_blocked:
  assumes "sys_ok (lm, ws)" "w \<in> set ws" "ready lm w"
  shows "\<not> blocks (head_of lm (w_res w)) (w_owner w) (w_mode w)"
  using assms(3) grantable_not_blocked [OF _ queued_tickets(2) [OF assms(1)]] waiter_queued [OF assms(1,2)]
  by (auto simp: ready_def Let_def entry_of_def split: if_splits)

lemma removed_waiters:
  assumes "sys_ok (lm, ws)"
  shows "sorted_wrt (<) (map w_ticket (removeAll w ws)) \<and> (\<forall>v\<in>set (removeAll w ws). w_ticket v < next_ticket lm)"
  using assms by (auto simp: sys_ok_def removeAll_filter_not_eq sorted_wrt_map sorted_wrt_filter)

lemma sys_ok_leave:
  assumes ok: "sys_ok (lm, ws)" and w: "w \<in> set ws" and r: "r \<noteq> Waits"
    and p: "acquire_poll w expired elapsed (lm, s) = ((lm', s'), r)"
  shows "sys_ok (lm', removeAll w ws)"
proof -
  let ?h = "head_of lm (w_res w)"
  have "\<forall>res. head_ok ws res (head_of lm res)" using ok by (simp add: sys_ok_def)
  then have other: "head_ok (removeAll w ws) res (head_of lm res)" if "res \<noteq> w_res w" for res
    using that by (simp add: head_ok_def queued_other)
  have comp: "compatible conflicts_with (holders ?h)" using ok by (simp add: sys_ok_def head_ok_def)
  consider (grant) "ready lm w" | (expire) "\<not> ready lm w" "expired" using p r by (auto simp: acquire_poll_def Let_def split: if_splits)
  then show ?thesis
  proof cases
    case grant
    then have lm': "lm' = fst (note_grant (w_res w) (w_mode w) (w_ticket_first w) (Some elapsed)
        (set_head (w_res w) (push_holder (w_owner w) (w_mode w) (unqueue (w_ticket w) ?h)) lm, s))"
      using p by (simp add: acquire_poll_def Let_def)
    have "\<not> clashes conflicts_with (holders ?h) (w_owner w) (w_mode w)"
      using ready_not_blocked [OF ok w grant] by (simp add: blocks_clashes)
    then show ?thesis
      using other removed_waiters [OF ok, of w] unqueue_head [OF ok w] comp
      by (simp add: sys_ok_def lm' head_ok_def modes.compatible_snoc)
  next
    case expire
    then have lm': "lm' = fst (count_acquire (w_res w) (w_mode w) (Some elapsed)
        (set_head (w_res w) (unqueue (w_ticket w) ?h) lm, s))"
      using p by (simp add: acquire_poll_def Let_def)
    then show ?thesis
      using other removed_waiters [OF ok, of w] unqueue_head [OF ok w] comp
      by (simp add: sys_ok_def lm' head_ok_def)
  qed
qed


lemma sys_ok_sleep:
  assumes "sys_ok (lm, ws)" "acquire_poll w expired elapsed (lm, s) = ((lm', s'), Waits)"
  shows "sys_ok (lm', ws)"
proof -
  have "lm' = set_head (w_res w) (head_of lm (w_res w)) lm"
    using assms(2) by (auto simp: acquire_poll_def Let_def split: if_splits)
  then show ?thesis using assms(1) by (simp add: sys_ok_def)
qed

lemma sys_ok_request:
  assumes ok: "sys_ok (lm, ws)" and a: "acquire_start owner res mode (lm, s) = ((lm', s'), None)"
  shows "sys_ok (lm', ws)"
proof -
  let ?h = "head_of lm res"
  have free: "\<not> blocks ?h owner mode"
    and lm': "lm' = fst (note_grant res mode (takes_flow_control_ticket lm owner res mode) None
      (set_head res (push_holder owner mode ?h) lm, s))"
    using a by (auto simp: acquire_start_def Let_def split: if_splits)
  then show ?thesis
    using ok by (auto simp: sys_ok_def lm' head_ok_def modes.compatible_snoc blocks_clashes)
qed

lemma sys_ok_enqueue:
  assumes ok: "sys_ok (lm, ws)" and a: "acquire_start owner res mode (lm, s) = ((lm', s'), Some w)"
  shows "sys_ok (lm', ws @ [w])"
proof -
  let ?h = "head_of lm res"
  let ?h' = "if holds ?h owner then ?h else ?h\<lparr>queue := queue ?h @ [(next_ticket lm, owner, mode)]\<rparr>"
  have lm': "lm' = (set_head res ?h' lm)\<lparr>next_ticket := next_ticket lm + 1\<rparr>"
    and w: "w_ticket w = next_ticket lm" "w_owner w = owner" "w_res w = res" "w_mode w = mode"
      "w_converting w = holds ?h owner"
    using a by (auto simp: acquire_start_def Let_def split: if_splits)
  have "head_ok (ws @ [w]) r (head_of lm' r)" for r
    using ok by (auto simp: sys_ok_def lm' head_ok_def queued_snoc w entry_of_def)
  then show ?thesis
    using ok by (auto simp: sys_ok_def lm' w sorted_wrt_append less_Suc_eq)
qed

lemma sys_ok_holds:
  assumes "sys_ok (lm, ws)" "\<And>res. set (holders (head_of lm' res)) \<subseteq> set (holders (head_of lm res))"
    and "\<And>res. queue (head_of lm' res) = queue (head_of lm res)" "next_ticket lm' = next_ticket lm"
  shows "sys_ok (lm', ws)"
proof -
  have "head_ok ws res (head_of lm' res)" for res
    using assms(1) compatible_subset [OF _ assms(2), of conflicts_with res] by (simp add: sys_ok_def head_ok_def assms(3))
  then show ?thesis using assms(1,4) by (simp add: sys_ok_def)
qed

lemma sys_ok_step: "lm_step a b \<Longrightarrow> sys_ok a \<Longrightarrow> sys_ok b"
proof (induction rule: lm_step.induct)
  case (release_all lm ws owner)
  then show ?case by (rule sys_ok_holds) (auto simp: holders_release)
next
  case (release_some lm ws owner chain)
  then show ?case by (rule sys_ok_holds) (use release_holds_fields in auto)
next
  case (new_statement lm ws)
  then show ?case by (rule sys_ok_holds) (simp_all add: statement_owner_def)
next
  case (new_transaction lm ws)
  then show ?case by (rule sys_ok_holds) (simp_all add: transaction_owner_def)
qed (blast intro: sys_ok_request sys_ok_enqueue sys_ok_sleep sys_ok_leave)+

lemma sys_ok_reachable: "lm_reachable a \<Longrightarrow> sys_ok a"
  by (induction rule: lm_reachable.induct) (blast intro: sys_ok_start sys_ok_step)+

section \<open>Properties\<close>

text \<open>
  C3: whatever requests, waits, deadlines and releases happen, no two
  owners hold a resource in conflicting modes, an exclusive hold is alone, and the queue of
  a resource is exactly the requests that wait there, in order of arrival, so an expired
  wait leaves nothing behind.
\<close>

theorem lock_holds_compatible:
  assumes "lm_reachable (lm, ws)"
  shows "compatible conflicts_with (holders (head_of lm res)) \<and>
    ((owner, X) \<in> set (holders (head_of lm res)) \<longrightarrow> fst ` set (holders (head_of lm res)) = {owner}) \<and>
    queue (head_of lm res) = map entry_of (queued res ws) \<and>
    sorted_wrt (<) (map fst (queue (head_of lm res)))"
proof -
  note ok = sys_ok_reachable [OF assms]
  have c: "compatible conflicts_with (holders (head_of lm res))" and q: "queue (head_of lm res) = map entry_of (queued res ws)"
    using ok by (simp_all add: sys_ok_def head_ok_def)
  have "conflicts_with X m" for m by (cases m) simp_all
  then show ?thesis using c q modes.exclusive_alone [OF c] queued_tickets(1) [OF ok] by blast
qed

text \<open>
  a waiting request is granted only when every earlier request queued for
  the resource could be granted too: nobody overtakes a request that still has to wait.
\<close>

theorem grants_in_order:
  assumes "lm_reachable (lm, ws)" "w \<in> set ws" "v \<in> set ws" "w_res v = w_res w"
    and "\<not> w_converting w" "\<not> w_converting v" "w_ticket v < w_ticket w"
    and "snd (acquire_poll w expired elapsed (lm, s)) = Granted"
  shows "snd (acquire_poll v expired' elapsed' (lm, s')) = Granted"
proof -
  note ok = sys_ok_reachable [OF assms(1)]
  let ?q = "queue (head_of lm (w_res w))"
  have sorted: "sorted_wrt (<) (map fst ?q)" and dist: "distinct (map fst ?q)"
    using queued_tickets [OF ok] by simp_all
  have g: "grantable (head_of lm (w_res w)) (w_ticket w)"
    using assms(5,8) by (auto simp: acquire_poll_def ready_def Let_def split: if_splits)
  have in_q: "entry_of w \<in> set ?q" "entry_of v \<in> set ?q"
    using waiter_queued [OF ok] assms(2-6) by metis+
  obtain pre post where q: "?q = pre @ entry_of w # post" using in_q(1) by (meson split_list)
  have "entry_of v \<in> set pre"
    using in_q(2) sorted assms(7) unfolding q by (auto simp: sorted_wrt_append entry_of_def)
  then obtain pre1 pre2 where pre: "pre = pre1 @ entry_of v # pre2" by (meson split_list)
  have "grantable (head_of lm (w_res w)) (w_ticket v)"
    using grantable_before [OF g, of pre "w_owner w" "w_mode w" post pre1 "w_ticket v" "w_owner v" "w_mode v" pre2]
      q pre dist by (auto simp: entry_of_def image_Un)
  then show ?thesis
    using assms(4,6) by (simp add: acquire_poll_def ready_def Let_def)
qed

text \<open>
  once no other owner holds the resource, the first request in
  its queue is granted at its next turn, and so is a conversion by an owner that holds it.
\<close>

theorem released_lock_is_granted:
  assumes "lm_reachable (lm, ws)" "w \<in> set ws"
    and "\<forall>h\<in>set (holders (head_of lm (w_res w))). fst h = w_owner w"
    and "w_converting w \<or> (\<forall>v\<in>set ws. w_res v = w_res w \<and> \<not> w_converting v \<longrightarrow> w_ticket w \<le> w_ticket v)"
  shows "snd (acquire_poll w expired elapsed (lm, s)) = Granted"
proof -
  note ok = sys_ok_reachable [OF assms(1)]
  let ?h = "head_of lm (w_res w)"
  have free: "\<not> blocks ?h (w_owner w) (w_mode w)"
    using assms(3) by (auto simp: blocks_def list_ex_iff)
  have "grantable ?h (w_ticket w)" if nc: "\<not> w_converting w"
  proof -
    obtain pre post where q: "queue ?h = pre @ entry_of w # post"
      using waiter_queued [OF ok assms(2) nc] by (meson split_list)
    have "pre = []"
    proof (rule ccontr)
      assume "pre \<noteq> []"
      then obtain e where e: "e \<in> set pre" by (cases pre) auto
      then have "e \<in> set (queue ?h)" using q by simp
      then obtain v where v: "v \<in> set ws" "w_res v = w_res w" "\<not> w_converting v" "e = entry_of v"
        using ok by (auto simp: sys_ok_def head_ok_def queued_def)
      have "fst e < w_ticket w" using queued_tickets(1) [OF ok, of "w_res w"] e unfolding q by (auto simp: sorted_wrt_append entry_of_def)
      then show False using assms(4) nc v by (auto simp: entry_of_def)
    qed
    then show ?thesis
      using q free unfolding grantable_iff
      by (intro exI [of _ "[]"] exI [of _ "w_owner w"] exI [of _ "w_mode w"] exI [of _ post])
        (simp add: entry_of_def compatible_def)
  qed
  then show ?thesis using free by (auto simp: acquire_poll_def ready_def Let_def)
qed


text \<open>A hold of the global lock in S keeps writers out and lets readers in.\<close>

lemma global_S_blocks:
  assumes "(a, S) \<in> set (holders (head_of lm Global))" "owner \<noteq> a" "mode \<in> {Ix, X}"
  shows "blocks (head_of lm Global) owner mode"
  using assms by (auto simp: blocks_def list_ex_iff intro!: bexI [of _ "(a, S)"])

lemma head_of_owner [simp]: "head_of (snd (statement_owner lm)) r = head_of lm r"
  by (simp add: statement_owner_def)

lemma acquire_start_granted:
  assumes "acquire_start owner res mode (lm, s) = ((lm', s'), None)"
  shows "holders (head_of lm' res) = holders (head_of lm res) @ [(owner, mode)]"
proof -
  have "lm' = fst (note_grant res mode (takes_flow_control_ticket lm owner res mode) None
      (set_head res (push_holder owner mode (head_of lm res)) lm, s))"
    using assms by (auto simp: acquire_start_def Let_def split: if_splits)
  then show ?thesis by simp
qed

lemma Is_free:
  assumes "\<forall>h\<in>set (holders h). snd h \<noteq> X" shows "\<not> blocks h owner Is"
proof -
  have "conflicts_with Is m \<longleftrightarrow> m = X" for m by (cases m) simp_all
  then show ?thesis using assms by (auto simp: blocks_def list_ex_iff)
qed

text \<open>
  an \<open>fsync\<close> lock whose request was granted holds the global
  lock in S and counts one; while that hold stands no other owner's write is granted, at
  once or at a later turn, and readers are not held up; the matching unlock lets go of it.
\<close>

theorem fsync_lock_holds_writers:
  assumes "fsync lm = (0, None)" "fsync_begin (lm, s) = ((lm1, s1), Some (a, None))"
    and "fsync_end (Some a) lm1 = (lm2, n)"
    and "lm_reachable (lm3, ws)" "(a, S) \<in> set (holders (head_of lm3 Global))"
    and "owner \<noteq> a" "mode \<in> {Ix, X}"
    and "w \<in> set ws" "w_res w = Global" "w_owner w \<noteq> a" "w_mode w \<in> {Ix, X}"
  shows "(a, S) \<in> set (holders (head_of lm2 Global)) \<and> n = 1 \<and>
    snd (acquire_start owner Global mode (lm3, s)) \<noteq> None \<and>
    snd (acquire_poll w expired elapsed (lm3, s)) \<noteq> Granted \<and>
    (queue (head_of lm3 Global) = [] \<and> (a, X) \<notin> set (holders (head_of lm3 Global)) \<longrightarrow>
       snd (acquire_start owner Global Is (lm3, s)) = None) \<and>
    snd (fsync_unlock lm2) = Some 0 \<and> a \<notin> fst ` set (holders (head_of (fst (fsync_unlock lm2)) res))"
proof -
  have start: "acquire_start a Global S (snd (statement_owner lm), s) = ((lm1, s1), None)"
    using assms(1,2) by (auto simp: fsync_begin_def Let_def split: prod.splits)
  have lm2: "lm2 = lm1\<lparr>fsync := (fst (fsync lm1) + 1, Some a)\<rparr>" "n = fst (fsync lm1) + 1"
    using assms(3) by (auto simp: fsync_end_def Let_def)
  have "fsync lm1 = (0, None)"
    using start assms(1)
    by (auto simp: acquire_start_def note_grant_def count_acquire_def set_head_def statement_owner_def Let_def split: if_splits)
  then have f: "fsync lm2 = (1, Some a)" "n = 1" using lm2 by simp_all
  have ok: "compatible conflicts_with (holders (head_of lm3 Global))"
    using sys_ok_reachable [OF assms(4)] by (simp add: sys_ok_def head_ok_def)
  have "snd h \<noteq> X" if "h \<in> set (holders (head_of lm3 Global))" "fst h \<noteq> a" for h
    using ok assms(5) that unfolding compatible_def by force
  then have "\<not> blocks (head_of lm3 Global) owner Is" if "(a, X) \<notin> set (holders (head_of lm3 Global))"
    using that by (intro Is_free) (metis prod.collapse)
  then have reader: "queue (head_of lm3 Global) = [] \<and> (a, X) \<notin> set (holders (head_of lm3 Global)) \<longrightarrow>
      snd (acquire_start owner Global Is (lm3, s)) = None"
    by (simp add: acquire_start_def Let_def)
  have "blocks (head_of lm3 Global) owner mode" "blocks (head_of lm3 Global) (w_owner w) (w_mode w)"
    using global_S_blocks [OF assms(5)] assms(6,7,10,11) by simp_all
  then have "snd (acquire_start owner Global mode (lm3, s)) \<noteq> None" "\<not> ready lm3 w"
    using ready_not_blocked [OF sys_ok_reachable [OF assms(4)] assms(8)] assms(9)
    by (auto simp: acquire_start_def Let_def)
  moreover have "a \<notin> fst ` set (holders (head_of (fst (fsync_unlock lm2)) res))"
    by (auto simp: fsync_unlock_def f holders_release)
  ultimately show ?thesis
    using acquire_start_granted [OF start] lm2(1) f reader
    by (auto simp: acquire_poll_def Let_def fsync_unlock_def)
qed


text \<open>The manager with one writer's hold on the global lock.\<close>

definition op0 :: op_state where
  "op0 = \<lparr>took_global = False, op_locks = [], flow_control = 0\<rparr>"

definition one_writer :: "lock_manager \<times> op_state" where
  "one_writer =
     (let (owner, lm) = statement_owner new_manager in fst (acquire_start owner Global Ix (lm, op0)))"

section \<open>A chain is taken whole or not at all\<close>

definition held_by :: "owner \<Rightarrow> lock_manager \<Rightarrow> resource \<Rightarrow> (owner \<times> lock_mode) list" where
  "held_by owner lm res = filter (\<lambda>h. fst h = owner) (holders (head_of lm res))"

definition keeps_holds :: "owner \<Rightarrow> (lock_manager \<Rightarrow> lock_manager) \<Rightarrow> bool" where
  "keeps_holds owner env \<longleftrightarrow> (\<forall>lm. held_by owner (env lm) = held_by owner lm)"

lemma poll_held:
  assumes "acquire_poll w expired elapsed (lm, s) = (st, r)"
  shows "held_by (w_owner w) (fst st) res = held_by (w_owner w) lm res @
    (if r = Granted \<and> res = w_res w then [(w_owner w, w_mode w)] else [])"
  using assms by (auto simp: acquire_poll_def Let_def held_by_def split: if_splits)

lemma poll_turns_held:
  assumes "poll_turns w ts st = (st', r)" "\<forall>t\<in>set ts. keeps_holds (w_owner w) (fst t)"
  shows "held_by (w_owner w) (fst st') res = held_by (w_owner w) (fst st) res @
    (if r = Some True \<and> res = w_res w then [(w_owner w, w_mode w)] else [])"
  using assms
proof (induction w ts st rule: poll_turns.induct)
  case (2 w env expired elapsed ts st)
  obtain st1 r1 where p: "acquire_poll w expired elapsed (env (fst st), snd st) = (st1, r1)" by fastforce
  have env: "held_by (w_owner w) (env (fst st)) res = held_by (w_owner w) (fst st) res"
    using 2(3) by (simp add: keeps_holds_def)
  note held = poll_held [OF p, of res]
  show ?case
    using 2(1) [OF p [symmetric] refl] 2(2,3) held env by (cases r1) (auto simp: p)
qed simp

lemma start_held:
  assumes "acquire_start owner res mode (lm, s) = (st, w)"
  shows "held_by owner (fst st) r = held_by owner lm r @ (if w = None \<and> r = res then [(owner, mode)] else [])"
    and "w = Some v \<Longrightarrow> w_owner v = owner \<and> w_res v = res \<and> w_mode v = mode"
  using assms by (auto simp: acquire_start_def Let_def held_by_def split: if_splits)

lemma held_by_none: "held_by owner lm res = [] \<longleftrightarrow> owner \<notin> fst ` set (holders (head_of lm res))"
  by (auto simp: held_by_def filter_empty_conv image_iff)

text \<open>
  C38: an \<open>fsync\<close> lock whose request has to wait and is not ready when its
  deadline passes is counted all the same: it answers a count of one and records its owner, but
  that owner holds nothing of the global lock, so a writer's request is granted as long as only
  readers and writers hold it; and further \<open>fsync\<close> locks take no lock either, they only count.
\<close>

theorem fsync_lock_without_lock:
  assumes "fsync_begin (lm, s) = ((lm1, s1), Some (a, Some w))"
    and "fst (fsync lm2) = 0" "\<not> ready lm2 w" "a \<notin> fst ` set (holders (head_of lm2 Global))"
    and "acquire_poll w True elapsed (lm2, s2) = ((lm3, s3), r)" "fsync_end (Some a) lm3 = (lm4, n)"
  shows "r = Expired \<and> n = 1 \<and> fsync lm4 = (1, Some a) \<and>
    a \<notin> fst ` set (holders (head_of lm4 Global)) \<and>
    (queue (head_of lm4 Global) = [] \<and> snd ` set (holders (head_of lm4 Global)) \<subseteq> {Is, Ix} \<longrightarrow>
       snd (acquire_start owner Global Ix (lm4, s4)) = None) \<and>
    fsync_begin (lm4, s4) = ((lm4, s4), None)"
proof -
  have "acquire_start a Global S (snd (statement_owner lm), s) = ((lm1, s1), Some w)"
    using assms(1) by (auto simp: fsync_begin_def Let_def split: prod.splits if_splits)
  then have w: "w_owner w = a" "w_res w = Global" using start_held(2) by blast+
  have r: "r = Expired" using assms(3,5) by (auto simp: acquire_poll_def Let_def)
  have f: "fsync lm3 = fsync lm2"
    using assms(3,5) by (auto simp: acquire_poll_def count_acquire_def set_head_def Let_def)
  have lm4: "lm4 = lm3\<lparr>fsync := (1, Some a)\<rparr>" "n = 1"
    using assms(2,6) by (auto simp: fsync_end_def Let_def f)
  have "held_by a lm3 Global = held_by a lm2 Global" using poll_held [OF assms(5), of Global] r w by simp
  then have "held_by a lm3 Global = []" using assms(4) held_by_none by simp
  then have out: "a \<notin> fst ` set (holders (head_of lm4 Global))" unfolding lm4(1) by (simp add: held_by_none)
  have "\<not> blocks h owner Ix" if "snd ` set (holders h) \<subseteq> {Is, Ix}" for h
  proof -
    have "\<not> conflicts_with Ix m" if "m \<in> {Is, Ix}" for m using that by auto
    then show ?thesis using that by (auto simp: blocks_def list_ex_iff)
  qed
  then show ?thesis using r lm4 out by (auto simp: acquire_start_def fsync_begin_def Let_def)
qed

lemma one_writer_waits:
  "snd (fsync_begin one_writer) = Some (Statement 2, Some \<lparr>w_ticket = 1, w_owner = Statement 2, w_res = Global, w_mode = S,
     w_converting = False, w_ticket_first = False\<rparr>)"
  "fst (fsync (fst (fst (fsync_begin one_writer)))) = 0"
  "\<not> ready (fst (fst (fsync_begin one_writer))) \<lparr>w_ticket = 1, w_owner = Statement 2, w_res = Global, w_mode = S,
     w_converting = False, w_ticket_first = False\<rparr>"
  "Statement 2 \<notin> fst ` set (holders (head_of (fst (fst (fsync_begin one_writer))) Global))"
  by code_simp+

theorem fsync_lock_without_lock_witness:
  "\<exists>w st r. snd (fsync_begin one_writer) = Some (Statement 2, Some w) \<and>
     acquire_poll w True 10 (fst (fsync_begin one_writer)) = (st, r) \<and> r = Expired \<and>
     snd (fsync_end (Some (Statement 2)) (fst st)) = 1 \<and>
     Statement 2 \<notin> fst ` set (holders (head_of (fst (fsync_end (Some (Statement 2)) (fst st))) Global))"
proof -
  let ?w = "\<lparr>w_ticket = 1, w_owner = Statement 2, w_res = Global, w_mode = S, w_converting = False, w_ticket_first = False\<rparr>"
  have b: "fsync_begin (fst one_writer, snd one_writer) =
      ((fst (fst (fsync_begin one_writer)), snd (fst (fsync_begin one_writer))), Some (Statement 2, Some ?w))"
    using one_writer_waits(1) by (metis prod.collapse)
  obtain st r where p: "acquire_poll ?w True 10 (fst (fsync_begin one_writer)) = (st, r)" by fastforce
  then have p': "acquire_poll ?w True 10 (fst (fst (fsync_begin one_writer)), snd (fst (fsync_begin one_writer))) = ((fst st, snd st), r)"
    by simp
  obtain lm4 n where e: "fsync_end (Some (Statement 2)) (fst st) = (lm4, n)" by fastforce
  have "r = Expired \<and> n = 1 \<and> Statement 2 \<notin> fst ` set (holders (head_of lm4 Global))"
    using fsync_lock_without_lock [OF b one_writer_waits(2,3,4) p' e] by blast
  then show ?thesis using one_writer_waits(1) p e by (intro exI [of _ ?w] exI [of _ st] exI [of _ r]) simp
qed

lemma acquire_full_held:
  assumes "acquire_full owner res mode ts st = (st', r)" "\<forall>t\<in>set ts. keeps_holds owner (fst t)"
  shows "held_by owner (fst st') q = held_by owner (fst st) q @
    (if r = Some True \<and> q = res then [(owner, mode)] else [])"
proof -
  obtain st1 w where a: "acquire_start owner res mode (fst st, snd st) = (st1, w)" by fastforce
  show ?thesis
  proof (cases w)
    case None
    then show ?thesis using a assms(1) start_held(1) [OF a, of q] by (auto simp: acquire_full_def)
  next
    case (Some v)
    then have "w_owner v = owner" "w_res v = res" "w_mode v = mode" using start_held(2) [OF a Some] by simp_all
    then show ?thesis
      using poll_turns_held [of v ts st1 st' r q] a assms start_held(1) [OF a, of q] Some
      by (auto simp: acquire_full_def)
  qed
qed

lemma acquire_chain_held:
  assumes "acquire_chain owner chain tss st = (st', Some True)" "\<forall>ts\<in>set tss. \<forall>t\<in>set ts. keeps_holds owner (fst t)"
  shows "set (held_by owner (fst st') res) = set (held_by owner (fst st) res) \<union> {(owner, m) |m. (res, m) \<in> set chain}"
  using assms
proof (induction owner chain tss st rule: acquire_chain.induct)
  case (2 owner r mode chain tss st)
  obtain ts tss' where t: "(ts, tss') = (case tss of [] \<Rightarrow> ([], []) | t # ts' \<Rightarrow> (t, ts'))" by (metis surj_pair)
  obtain st1 x where a: "acquire_full owner r mode ts st = (st1, x)" by fastforce
  have turns: "\<forall>t\<in>set ts. keeps_holds owner (fst t)" "\<forall>ts\<in>set tss'. \<forall>t\<in>set ts. keeps_holds owner (fst t)"
    using t 2(3) by (auto split: list.splits)
  have x: "x = Some True" using 2(2) a by (auto simp flip: t split: option.splits bool.splits)
  then have "acquire_chain owner chain tss' st1 = (st', Some True)" using 2(2) a by (simp flip: t)
  from 2(1) [OF refl t refl a [symmetric] x refl this turns(2)]
  show ?case using acquire_full_held [OF a turns(1), of res] x by auto
qed simp

lemma acquire_chain_failed:
  "acquire_chain owner chain tss st = (st', Some False) \<Longrightarrow> held_by owner (fst st') res = []"
proof (induction owner chain tss st rule: acquire_chain.induct)
  case (2 owner r mode chain tss st)
  obtain ts tss' where t: "(ts, tss') = (case tss of [] \<Rightarrow> ([], []) | t # ts' \<Rightarrow> (t, ts'))" by (metis surj_pair)
  obtain st1 x where a: "acquire_full owner r mode ts st = (st1, x)" by fastforce
  show ?case
    using 2(1) [OF refl t refl a [symmetric]] 2(2) a
    by (auto simp flip: t simp: held_by_def holders_release filter_empty_conv split: option.splits bool.splits)
qed simp

text \<open>
  a statement whose chain is taken holds every link of it, whatever
  other threads do to their own holds meanwhile; a chain that runs out of time at any link
  leaves its owner no hold at all.
\<close>

theorem chain_all_or_nothing:
  assumes "acquire_chain owner chain tss (lm, s) = ((lm', s'), Some granted)"
    and "\<forall>ts\<in>set tss. \<forall>t\<in>set ts. keeps_holds owner (fst t)"
  shows "if granted then \<forall>(res, mode)\<in>set chain. (owner, mode) \<in> set (holders (head_of lm' res))
    else \<forall>res. owner \<notin> fst ` set (holders (head_of lm' res))"
proof (cases granted)
  case True
  have "(owner, mode) \<in> set (holders (head_of lm' res))" if "(res, mode) \<in> set chain" for res mode
  proof -
    have "(owner, mode) \<in> set (held_by owner lm' res)"
      using acquire_chain_held [of owner chain tss "(lm, s)" "(lm', s')" res] assms True that by auto
    then show ?thesis by (simp add: held_by_def)
  qed
  then show ?thesis using True by auto
next
  case False
  then have "held_by owner lm' res = []" for res
    using acquire_chain_failed [of owner chain tss "(lm, s)" "(lm', s')" res] assms(1) by simp
  then show ?thesis using False by (auto simp: held_by_def filter_empty_conv)
qed


section \<open>Witnesses\<close>

text \<open>Two writers: the first takes the collection exclusively, the others queue behind it.\<close>

definition contended_lm :: "(lock_manager \<times> op_state) \<times> waiter option" where
  "contended_lm = acquire_start (Statement 2) (Collection (lit ''d.c'')) Ix
     (fst (acquire_start (Statement 1) (Collection (lit ''d.c'')) X (new_manager, op0)))"

definition wait2 :: waiter where
  "wait2 = \<lparr>w_ticket = 1, w_owner = Statement 2, w_res = Collection (lit ''d.c''), w_mode = Ix,
     w_converting = False, w_ticket_first = False\<rparr>"

definition wait3 :: waiter where
  "wait3 = \<lparr>w_ticket = 2, w_owner = Statement 3, w_res = Collection (lit ''d.c''), w_mode = Ix,
     w_converting = False, w_ticket_first = False\<rparr>"

definition queue_lm :: "(lock_manager \<times> op_state) \<times> waiter option" where
  "queue_lm = acquire_start (Statement 3) (Collection (lit ''d.c'')) Ix (fst contended_lm)"

lemma queue_lm_waiters: "snd contended_lm = Some wait2" "snd queue_lm = Some wait3"
  by code_simp+

lemma first_granted:
  "snd (acquire_start (Statement 1) (Collection (lit ''d.c'')) X (new_manager, op0)) = None"
  by code_simp

lemma step_request:
  "snd (acquire_start owner res mode st) = None \<Longrightarrow>
   lm_step (fst st, ws) (fst (fst (acquire_start owner res mode st)), ws)"
  by (cases "acquire_start owner res mode st", cases st)
    (auto intro!: lm_step.request simp flip: prod.collapse)

lemma step_enqueue:
  "snd (acquire_start owner res mode st) = Some w \<Longrightarrow>
   lm_step (fst st, ws) (fst (fst (acquire_start owner res mode st)), ws @ [w])"
  by (cases "acquire_start owner res mode st", cases st)
    (auto intro!: lm_step.enqueue simp flip: prod.collapse)

lemma lm_reachable_queue: "lm_reachable (fst (fst queue_lm), [wait2, wait3])"
proof -
  let ?a = "acquire_start (Statement 1) (Collection (lit ''d.c'')) X (new_manager, op0)"
  have "lm_step (new_manager, []) (fst (fst ?a), [])"
    using step_request [OF first_granted, of "[]"] by simp
  then have "lm_reachable (fst (fst ?a), [])" by (rule lm_reachable.step [OF lm_reachable.start])
  from lm_reachable.step [OF this step_enqueue [OF queue_lm_waiters(1) [unfolded contended_lm_def]]]
  have "lm_reachable (fst (fst contended_lm), [wait2])" by (simp add: contended_lm_def)
  from lm_reachable.step [OF this step_enqueue [OF queue_lm_waiters(2) [unfolded queue_lm_def]]]
  show ?thesis by (simp add: queue_lm_def)
qed

text \<open>Once the first has let go, both that wait can be granted, in turn.\<close>

definition freed_lm :: lock_manager where
  "freed_lm = release (Statement 1) (fst (fst queue_lm))"

lemma lm_reachable_freed: "lm_reachable (freed_lm, [wait2, wait3])"
  unfolding freed_lm_def by (rule lm_reachable.step [OF lm_reachable_queue lm_step.release_all])

theorem lock_holds_compatible_witness:
  "queue (head_of (fst (fst queue_lm)) (Collection (lit ''d.c''))) = [entry_of wait2, entry_of wait3]"
  using lock_holds_compatible [OF lm_reachable_queue, of "Collection (lit ''d.c'')"]
  by (simp add: queued_def wait2_def wait3_def)

theorem grants_in_order_witness: "snd (acquire_poll wait2 False 0 (freed_lm, op0)) = Granted"
proof -
  have "snd (acquire_poll wait3 False 0 (freed_lm, op0)) = Granted" by code_simp
  then show ?thesis
    using grants_in_order [OF lm_reachable_freed, of wait3 wait2 False 0 op0 False 0 op0]
    by (simp add: wait2_def wait3_def)
qed

theorem released_lock_is_granted_witness: "snd (acquire_poll wait2 True 7 (freed_lm, op0)) = Granted"
proof -
  have "holders (head_of freed_lm (w_res wait2)) = []" by code_simp
  then show ?thesis
    using released_lock_is_granted [OF lm_reachable_freed, of wait2 True 7 op0]
    by (simp add: wait2_def wait3_def)
qed

definition fsync_lm :: "(lock_manager \<times> op_state) \<times> (owner \<times> waiter option) option" where
  "fsync_lm = fsync_begin (new_manager, op0)"

definition wait_ix :: waiter where
  "wait_ix = \<lparr>w_ticket = 1, w_owner = Statement 7, w_res = Global, w_mode = Ix,
     w_converting = False, w_ticket_first = True\<rparr>"

definition fsync_queue :: "(lock_manager \<times> op_state) \<times> waiter option" where
  "fsync_queue = acquire_start (Statement 7) Global Ix (fst fsync_lm)"

lemma fsync_runs:
  "snd fsync_lm = Some (Statement 1, None)" "snd fsync_queue = Some wait_ix"
  "(Statement 1, S) \<in> set (holders (head_of (fst (fst fsync_queue)) Global))"
  by code_simp+

lemma lm_reachable_fsync: "lm_reachable (fst (fst fsync_queue), [wait_ix])"
proof -
  have "lm_reachable (snd (statement_owner new_manager), [])"
    by (rule lm_reachable.step [OF lm_reachable.start lm_step.new_statement])
  moreover have "acquire_start (Statement 1) Global S (snd (statement_owner new_manager), op0) = (fst fsync_lm, None)"
    using fsync_runs(1) by (auto simp: fsync_lm_def fsync_begin_def new_manager_def statement_owner_def Let_def split: prod.splits)
  then have "lm_step (snd (statement_owner new_manager), []) (fst (fst fsync_lm), [])"
    using step_request [of "Statement 1" Global S "(snd (statement_owner new_manager), op0)" "[]"] by simp
  ultimately have "lm_reachable (fst (fst fsync_lm), [])" by (rule lm_reachable.step)
  from lm_reachable.step [OF this step_enqueue [OF fsync_runs(2) [unfolded fsync_queue_def]]]
  show ?thesis by (simp add: fsync_queue_def)
qed

theorem fsync_lock_holds_writers_witness:
  "snd (acquire_poll wait_ix False 0 (fst (fst fsync_queue), op0)) \<noteq> Granted"
proof -
  have b: "fsync_begin (new_manager, op0) = ((fst (fst fsync_lm), snd (fst fsync_lm)), Some (Statement 1, None))"
    using fsync_runs(1) by (metis fsync_lm_def prod.collapse)
  obtain lm2 n where e: "fsync_end (Some (Statement 1)) (fst (fst fsync_lm)) = (lm2, n)" by fastforce
  have "fsync new_manager = (0, None)" by (simp add: new_manager_def)
  from fsync_lock_holds_writers [OF this b e lm_reachable_fsync fsync_runs(3), of "Statement 7" Ix wait_ix False 0]
  show ?thesis by (simp add: wait_ix_def)
qed

theorem chain_all_or_nothing_witness:
  "Statement 5 \<notin> fst ` set (holders (head_of (fst (fst (acquire_chain (Statement 5)
     [(Global, Ix), (Collection (lit ''d.c''), X)] [[], [(\<lambda>lm. lm, True, 4)]] (fst contended_lm)))) Global))"
proof -
  obtain lm s where c: "fst contended_lm = (lm, s)" by fastforce
  let ?r = "acquire_chain (Statement 5) [(Global, Ix), (Collection (lit ''d.c''), X)] [[], [(\<lambda>lm. lm, True, 4)]] (fst contended_lm)"
  have "snd ?r = Some False" by code_simp
  then have "acquire_chain (Statement 5) [(Global, Ix), (Collection (lit ''d.c''), X)] [[], [(\<lambda>lm. lm, True, 4)]] (lm, s) =
      ((fst (fst ?r), snd (fst ?r)), Some False)" by (metis c prod.collapse)
  from chain_all_or_nothing [OF this] show ?thesis by (simp add: keeps_holds_def)
qed

end
