(* ===== verification/Lock_Chains.thy ===== *)
theory Lock_Chains
  imports Lock_Manager "HOL-Library.Sublist"
begin

text \<open>
  The locks a statement takes (\<open>secantus-commands/src/lock_manager.rs\<close>): the chain from the
  global lock down to the collection, and the rounds measured for the common commands. What
  a round depends on in the store is the record \<open>facts\<close>; the equality of two key patterns
  is the \<open>bson\<close> crate's, a parameter.
\<close>

section \<open>Definitions\<close>

datatype stmt_class = Read | Write | Ddl

definition names :: "string list \<Rightarrow> rstr \<Rightarrow> bool" where
  "names ns name \<longleftrightarrow> list_ex (\<lambda>n. lit n = name) ns"

definition classify_command :: "rstr \<Rightarrow> stmt_class" where
  "classify_command name =
     (if names [''find'', ''getMore'', ''count'', ''distinct'', ''aggregate'', ''collStats'', ''dbStats'',
                ''listCollections'', ''listIndexes'', ''indexStats'', ''dataSize'', ''storageDetails''] name
      then Read
      else if names [''drop'', ''create'', ''collMod'', ''renameCollection'', ''dropDatabase'', ''dropIndexes'',
                     ''dropIndexesForUUID'', ''convertToCapped'', ''createIndexes''] name
      then Ddl
      else Write)"

definition GLOBAL_ONLY :: "string list" where
  "GLOBAL_ONLY =
     [''hello'', ''isMaster'', ''ismaster'', ''serverStatus'', ''ping'', ''whatsmyuri'', ''features'', ''hostInfo'',
      ''connectionStatus'', ''logout'', ''saslStart'', ''saslContinue'', ''authenticate'', ''listDatabases'',
      ''replSetGetStatus'', ''replSetGetConfig'']"

text \<open>\<open>Document::get_str\<close>, \<open>get_document\<close> and \<open>get_array\<close>.\<close>

definition get_str :: "document \<Rightarrow> rstr \<Rightarrow> rstr option" where
  "get_str doc k = (case doc_get doc k of Some (String s) \<Rightarrow> Some s | _ \<Rightarrow> None)"

definition get_document :: "document \<Rightarrow> rstr \<Rightarrow> document option" where
  "get_document doc k = (case doc_get doc k of Some (Document d) \<Rightarrow> Some d | _ \<Rightarrow> None)"

definition get_array :: "document \<Rightarrow> rstr \<Rightarrow> bson list option" where
  "get_array doc k = (case doc_get doc k of Some (Array a) \<Rightarrow> Some a | _ \<Rightarrow> None)"

fun as_document :: "bson \<Rightarrow> document option" where
  "as_document (Document d) = Some d"
| "as_document _ = None"

definition nonempty :: "rstr option \<Rightarrow> rstr option" where
  "nonempty s = (case s of Some (c # cs) \<Rightarrow> Some (c # cs) | _ \<Rightarrow> None)"

definition ns_join :: "rstr \<Rightarrow> rstr \<Rightarrow> rstr" where
  "ns_join db c = db @ lit ''.'' @ c"

text \<open>\<open>split('.').next()\<close>: what stands before the first dot.\<close>

definition db_part :: "rstr \<Rightarrow> rstr" where
  "db_part ns = hd (split_on 46 ns)"

type_synonym chain = "(resource \<times> lock_mode) list"

definition statement_chain :: "document \<Rightarrow> rstr \<Rightarrow> chain" where
  "statement_chain doc db =
     (case doc of
        [] \<Rightarrow> [(Global, Is)]
      | (name, _) # _ \<Rightarrow>
          (let cls = classify_command name;
               intent = (case cls of Read \<Rightarrow> Is | Write \<Rightarrow> Ix | Ddl \<Rightarrow> Ix);
               chain = [(Global, intent)]
           in if names GLOBAL_ONLY name then chain
              else
                (let coll = nonempty (get_str doc name);
                     ns_of = (\<lambda>c. if name = lit ''renameCollection'' then c else ns_join db c);
                     db_mode = (if names [''createDatabase'', ''dropDatabase''] name then X else intent);
                     db_level = (case coll of None \<Rightarrow> db | Some c \<Rightarrow> db_part (ns_of c))
                 in chain @ [(Database db_level, db_mode)] @
                    (case coll of
                       None \<Rightarrow> []
                     | Some c \<Rightarrow> [(Collection (ns_of c), if cls = Ddl then X else intent)]) @
                    (if name = lit ''renameCollection''
                     then (case get_str doc (lit ''to'') of None \<Rightarrow> [] | Some t \<Rightarrow> [(Collection t, X)])
                     else []))))"

record facts =
  coll_exists :: "rstr \<Rightarrow> bool"
  coll_is_empty :: "rstr \<Rightarrow> bool"
  index_keys :: "rstr \<Rightarrow> document list"
  collection_names :: "rstr list"

definition write_round :: "rstr \<Rightarrow> rstr option \<Rightarrow> chain" where
  "write_round db coll =
     [(ReplicationStateTransition, Ix), (Global, Ix), (Database db, Ix)] @
     (case coll of None \<Rightarrow> [] | Some c \<Rightarrow> [(Collection (ns_join db c), Ix)])"

definition statements :: "document \<Rightarrow> rstr \<Rightarrow> nat" where
  "statements doc key = (case doc_get doc key of Some (Array items) \<Rightarrow> max (length items) 1 | _ \<Rightarrow> 1)"

definition read_rounds :: "chain list" where
  "read_rounds = [[(Global, Is)]]"

definition out_rounds :: "document \<Rightarrow> rstr \<Rightarrow> rstr option \<Rightarrow> facts \<Rightarrow> chain list option" where
  "out_rounds doc db source facts =
     (case get_array doc (lit ''pipeline'') of
        None \<Rightarrow> None
      | Some stages \<Rightarrow>
          (case (if stages = [] then None else as_document (last stages)) of
             None \<Rightarrow> None
           | Some l \<Rightarrow>
               (case (case doc_get l (lit ''$out'') of
                        Some (String t) \<Rightarrow> Some (db, t)
                      | Some (Document d) \<Rightarrow>
                          map_option (\<lambda>t. (case get_str d (lit ''db'') of None \<Rightarrow> db | Some b \<Rightarrow> b, t))
                            (get_str d (lit ''coll''))
                      | _ \<Rightarrow> None) of
                  None \<Rightarrow> None
                | Some (out_db, target) \<Rightarrow>
                    (case source of
                       None \<Rightarrow> None
                     | Some src \<Rightarrow>
                         (let write = (\<lambda>mode. [(ReplicationStateTransition, Ix), (Global, Ix), (Database out_db, Ix),
                                               (Collection (ns_join out_db target), mode)]);
                              replaced = (out_db = db \<and> coll_exists facts target)
                          in Some ([[(ReplicationStateTransition, Ix), (Global, Is), (Database db, Is),
                                     (Collection (ns_join db src), Is)]] @
                                   replicate 6 [(Global, Is)] @
                                   replicate (if replaced then 3 else 2) (write X) @
                                   replicate 2 (write Ix)))))))"

text \<open>The arms of \<open>statement_rounds\<close> that take more than a line.\<close>

definition old_read_rounds :: "rstr option \<Rightarrow> chain list" where
  "old_read_rounds ns =
     [[(ReplicationStateTransition, Ix), (Global, Is)] @
      (case ns of None \<Rightarrow> [] | Some n \<Rightarrow> [(Database (db_part n), Is), (Collection n, Is)])]"

definition explain_rounds :: "document \<Rightarrow> rstr \<Rightarrow> chain list option" where
  "explain_rounds doc db =
     (case get_document doc (lit ''explain'') of
        None \<Rightarrow> None
      | Some [] \<Rightarrow> None
      | Some ((verb, v) # rest) \<Rightarrow>
          (if names [''update'', ''delete'', ''findAndModify'', ''findandmodify''] verb
           then Some [write_round db (nonempty (get_str ((verb, v) # rest) verb))]
           else Some read_rounds))"

definition pipeline_has :: "string \<Rightarrow> bson \<Rightarrow> bool" where
  "pipeline_has op s = (case as_document s of None \<Rightarrow> False | Some d \<Rightarrow> doc_contains_key d (lit op))"

definition aggregate_rounds :: "document \<Rightarrow> rstr \<Rightarrow> rstr option \<Rightarrow> facts \<Rightarrow> chain list option" where
  "aggregate_rounds doc db coll facts =
     (case doc_get doc (lit ''pipeline'') of
        Some (Array stages) \<Rightarrow>
          (if \<not> list_ex (\<lambda>s. pipeline_has ''$out'' s \<or> pipeline_has ''$merge'' s) stages then Some read_rounds
           else if stages \<noteq> [] \<and> pipeline_has ''$merge'' (last stages)
           then Some [[(Global, Is)], [(Global, Is)]]
           else out_rounds doc db coll facts)
      | _ \<Rightarrow> Some read_rounds)"

definition collection_intents :: "rstr \<Rightarrow> facts \<Rightarrow> chain" where
  "collection_intents db facts = map (\<lambda>c. (Collection (ns_join db c), Is)) (collection_names facts)"

definition create_indexes_rounds ::
    "(document \<Rightarrow> document \<Rightarrow> bool) \<Rightarrow> document \<Rightarrow> rstr \<Rightarrow> rstr \<Rightarrow> facts \<Rightarrow> chain list" where
  "create_indexes_rounds doc_eq doc db c facts =
     (let global = [(Global, Is)]
      in if \<not> coll_exists facts c then [global, write_round db (Some c), write_round db (Some c)]
         else
           (let have_keys = index_keys facts c;
                asked = (case doc_get doc (lit ''indexes'') of
                           Some (Array specs) \<Rightarrow>
                             List.map_filter (\<lambda>s. case as_document s of
                                 None \<Rightarrow> None | Some d \<Rightarrow> get_document d (lit ''key'')) specs
                         | _ \<Rightarrow> [])
            in if asked \<noteq> [] \<and> list_all (\<lambda>k. list_ex (doc_eq k) have_keys) asked
               then [global, write_round db (Some c)]
               else
                 (let x = write_round db None @ [(Collection (ns_join db c), X)];
                      rounds = [global, global] @ replicate 2 [(ReplicationStateTransition, Ix)]
                  in if coll_is_empty facts c then rounds @ [x] @ [write_round db (Some c)]
                     else rounds @ [x] @ replicate 4 (write_round db (Some c)) @
                          [[(Collection (ns_join db c), Ix)]] @ [write_round db None])))"

definition statement_rounds ::
    "(document \<Rightarrow> document \<Rightarrow> bool) \<Rightarrow> document \<Rightarrow> rstr \<Rightarrow> facts \<Rightarrow> chain list option" where
  "statement_rounds doc_eq doc db facts =
     (case doc of
        [] \<Rightarrow> None
      | (name, _) # _ \<Rightarrow>
          (let coll = nonempty (get_str doc name);
               with_coll = (\<lambda>f. case coll of None \<Rightarrow> None | Some c \<Rightarrow> f c)
           in if names [''hello'', ''isMaster'', ''ismaster'', ''ping'', ''serverStatus'', ''killCursors'',
                        ''fsync'', ''fsyncUnlock''] name then Some []
              else if names [''buildInfo'', ''buildinfo'', ''connPoolStats'', ''connectionStatus'',
                        ''dropConnections'', ''features'', ''getClusterParameter'', ''getCmdLineOpts'',
                        ''getDefaultRWConcern'', ''getLog'', ''getParameter'', ''hostInfo'', ''listCommands'',
                        ''top'', ''whatsmyuri''] name then Some []
              else if names [''find'', ''getMore'', ''count'', ''distinct'', ''listCollections'', ''listIndexes'',
                        ''listDatabases'', ''collStats'', ''rolesInfo'', ''usersInfo''] name then Some read_rounds
              else if names [''dataSize''] name then Some (old_read_rounds coll)
              else if names [''planCacheClear'', ''planCacheClearFilters'', ''planCacheListFilters'',
                        ''planCacheSetFilter''] name then Some (old_read_rounds (map_option (ns_join db) coll))
              else if names [''filemd5''] name then
                Some [[(ReplicationStateTransition, Ix), (Global, Is), (Database db, Is),
                       (Collection (ns_join db ((case get_str doc (lit ''root'') of None \<Rightarrow> lit ''fs'' | Some r \<Rightarrow> r)
                          @ lit ''.chunks'')), Is)]]
              else if names [''explain''] name then explain_rounds doc db
              else if names [''dbHash''] name then
                (let opening = [(ReplicationStateTransition, Ix), (Global, Is)]
                 in Some [opening, opening @ [(Database db, S)] @ collection_intents db facts])
              else if names [''aggregate''] name then aggregate_rounds doc db coll facts
              else if names [''insert''] name then
                with_coll (\<lambda>c. Some (replicate (if coll_exists facts c then 1 else 3) (write_round db (Some c))))
              else if names [''update'', ''delete''] name then
                with_coll (\<lambda>c. Some (replicate
                  (statements doc (if name = lit ''update'' then lit ''updates'' else lit ''deletes''))
                  (write_round db (Some c))))
              else if names [''findAndModify'', ''findandmodify''] name then
                with_coll (\<lambda>c. Some [write_round db None @ write_round db (Some c)])
              else if names [''create''] name then
                with_coll (\<lambda>c. Some ([write_round db (Some c)] @
                  (if coll_exists facts c
                   then [[(ReplicationStateTransition, Ix), (Global, Is), (Database db, Is),
                          (Collection (ns_join db c), Is)]]
                   else [])))
              else if names [''drop'', ''dropIndexes'', ''deleteIndexes''] name then
                with_coll (\<lambda>c.
                  if \<not> coll_exists facts c then Some [write_round db None]
                  else Some [write_round db (Some c), write_round db None @ [(Collection (ns_join db c), X)]])
              else if names [''dropDatabase''] name then
                Some [[(ReplicationStateTransition, Ix), (Global, Ix), (Database db, X)]]
              else if names [''createIndexes''] name then
                with_coll (\<lambda>c. Some (create_indexes_rounds doc_eq doc db c facts))
              else if names [''dbStats''] name then
                Some [[(ReplicationStateTransition, Ix), (Global, Is), (Database db, Is)] @ collection_intents db facts]
              else None))"

section \<open>Chains go from the top down\<close>

text \<open>
  A link is covered when its ancestors are locked before it, in an intent strong enough for
  its mode: the global lock for a database, and the database as well for a collection.
\<close>

fun covers :: "lock_mode \<Rightarrow> lock_mode \<Rightarrow> bool" where
  "covers a m \<longleftrightarrow> (m = Ix \<or> m = X \<longrightarrow> a = Ix \<or> a = X)"

definition db_of_ns :: "rstr \<Rightarrow> rstr \<Rightarrow> bool" where
  "db_of_ns d ns \<longleftrightarrow> d = db_part ns \<or> prefix (d @ lit ''.'') ns"

fun covered :: "chain \<Rightarrow> resource \<Rightarrow> lock_mode \<Rightarrow> bool" where
  "covered before (Database d) m = list_ex (\<lambda>(r, a). r = Global \<and> covers a m) before"
| "covered before (Collection ns) m =
     (list_ex (\<lambda>(r, a). r = Global \<and> covers a m) before \<and>
      list_ex (\<lambda>(r, a). case r of Database d \<Rightarrow> db_of_ns d ns \<and> covers a m | _ \<Rightarrow> False) before)"
| "covered before _ m = True"

fun top_down :: "chain \<Rightarrow> chain \<Rightarrow> bool" where
  "top_down before [] = True"
| "top_down before ((r, m) # c) = (covered before r m \<and> top_down (before @ [(r, m)]) c)"

lemma db_of_join [simp]: "db_of_ns db (ns_join db c)" "db_of_ns (db_part ns) ns"
  by (simp_all add: db_of_ns_def ns_join_def)

lemma top_down_intents:
  assumes "list_ex (\<lambda>(r, a). r = Global \<and> covers a Is) before" "(Database db, m) \<in> set before"
  shows "top_down before (collection_intents db facts)"
proof -
  have "top_down before (map (\<lambda>c. (Collection (ns_join db c), Is)) cs)" for cs
    using assms
    by (induction cs arbitrary: before) (auto simp: list_ex_iff intro!: bexI [of _ "(Database db, m)"])
  then show ?thesis by (simp add: collection_intents_def)
qed

lemma top_down_write_round: "top_down [] (write_round db coll)"
  by (simp add: write_round_def split: option.split)

lemma top_down_append: "top_down before (c @ c') \<longleftrightarrow> top_down before c \<and> top_down (before @ c) c'"
  by (induction before c rule: top_down.induct) auto

lemma top_down_write_x:
  "m = X \<or> m = Ix \<Longrightarrow> top_down [] (write_round db None @ [(Collection (ns_join db c), m)])"
  by (auto simp: write_round_def)


lemma top_down_db_intents:
  "m = S \<or> m = Is \<Longrightarrow>
   top_down [(ReplicationStateTransition, Ix), (Global, Is), (Database db, m)] (collection_intents db facts)"
  by (rule top_down_intents [of _ _ m]) auto

definition td :: "chain list \<Rightarrow> bool" where
  "td rounds \<longleftrightarrow> (\<forall>r\<in>set rounds. top_down [] r)"

lemma td_simps [simp]:
  "td []" "td (r # rs) \<longleftrightarrow> top_down [] r \<and> td rs" "td (rs @ rs') \<longleftrightarrow> td rs \<and> td rs'"
  "top_down [] r \<Longrightarrow> td (replicate n r)"
  by (auto simp: td_def)

lemma td_out: "out_rounds doc db source facts = Some rounds \<Longrightarrow> td rounds"
  by (auto simp: out_rounds_def Let_def split: option.splits if_splits bson.splits)

lemma td_aggregate: "aggregate_rounds doc db coll facts = Some rounds \<Longrightarrow> td rounds"
  by (auto simp: aggregate_rounds_def read_rounds_def td_out split: option.splits if_splits bson.splits)

lemma td_explain: "explain_rounds doc db = Some rounds \<Longrightarrow> td rounds"
  by (auto simp: explain_rounds_def read_rounds_def top_down_write_round split: option.splits list.splits if_splits)

lemma td_old_read: "td (old_read_rounds ns)"
  by (simp add: old_read_rounds_def split: option.split)

lemma td_create_indexes:
  "r \<in> set (create_indexes_rounds doc_eq doc db c facts) \<Longrightarrow>
   top_down [] r \<or> r = [(Collection (ns_join db c), Ix)]"
  by (auto simp: create_indexes_rounds_def Let_def top_down_write_round top_down_write_x split: if_splits)

lemma td_find_modify: "top_down [] (write_round db None @ write_round db (Some c))"
  by (simp add: write_round_def)

lemma td_rounds:
  assumes "statement_rounds doc_eq doc db facts = Some rounds" "r \<in> set rounds"
  shows "top_down [] r \<or> fst (hd doc) = lit ''createIndexes'' \<and> (\<exists>c. r = [(Collection (ns_join db c), Ix)])"
proof (cases doc)
  case (Cons kv rest)
  obtain name v where kv: "kv = (name, v)" by fastforce
  let ?coll = "nonempty (get_str doc name)"
  have "td rounds \<or> names [''createIndexes''] name \<and> (\<exists>c. rounds = create_indexes_rounds doc_eq doc db c facts)"
    using assms(1) unfolding statement_rounds_def Cons kv list.case prod.case Let_def
    by (auto simp: read_rounds_def td_old_read td_explain td_aggregate top_down_write_round top_down_write_x
        td_find_modify top_down_db_intents simp flip: kv Cons split: if_splits option.splits)
  then consider "td rounds" | c where "name = lit ''createIndexes''" "rounds = create_indexes_rounds doc_eq doc db c facts"
    by (auto simp: names_def)
  then show ?thesis
  proof cases
    case 1
    then show ?thesis using assms(2) by (simp add: td_def)
  next
    case 2
    then show ?thesis using assms(2) td_create_indexes [of r doc_eq doc db c facts] Cons kv by auto
  qed
qed (use assms in \<open>simp add: statement_rounds_def\<close>)

lemma split_on_hd: "c \<in> set s \<Longrightarrow> prefix (hd (split_on c s) @ [c]) s"
  by (induction c s rule: split_on.induct) (auto split: list.splits)

lemma top_down_statement:
  assumes "\<forall>v rest. doc \<noteq> (lit ''renameCollection'', v) # rest"
  shows "top_down [] (statement_chain doc db)"
proof (cases doc)
  case (Cons kv rest)
  obtain name v where kv: "kv = (name, v)" by fastforce
  then have "name \<noteq> lit ''renameCollection''" using assms Cons by blast
  moreover have "classify_command (lit ''createDatabase'') = Write" "classify_command (lit ''dropDatabase'') = Ddl"
    by code_simp+
  then have "classify_command name \<noteq> Read" if "names [''createDatabase'', ''dropDatabase''] name"
    using that by (auto simp: names_def)
  ultimately show ?thesis
    by (cases "classify_command name")
      (auto simp: statement_chain_def Cons kv Let_def split: option.split if_splits)
qed (simp add: statement_chain_def)


section \<open>Properties\<close>

text \<open>
  Every statement locks from the top down: before a database its chain
  has the global lock, and before a collection the database too, each in an intent strong
  enough for the mode below. \<open>renameCollection\<close> is left out here (its target's database is
  not locked), and the one round of an index build that only counts the collection's intent.
\<close>

theorem chains_top_down:
  assumes "\<forall>v rest. doc \<noteq> (lit ''renameCollection'', v) # rest"
  shows "top_down [] (statement_chain doc db) \<and>
    (\<forall>rounds r. statement_rounds doc_eq doc db facts = Some rounds \<and> r \<in> set rounds \<longrightarrow>
       top_down [] r \<or> fst (hd doc) = lit ''createIndexes'' \<and> (\<exists>c. r = [(Collection (ns_join db c), Ix)]))"
  using top_down_statement [OF assms] td_rounds by blast

theorem chains_top_down_witness:
  "top_down [] (statement_chain [(lit ''insert'', String (lit ''c''))] (lit ''d''))"
proof -
  have "\<forall>v rest. [(lit ''insert'', String (lit ''c''))] \<noteq> (lit ''renameCollection'', v) # rest"
    by (simp add: lit_def)
  from chains_top_down [OF this] show ?thesis by blast
qed

text \<open>The chain of \<open>renameCollection\<close>.\<close>

definition rename_chain :: "string \<Rightarrow> string \<Rightarrow> chain" where
  "rename_chain a b =
     statement_chain [(lit ''renameCollection'', String (lit a)), (lit ''to'', String (lit b))] (lit ''admin'')"

text \<open>
  a rename into another database takes the target
  collection exclusively without its database: a \<open>dropDatabase\<close> of the target database is
  granted while the rename holds all its locks.
\<close>

theorem rename_target_database_unlocked:
  "rename_chain ''a.x'' ''b.y'' =
     [(Global, Ix), (Database (lit ''a''), Ix), (Collection (lit ''a.x''), X), (Collection (lit ''b.y''), X)] \<and>
   (case acquire_chain (Statement 1) (rename_chain ''a.x'' ''b.y'') [] (new_manager, op0) of
      (st, r) \<Rightarrow> r = Some True \<and>
        snd (acquire_chain (Statement 2)
          [(ReplicationStateTransition, Ix), (Global, Ix), (Database (lit ''b''), X)] [] st) = Some True)"
  by code_simp

lemma poll_waits:
  assumes "\<not> ready (fst st) w"
  shows "snd (acquire_poll w False elapsed st) = Waits"
    "head_of (fst (fst (acquire_poll w False elapsed st))) res = head_of (fst st) res"
  using assms by (auto simp: acquire_poll_def Let_def split_beta)

text \<open>Each of two renames has taken its source and asks for the other's.\<close>

definition renames_meet :: "((lock_manager \<times> op_state) \<times> bool option) \<times> (lock_manager \<times> op_state) \<times> waiter option \<times> waiter option" where
  "renames_meet =
     (let (st1, r1) = acquire_chain (Statement 1) (take 3 (rename_chain ''a.x'' ''a.y'')) [] (new_manager, op0);
          (st2, r2) = acquire_chain (Statement 2) (take 3 (rename_chain ''a.y'' ''a.x'')) [] st1;
          (st3, w1) = acquire_start (Statement 1) (fst (rename_chain ''a.x'' ''a.y'' ! 3)) X st2;
          (st4, w2) = acquire_start (Statement 2) (fst (rename_chain ''a.y'' ''a.x'' ! 3)) X st3
      in ((st2, if r1 = Some True then r2 else r1), st4, w1, w2))"

text \<open>
  C39: two renames that name the same two collections in opposite
  order, each having taken its source, wait for each other: neither request is granted at
  any turn, and a turn leaves the locks as they are, so only a deadline or a kill ends it.
\<close>

theorem opposite_renames_deadlock:
  "\<exists>st w1 w2. snd (fst renames_meet) = Some True \<and> snd renames_meet = (st, Some w1, Some w2) \<and>
     w_owner w1 = Statement 1 \<and> w_owner w2 = Statement 2 \<and>
     (\<forall>elapsed res.
        snd (acquire_poll w1 False elapsed st) = Waits \<and> snd (acquire_poll w2 False elapsed st) = Waits \<and>
        head_of (fst (fst (acquire_poll w1 False elapsed st))) res = head_of (fst st) res \<and>
        head_of (fst (fst (acquire_poll w2 False elapsed st))) res = head_of (fst st) res)"
proof -
  have run: "case renames_meet of
      ((_, r), st, Some w1, Some w2) \<Rightarrow> r = Some True \<and> w_owner w1 = Statement 1 \<and> w_owner w2 = Statement 2 \<and>
        \<not> ready (fst st) w1 \<and> \<not> ready (fst st) w2
    | _ \<Rightarrow> False"
    by code_simp
  obtain st2 r st o1 o2 where m: "renames_meet = ((st2, r), st, o1, o2)" by (metis prod.exhaust)
  obtain w1 w2 where "o1 = Some w1" "o2 = Some w2" using run by (cases o1; cases o2) (simp_all add: m)
  then show ?thesis using run by (auto simp: m poll_waits)
qed

end
