(* ===== verification/Wait_Graph.thy ===== *)
theory Wait_Graph
  imports Prelude
begin

text \<open>
  \<open>secantus-pg/src/lock_manager.rs\<close>: the wait-for graph every lock wait of the PostgreSQL
  server registers in, and the search for a cycle. A mutex guards the list of waits, so
  each operation is one step. Sessions are their process numbers.
\<close>

section \<open>Definitions\<close>

datatype wait_kind = Relation | TransactionId | Advisory

fun wait_event :: "wait_kind \<Rightarrow> rstr" where
  "wait_event Relation = lit ''relation''"
| "wait_event TransactionId = lit ''transactionid''"
| "wait_event Advisory = lit ''advisory''"

record wait =
  wpid :: int
  wkind :: wait_kind
  wblockers :: "int list"

text \<open>The closure \<open>blockers\<close> of the search.\<close>

definition edges_of :: "wait list \<Rightarrow> int \<Rightarrow> int list" where
  "edges_of waits p = concat (map wblockers (filter (\<lambda>w. wpid w = p) waits))"

lemma edges_of_none: "p \<notin> wpid ` set waits \<Longrightarrow> edges_of waits p = []"
  by (induction waits) (auto simp: edges_of_def)

text \<open>
  The loop of \<open>deadlocked\<close>: the stack's last element is popped. It ends: a session is
  followed once, and only those that wait add to the stack.
\<close>

function search :: "wait list \<Rightarrow> int \<Rightarrow> int list \<Rightarrow> int list \<Rightarrow> bool" where
  "search waits pid seen stack =
     (if stack = [] then False
      else
        (let p = last stack; rest = butlast stack
         in if p = pid then True
            else if p \<in> set seen then search waits pid seen rest
            else search waits pid (seen @ [p]) (rest @ edges_of waits p)))"
  by pat_completeness auto

termination
proof (relation "measures [\<lambda>(waits, pid, seen, stack). card (wpid ` set waits - set seen), \<lambda>(waits, pid, seen, stack). length stack]", goal_cases)
  case (3 waits pid seen stack p rest)
  show ?case
  proof (cases "p \<in> wpid ` set waits")
    case True
    then have "card (wpid ` set waits - set (seen @ [p])) < card (wpid ` set waits - set seen)"
      using 3 by (intro psubset_card_mono) auto
    then show ?thesis by simp
  next
    case False
    have "card (wpid ` set waits - set (seen @ [p])) \<le> card (wpid ` set waits - set seen)"
      by (intro card_mono) auto
    then show ?thesis using 3 False by (auto simp: edges_of_none)
  qed
qed auto

declare search.simps [simp del]

definition deadlocked :: "wait list \<Rightarrow> int \<Rightarrow> bool" where
  "deadlocked waits pid = search waits pid [pid] (edges_of waits pid)"

text \<open>\<open>WaitGuard::record\<close>: the session's edges, sorted and without repeats or itself.\<close>

definition record_wait :: "int \<Rightarrow> wait_kind \<Rightarrow> int list \<Rightarrow> wait list \<Rightarrow> wait list" where
  "record_wait pid k blockers waits =
     (let bs = remdups (sort (filter (\<lambda>b. b \<noteq> pid) blockers));
          ws = filter (\<lambda>w. wpid w \<noteq> pid) waits
      in if bs \<noteq> [] then ws @ [\<lparr>wpid = pid, wkind = k, wblockers = bs\<rparr>] else ws)"

definition set_wait :: "int \<Rightarrow> wait_kind \<Rightarrow> int list \<Rightarrow> wait list \<Rightarrow> wait list" where
  "set_wait pid k blockers waits = record_wait pid k blockers waits"

text \<open>\<open>set_with\<close>: the holders are read while the graph is locked.\<close>

definition set_with :: "int \<Rightarrow> wait_kind \<Rightarrow> (unit \<Rightarrow> int list) \<Rightarrow> wait list \<Rightarrow> wait list \<times> int list" where
  "set_with pid k holders waits = (let bs = holders () in (record_wait pid k bs waits, bs))"

definition drop_wait :: "int \<Rightarrow> wait list \<Rightarrow> wait list" where
  "drop_wait pid waits = filter (\<lambda>w. wpid w \<noteq> pid) waits"

definition released :: "int \<Rightarrow> wait_kind \<Rightarrow> wait list \<Rightarrow> wait list" where
  "released pid k waits =
     filter (\<lambda>w. wblockers w \<noteq> [])
       (map (\<lambda>w. if wkind w = k then w\<lparr>wblockers := filter (\<lambda>b. b \<noteq> pid) (wblockers w)\<rparr> else w) waits)"

definition blockers_of :: "wait list \<Rightarrow> int \<Rightarrow> int list" where
  "blockers_of waits pid = remdups (sort (edges_of waits pid))"

definition kind_of_wait :: "wait list \<Rightarrow> int \<Rightarrow> wait_kind option" where
  "kind_of_wait waits pid = map_option wkind (find (\<lambda>w. wpid w = pid) waits)"

definition all_waits :: "wait list \<Rightarrow> (int \<times> wait_kind \<times> int list) list" where
  "all_waits waits = map (\<lambda>w. (wpid w, wkind w, wblockers w)) waits"

section \<open>The search finds exactly the cycles\<close>

definition edges :: "wait list \<Rightarrow> (int \<times> int) set" where
  "edges waits = {(p, b). b \<in> set (edges_of waits p)}"

lemma edges_iff: "(p, b) \<in> edges waits \<longleftrightarrow> (\<exists>w\<in>set waits. wpid w = p \<and> b \<in> set (wblockers w))"
  by (auto simp: edges_def edges_of_def)

text \<open>
  What the loop keeps: everything followed or stacked is reachable from the session, and
  from what has been followed every edge leads to something followed or stacked.
\<close>

definition search_inv :: "wait list \<Rightarrow> int \<Rightarrow> int list \<Rightarrow> int list \<Rightarrow> bool" where
  "search_inv waits pid seen stack \<longleftrightarrow>
     pid \<in> set seen \<and> (\<forall>p\<in>set stack. (pid, p) \<in> (edges waits)\<^sup>+) \<and>
     (\<forall>p\<in>set seen. p = pid \<or> (pid, p) \<in> (edges waits)\<^sup>+) \<and>
     (\<forall>p\<in>set seen. \<forall>b. (p, b) \<in> edges waits \<longrightarrow> b \<in> set stack \<or> b \<in> set seen - {pid})"

lemma search_inv_start: "search_inv waits pid [pid] (edges_of waits pid)"
  by (auto simp: search_inv_def edges_def)

lemma set_last: "xs \<noteq> [] \<Longrightarrow> set xs = insert (last xs) (set (butlast xs))"
  by (cases xs rule: rev_cases) auto

lemma search_inv_skip:
  assumes "search_inv waits pid seen stack" "stack \<noteq> []" "last stack \<in> set seen" "last stack \<noteq> pid"
  shows "search_inv waits pid seen (butlast stack)"
proof -
  have "set stack = insert (last stack) (set (butlast stack))"
    using assms(2) by (rule set_last)
  then show ?thesis using assms unfolding search_inv_def by auto
qed

lemma search_inv_follow:
  assumes "search_inv waits pid seen stack" "stack \<noteq> []" "last stack \<noteq> pid"
  shows "search_inv waits pid (seen @ [last stack]) (butlast stack @ edges_of waits (last stack))"
proof -
  have s: "set stack = insert (last stack) (set (butlast stack))"
    using assms(2) by (rule set_last)
  have "(pid, last stack) \<in> (edges waits)\<^sup>+" using assms(1) s by (simp add: search_inv_def)
  moreover from this have "(pid, b) \<in> (edges waits)\<^sup>+" if "b \<in> set (edges_of waits (last stack))" for b
    by (rule trancl_into_trancl) (use that in \<open>simp add: edges_def\<close>)
  ultimately show ?thesis
    using assms s unfolding search_inv_def by (auto simp: edges_def)
qed

lemma search_correct:
  "search_inv waits pid seen stack \<Longrightarrow> search waits pid seen stack \<longleftrightarrow> (pid, pid) \<in> (edges waits)\<^sup>+"
proof (induction waits pid seen stack rule: search.induct)
  case (1 waits pid seen stack)
  show ?case
  proof (cases "stack = []")
    case True
    have closed: "b \<in> set seen - {pid}" if "p \<in> set seen" "(p, b) \<in> edges waits" for p b
      using 1(3) that True by (auto simp: search_inv_def)
    have "b \<in> set seen - {pid}" if "(pid, b) \<in> (edges waits)\<^sup>+" for b
      using that by induction (use 1(3) closed in \<open>auto simp: search_inv_def\<close>)
    then show ?thesis using True by (subst search.simps) auto
  next
    case False
    consider (found) "last stack = pid" | (skip) "last stack \<noteq> pid" "last stack \<in> set seen"
      | (follow) "last stack \<noteq> pid" "last stack \<notin> set seen" by blast
    then show ?thesis
    proof cases
      case found
      then show ?thesis using False 1(3) last_in_set [OF False] by (subst search.simps) (auto simp: search_inv_def Let_def)
    next
      case skip
      then show ?thesis using 1(1) [OF False refl refl] search_inv_skip [OF 1(3) False] False by (subst search.simps) (simp add: Let_def)
    next
      case follow
      then show ?thesis using 1(2) [OF False refl refl] search_inv_follow [OF 1(3) False] False by (subst search.simps) (simp add: Let_def)
    qed
  qed
qed


section \<open>The graph's operations\<close>

text \<open>
  One wait per session, never on itself and never on nobody.
\<close>

definition graph_ok :: "wait list \<Rightarrow> bool" where
  "graph_ok waits \<longleftrightarrow>
     distinct (map wpid waits) \<and>
     (\<forall>w\<in>set waits. wblockers w \<noteq> [] \<and> distinct (wblockers w) \<and> wpid w \<notin> set (wblockers w))"

lemma sort_Nil_iff [simp]: "sort xs = [] \<longleftrightarrow> xs = []"
  by (metis set_empty set_sort)

lemma edges_of_other: "edges_of (filter (\<lambda>w. wpid w \<noteq> pid) waits) p = (if p = pid then [] else edges_of waits p)"
  by (induction waits) (auto simp: edges_of_def)

lemma edges_of_append: "edges_of (xs @ ys) p = edges_of xs p @ edges_of ys p"
  by (simp add: edges_of_def)

lemma edges_record:
  "edges (record_wait pid k bs waits) =
     {(p, b) \<in> edges waits. p \<noteq> pid} \<union> {(pid, b) |b. b \<in> set bs \<and> b \<noteq> pid}"
proof -
  have "set (edges_of (record_wait pid k bs waits) p) =
      (if p = pid then {b \<in> set bs. b \<noteq> pid} else set (edges_of waits p))" for p
    by (auto simp: record_wait_def Let_def edges_of_other edges_of_append filter_empty_conv)
      (auto simp: edges_of_def)
  then show ?thesis by (auto simp: edges_def split: if_splits)
qed

lemma edges_drop: "edges (drop_wait pid waits) = {(p, b) \<in> edges waits. p \<noteq> pid}"
  by (auto simp: edges_iff drop_wait_def)

lemma edges_released:
  "(p, b) \<in> edges (released pid k waits) \<longleftrightarrow>
     (\<exists>w\<in>set waits. wpid w = p \<and> b \<in> set (wblockers w) \<and> (wkind w = k \<longrightarrow> b \<noteq> pid))"
proof -
  let ?f = "\<lambda>w. if wkind w = k then w\<lparr>wblockers := filter (\<lambda>b. b \<noteq> pid) (wblockers w)\<rparr> else w"
  have "(p, b) \<in> edges (released pid k waits) \<longleftrightarrow>
      (\<exists>w\<in>set waits. wblockers (?f w) \<noteq> [] \<and> wpid (?f w) = p \<and> b \<in> set (wblockers (?f w)))"
    by (simp only: edges_iff released_def set_filter set_map) blast
  also have "\<dots> \<longleftrightarrow> (\<exists>w\<in>set waits. wpid w = p \<and> b \<in> set (wblockers w) \<and> (wkind w = k \<longrightarrow> b \<noteq> pid))"
    by (intro bex_cong) (auto simp: filter_empty_conv)
  finally show ?thesis .
qed

lemma graph_ok_record: "graph_ok waits \<Longrightarrow> graph_ok (record_wait pid k bs waits)"
  by (auto simp: graph_ok_def record_wait_def Let_def distinct_map_filter)

lemma graph_ok_drop: "graph_ok waits \<Longrightarrow> graph_ok (drop_wait pid waits)"
  by (auto simp: graph_ok_def drop_wait_def distinct_map_filter)

lemma graph_ok_released: "graph_ok waits \<Longrightarrow> graph_ok (released pid k waits)"
proof -
  assume ok: "graph_ok waits"
  have "map wpid (map (\<lambda>w. if wkind w = k then w\<lparr>wblockers := filter (\<lambda>b. b \<noteq> pid) (wblockers w)\<rparr> else w) waits) =
      map wpid waits"
    by simp
  then have "distinct (map wpid (released pid k waits))"
    using ok unfolding released_def by (intro distinct_map_filter) (simp only: graph_ok_def)
  then show ?thesis
    using ok by (auto simp: graph_ok_def released_def split: if_splits)
qed

lemma graph_ok_unique:
  "graph_ok waits \<Longrightarrow> w \<in> set waits \<Longrightarrow> v \<in> set waits \<Longrightarrow> wpid v = wpid w \<Longrightarrow> v = w"
  by (auto simp: graph_ok_def distinct_map inj_on_def)

lemma deadlocked_iff: "deadlocked waits pid \<longleftrightarrow> (pid, pid) \<in> (edges waits)\<^sup>+"
  unfolding deadlocked_def by (rule search_correct [OF search_inv_start])

section \<open>Properties\<close>

text \<open>
  C19: the search ends, and answers that a session is deadlocked exactly
  when the session waits, through any number of others and kinds of lock, on itself.
\<close>

theorem deadlock_check_exact: "deadlocked waits pid \<longleftrightarrow> (pid, pid) \<in> (edges waits)\<^sup>+"
  by (rule deadlocked_iff)

text \<open>
  Recording a wait replaces the session's edges by the holders it
  named, itself left out, dropping it removes them, and a release removes the releaser from
  every wait of that kind and from no other; sessions keep one wait each, on somebody else.
\<close>

theorem wait_edges_kept_real:
  assumes "graph_ok waits"
  shows "graph_ok (set_wait pid k bs waits) \<and> graph_ok (drop_wait pid waits) \<and> graph_ok (released pid k waits) \<and>
    edges (set_wait pid k bs waits) = {(p, b) \<in> edges waits. p \<noteq> pid} \<union> {(pid, b) |b. b \<in> set bs \<and> b \<noteq> pid} \<and>
    edges (drop_wait pid waits) = {(p, b) \<in> edges waits. p \<noteq> pid} \<and>
    edges (released pid k waits) = edges waits - {(p, pid) |p. kind_of_wait waits p = Some k}"
proof -
  have "(p, b) \<in> edges (released pid k waits) \<longleftrightarrow> (p, b) \<in> edges waits - {(p, pid) |p. kind_of_wait waits p = Some k}" for p b
  proof (cases "find (\<lambda>w. wpid w = p) waits")
    case None
    then show ?thesis unfolding edges_released by (auto simp: find_None_iff edges_iff)
  next
    case (Some v)
    then have v: "v \<in> set waits" "wpid v = p" by (auto simp: find_Some_iff)
    have one: "(\<exists>w\<in>set waits. wpid w = p \<and> Q w) \<longleftrightarrow> Q v" for Q
    proof
      assume "\<exists>w\<in>set waits. wpid w = p \<and> Q w"
      then obtain w where "w \<in> set waits" "wpid w = p" "Q w" by blast
      then show "Q v" using graph_ok_unique [OF assms v(1), of w] v(2) by metis
    qed (use v in blast)
    show ?thesis
      unfolding edges_released by (auto simp: edges_iff one kind_of_wait_def Some)
  qed
  then have "edges (released pid k waits) = edges waits - {(p, pid) |p. kind_of_wait waits p = Some k}"
    by (intro set_eqI) (simp add: split_paired_all)
  then show ?thesis
    using graph_ok_record [OF assms] graph_ok_drop [OF assms] graph_ok_released [OF assms]
    by (simp add: set_wait_def edges_record edges_drop)
qed

theorem wait_edges_kept_real_witness:
  "edges (released 2 TransactionId (set_wait 1 TransactionId [2, 3] [])) = {(1, 3)}"
proof -
  have ok: "graph_ok []" by (simp add: graph_ok_def)
  have g: "graph_ok (set_wait 1 TransactionId [2, 3] [])"
    and e: "edges (set_wait 1 TransactionId [2, 3] []) = {(p, b) \<in> edges []. p \<noteq> 1} \<union> {(1, b) |b. b \<in> set [2, 3] \<and> b \<noteq> 1}"
    using wait_edges_kept_real [OF ok, of 1 TransactionId "[2, 3]"] by blast+
  have "kind_of_wait (set_wait 1 TransactionId [2, 3] []) p = Some TransactionId \<longleftrightarrow> p = 1" for p
    by (simp add: set_wait_def record_wait_def kind_of_wait_def Let_def)
  then have kind: "{(p, 2) |p. kind_of_wait (set_wait 1 TransactionId [2, 3] []) p = Some TransactionId} = {(1, 2)}"
    by simp
  have "edges [] = {}" by (simp add: edges_def edges_of_def)
  then have "edges (set_wait 1 TransactionId [2, 3] []) = {(1, 2), (1, 3)}" unfolding e by auto
  then show ?thesis
    using wait_edges_kept_real [OF g, of 2 TransactionId "[]", THEN conjunct2, THEN conjunct2, THEN conjunct2,
        THEN conjunct2, THEN conjunct2]
    unfolding kind by simp
qed

end
