(* ===== verification/Table_Locks.thy ===== *)
theory Table_Locks
  imports Wait_Graph Lock_Modes
begin

text \<open>
  \<open>secantus-pg/src/table_locks.rs\<close>: PostgreSQL's table locks, and the waits they enter in
  the wait-for graph. A mutex guards the holds; a session that waits turns its loop, and
  each turn is one step. A release is two: the holds go, then the waits on the session. A
  session that gives up, on a deadlock or because it is cancelled, lets go of the mutex first;
  then its entry among the waiting goes, and only when its guard is dropped do its edges.

  \<open>session_at\<close> is where each session's thread stands; a waiting one keeps what it asked for and
  how many turns it has waited. The graph is shared with the waits for rows and advisory
  locks: sessions that wait there record, replace and drop edges of those kinds, of which
  nothing is assumed here.
\<close>

section \<open>Definitions\<close>

record hold =
  htable :: rstr
  hpid :: int
  hmode :: int

definition CONFLICTS :: "int list list" where
  "CONFLICTS =
     [[], [8], [7, 8], [5, 6, 7, 8], [4, 5, 6, 7, 8], [3, 4, 6, 7, 8], [3, 4, 5, 6, 7, 8],
      [2, 3, 4, 5, 6, 7, 8], [1, 2, 3, 4, 5, 6, 7, 8]]"

definition modes_conflict :: "int \<Rightarrow> int \<Rightarrow> bool" where
  "modes_conflict a b = (0 \<le> a \<and> nat a < length CONFLICTS \<and> b \<in> set (CONFLICTS ! nat a))"

definition conflicts :: "hold list \<Rightarrow> rstr \<Rightarrow> int \<Rightarrow> int \<Rightarrow> bool" where
  "conflicts hs table pid mode =
     list_ex (\<lambda>h. htable h = table \<and> hpid h \<noteq> pid \<and> modes_conflict mode (hmode h)) hs"

definition blockers :: "hold list \<Rightarrow> rstr \<Rightarrow> int \<Rightarrow> int \<Rightarrow> int list" where
  "blockers hs table pid mode =
     remdups (sort (map hpid (filter (\<lambda>h. htable h = table \<and> hpid h \<noteq> pid \<and> modes_conflict mode (hmode h)) hs)))"

datatype session =
    Running
  | WaitsFor rstr int bool nat
  | GivesUp rstr int
  | Unwinds rstr int
  | Releasing
  | WaitsElse

record table_locks =
  table_holds :: "hold list"
  table_waiting :: "(int \<times> rstr \<times> int) list"
  table_count :: nat
  wait_graph :: "wait list"
  session_at :: "int \<Rightarrow> session"

definition new_tables :: table_locks where
  "new_tables = \<lparr>table_holds = [], table_waiting = [], table_count = 0, wait_graph = [], session_at = (\<lambda>_. Running)\<rparr>"

definition mode_text :: "int \<Rightarrow> rstr" where
  "mode_text m =
     (if m = 1 then lit ''AccessShareLock'' else if m = 2 then lit ''RowShareLock''
      else if m = 3 then lit ''RowExclusiveLock'' else if m = 4 then lit ''ShareUpdateExclusiveLock''
      else if m = 5 then lit ''ShareLock'' else if m = 6 then lit ''ShareRowExclusiveLock''
      else if m = 7 then lit ''ExclusiveLock'' else lit ''AccessExclusiveLock'')"

definition any_lock :: "table_locks \<Rightarrow> bool" where
  "any_lock s \<longleftrightarrow> 0 < table_count s"

text \<open>The end of \<open>acquire\<close>: the hold, unless the session has it already.\<close>

definition take_hold :: "rstr \<Rightarrow> int \<Rightarrow> int \<Rightarrow> bool \<Rightarrow> table_locks \<Rightarrow> table_locks" where
  "take_hold table pid mode take_it s =
     (if take_it \<and> \<not> list_ex (\<lambda>h. htable h = table \<and> hpid h = pid \<and> hmode h = mode) (table_holds s)
      then s\<lparr>table_holds := table_holds s @ [\<lparr>htable = table, hpid = pid, hmode = mode\<rparr>],
             table_count := length (table_holds s) + 1\<rparr>
      else s)"

datatype outcome = Taken | Refused | Waits | Deadlock

text \<open>\<open>acquire\<close> up to where it returns or starts to wait.\<close>

definition acquire_table :: "rstr \<Rightarrow> int \<Rightarrow> int \<Rightarrow> bool \<Rightarrow> bool \<Rightarrow> table_locks \<Rightarrow> table_locks \<times> outcome" where
  "acquire_table table pid mode take_it nowait s =
     (if conflicts (table_holds s) table pid mode
      then if nowait then (s, Refused)
           else (s\<lparr>table_waiting := table_waiting s @ [(pid, table, mode)],
                   session_at := (session_at s)(pid := WaitsFor table mode take_it 0)\<rparr>, Waits)
      else (take_hold table pid mode take_it s, Taken))"

text \<open>The closure \<open>unwait\<close>, and the drop of the guard.\<close>

definition unwait :: "int \<Rightarrow> table_locks \<Rightarrow> table_locks" where
  "unwait pid s = s\<lparr>table_waiting := filter (\<lambda>(w, _, _). w \<noteq> pid) (table_waiting s)\<rparr>"

definition drop_guard :: "int \<Rightarrow> table_locks \<Rightarrow> table_locks" where
  "drop_guard pid s = s\<lparr>wait_graph := drop_wait pid (wait_graph s), session_at := (session_at s)(pid := Running)\<rparr>"

text \<open>
  One turn of the waiting loop; at the twentieth it looks for a deadlock. A turn that finds no
  conflict returns with the mutex of the holds still locked and takes the hold under it. One that
  finds a deadlock leaves the mutex with its entry and its edges still there.
\<close>

definition wait_turn :: "rstr \<Rightarrow> int \<Rightarrow> int \<Rightarrow> bool \<Rightarrow> nat \<Rightarrow> table_locks \<Rightarrow> table_locks \<times> outcome" where
  "wait_turn table pid mode take_it polls s =
     (if conflicts (table_holds s) table pid mode
      then (let s1 = s\<lparr>wait_graph := set_wait pid Relation (blockers (table_holds s) table pid mode) (wait_graph s)\<rparr>
            in if polls = 20 \<and> deadlocked (wait_graph s1) pid
               then (s1\<lparr>session_at := (session_at s1)(pid := GivesUp table mode)\<rparr>, Deadlock)
               else (s1\<lparr>session_at := (session_at s1)(pid := WaitsFor table mode take_it (polls + 1))\<rparr>, Waits))
      else (take_hold table pid mode take_it (drop_guard pid (unwait pid s)), Taken))"

text \<open>A session told of a deadlock or cancelled leaves in two steps.\<close>

definition leave_queue :: "rstr \<Rightarrow> int \<Rightarrow> int \<Rightarrow> table_locks \<Rightarrow> table_locks" where
  "leave_queue table mode pid s = (unwait pid s)\<lparr>session_at := (session_at s)(pid := Unwinds table mode)\<rparr>"

text \<open>\<open>release\<close>: the holds, and then (if there were any) the waits on the session.\<close>

definition release_tables :: "int \<Rightarrow> table_locks \<Rightarrow> table_locks" where
  "release_tables pid s =
     (let hs = filter (\<lambda>h. hpid h \<noteq> pid) (table_holds s)
      in if length hs \<noteq> length (table_holds s)
         then s\<lparr>table_holds := hs, table_count := length hs, session_at := (session_at s)(pid := Releasing)\<rparr>
         else s)"

definition release_waits :: "int \<Rightarrow> table_locks \<Rightarrow> table_locks" where
  "release_waits pid s =
     s\<lparr>wait_graph := released pid Relation (wait_graph s), session_at := (session_at s)(pid := Running)\<rparr>"

text \<open>Waits of the other kinds, as far as the graph shows them.\<close>

definition record_else :: "int \<Rightarrow> wait_kind \<Rightarrow> int list \<Rightarrow> table_locks \<Rightarrow> table_locks" where
  "record_else pid k bs s =
     s\<lparr>wait_graph := set_wait pid k bs (wait_graph s), session_at := (session_at s)(pid := WaitsElse)\<rparr>"

inductive table_step :: "table_locks \<Rightarrow> table_locks \<Rightarrow> bool" where
  acquire: "session_at s pid = Running \<Longrightarrow> table_step s (fst (acquire_table table pid mode take_it nowait s))"
| turn: "session_at s pid = WaitsFor table mode take_it polls \<Longrightarrow>
    table_step s (fst (wait_turn table pid mode take_it polls s))"
| cancel: "session_at s pid = WaitsFor table mode take_it polls \<Longrightarrow>
    table_step s (s\<lparr>session_at := (session_at s)(pid := GivesUp table mode)\<rparr>)"
| leave: "session_at s pid = GivesUp table mode \<Longrightarrow> table_step s (leave_queue table mode pid s)"
| unguard: "session_at s pid = Unwinds table mode \<Longrightarrow> table_step s (drop_guard pid s)"
| release: "session_at s pid = Running \<Longrightarrow> table_step s (release_tables pid s)"
| unwait: "session_at s pid = Releasing \<Longrightarrow> table_step s (release_waits pid s)"
| else_wait: "session_at s pid \<in> {Running, WaitsElse} \<Longrightarrow> k \<noteq> Relation \<Longrightarrow> table_step s (record_else pid k bs s)"
| else_end: "session_at s pid = WaitsElse \<Longrightarrow> table_step s (drop_guard pid s)"
| else_released: "k \<noteq> Relation \<Longrightarrow> table_step s (s\<lparr>wait_graph := released pid k (wait_graph s)\<rparr>)"

inductive tables_reachable :: "table_locks \<Rightarrow> bool" where
  start: "tables_reachable new_tables"
| step: "tables_reachable s \<Longrightarrow> table_step s s' \<Longrightarrow> tables_reachable s'"

section \<open>Invariants\<close>

lemma modes_conflict_sym: "modes_conflict a b \<Longrightarrow> modes_conflict b a"
proof -
  assume c: "modes_conflict a b"
  then have "nat a < 9" "0 \<le> a" by (simp_all add: modes_conflict_def CONFLICTS_def)
  then have "a \<in> {0, 1, 2, 3, 4, 5, 6, 7, 8}" by (simp add: atLeastLessThan_def) linarith
  then show ?thesis using c by (auto simp: modes_conflict_def CONFLICTS_def)
qed

interpretation table_modes: conflict_table modes_conflict
  by unfold_locales (rule modes_conflict_sym)

text \<open>The holds on one table, as owner and mode.\<close>

definition holds_on :: "rstr \<Rightarrow> hold list \<Rightarrow> (int \<times> int) list" where
  "holds_on table hs = map (\<lambda>h. (hpid h, hmode h)) (filter (\<lambda>h. htable h = table) hs)"

lemma conflicts_clashes: "conflicts hs table pid mode \<longleftrightarrow> clashes modes_conflict (holds_on table hs) pid mode"
  by (auto simp: conflicts_def clashes_def holds_on_def list_ex_iff)

lemma set_blockers: "set (blockers hs table pid mode) =
    {p. p \<noteq> pid \<and> (\<exists>m. (p, m) \<in> set (holds_on table hs) \<and> modes_conflict mode m)}"
  by (auto simp: blockers_def holds_on_def image_iff)

definition holds_ok :: "table_locks \<Rightarrow> bool" where
  "holds_ok s \<longleftrightarrow>
     (\<forall>table. compatible modes_conflict (holds_on table (table_holds s))) \<and>
     table_count s = length (table_holds s) \<and> graph_ok (wait_graph s)"

text \<open>What a session has asked for and not been given: it waits, or it has given up and is leaving.\<close>

fun asked_in :: "session \<Rightarrow> (rstr \<times> int) option" where
  "asked_in (WaitsFor table mode _ _) = Some (table, mode)"
| "asked_in (GivesUp table mode) = Some (table, mode)"
| "asked_in (Unwinds table mode) = Some (table, mode)"
| "asked_in _ = None"

definition asked :: "table_locks \<Rightarrow> int \<Rightarrow> (rstr \<times> int) option" where
  "asked s p = asked_in (session_at s p)"

text \<open>The edges of table waits and those of the other kinds.\<close>

definition table_edges :: "wait list \<Rightarrow> (int \<times> int) set" where
  "table_edges g = edges (filter (\<lambda>w. wkind w = Relation) g)"

definition else_edges :: "wait list \<Rightarrow> (int \<times> int) set" where
  "else_edges g = edges (filter (\<lambda>w. wkind w \<noteq> Relation) g)"

text \<open>
  Every edge of a table wait is real: its session has asked for a table, and the session it
  points to holds that table in a conflicting mode, or is between the two halves of its release.
\<close>

definition edge_real :: "table_locks \<Rightarrow> int \<Rightarrow> int \<Rightarrow> bool" where
  "edge_real s p b \<longleftrightarrow>
     (\<exists>table mode. asked s p = Some (table, mode) \<and>
       (session_at s b = Releasing \<or> b \<in> set (blockers (table_holds s) table p mode)))"

definition edges_ok :: "table_locks \<Rightarrow> bool" where
  "edges_ok s \<longleftrightarrow> (\<forall>p b. (p, b) \<in> table_edges (wait_graph s) \<longrightarrow> edge_real s p b) \<and>
     (\<forall>p b. (p, b) \<in> else_edges (wait_graph s) \<longrightarrow> session_at s p = WaitsElse)"

lemma holds_on_append: "holds_on table (hs @ hs') = holds_on table hs @ holds_on table hs'"
  by (simp add: holds_on_def)

lemma holds_on_filter: "set (holds_on table (filter P hs)) \<subseteq> set (holds_on table hs)"
  by (auto simp: holds_on_def)

lemma holds_ok_take:
  assumes "holds_ok s" "\<not> conflicts (table_holds s) table pid mode"
  shows "holds_ok (take_hold table pid mode take_it s)"
proof -
  have "compatible modes_conflict (holds_on t (table_holds s @ [\<lparr>htable = table, hpid = pid, hmode = mode\<rparr>]))" for t
  proof (cases "t = table")
    case True
    then show ?thesis
      using assms by (simp add: holds_ok_def holds_on_append conflicts_clashes)
        (simp add: holds_on_def table_modes.compatible_snoc)
  next
    case False
    then show ?thesis using assms(1) by (simp add: holds_ok_def holds_on_append) (simp add: holds_on_def)
  qed
  then show ?thesis using assms(1) by (simp add: take_hold_def holds_ok_def)
qed


lemma in_blockers:
  "b \<in> set (blockers hs table p mode) \<longleftrightarrow>
     b \<noteq> p \<and> (\<exists>h\<in>set hs. htable h = table \<and> hpid h = b \<and> modes_conflict mode (hmode h))"
  by (auto simp: blockers_def)

lemma holds_ok_subset:
  assumes "holds_ok s" "set hs \<subseteq> set (table_holds s)" "graph_ok g"
  shows "holds_ok (s\<lparr>table_holds := hs, table_count := length hs, session_at := f, wait_graph := g\<rparr>)"
proof -
  have "set (holds_on table hs) \<subseteq> set (holds_on table (table_holds s))" for table
    using assms(2) by (auto simp: holds_on_def)
  then have "compatible modes_conflict (holds_on table hs)" for table
    using assms(1) compatible_subset [of modes_conflict "holds_on table (table_holds s)"] by (simp add: holds_ok_def)
  then show ?thesis using assms(3) by (simp add: holds_ok_def)
qed

lemma holds_ok_graph: "holds_ok s \<Longrightarrow> graph_ok g \<Longrightarrow> holds_ok (s\<lparr>wait_graph := g, session_at := f\<rparr>)"
  by (simp add: holds_ok_def)

lemma holds_ok_unwait [simp]: "holds_ok (unwait pid s) = holds_ok s" "holds_ok (s\<lparr>session_at := f\<rparr>) = holds_ok s"
  by (simp_all add: holds_ok_def unwait_def)

lemma holds_ok_drop: "holds_ok s \<Longrightarrow> holds_ok (drop_guard pid s)"
  by (simp add: drop_guard_def holds_ok_graph) (simp add: holds_ok_def graph_ok_drop)

lemma same_holds [simp]:
  "table_holds (drop_guard pid s) = table_holds s" "table_holds (unwait pid s) = table_holds s"
  by (simp_all add: drop_guard_def unwait_def)

lemma holds_ok_step: "table_step s s' \<Longrightarrow> holds_ok s \<Longrightarrow> holds_ok s'"
proof (induction rule: table_step.induct)
  case (acquire s pid table mode take_it nowait)
  then show ?case
    by (auto simp: acquire_table_def holds_ok_take) (auto simp: holds_ok_def)
next
  case (turn s pid table mode take_it polls)
  have "holds_ok (take_hold table pid mode take_it (drop_guard pid (unwait pid s)))" if "\<not> conflicts (table_holds s) table pid mode"
    using holds_ok_take [OF holds_ok_drop] that turn(2) by simp
  moreover have "holds_ok (s\<lparr>wait_graph := set_wait pid Relation bs (wait_graph s)\<rparr>)" for bs
    using turn(2) by (simp add: holds_ok_def set_wait_def graph_ok_record)
  ultimately show ?case by (simp add: wait_turn_def Let_def)
next
  case (release s pid)
  then show ?case
    using holds_ok_subset [of s "filter (\<lambda>h. hpid h \<noteq> pid) (table_holds s)" "wait_graph s"]
    by (auto simp: release_tables_def Let_def holds_ok_def)
next
  case (unwait s pid)
  then show ?case by (simp add: release_waits_def holds_ok_def graph_ok_released)
next
  case (else_wait s pid k bs)
  then show ?case by (simp add: record_else_def holds_ok_def set_wait_def graph_ok_record)
next
  case (else_released k s pid)
  then show ?case by (simp add: holds_ok_def graph_ok_released)
qed (simp_all add: holds_ok_drop leave_queue_def)

subsection \<open>Edges\<close>

lemma table_edges_iff: "(p, b) \<in> table_edges g \<longleftrightarrow> (\<exists>w\<in>set g. wkind w = Relation \<and> wpid w = p \<and> b \<in> set (wblockers w))"
  by (auto simp: table_edges_def edges_iff)

lemma else_edges_iff: "(p, b) \<in> else_edges g \<longleftrightarrow> (\<exists>w\<in>set g. wkind w \<noteq> Relation \<and> wpid w = p \<and> b \<in> set (wblockers w))"
  by (auto simp: else_edges_def edges_iff)

lemma edges_split: "edges g = table_edges g \<union> else_edges g"
proof (intro set_eqI, clarify)
  show "(p, b) \<in> edges g \<longleftrightarrow> (p, b) \<in> table_edges g \<union> else_edges g" for p b
    unfolding Un_iff edges_iff table_edges_iff else_edges_iff by blast
qed

lemma set_record:
  "set (record_wait pid k bs g) = {w \<in> set g. wpid w \<noteq> pid} \<union>
     (if remdups (sort (filter (\<lambda>b. b \<noteq> pid) bs)) = [] then {}
      else {\<lparr>wpid = pid, wkind = k, wblockers = remdups (sort (filter (\<lambda>b. b \<noteq> pid) bs))\<rparr>})"
  by (auto simp: record_wait_def Let_def)

lemma kind_edges_set:
  "(p, b) \<in> table_edges (set_wait pid k bs g) \<longleftrightarrow>
     (if p = pid then k = Relation \<and> b \<in> set bs \<and> b \<noteq> pid else (p, b) \<in> table_edges g)"
  "(p, b) \<in> else_edges (set_wait pid k bs g) \<longleftrightarrow>
     (if p = pid then k \<noteq> Relation \<and> b \<in> set bs \<and> b \<noteq> pid else (p, b) \<in> else_edges g)"
  unfolding table_edges_iff else_edges_iff set_wait_def set_record
  by (auto simp: filter_empty_conv)

lemma kind_edges_drop:
  "(p, b) \<in> table_edges (drop_wait pid g) \<longleftrightarrow> p \<noteq> pid \<and> (p, b) \<in> table_edges g"
  "(p, b) \<in> else_edges (drop_wait pid g) \<longleftrightarrow> p \<noteq> pid \<and> (p, b) \<in> else_edges g"
  by (auto simp: table_edges_iff else_edges_iff drop_wait_def)

lemma released_waits:
  "(\<exists>w\<in>set (released pid k g). P (wkind w) \<and> wpid w = p \<and> b \<in> set (wblockers w)) \<longleftrightarrow>
     (\<exists>w\<in>set g. P (wkind w) \<and> wpid w = p \<and> b \<in> set (wblockers w) \<and> (wkind w = k \<longrightarrow> b \<noteq> pid))"
proof -
  let ?f = "\<lambda>w. if wkind w = k then w\<lparr>wblockers := filter (\<lambda>b. b \<noteq> pid) (wblockers w)\<rparr> else w"
  have "(\<exists>w\<in>set (released pid k g). P (wkind w) \<and> wpid w = p \<and> b \<in> set (wblockers w)) \<longleftrightarrow>
      (\<exists>w\<in>set g. wblockers (?f w) \<noteq> [] \<and> P (wkind (?f w)) \<and> wpid (?f w) = p \<and> b \<in> set (wblockers (?f w)))"
    by (simp only: released_def set_filter set_map) blast
  also have "\<dots> \<longleftrightarrow> (\<exists>w\<in>set g. P (wkind w) \<and> wpid w = p \<and> b \<in> set (wblockers w) \<and> (wkind w = k \<longrightarrow> b \<noteq> pid))"
    by (intro bex_cong) (auto simp: filter_empty_conv)
  finally show ?thesis .
qed

lemma kind_edges_released:
  "(p, b) \<in> table_edges (released pid k g) \<longleftrightarrow> (p, b) \<in> table_edges g \<and> (k = Relation \<longrightarrow> b \<noteq> pid)"
  "(p, b) \<in> else_edges (released pid k g) \<Longrightarrow> (p, b) \<in> else_edges g"
  unfolding table_edges_iff else_edges_iff
  using released_waits [of pid k g "\<lambda>k. k = Relation" p b] released_waits [of pid k g "\<lambda>k. k \<noteq> Relation" p b] by auto

lemma edge_real_holds:
  assumes "edge_real s p b" "asked s' p = asked s p"
    and "session_at s b = Releasing \<Longrightarrow> session_at s' b = Releasing"
    and "\<And>h. h \<in> set (table_holds s) \<Longrightarrow> hpid h = b \<Longrightarrow> h \<in> set (table_holds s')"
  shows "edge_real s' p b"
  using assms unfolding edge_real_def in_blockers by metis

lemma edges_okD:
  "edges_ok s \<Longrightarrow> (p, b) \<in> table_edges (wait_graph s) \<Longrightarrow> edge_real s p b"
  "edges_ok s \<Longrightarrow> (p, b) \<in> else_edges (wait_graph s) \<Longrightarrow> session_at s p = WaitsElse"
  by (auto simp: edges_ok_def)

lemma edges_okI:
  assumes "\<And>p b. (p, b) \<in> table_edges (wait_graph s) \<Longrightarrow> edge_real s p b"
    and "\<And>p b. (p, b) \<in> else_edges (wait_graph s) \<Longrightarrow> session_at s p = WaitsElse"
  shows "edges_ok s"
  using assms by (simp add: edges_ok_def)

lemma no_table_edges: "edges_ok s \<Longrightarrow> asked s p = None \<Longrightarrow> (p, b) \<notin> table_edges (wait_graph s)"
  by (auto dest: edges_okD simp: edge_real_def)

lemma no_else_edges: "edges_ok s \<Longrightarrow> session_at s p \<noteq> WaitsElse \<Longrightarrow> (p, b) \<notin> else_edges (wait_graph s)"
  by (auto dest: edges_okD)

text \<open>A session that changes its place without changing what it asks for, and not out of a release.\<close>

lemma edges_ok_move:
  assumes ok: "edges_ok s" and a: "asked_in f = asked s pid \<or> (\<forall>b. (pid, b) \<notin> table_edges (wait_graph s))"
    and r: "session_at s pid \<noteq> Releasing" "session_at s pid \<noteq> WaitsElse \<or> (\<forall>b. (pid, b) \<notin> else_edges (wait_graph s))"
    and s': "wait_graph s' = wait_graph s" "session_at s' = (session_at s)(pid := f)"
      "set (table_holds s) \<subseteq> set (table_holds s')"
  shows "edges_ok s'"
proof (rule edges_okI)
  fix p b
  show "edge_real s' p b" if "(p, b) \<in> table_edges (wait_graph s')"
  proof -
    have e: "edge_real s p b" "p = pid \<longrightarrow> asked_in f = asked s pid" using that s'(1) edges_okD(1) [OF ok] a by auto
    show ?thesis by (rule edge_real_holds [OF e(1)]) (use e(2) s' r in \<open>auto simp: asked_def\<close>)
  qed
  show "session_at s' p = WaitsElse" if "(p, b) \<in> else_edges (wait_graph s')"
    using edges_okD(2) [OF ok, of p b] that s' r by auto
qed

lemma edges_ok_take: "edges_ok s \<Longrightarrow> edges_ok (take_hold table pid mode take_it s)"
proof -
  let ?t = "take_hold table pid mode take_it s"
  assume ok: "edges_ok s"
  have same: "wait_graph ?t = wait_graph s" "session_at ?t = session_at s" "set (table_holds s) \<subseteq> set (table_holds ?t)"
    by (auto simp: take_hold_def)
  show "edges_ok ?t"
  proof (rule edges_okI)
    show "edge_real ?t p b" if "(p, b) \<in> table_edges (wait_graph ?t)" for p b
      by (rule edge_real_holds [OF edges_okD(1) [OF ok]]) (use that same in \<open>auto simp: asked_def\<close>)
    show "session_at ?t p = WaitsElse" if "(p, b) \<in> else_edges (wait_graph ?t)" for p b
      using edges_okD(2) [OF ok] that same by auto
  qed
qed

lemma edges_ok_drop:
  assumes "edges_ok s" "session_at s pid \<noteq> Releasing" shows "edges_ok (drop_guard pid s)"
proof (rule edges_okI)
  fix p b
  show "edge_real (drop_guard pid s) p b" if "(p, b) \<in> table_edges (wait_graph (drop_guard pid s))"
  proof -
    have e: "p \<noteq> pid" "edge_real s p b" using that edges_okD(1) [OF assms(1)] by (auto simp: drop_guard_def kind_edges_drop)
    show ?thesis by (rule edge_real_holds [OF e(2)]) (use e(1) assms(2) in \<open>auto simp: drop_guard_def asked_def\<close>)
  qed
  show "session_at (drop_guard pid s) p = WaitsElse" if "(p, b) \<in> else_edges (wait_graph (drop_guard pid s))"
    using that edges_okD(2) [OF assms(1), of p b] by (auto simp: drop_guard_def kind_edges_drop)
qed

lemma edges_ok_unwait [simp]: "edges_ok (unwait pid s) = edges_ok s" "session_at (unwait pid s) = session_at s"
  by (simp_all add: edges_ok_def edge_real_def asked_def unwait_def)

lemma edges_ok_set:
  assumes ok: "edges_ok s" and w: "session_at s pid = WaitsFor table mode take_it polls"
  shows "edges_ok (s\<lparr>wait_graph := set_wait pid Relation (blockers (table_holds s) table pid mode) (wait_graph s)\<rparr>)"
    (is "edges_ok ?s")
proof (rule edges_okI)
  fix p b
  show "edge_real ?s p b" if "(p, b) \<in> table_edges (wait_graph ?s)"
  proof (cases "p = pid")
    case True
    then show ?thesis using that w by (auto simp: edge_real_def asked_def kind_edges_set)
  next
    case False
    then have "(p, b) \<in> table_edges (wait_graph s)" using that by (simp add: kind_edges_set)
    from edges_okD(1) [OF ok this] show ?thesis by (simp add: edge_real_def asked_def)
  qed
  show "session_at ?s p = WaitsElse" if "(p, b) \<in> else_edges (wait_graph ?s)"
    using that edges_okD(2) [OF ok, of p b] by (auto simp: kind_edges_set split: if_splits)
qed

lemma edges_ok_else:
  assumes ok: "edges_ok s" and r: "session_at s pid \<in> {Running, WaitsElse}" "k \<noteq> Relation"
  shows "edges_ok (record_else pid k bs s)"
proof (rule edges_okI)
  fix p b
  show "edge_real (record_else pid k bs s) p b" if "(p, b) \<in> table_edges (wait_graph (record_else pid k bs s))"
  proof -
    have e: "p \<noteq> pid" "edge_real s p b"
      using that edges_okD(1) [OF ok] r(2) by (auto simp: record_else_def kind_edges_set split: if_splits)
    show ?thesis by (rule edge_real_holds [OF e(2)]) (use e(1) r(1) in \<open>auto simp: record_else_def asked_def\<close>)
  qed
  show "session_at (record_else pid k bs s) p = WaitsElse" if "(p, b) \<in> else_edges (wait_graph (record_else pid k bs s))"
    using that edges_okD(2) [OF ok, of p b] by (auto simp: record_else_def kind_edges_set split: if_splits)
qed

lemma edges_ok_release:
  assumes "edges_ok s" "session_at s pid = Running"
  shows "edges_ok (release_tables pid s)"
proof (cases "length (filter (\<lambda>h. hpid h \<noteq> pid) (table_holds s)) = length (table_holds s)")
  case True
  then show ?thesis using assms(1) by (simp add: release_tables_def)
next
  case False
  then have r: "release_tables pid s = s\<lparr>table_holds := filter (\<lambda>h. hpid h \<noteq> pid) (table_holds s),
    table_count := length (filter (\<lambda>h. hpid h \<noteq> pid) (table_holds s)), session_at := (session_at s)(pid := Releasing)\<rparr>"
    by (simp add: release_tables_def Let_def)
  show ?thesis
  proof (rule edges_okI)
    fix p b
    show "edge_real (release_tables pid s) p b" if "(p, b) \<in> table_edges (wait_graph (release_tables pid s))"
    proof -
      have e: "edge_real s p b" using that edges_okD(1) [OF assms(1)] by (simp add: r)
      then have "p \<noteq> pid" using assms(2) by (auto simp: edge_real_def asked_def)
      with e show ?thesis by (cases "b = pid") (auto simp: r edge_real_def asked_def in_blockers)
    qed
    show "session_at (release_tables pid s) p = WaitsElse" if "(p, b) \<in> else_edges (wait_graph (release_tables pid s))"
      using edges_okD(2) [OF assms(1), of p b] that assms(2) by (auto simp: r)
  qed
qed

lemma edges_ok_unwaited:
  assumes "edges_ok s" "session_at s pid = Releasing"
  shows "edges_ok (release_waits pid s)"
proof (rule edges_okI)
  fix p b
  show "edge_real (release_waits pid s) p b" if "(p, b) \<in> table_edges (wait_graph (release_waits pid s))"
  proof -
    have e: "edge_real s p b" "b \<noteq> pid"
      using that edges_okD(1) [OF assms(1)] by (auto simp: release_waits_def kind_edges_released)
    have "p \<noteq> pid" using e(1) assms(2) by (auto simp: edge_real_def asked_def)
    then show ?thesis using e by - (rule edge_real_holds [OF e(1)], auto simp: release_waits_def asked_def)
  qed
  show "session_at (release_waits pid s) p = WaitsElse" if "(p, b) \<in> else_edges (wait_graph (release_waits pid s))"
    using that edges_okD(2) [OF assms(1), of p b] assms(2) by (auto simp: release_waits_def dest: kind_edges_released(2))
qed

lemma edges_ok_step: "table_step s s' \<Longrightarrow> edges_ok s \<Longrightarrow> edges_ok s'"
proof (induction rule: table_step.induct)
  case (acquire s pid table mode take_it nowait)
  then have "edges_ok (s\<lparr>table_waiting := w, session_at := (session_at s)(pid := WaitsFor table mode take_it 0)\<rparr>)" for w
    using no_table_edges [of s pid]
    by - (rule edges_ok_move [of s "WaitsFor table mode take_it 0" pid], auto simp: asked_def)
  with acquire show ?case using edges_ok_take by (simp add: acquire_table_def)
next
  case (turn s pid table mode take_it polls)
  let ?s = "s\<lparr>wait_graph := set_wait pid Relation (blockers (table_holds s) table pid mode) (wait_graph s)\<rparr>"
  have ok: "edges_ok ?s" and w: "session_at ?s pid = WaitsFor table mode take_it polls"
    using edges_ok_set turn by simp_all
  have "edges_ok (?s\<lparr>session_at := (session_at s)(pid := f)\<rparr>)" if "asked_in f = Some (table, mode)" for f
    by (rule edges_ok_move [OF ok, of f pid]) (use that w in \<open>auto simp: asked_def\<close>)
  moreover have "edges_ok (drop_guard pid (unwait pid s))" using turn by (intro edges_ok_drop) simp_all
  ultimately show ?case using edges_ok_take by (simp add: wait_turn_def Let_def)
next
  case (cancel s pid table mode take_it polls)
  then show ?case by - (rule edges_ok_move [of s "GivesUp table mode" pid], auto simp: asked_def)
next
  case (leave s pid table mode)
  then show ?case
    by - (rule edges_ok_move [of s "Unwinds table mode" pid], auto simp: asked_def leave_queue_def unwait_def)
next
  case (unguard s pid table mode)
  then show ?case by (simp add: edges_ok_drop)
next
  case (else_end s pid)
  then show ?case by (simp add: edges_ok_drop)
next
  case (else_wait s pid k bs)
  then show ?case by (simp add: edges_ok_else)
next
  case (else_released k s pid)
  show ?case
  proof (rule edges_okI)
    fix p b
    show "edge_real (s\<lparr>wait_graph := released pid k (wait_graph s)\<rparr>) p b"
      if "(p, b) \<in> table_edges (wait_graph (s\<lparr>wait_graph := released pid k (wait_graph s)\<rparr>))"
      using that edges_okD(1) [OF else_released(2), of p b] by (simp add: kind_edges_released(1) edge_real_def asked_def)
    show "session_at (s\<lparr>wait_graph := released pid k (wait_graph s)\<rparr>) p = WaitsElse"
      if "(p, b) \<in> else_edges (wait_graph (s\<lparr>wait_graph := released pid k (wait_graph s)\<rparr>))"
      using that edges_okD(2) [OF else_released(2) kind_edges_released(2)] by simp
  qed
qed (simp_all add: edges_ok_release edges_ok_unwaited)

lemma tables_ok: "tables_reachable s \<Longrightarrow> holds_ok s \<and> edges_ok s"
proof (induction rule: tables_reachable.induct)
  case start
  then show ?case
    by (simp add: holds_ok_def edges_ok_def new_tables_def holds_on_def graph_ok_def table_edges_iff else_edges_iff)
qed (blast intro: holds_ok_step edges_ok_step)

section \<open>Deadlocks\<close>

text \<open>Who is blocked by whom by the locks themselves: the requests not granted, and the holders in their way.\<close>

definition blocked_on :: "table_locks \<Rightarrow> (int \<times> int) set" where
  "blocked_on s = {(p, b). \<exists>table mode. asked s p = Some (table, mode) \<and> b \<in> set (blockers (table_holds s) table p mode)}"

lemma trancl_inner:
  assumes "(a, b) \<in> E\<^sup>+" "b \<in> Domain E" "\<And>x y. (x, y) \<in> E \<Longrightarrow> y \<in> Domain E \<Longrightarrow> (x, y) \<in> R"
  shows "(a, b) \<in> R\<^sup>+"
  using assms(1,2)
proof (induction rule: trancl_induct)
  case (step y z)
  then have "(a, y) \<in> R\<^sup>+" "(y, z) \<in> R" using assms(3) by blast+
  then show ?case by (rule trancl_into_trancl)
qed (use assms(3) in blast)

lemma cycle_real:
  assumes ok: "edges_ok s" and c: "(pid, pid) \<in> (edges (wait_graph s))\<^sup>+"
  shows "(pid, pid) \<in> (blocked_on s \<union> else_edges (wait_graph s))\<^sup>+"
proof (rule trancl_inner [OF c])
  show "pid \<in> Domain (edges (wait_graph s))" using c by (meson Domain.DomainI tranclD)
  show "(x, y) \<in> blocked_on s \<union> else_edges (wait_graph s)"
    if e: "(x, y) \<in> edges (wait_graph s)" "y \<in> Domain (edges (wait_graph s))" for x y
  proof (cases "(x, y) \<in> else_edges (wait_graph s)")
    case False
    then have "edge_real s x y" using e(1) edges_okD(1) [OF ok] by (simp add: edges_split)
    moreover have "session_at s y \<noteq> Releasing"
    proof
      assume r: "session_at s y = Releasing"
      then have "asked s y = None" by (simp add: asked_def)
      then show False using e(2) no_table_edges [OF ok] no_else_edges [OF ok] r by (auto simp: edges_split)
    qed
    ultimately show ?thesis by (auto simp: edge_real_def blocked_on_def)
  qed simp
qed

text \<open>A session that still waits for a table, and what blocks it.\<close>

definition waits_on :: "table_locks \<Rightarrow> (int \<times> int) set" where
  "waits_on s = {(p, b). \<exists>table mode take_it polls.
     session_at s p = WaitsFor table mode take_it polls \<and> b \<in> set (blockers (table_holds s) table p mode)}"

lemma blocked_on_waits:
  assumes "(p, b) \<in> blocked_on s" "\<forall>table mode. session_at s p \<notin> {GivesUp table mode, Unwinds table mode}"
  shows "(p, b) \<in> waits_on s"
  using assms by (cases "session_at s p") (auto simp: blocked_on_def waits_on_def asked_def)

lemma turn_reports:
  assumes ok: "edges_ok s" and w: "session_at s pid = WaitsFor table mode take_it 20"
    and t: "wait_turn table pid mode take_it 20 s = (s', r)"
  shows "r = Deadlock \<Longrightarrow> (pid, pid) \<in> (blocked_on s \<union> else_edges (wait_graph s))\<^sup>+ \<and> session_at s' pid = GivesUp table mode"
    and "(pid, pid) \<in> (blocked_on s \<union> else_edges (wait_graph s))\<^sup>+ \<Longrightarrow>
      \<forall>p b. (p, b) \<in> blocked_on s \<and> p \<noteq> pid \<longrightarrow> (p, b) \<in> table_edges (wait_graph s) \<Longrightarrow> r = Deadlock"
proof -
  let ?s = "s\<lparr>wait_graph := set_wait pid Relation (blockers (table_holds s) table pid mode) (wait_graph s)\<rparr>"
  have ok': "edges_ok ?s" using edges_ok_set [OF ok w] .
  have same: "blocked_on ?s = blocked_on s" by (simp add: blocked_on_def asked_def)
  have els: "else_edges (wait_graph ?s) = else_edges (wait_graph s)"
    using no_else_edges [OF ok, of pid] w by (auto simp: kind_edges_set split: if_splits)
  have own: "(pid, b) \<in> blocked_on s \<longleftrightarrow> b \<in> set (blockers (table_holds s) table pid mode)" for b
    using w by (auto simp: blocked_on_def asked_def)
  show "(pid, pid) \<in> (blocked_on s \<union> else_edges (wait_graph s))\<^sup>+ \<and> session_at s' pid = GivesUp table mode" if "r = Deadlock"
  proof -
    have "deadlocked (wait_graph ?s) pid" "session_at s' pid = GivesUp table mode"
      using t that by (auto simp: wait_turn_def Let_def split: if_splits)
    then show ?thesis using cycle_real [OF ok', of pid] same els by (simp add: deadlocked_iff)
  qed
  assume c: "(pid, pid) \<in> (blocked_on s \<union> else_edges (wait_graph s))\<^sup>+"
    and fresh: "\<forall>p b. (p, b) \<in> blocked_on s \<and> p \<noteq> pid \<longrightarrow> (p, b) \<in> table_edges (wait_graph s)"
  have "(p, b) \<in> table_edges (wait_graph ?s)" if "(p, b) \<in> blocked_on s" for p b
    using that fresh own [of b] by (cases "p = pid") (auto simp: kind_edges_set in_blockers)
  then have "blocked_on s \<union> else_edges (wait_graph s) \<subseteq> edges (wait_graph ?s)" unfolding edges_split els by auto
  then have "deadlocked (wait_graph ?s) pid" using c trancl_mono deadlocked_iff by blast
  moreover obtain b where "(pid, b) \<in> blocked_on s \<union> else_edges (wait_graph s)" using c by (meson tranclD)
  then have "(pid, b) \<in> blocked_on s" using no_else_edges [OF ok, of pid b] w by auto
  then have "conflicts (table_holds s) table pid mode"
    by (auto simp: own in_blockers conflicts_def list_ex_iff)
  ultimately show "r = Deadlock" using t by (auto simp: wait_turn_def Let_def)
qed

section \<open>A deadlock of two sessions\<close>

fun run_turns :: "rstr \<Rightarrow> int \<Rightarrow> int \<Rightarrow> nat \<Rightarrow> table_locks \<Rightarrow> table_locks" where
  "run_turns table pid mode 0 s = s"
| "run_turns table pid mode (Suc n) s = fst (wait_turn table pid mode True n (run_turns table pid mode n s))"

lemma run_turns_reachable:
  assumes "tables_reachable s" "session_at s pid = WaitsFor table mode True 0"
    and "conflicts (table_holds s) table pid mode" "n \<le> 20"
  shows "tables_reachable (run_turns table pid mode n s) \<and> table_holds (run_turns table pid mode n s) = table_holds s \<and>
    session_at (run_turns table pid mode n s) = (session_at s)(pid := WaitsFor table mode True n)"
  using assms(4)
proof (induction n)
  case (Suc n)
  then have IH: "tables_reachable (run_turns table pid mode n s)" "table_holds (run_turns table pid mode n s) = table_holds s"
      "session_at (run_turns table pid mode n s) = (session_at s)(pid := WaitsFor table mode True n)"
    by (blast dest: Suc_leD)+
  have "tables_reachable (run_turns table pid mode (Suc n) s)"
    using tables_reachable.step [OF IH(1) table_step.turn, of pid table mode True n] IH(3) by simp
  then show ?case using IH(2,3) Suc(2) assms(3) by (simp add: wait_turn_def Let_def)
qed (use assms in \<open>simp add: fun_upd_idem\<close>)

text \<open>Session 1 holds table a, session 2 table b; each then asks for the other.\<close>

definition crossed :: table_locks where
  "crossed = fst (acquire_table (lit ''a'') 2 8 True False (fst (acquire_table (lit ''b'') 1 8 True False
     (fst (acquire_table (lit ''b'') 2 8 True False (fst (acquire_table (lit ''a'') 1 8 True False new_tables)))))))"

lemma crossed_facts:
  "session_at crossed 1 = WaitsFor (lit ''b'') 8 True 0" "session_at crossed 2 = WaitsFor (lit ''a'') 8 True 0"
  "conflicts (table_holds crossed) (lit ''b'') 1 8" "conflicts (table_holds crossed) (lit ''a'') 2 8"
  "table_holds crossed = [\<lparr>htable = lit ''a'', hpid = 1, hmode = 8\<rparr>, \<lparr>htable = lit ''b'', hpid = 2, hmode = 8\<rparr>]"
  by code_simp+

lemma acquire_other: "p \<noteq> pid \<Longrightarrow> session_at (fst (acquire_table table pid mode take_it nowait s)) p = session_at s p"
  by (simp add: acquire_table_def take_hold_def)

lemma crossed_other: "p \<noteq> 1 \<Longrightarrow> p \<noteq> 2 \<Longrightarrow> session_at crossed p = Running"
  by (simp add: crossed_def acquire_other) (simp add: new_tables_def)

lemma crossed_reachable: "tables_reachable crossed"
  unfolding crossed_def
  by (intro tables_reachable.step [OF _ table_step.acquire] tables_reachable.start) code_simp+

text \<open>Both have turned twenty times and are about to look for a deadlock.\<close>

definition both_due :: table_locks where
  "both_due = run_turns (lit ''a'') 2 8 20 (run_turns (lit ''b'') 1 8 20 crossed)"

lemma both_due_facts:
  "tables_reachable both_due" "session_at both_due 1 = WaitsFor (lit ''b'') 8 True 20"
  "session_at both_due 2 = WaitsFor (lit ''a'') 8 True 20" "table_holds both_due = table_holds crossed"
proof -
  let ?s1 = "run_turns (lit ''b'') 1 8 20 crossed"
  have s1: "tables_reachable ?s1" "table_holds ?s1 = table_holds crossed"
      "session_at ?s1 = (session_at crossed)(1 := WaitsFor (lit ''b'') 8 True 20)"
    using run_turns_reachable [OF crossed_reachable crossed_facts(1,3), of 20] by simp_all
  have at2: "session_at ?s1 2 = WaitsFor (lit ''a'') 8 True 0" and c2: "conflicts (table_holds ?s1) (lit ''a'') 2 8"
    using crossed_facts(2,4) by (simp_all only: s1(2,3) fun_upd_apply) simp_all
  have s: "tables_reachable both_due" "table_holds both_due = table_holds crossed"
      "session_at both_due = (session_at ?s1)(2 := WaitsFor (lit ''a'') 8 True 20)"
    using run_turns_reachable [OF s1(1) at2 c2, of 20] s1(2) by (simp_all add: both_due_def)
  show "tables_reachable both_due" "table_holds both_due = table_holds crossed" by (rule s)+
  show "session_at both_due 1 = WaitsFor (lit ''b'') 8 True 20" "session_at both_due 2 = WaitsFor (lit ''a'') 8 True 20"
    by (simp_all only: s(3) s1(3) fun_upd_apply) simp_all
qed

lemma both_told:
  "snd (wait_turn (lit ''b'') 1 8 True 20 both_due) = Deadlock"
  "snd (wait_turn (lit ''a'') 2 8 True 20 (fst (wait_turn (lit ''b'') 1 8 True 20 both_due))) = Deadlock"
  by code_simp+

section \<open>Properties\<close>

text \<open>
  C21: no two sessions ever hold a table in conflicting modes, the
  counter that lets a statement skip the locks is the number of holds, and every edge a table
  wait has in the wait-for graph leads from a session whose request is not granted to one that
  holds what it asked for (or has just let go of it and is about to clear the edge).
\<close>

theorem table_holds_compatible:
  assumes "tables_reachable s"
  shows "compatible modes_conflict (holds_on table (table_holds s)) \<and>
    (any_lock s \<longleftrightarrow> table_holds s \<noteq> []) \<and>
    ((p, b) \<in> table_edges (wait_graph s) \<longrightarrow> (p, b) \<in> blocked_on s \<or> session_at s b = Releasing)"
proof -
  have h: "holds_ok s" and e: "edges_ok s" using tables_ok [OF assms] by simp_all
  have "(p, b) \<in> blocked_on s \<or> session_at s b = Releasing" if "(p, b) \<in> table_edges (wait_graph s)"
    using edges_okD(1) [OF e that] by (auto simp: edge_real_def blocked_on_def)
  then show ?thesis using h by (auto simp: holds_ok_def any_lock_def)
qed

theorem table_holds_compatible_witness: "compatible modes_conflict (holds_on (lit ''a'') (table_holds crossed))"
  using table_holds_compatible [OF crossed_reachable] by blast

text \<open>
  C20: what a session is told at its check. A deadlock is reported only on a
  cycle in which each step is a table request not granted, to a holder of that table in a
  conflicting mode, or a wait for a row or an advisory lock as that wait recorded it; when no
  session has given up and none waits for other locks, all sessions of the cycle wait for each
  other's tables. When the other table waits have recorded their holders, every such cycle is
  reported. A session that was told, and has not dropped its edges yet, still counts: of two
  sessions that wait for each other both can be told, one after the other, although the sources
  say that only the one whose check runs first fails.
\<close>

theorem deadlock_reports_real:
  "(tables_reachable s \<and> session_at s pid = WaitsFor table mode take_it 20 \<and> wait_turn table pid mode take_it 20 s = (s', r) \<longrightarrow>
     (r = Deadlock \<longrightarrow>
        (pid, pid) \<in> (blocked_on s \<union> else_edges (wait_graph s))\<^sup>+ \<and>
        ((\<forall>p t m. session_at s p \<notin> {GivesUp t m, Unwinds t m, WaitsElse}) \<longrightarrow> (pid, pid) \<in> (waits_on s)\<^sup>+)) \<and>
     ((pid, pid) \<in> (blocked_on s \<union> else_edges (wait_graph s))\<^sup>+ \<and>
        (\<forall>p b. (p, b) \<in> blocked_on s \<and> p \<noteq> pid \<longrightarrow> (p, b) \<in> table_edges (wait_graph s)) \<longrightarrow> r = Deadlock)) \<and>
   (\<exists>s0 s1 s2 a b. tables_reachable s0 \<and> tables_reachable s1 \<and>
      session_at s0 1 = WaitsFor b 8 True 20 \<and> wait_turn b 1 8 True 20 s0 = (s1, Deadlock) \<and>
      session_at s1 2 = WaitsFor a 8 True 20 \<and> wait_turn a 2 8 True 20 s1 = (s2, Deadlock))"
proof (intro conjI impI)
  assume a: "tables_reachable s \<and> session_at s pid = WaitsFor table mode take_it 20 \<and> wait_turn table pid mode take_it 20 s = (s', r)"
  then have ok: "edges_ok s" and w: "session_at s pid = WaitsFor table mode take_it 20"
    and t: "wait_turn table pid mode take_it 20 s = (s', r)" using tables_ok by auto
  show c: "(pid, pid) \<in> (blocked_on s \<union> else_edges (wait_graph s))\<^sup>+" if "r = Deadlock"
    using turn_reports(1) [OF ok w t that] by blast
  show "(pid, pid) \<in> (waits_on s)\<^sup>+"
    if "r = Deadlock" "\<forall>p t m. session_at s p \<notin> {GivesUp t m, Unwinds t m, WaitsElse}"
  proof -
    have "blocked_on s \<union> else_edges (wait_graph s) \<subseteq> waits_on s"
      using that(2) no_else_edges [OF ok] blocked_on_waits [of _ _ s] by fastforce
    then show ?thesis using c [OF that(1)] trancl_mono by blast
  qed
  show "r = Deadlock" if "(pid, pid) \<in> (blocked_on s \<union> else_edges (wait_graph s))\<^sup>+ \<and>
      (\<forall>p b. (p, b) \<in> blocked_on s \<and> p \<noteq> pid \<longrightarrow> (p, b) \<in> table_edges (wait_graph s))"
    using turn_reports(2) [OF ok w t] that by blast
next
  let ?s1 = "fst (wait_turn (lit ''b'') 1 8 True 20 both_due)"
  have "tables_reachable ?s1" by (rule tables_reachable.step [OF both_due_facts(1) table_step.turn [OF both_due_facts(2)]])
  moreover have "session_at ?s1 2 = WaitsFor (lit ''a'') 8 True 20"
    using both_due_facts(3) by (simp add: wait_turn_def Let_def drop_guard_def unwait_def take_hold_def)
  ultimately show "\<exists>s0 s1 s2 a b. tables_reachable s0 \<and> tables_reachable s1 \<and>
      session_at s0 1 = WaitsFor b 8 True 20 \<and> wait_turn b 1 8 True 20 s0 = (s1, Deadlock) \<and>
      session_at s1 2 = WaitsFor a 8 True 20 \<and> wait_turn a 2 8 True 20 s1 = (s2, Deadlock)"
    using both_due_facts(1,2) both_told by (metis prod.collapse)
qed

theorem deadlock_reports_real_witness: "(1, 1) \<in> (blocked_on both_due \<union> else_edges (wait_graph both_due))\<^sup>+"
proof -
  obtain s' where t: "wait_turn (lit ''b'') 1 8 True 20 both_due = (s', Deadlock)" using both_told(1) by (metis prod.collapse)
  show ?thesis
    using deadlock_reports_real [of both_due 1 "lit ''b''" 8 True s' Deadlock] both_due_facts(1,2) t by blast
qed

end
