(* ===== verification/Wire_Frames.thy ===== *)
theory Wire_Frames
  imports Bson_Model
begin

text \<open>
  The message framing of \<open>secantus-wire/src/lib.rs\<close>: the header, the \<open>OP_MSG\<close> and
  \<open>OP_QUERY\<close> parsers, the checks and the checksum of a frame, and the builders of replies.

  A parser works on offsets into the received bytes. Indexing and slicing out of range panic
  in Rust, so every read below is a partial operation whose failure is \<open>Panic\<close>, a value of
  its own beside the two kinds of \<open>WireError\<close>. The texts of the errors are the constructors
  of \<open>wire_fault\<close>.
\<close>

unbundle bit_operations_syntax

section \<open>Errors\<close>

datatype place = Kind0 | Kind1_inner | Query_doc | Query_selector

datatype wire_fault =
    Header_needs nat
  | Length_below_header i32
  | Length_exceeds_max i32
  | Get_more_no_namespace
  | Unsupported_op_code i32
  | Op_code_short_body i32 nat
  | Msg_too_short_for_flags
  | Kind0_truncated
  | More_than_one_kind0
  | Kind1_truncated
  | Kind1_section_length i32
  | Kind1_no_terminator
  | Kind1_not_utf8
  | Kind1_truncated_inner
  | Unknown_section_kind u8
  | No_kind0
  | Query_too_short
  | Query_no_terminator
  | Query_not_utf8
  | Query_truncated_skip
  | Query_truncated_doc
  | Query_truncated_selector
  | Length_below_minimum place i32
  | Length_past_end place i32 nat nat
  | Bson_too_short place nat
  | Bson_length_mismatch place i32 nat
  | Cursor_malformed_envelope
  | Cursor_not_a_document
  | Cursor_malformed_batch
  | Cursor_missing
  | Compressed_prefix nat
  | Compressor_unknown u8
  | Decompressed_negative i32
  | Decompressed_exceeds_max nat
  | Compression_failed
  | Decompression_failed
  | Decompressed_size nat nat
  | Compressed_frame_size nat

datatype wire_error =
    Protocol wire_fault
  | MalformedBody wire_fault

definition is_recoverable :: "wire_error \<Rightarrow> bool" where
  "is_recoverable e = (case e of MalformedBody _ \<Rightarrow> True | Protocol _ \<Rightarrow> False)"

datatype stop = Err wire_error | Panic

section \<open>Reading bytes\<close>

definition index :: "bytes \<Rightarrow> nat \<Rightarrow> stop + u8" where
  "index buf i = (case slice_get buf i of None \<Rightarrow> Inl Panic | Some b \<Rightarrow> Inr b)"

definition slice :: "bytes \<Rightarrow> nat \<Rightarrow> nat \<Rightarrow> stop + bytes" where
  "slice buf i j = (case slice_range buf i j of None \<Rightarrow> Inl Panic | Some s \<Rightarrow> Inr s)"

definition rd_i32 :: "bytes \<Rightarrow> nat \<Rightarrow> stop + i32" where
  "rd_i32 buf pos = bind_res (slice buf pos (pos + 4)) (\<lambda>s. Inr (i32_from_le s))"

definition rd_u32 :: "bytes \<Rightarrow> nat \<Rightarrow> stop + u32" where
  "rd_u32 buf pos = bind_res (slice buf pos (pos + 4)) (\<lambda>s. Inr (i32_from_le s))"

definition memchr0 :: "bytes \<Rightarrow> nat \<Rightarrow> nat \<Rightarrow> stop + nat option" where
  "memchr0 buf start limit =
     bind_res (slice buf start limit)
       (\<lambda>s. Inr (map_option (\<lambda>i. start + i) (position (\<lambda>b. b = 0) s)))"

definition MIN_BSON_DOC_LEN :: int where "MIN_BSON_DOC_LEN = 5"

definition check_doc_len :: "i32 \<Rightarrow> nat \<Rightarrow> nat \<Rightarrow> place \<Rightarrow> stop + unit" where
  "check_doc_len doc_len pos stop_at wh =
     (if sint doc_len < MIN_BSON_DOC_LEN
      then Inl (Err (MalformedBody (Length_below_minimum wh doc_len)))
      else if pos + nat (sint doc_len) > stop_at
      then Inl (Err (MalformedBody (Length_past_end wh doc_len pos stop_at)))
      else Inr ())"

text \<open>\<open>declared as usize\<close> of a negative \<open>i32\<close> is sign-extended to 64 bits.\<close>

definition as_usize :: "i32 \<Rightarrow> nat" where
  "as_usize n = unat (scast n :: u64)"

definition validate_bson :: "bytes \<Rightarrow> place \<Rightarrow> stop + unit" where
  "validate_bson s wh =
     (if length s < 5 then Inl (Err (MalformedBody (Bson_too_short wh (length s))))
      else bind_res (rd_i32 s 0) (\<lambda>declared.
        if as_usize declared \<noteq> length s
        then Inl (Err (MalformedBody (Bson_length_mismatch wh declared (length s))))
        else Inr ()))"

section \<open>The header\<close>

definition OP_REPLY :: i32 where "OP_REPLY = 1"
definition OP_UPDATE :: i32 where "OP_UPDATE = 2001"
definition OP_INSERT :: i32 where "OP_INSERT = 2002"
definition OP_QUERY :: i32 where "OP_QUERY = 2004"
definition OP_GET_MORE :: i32 where "OP_GET_MORE = 2005"
definition OP_DELETE :: i32 where "OP_DELETE = 2006"
definition OP_KILL_CURSORS :: i32 where "OP_KILL_CURSORS = 2007"
definition OP_COMPRESSED :: i32 where "OP_COMPRESSED = 2012"
definition OP_MSG :: i32 where "OP_MSG = 2013"

definition OP_MSG_FLAG_CHECKSUM_PRESENT :: u32 where "OP_MSG_FLAG_CHECKSUM_PRESENT = 1"
definition OP_MSG_FLAG_MORE_TO_COME :: u32 where "OP_MSG_FLAG_MORE_TO_COME = 2"
definition OP_MSG_REQUIRED_FLAG_BITS :: u32 where "OP_MSG_REQUIRED_FLAG_BITS = 0xFFFF"

definition HEADER_SIZE :: nat where "HEADER_SIZE = 16"
definition MAX_MESSAGE_SIZE :: int where "MAX_MESSAGE_SIZE = 48000000"

lemmas op_codes = OP_REPLY_def OP_UPDATE_def OP_INSERT_def OP_QUERY_def OP_GET_MORE_def
  OP_DELETE_def OP_KILL_CURSORS_def OP_COMPRESSED_def OP_MSG_def

record header =
  message_length :: i32
  request_id :: i32
  response_to :: i32
  op_code :: i32

definition unpack :: "bytes \<Rightarrow> stop + header" where
  "unpack buf =
     (if length buf < HEADER_SIZE then Inl (Err (Protocol (Header_needs (length buf))))
      else bind_res (rd_i32 buf 0) (\<lambda>ml.
           bind_res (rd_i32 buf 4) (\<lambda>ri.
           bind_res (rd_i32 buf 8) (\<lambda>rt.
           bind_res (rd_i32 buf 12) (\<lambda>op.
             Inr \<lparr>message_length = ml, request_id = ri, response_to = rt, op_code = op\<rparr>)))))"

definition pack :: "header \<Rightarrow> bytes" where
  "pack h = i32_to_le (message_length h) @ i32_to_le (request_id h)
          @ i32_to_le (response_to h) @ i32_to_le (op_code h)"

definition body_len :: "header \<Rightarrow> stop + nat" where
  "body_len h =
     (if as_usize (message_length h) < HEADER_SIZE
      then Inl (Err (Protocol (Length_below_header (message_length h))))
      else if sint (message_length h) > MAX_MESSAGE_SIZE
      then Inl (Err (Protocol (Length_exceeds_max (message_length h))))
      else Inr (as_usize (message_length h) - HEADER_SIZE))"

section \<open>Parsing a message\<close>

record document_sequence =
  seq_identifier :: rstr
  documents :: "bytes list"

record op_msg =
  flags :: u32
  body :: bytes
  document_sequences :: "document_sequence list"

record op_query =
  query_flags :: u32
  full_collection_name :: rstr
  number_to_skip :: i32
  number_to_return :: i32
  query :: bytes
  return_fields_selector :: "bytes option"

datatype op =
    Msg op_msg
  | Query op_query
  | LegacyGetMore
  | Ignored i32

text \<open>One document at \<open>offset\<close>: its length, the check of the length, its bytes and their check.\<close>

definition doc_at :: "bytes \<Rightarrow> nat \<Rightarrow> nat \<Rightarrow> place \<Rightarrow> stop + bytes" where
  "doc_at buf offset stop_at wh =
     bind_res (rd_i32 buf offset) (\<lambda>doc_len.
     bind_res (check_doc_len doc_len offset stop_at wh) (\<lambda>_.
     bind_res (slice buf offset (offset + nat (sint doc_len))) (\<lambda>doc.
     bind_res (validate_bson doc wh) (\<lambda>_. Inr doc))))"

text \<open>The inner loop of a kind-1 section.\<close>

lemma doc_at_length: "doc_at buf offset stop_at wh = Inr doc \<Longrightarrow> 5 \<le> length doc \<and> offset + length doc \<le> stop_at"
  by (auto simp: doc_at_def bind_res_Inr_iff check_doc_len_def MIN_BSON_DOC_LEN_def slice_def
      slice_range_def split: if_splits option.splits)

function section_docs :: "bytes \<Rightarrow> nat \<Rightarrow> nat \<Rightarrow> bytes list \<Rightarrow> stop + bytes list" where
  "section_docs buf sect_end offset docs =
     (if offset < sect_end then
        if offset + 4 > sect_end then Inl (Err (MalformedBody Kind1_truncated_inner))
        else bind_res (doc_at buf offset sect_end Kind1_inner) (\<lambda>doc.
               section_docs buf sect_end (offset + length doc) (docs @ [doc]))
      else Inr docs)"
  by pat_completeness auto
termination
  by (relation "measure (\<lambda>(_, sect_end, offset, _). sect_end - offset)")
     (auto dest: doc_at_length)

declare section_docs.simps [simp del]

text \<open>A kind-1 section at \<open>offset\<close> (past its kind byte): the sequence and where the section ends.\<close>

definition kind1_section :: "bytes \<Rightarrow> nat \<Rightarrow> nat \<Rightarrow> stop + document_sequence \<times> nat" where
  "kind1_section buf stop_at offset =
     (if offset + 4 > stop_at then Inl (Err (MalformedBody Kind1_truncated))
      else bind_res (rd_i32 buf offset) (\<lambda>section_len.
        if sint section_len < 4 \<or> offset + nat (sint section_len) > stop_at
        then Inl (Err (MalformedBody (Kind1_section_length section_len)))
        else (let sect_end = offset + nat (sint section_len) in
          bind_res (memchr0 buf (offset + 4) sect_end) (\<lambda>found.
            case found of
              None \<Rightarrow> Inl (Err (MalformedBody Kind1_no_terminator))
            | Some ident_end \<Rightarrow>
                bind_res (slice buf (offset + 4) ident_end) (\<lambda>ident.
                  if \<not> utf8_valid ident then Inl (Err (MalformedBody Kind1_not_utf8))
                  else bind_res (section_docs buf sect_end (ident_end + 1) []) (\<lambda>docs.
                    Inr (\<lparr>seq_identifier = ident, documents = docs\<rparr>, sect_end)))))))"

definition kind0_section :: "bytes \<Rightarrow> nat \<Rightarrow> nat \<Rightarrow> bytes option \<Rightarrow> stop + bytes" where
  "kind0_section buf stop_at offset bdy =
     (if offset + 4 > stop_at then Inl (Err (MalformedBody Kind0_truncated))
      else bind_res (rd_i32 buf offset) (\<lambda>doc_len.
        bind_res (check_doc_len doc_len offset stop_at Kind0) (\<lambda>_.
          if bdy \<noteq> None then Inl (Err (MalformedBody More_than_one_kind0))
          else bind_res (slice buf offset (offset + nat (sint doc_len))) (\<lambda>doc.
            bind_res (validate_bson doc Kind0) (\<lambda>_. Inr doc)))))"

lemma kind0_section_length:
  "kind0_section buf stop_at offset bdy = Inr doc \<Longrightarrow> 5 \<le> length doc \<and> offset + length doc \<le> stop_at"
  by (auto simp: kind0_section_def bind_res_Inr_iff check_doc_len_def MIN_BSON_DOC_LEN_def slice_def
      slice_range_def split: if_splits option.splits)

lemma kind1_section_end:
  "kind1_section buf stop_at offset = Inr (sq, e) \<Longrightarrow> offset + 4 \<le> e \<and> e \<le> stop_at"
  by (auto simp: kind1_section_def bind_res_Inr_iff Let_def split: if_splits option.splits)

function op_msg_sections ::
  "bytes \<Rightarrow> nat \<Rightarrow> nat \<Rightarrow> bytes option \<Rightarrow> document_sequence list
    \<Rightarrow> stop + bytes option \<times> document_sequence list" where
  "op_msg_sections buf stop_at offset bdy seqs =
     (if offset < stop_at then
        bind_res (index buf offset) (\<lambda>kind.
          if kind = 0 then
            bind_res (kind0_section buf stop_at (offset + 1) bdy) (\<lambda>doc.
              op_msg_sections buf stop_at (offset + 1 + length doc) (Some doc) seqs)
          else if kind = 1 then
            bind_res (kind1_section buf stop_at (offset + 1)) (\<lambda>r.
              op_msg_sections buf stop_at (snd r) bdy (seqs @ [fst r]))
          else Inl (Err (Protocol (Unknown_section_kind kind))))
      else Inr (bdy, seqs))"
  by pat_completeness auto
termination
  by (relation "measure (\<lambda>(_, stop_at, offset, _, _). stop_at - offset)")
     (auto dest!: kind1_section_end kind0_section_length)

declare op_msg_sections.simps [simp del]

definition parse_op_msg :: "bytes \<Rightarrow> stop + op_msg" where
  "parse_op_msg buf =
     (if length buf < 4 then Inl (Err (Protocol Msg_too_short_for_flags))
      else bind_res (rd_u32 buf 0) (\<lambda>fl.
        let stop_at = (if fl AND OP_MSG_FLAG_CHECKSUM_PRESENT \<noteq> 0 then length buf - 4 else length buf)
        in bind_res (op_msg_sections buf stop_at 4 None []) (\<lambda>r.
          case fst r of
            Some b \<Rightarrow> Inr \<lparr>flags = fl, body = b, document_sequences = snd r\<rparr>
          | None \<Rightarrow> Inl (Err (Protocol No_kind0)))))"

definition parse_op_query :: "bytes \<Rightarrow> stop + op_query" where
  "parse_op_query buf =
     (if length buf < 4 then Inl (Err (Protocol Query_too_short))
      else bind_res (rd_u32 buf 0) (\<lambda>fl.
        bind_res (memchr0 buf 4 (length buf)) (\<lambda>found.
          case found of
            None \<Rightarrow> Inl (Err (MalformedBody Query_no_terminator))
          | Some name_end \<Rightarrow>
              bind_res (slice buf 4 name_end) (\<lambda>name.
                if \<not> utf8_valid name then Inl (Err (MalformedBody Query_not_utf8))
                else (let offset = name_end + 1 in
                  if offset + 8 > length buf then Inl (Err (MalformedBody Query_truncated_skip))
                  else bind_res (rd_i32 buf offset) (\<lambda>skip.
                       bind_res (rd_i32 buf (offset + 4)) (\<lambda>ret.
                  let offset = offset + 8 in
                  if offset + 4 > length buf then Inl (Err (MalformedBody Query_truncated_doc))
                  else bind_res (doc_at buf offset (length buf) Query_doc) (\<lambda>q.
                  let offset = offset + length q in
                  bind_res
                    (if offset < length buf then
                       if offset + 4 > length buf then Inl (Err (MalformedBody Query_truncated_selector))
                       else bind_res (doc_at buf offset (length buf) Query_selector) (\<lambda>s. Inr (Some s))
                     else Inr None)
                    (\<lambda>sel. Inr \<lparr>query_flags = fl, full_collection_name = name, number_to_skip = skip,
                                number_to_return = ret, query = q, return_fields_selector = sel\<rparr>)))))))))"

definition parse_body :: "i32 \<Rightarrow> bytes \<Rightarrow> stop + op" where
  "parse_body opc bdy =
     (if opc = OP_MSG then bind_res (parse_op_msg bdy) (\<lambda>m. Inr (Msg m))
      else if opc = OP_QUERY then bind_res (parse_op_query bdy) (\<lambda>q. Inr (Query q))
      else if opc = OP_GET_MORE then
        (if length bdy < 4 then Inl (Err (Protocol Get_more_no_namespace))
         else bind_res (memchr0 bdy 4 (length bdy)) (\<lambda>found.
           if found = None then Inl (Err (Protocol Get_more_no_namespace)) else Inr LegacyGetMore))
      else if opc = OP_UPDATE \<or> opc = OP_INSERT \<or> opc = OP_DELETE \<or> opc = OP_KILL_CURSORS
              \<or> opc = OP_COMPRESSED
      then Inl (Err (Protocol (Unsupported_op_code opc)))
      else if length bdy < 4 then Inl (Err (Protocol (Op_code_short_body opc (length bdy))))
      else Inr (Ignored opc))"

section \<open>Reading within bounds\<close>

text \<open>The bytes \<open>buf[i..j]\<close>.\<close>

abbreviation win :: "bytes \<Rightarrow> nat \<Rightarrow> nat \<Rightarrow> bytes" where
  "win buf i j \<equiv> take (j - i) (drop i buf)"

lemma slice_win: "i \<le> j \<Longrightarrow> j \<le> length buf \<Longrightarrow> slice buf i j = Inr (win buf i j)"
  by (simp add: slice_def slice_range_def)

lemma rd_i32_win: "i + 4 \<le> length buf \<Longrightarrow> rd_i32 buf i = Inr (i32_from_le (win buf i (i + 4)))"
  by (simp add: rd_i32_def slice_win)

lemma rd_u32_win: "i + 4 \<le> length buf \<Longrightarrow> rd_u32 buf i = Inr (i32_from_le (win buf i (i + 4)))"
  by (simp add: rd_u32_def slice_win)

lemma memchr0_win:
  "i \<le> j \<Longrightarrow> j \<le> length buf \<Longrightarrow>
     memchr0 buf i j = Inr (map_option (\<lambda>n. i + n) (position (\<lambda>b. b = 0) (win buf i j)))"
  by (simp add: memchr0_def slice_win)

lemma index_nth: "i < length buf \<Longrightarrow> index buf i = Inr (buf ! i)"
  by (simp add: index_def slice_get_def)

lemma win_split: "i \<le> k \<Longrightarrow> k \<le> j \<Longrightarrow> win buf i j = win buf i k @ win buf k j"
proof -
  assume "i \<le> k" "k \<le> j"
  then have "j - i = (k - i) + (j - k)" "drop k buf = drop (k - i) (drop i buf)" by simp_all
  then show ?thesis by (simp only: take_add)
qed

lemma win_Cons: "i < j \<Longrightarrow> j \<le> length buf \<Longrightarrow> win buf i j = buf ! i # win buf (Suc i) j"
  using win_split [of i "Suc i" j buf] by (simp add: take_Suc_conv_app_nth Cons_nth_drop_Suc [symmetric])

lemma length_win [simp]: "j \<le> length buf \<Longrightarrow> length (win buf i j) = j - i"
  by simp

lemma as_usize_nonneg: "0 \<le> sint n \<Longrightarrow> as_usize n = nat (sint n)"
proof -
  assume n: "0 \<le> sint n"
  have "sint n < 2 ^ 31" using sint_lt [of n] by simp
  then have "sint n mod 2 ^ 64 = sint n" using n by (intro mod_pos_pos_trivial) simp_all
  moreover have "unat (scast n :: u64) = nat (sint n mod 2 ^ 64)"
    by (simp only: unat_eq_nat_uint scast_eq uint_word_of_int) simp
  ultimately show ?thesis by (simp add: as_usize_def)
qed

lemma as_usize_neg: "sint n < 0 \<Longrightarrow> as_usize n = nat (2 ^ 64 + sint n)"
proof -
  assume n: "sint n < 0"
  have l: "- (2 ^ 31) \<le> sint n" using sint_ge [of n] by simp
  have "sint n mod 2 ^ 64 = (sint n + 2 ^ 64) mod 2 ^ 64" by simp
  also have "\<dots> = sint n + 2 ^ 64" using n l by (intro mod_pos_pos_trivial) simp_all
  finally have "sint n mod 2 ^ 64 = 2 ^ 64 + sint n" by simp
  moreover have "unat (scast n :: u64) = nat (sint n mod 2 ^ 64)"
    by (simp only: unat_eq_nat_uint scast_eq uint_word_of_int) simp
  ultimately show ?thesis by (simp add: as_usize_def)
qed

text \<open>A length word, read as the number it was written from.\<close>

lemma sint_i32_from_le:
  assumes "from_le_bytes bs < 2 ^ 31"
  shows "sint (i32_from_le bs) = int (from_le_bytes bs)"
  using assms by (simp add: i32_from_le_def signed_of_nat signed_take_bit_int_eq_self)

lemma sint_i32_from_le_nonneg:
  assumes "length bs = 4" "0 \<le> sint (i32_from_le bs)"
  shows "sint (i32_from_le bs) = int (from_le_bytes bs)" "from_le_bytes bs < 2 ^ 31"
proof -
  have "sint (i32_from_le bs) < 2 ^ 31" using sint_lt [of "i32_from_le bs"] by simp
  moreover have "uint (i32_from_le bs) = int (from_le_bytes bs)"
    using from_le_bytes_less [of bs] assms(1)
    by (simp add: i32_from_le_def unsigned_of_nat take_bit_nat_eq_self)
  moreover have "uint (i32_from_le bs) = sint (i32_from_le bs)"
    using assms(2) \<open>sint (i32_from_le bs) < 2 ^ 31\<close>
    by (simp add: uint_sint take_bit_int_eq_self)
  ultimately show "sint (i32_from_le bs) = int (from_le_bytes bs)" "from_le_bytes bs < 2 ^ 31" by simp_all
qed

section \<open>The grammar of a message\<close>

text \<open>A document as framing sees it: its first four bytes are its length.\<close>

definition doc_framed :: "bytes \<Rightarrow> bool" where
  "doc_framed d \<longleftrightarrow> 5 \<le> length d \<and> length d < 2 ^ 31 \<and> from_le_bytes (take 4 d) = length d"

datatype msg_section = Body_section bytes | Sequence_section document_sequence

definition sequence_len :: "document_sequence \<Rightarrow> nat" where
  "sequence_len s = 5 + length (seq_identifier s) + length (concat (documents s))"

fun section_bytes :: "msg_section \<Rightarrow> bytes" where
  "section_bytes (Body_section d) = 0 # d"
| "section_bytes (Sequence_section s) =
     1 # le_bytes 4 (sequence_len s) @ seq_identifier s @ 0 # concat (documents s)"

fun section_ok :: "msg_section \<Rightarrow> bool" where
  "section_ok (Body_section d) = doc_framed d"
| "section_ok (Sequence_section s) =
     (utf8_valid (seq_identifier s) \<and> 0 \<notin> set (seq_identifier s)
      \<and> list_all doc_framed (documents s) \<and> sequence_len s < 2 ^ 31)"

fun section_bodies :: "msg_section list \<Rightarrow> bytes list" where
  "section_bodies [] = []"
| "section_bodies (Body_section d # ss) = d # section_bodies ss"
| "section_bodies (Sequence_section s # ss) = section_bodies ss"

fun section_sequences :: "msg_section list \<Rightarrow> document_sequence list" where
  "section_sequences [] = []"
| "section_sequences (Body_section d # ss) = section_sequences ss"
| "section_sequences (Sequence_section s # ss) = s # section_sequences ss"

lemma take_win: "i + n \<le> j \<Longrightarrow> take n (win buf i j) = win buf i (i + n)"
  by (simp add: min_def)

lemma doc_at_iff:
  assumes "i + 4 \<le> e" "e \<le> length buf"
  shows "doc_at buf i e wh = Inr d \<longleftrightarrow> doc_framed d \<and> i + length d \<le> e \<and> win buf i (i + length d) = d"
    (is "_ \<longleftrightarrow> ?R")
proof -
  let ?w = "win buf i (i + 4)"
  let ?n = "i32_from_le ?w"
  have rd: "rd_i32 buf i = Inr ?n" using assms by (simp add: rd_i32_win)
  have lw: "length ?w = 4" using assms by simp
  show ?thesis
  proof
    assume "doc_at buf i e wh = Inr d"
    then have n: "5 \<le> sint ?n" and e: "i + nat (sint ?n) \<le> e"
      and d: "d = win buf i (i + nat (sint ?n))"
      by (auto simp: doc_at_def rd bind_res_Inr_iff check_doc_len_def MIN_BSON_DOC_LEN_def
          slice_win [OF _ order_trans [OF _ assms(2)]] split: if_splits)
    from n sint_i32_from_le_nonneg [OF lw] have m: "sint ?n = int (from_le_bytes ?w)"
      and lt: "from_le_bytes ?w < 2 ^ 31" by simp_all
    from d e assms(2) have ld: "length d = nat (sint ?n)" by simp
    moreover have "take 4 d = ?w" using d n e by simp
    ultimately show ?R using n e d m lt by (simp add: doc_framed_def)
  next
    assume R: ?R
    then have "take 4 d = ?w" using take_win [of i 4 "i + length d" buf] by (auto simp: doc_framed_def)
    then have m: "from_le_bytes ?w = length d" using R by (simp add: doc_framed_def)
    then have s: "sint ?n = int (length d)" using R sint_i32_from_le [of ?w] by (simp add: doc_framed_def)
    have "rd_i32 d 0 = Inr ?n" using R \<open>take 4 d = ?w\<close> by (simp add: rd_i32_win doc_framed_def)
    then have "validate_bson d wh = Inr ()"
      using R s by (simp add: validate_bson_def doc_framed_def as_usize_nonneg)
    moreover have "slice buf i (i + length d) = Inr d" using R assms(2) by (simp add: slice_win)
    ultimately show "doc_at buf i e wh = Inr d"
      using R s by (simp add: doc_at_def rd check_doc_len_def MIN_BSON_DOC_LEN_def doc_framed_def)
  qed
qed

lemma no_panic_bind: "r \<noteq> Inl Panic \<Longrightarrow> (\<And>x. r = Inr x \<Longrightarrow> f x \<noteq> Inl Panic) \<Longrightarrow> bind_res r f \<noteq> Inl Panic"
  by (cases r) auto

lemma check_doc_len_no_panic: "check_doc_len n i e wh \<noteq> Inl Panic"
  by (simp add: check_doc_len_def)

lemma validate_bson_no_panic: "validate_bson d wh \<noteq> Inl Panic"
  by (simp add: validate_bson_def rd_i32_win)

lemma doc_at_no_panic: "i + 4 \<le> e \<Longrightarrow> e \<le> length buf \<Longrightarrow> doc_at buf i e wh \<noteq> Inl Panic"
  unfolding doc_at_def
  by (intro no_panic_bind check_doc_len_no_panic validate_bson_no_panic)
     (auto simp: rd_i32_win check_doc_len_def slice_win split: if_splits)

lemma bind_res_panic_iff:
  "bind_res r f = Inl Panic \<longleftrightarrow> r = Inl Panic \<or> (\<exists>x. r = Inr x \<and> f x = Inl Panic)"
  by (cases r) auto

lemma section_docs_iff:
  assumes "i \<le> e" "e \<le> length buf"
  shows "section_docs buf e i docs = Inr ds \<longleftrightarrow>
    (\<exists>new. ds = docs @ new \<and> list_all doc_framed new \<and> concat new = win buf i e)"
  using assms
proof (induction buf e i docs rule: section_docs.induct)
  case (1 buf e i docs)
  show ?case
  proof (cases "i < e")
    case False
    with "1.prems" have e: "i = e" by simp
    have "concat new = [] \<and> list_all doc_framed new \<longleftrightarrow> new = []" for new
      by (cases new) (auto simp: doc_framed_def)
    then show ?thesis by (subst section_docs.simps) (auto simp: e)
  next
    case i: True
    show ?thesis
    proof
      assume r: "section_docs buf e i docs = Inr ds"
      then have i4: "i + 4 \<le> e" using i by (subst (asm) section_docs.simps) (simp split: if_splits)
      obtain d where d: "doc_at buf i e Kind1_inner = Inr d"
        and rec: "section_docs buf e (i + length d) (docs @ [d]) = Inr ds"
        using r i i4 by (subst (asm) section_docs.simps) (auto simp: bind_res_Inr_iff)
      from d have df: "doc_framed d" "i + length d \<le> e" "win buf i (i + length d) = d"
        using doc_at_iff [OF i4 "1.prems"(2)] by simp_all
      from "1.IH" [OF i _ d] rec i4 df "1.prems"
      obtain new where "ds = (docs @ [d]) @ new" "list_all doc_framed new" "concat new = win buf (i + length d) e"
        by auto
      moreover have "win buf i e = d @ win buf (i + length d) e"
        using win_split [of i "i + length d" e buf] df by simp
      ultimately show "\<exists>new. ds = docs @ new \<and> list_all doc_framed new \<and> concat new = win buf i e"
        using df by (intro exI [of _ "d # new"]) simp
    next
      assume "\<exists>new. ds = docs @ new \<and> list_all doc_framed new \<and> concat new = win buf i e"
      then obtain new where new: "ds = docs @ new" "list_all doc_framed new" "concat new = win buf i e" by blast
      have lw: "length (win buf i e) = e - i" using "1.prems" by simp
      with new i obtain d rest where dr: "new = d # rest" by (cases new) auto
      have le: "i + length d \<le> e" using arg_cong [OF new(3), of length] lw dr i by simp
      have dw: "win buf i (i + length d) = d"
        using arg_cong [OF new(3), of "take (length d)"] le dr by (simp add: take_win)
      have df: "doc_framed d" using new dr by simp
      then have i4: "i + 4 \<le> e" using le by (simp add: doc_framed_def)
      have d: "doc_at buf i e Kind1_inner = Inr d" using doc_at_iff [OF i4 "1.prems"(2)] df le dw by simp
      have "concat rest = win buf (i + length d) e"
        using new(3) win_split [of i "i + length d" e buf] le dw dr by simp
      with "1.IH" [OF i _ d] i4 le "1.prems" new dr
      have "section_docs buf e (i + length d) (docs @ [d]) = Inr ds" by auto
      then show "section_docs buf e i docs = Inr ds" using i i4 d by (subst section_docs.simps) simp
    qed
  qed
qed

lemma section_docs_no_panic:
  assumes "e \<le> length buf" shows "section_docs buf e i docs \<noteq> Inl Panic"
  using assms
proof (induction buf e i docs rule: section_docs.induct)
  case (1 buf e i docs)
  then show ?case
    by (subst section_docs.simps) (auto simp: bind_res_panic_iff doc_at_no_panic)
qed

lemma kind0_doc_at:
  "i + 4 \<le> e \<Longrightarrow> kind0_section buf e i None = doc_at buf i e Kind0"
  by (simp add: kind0_section_def doc_at_def)

lemma kind0_section_iff:
  assumes "e \<le> length buf"
  shows "kind0_section buf e i bdy = Inr d \<longleftrightarrow>
    bdy = None \<and> doc_framed d \<and> i + length d \<le> e \<and> win buf i (i + length d) = d"
proof (cases "i + 4 \<le> e \<and> bdy = None")
  case True
  then show ?thesis using doc_at_iff [OF _ assms] by (simp add: kind0_doc_at)
next
  case False
  then have "kind0_section buf e i bdy \<noteq> Inr d"
    by (auto simp: kind0_section_def bind_res_Inr_iff split: if_splits)
  with False show ?thesis by (auto simp: doc_framed_def)
qed

lemma kind0_section_no_panic:
  "e \<le> length buf \<Longrightarrow> kind0_section buf e i bdy \<noteq> Inl Panic"
  by (auto simp: kind0_section_def bind_res_panic_iff check_doc_len_no_panic validate_bson_no_panic
      rd_i32_win check_doc_len_def slice_win split: if_splits)

lemma kind1_section_no_panic:
  assumes "e \<le> length buf" shows "kind1_section buf e i \<noteq> Inl Panic"
  using assms
  by (auto simp: kind1_section_def Let_def bind_res_panic_iff section_docs_no_panic rd_i32_win
      memchr0_win slice_win dest!: position_SomeD split: option.splits if_splits)

lemma sequence_len_ge: "5 \<le> sequence_len s"
  by (simp add: sequence_len_def)

text \<open>The bytes of a kind-1 section past its kind byte.\<close>

abbreviation sequence_bytes :: "document_sequence \<Rightarrow> bytes" where
  "sequence_bytes s \<equiv> le_bytes 4 (sequence_len s) @ seq_identifier s @ 0 # concat (documents s)"

lemma length_sequence_bytes: "length (sequence_bytes s) = sequence_len s"
  by (simp add: sequence_len_def)

lemma kind1_sectionD:
  assumes e: "e \<le> length buf" and r: "kind1_section buf e i = Inr (sq, j)"
  shows "section_ok (Sequence_section sq) \<and> j = i + sequence_len sq \<and> j \<le> e \<and> win buf i j = sequence_bytes sq"
proof -
  let ?w = "win buf i (i + 4)"
  let ?n = "i32_from_le ?w"
  have i4: "i + 4 \<le> e" using r by (auto simp: kind1_section_def split: if_splits)
  then have lw: "length ?w = 4" using e by simp
  have rd: "rd_i32 buf i = Inr ?n" using i4 e by (simp add: rd_i32_win)
  have n: "4 \<le> sint ?n" "i + nat (sint ?n) \<le> e" and j: "j = i + nat (sint ?n)"
    using r i4 by (auto simp: kind1_section_def rd Let_def bind_res_Inr_iff split: if_splits option.splits)
  from n sint_i32_from_le_nonneg [OF lw] have m: "sint ?n = int (from_le_bytes ?w)" "from_le_bytes ?w < 2 ^ 31"
    by simp_all
  have ij: "i + 4 \<le> j" "j \<le> length buf" using n j e by simp_all
  have mem: "memchr0 buf (i + 4) j = Inr (map_option (\<lambda>n. i + 4 + n) (position (\<lambda>b. b = 0) (win buf (i + 4) j)))"
    using ij by (rule memchr0_win)
  have k: "kind1_section buf e i = bind_res (memchr0 buf (i + 4) j) (\<lambda>found.
      case found of None \<Rightarrow> Inl (Err (MalformedBody Kind1_no_terminator))
      | Some ident_end \<Rightarrow> bind_res (slice buf (i + 4) ident_end) (\<lambda>ident.
          if \<not> utf8_valid ident then Inl (Err (MalformedBody Kind1_not_utf8))
          else bind_res (section_docs buf j (ident_end + 1) []) (\<lambda>docs.
            Inr (\<lparr>seq_identifier = ident, documents = docs\<rparr>, j))))"
    using n(1) n(2) [folded j] i4 by (simp only: kind1_section_def rd Let_def bind_res_simps j [symmetric]) simp
  obtain p where p: "position (\<lambda>b. b = 0) (win buf (i + 4) j) = Some p"
    using r unfolding k mem by (cases "position (\<lambda>b. b = 0) (win buf (i + 4) j)") simp_all
  have "i + 4 + p \<le> length buf" using position_SomeD [OF p] ij by auto
  then have sl: "slice buf (i + 4) (i + 4 + p) = Inr (win buf (i + 4) (i + 4 + p))" by (simp add: slice_win)
  obtain docs where u: "utf8_valid (win buf (i + 4) (i + 4 + p))"
    and sq: "sq = \<lparr>seq_identifier = win buf (i + 4) (i + 4 + p), documents = docs\<rparr>"
    and docs: "section_docs buf j (i + 4 + p + 1) [] = Inr docs"
    using r unfolding k mem p by (auto simp: sl bind_res_Inr_iff split: if_splits)
  have pl: "p < j - (i + 4)" using position_SomeD [OF p] ij by auto
  then have z: "buf ! (i + 4 + p) = 0" and nz: "0 \<notin> set (win buf (i + 4) (i + 4 + p))"
    using position_SomeD [OF p] ij by (auto simp: min_absorb1)
  have pj: "i + 4 + p < j" using pl by simp
  from docs section_docs_iff [of "i + 4 + p + 1" j buf "[]" docs] pj ij
  have ds: "list_all doc_framed docs" "concat docs = win buf (i + 4 + p + 1) j" by simp_all
  have len: "sequence_len sq = j - i" using sq ds ij pj by (simp add: sequence_len_def)
  have "win buf (i + 4) j = win buf (i + 4) (i + 4 + p) @ win buf (i + 4 + p) j"
    using pj by (intro win_split) simp_all
  also have "win buf (i + 4 + p) j = 0 # concat docs"
    using win_Cons [OF pj ij(2)] z ds by simp
  finally have "win buf i j = ?w @ seq_identifier sq @ 0 # concat (documents sq)"
    using win_split [of i "i + 4" j buf] ij sq by simp
  moreover have "?w = le_bytes 4 (sequence_len sq)"
    using len j m lw le_bytes_from_le_bytes [of ?w 4] by simp
  ultimately show ?thesis using len j n m ij u nz ds sq by simp
qed

lemma kind1_sectionI:
  assumes e: "e \<le> length buf" and ok: "section_ok (Sequence_section sq)"
    and j: "j = i + sequence_len sq" "j \<le> e" and w: "win buf i j = sequence_bytes sq"
  shows "kind1_section buf e i = Inr (sq, j)"
proof -
  let ?id = "seq_identifier sq"
  have ij: "i + 5 + length ?id \<le> j" using j by (simp add: sequence_len_def)
  have w4: "win buf i (i + 4) = le_bytes 4 (sequence_len sq)"
    using take_win [of i 4 j buf] ij w by simp
  then have n: "sint (i32_from_le (win buf i (i + 4))) = int (sequence_len sq)"
    using ok by (simp add: sint_i32_from_le)
  have i4: "i + 4 \<le> e" using ij j by simp
  have rest: "win buf (i + 4) j = ?id @ 0 # concat (documents sq)"
    using win_split [of i "i + 4" j buf] ij w w4 by simp
  have p: "position (\<lambda>b. b = 0) (win buf (i + 4) j) = Some (length ?id)"
    unfolding rest using ok by (intro position_append) auto
  have id: "win buf (i + 4) (i + 4 + length ?id) = ?id"
    using take_win [of "i + 4" "length ?id" j buf] ij rest by simp
  have "win buf (i + 4) j = ?id @ win buf (i + 4 + length ?id) j"
    using win_split [of "i + 4" "i + 4 + length ?id" j buf] ij id by simp
  with rest have "win buf (i + 4 + length ?id) j = 0 # concat (documents sq)" by simp
  moreover have "win buf (i + 4 + length ?id) j = buf ! (i + 4 + length ?id) # win buf (Suc (i + 4 + length ?id)) j"
    using ij j e by (intro win_Cons) simp_all
  moreover have "Suc (i + 4 + length ?id) = i + 5 + length ?id" by simp
  ultimately have "concat (documents sq) = win buf (i + 5 + length ?id) j" by (metis list.inject)
  then have docs: "section_docs buf j (i + 5 + length ?id) [] = Inr (documents sq)"
    using section_docs_iff [of "i + 5 + length ?id" j buf "[]"] ij j e ok by simp
  have "memchr0 buf (i + 4) j = Inr (Some (i + 4 + length ?id))"
    using ij j e p by (simp add: memchr0_win)
  moreover have "slice buf (i + 4) (i + 4 + length ?id) = Inr ?id"
    using ij j e id by (simp add: slice_win)
  ultimately show ?thesis
    using n i4 j e ok docs sequence_len_ge [of sq]
    by (simp add: kind1_section_def rd_i32_win Let_def add_ac)
qed

definition opt_list :: "'a option \<Rightarrow> 'a list" where
  "opt_list x = (case x of None \<Rightarrow> [] | Some y \<Rightarrow> [y])"

lemma opt_list_simps [simp]: "opt_list None = []" "opt_list (Some y) = [y]"
  by (simp_all add: opt_list_def)

lemma section_bytes_nonempty: "section_bytes s \<noteq> []"
  by (cases s) simp_all

lemma op_msg_sections_sound:
  assumes "i \<le> e" "e \<le> length buf" "op_msg_sections buf e i bdy seqs = Inr r"
  shows "\<exists>ss. list_all section_ok ss \<and> concat (map section_bytes ss) = win buf i e
    \<and> opt_list (fst r) = opt_list bdy @ section_bodies ss \<and> snd r = seqs @ section_sequences ss"
  using assms
proof (induction buf e i bdy seqs rule: op_msg_sections.induct)
  case (1 buf e i bdy seqs)
  show ?case
  proof (cases "i < e")
    case False
    with 1 have "r = (bdy, seqs)" "i = e" by (subst (asm) (2) op_msg_sections.simps, simp_all)
    then show ?thesis by (intro exI [of _ "[]"]) simp
  next
    case i: True
    have k: "index buf i = Inr (buf ! i)" using i "1.prems" by (simp add: index_nth)
    have w: "win buf i e = buf ! i # win buf (Suc i) e" using i "1.prems" by (intro win_Cons) simp_all
    consider (body) "buf ! i = 0" | (seq) "buf ! i = 1"
      using "1.prems"(3) i k by (subst (asm) op_msg_sections.simps) (auto split: if_splits)
    then show ?thesis
    proof cases
      case body
      then obtain d where d: "kind0_section buf e (i + 1) bdy = Inr d"
        and rec: "op_msg_sections buf e (i + 1 + length d) (Some d) seqs = Inr r"
        using "1.prems"(3) i k by (subst (asm) op_msg_sections.simps) (auto simp: bind_res_Inr_iff)
      from d kind0_section_iff [OF "1.prems"(2)] have df: "bdy = None" "doc_framed d" "i + 1 + length d \<le> e"
        "win buf (i + 1) (i + 1 + length d) = d" by simp_all
      from "1.IH"(1) [OF i k body d df(3) "1.prems"(2) rec] obtain ss where
        ss: "list_all section_ok ss" "concat (map section_bytes ss) = win buf (i + 1 + length d) e"
        "opt_list (fst r) = d # section_bodies ss" "snd r = seqs @ section_sequences ss" by auto
      have "win buf (Suc i) e = d @ win buf (i + 1 + length d) e"
        using win_split [of "Suc i" "i + 1 + length d" e buf] df by simp
      with ss df w body show ?thesis by (intro exI [of _ "Body_section d # ss"]) simp
    next
      case seq
      then obtain sq j where d: "kind1_section buf e (i + 1) = Inr (sq, j)"
        and rec: "op_msg_sections buf e j bdy (seqs @ [sq]) = Inr r"
        using "1.prems"(3) i k by (subst (asm) op_msg_sections.simps) (auto simp: bind_res_Inr_iff)
      from kind1_sectionD [OF "1.prems"(2) d] have df: "section_ok (Sequence_section sq)"
        "j = i + 1 + sequence_len sq" "j \<le> e" "win buf (i + 1) j = sequence_bytes sq" by blast+
      have "buf ! i \<noteq> 0" using seq by simp
      from "1.IH"(2) [OF i k this seq d] df(3) "1.prems"(2) rec obtain ss where
        ss: "list_all section_ok ss" "concat (map section_bytes ss) = win buf j e"
        "opt_list (fst r) = opt_list bdy @ section_bodies ss" "snd r = seqs @ sq # section_sequences ss" by auto
      have "win buf (Suc i) e = sequence_bytes sq @ win buf j e"
        using win_split [of "Suc i" j e buf] df by simp
      with ss df w seq show ?thesis by (intro exI [of _ "Sequence_section sq # ss"]) simp
    qed
  qed
qed

lemma op_msg_sections_complete:
  assumes "i \<le> e" "e \<le> length buf" "list_all section_ok ss" "concat (map section_bytes ss) = win buf i e"
    and "opt_list b = opt_list bdy @ section_bodies ss"
  shows "op_msg_sections buf e i bdy seqs = Inr (b, seqs @ section_sequences ss)"
  using assms
proof (induction ss arbitrary: i bdy seqs)
  case Nil
  then have "i = e" using arg_cong [OF Nil(4), of length] by simp
  moreover have "b = bdy" using Nil by (auto simp: opt_list_def split: option.splits)
  ultimately show ?case by (subst op_msg_sections.simps) simp
next
  case (Cons s ss)
  have lw: "length (section_bytes s) + length (concat (map section_bytes ss)) = e - i"
    using arg_cong [OF Cons.prems(4), of length] Cons.prems(2) by simp
  have "0 < length (section_bytes s)" using section_bytes_nonempty [of s] by simp
  with lw have i: "i < e" and le: "i + length (section_bytes s) \<le> e" by linarith+
  let ?j = "i + length (section_bytes s)"
  have w1: "win buf i ?j = section_bytes s"
    using arg_cong [OF Cons.prems(4), of "take (length (section_bytes s))"] le by (simp add: take_win)
  have w2: "concat (map section_bytes ss) = win buf ?j e"
    using Cons.prems(4) win_split [of i ?j e buf] le w1 by simp
  have k: "index buf i = Inr (buf ! i)" using i Cons.prems by (simp add: index_nth)
  have w: "win buf i ?j = buf ! i # win buf (Suc i) ?j"
    using le Cons.prems(2) \<open>0 < length (section_bytes s)\<close> by (intro win_Cons) simp_all
  show ?case
  proof (cases s)
    case (Body_section d)
    then have "buf ! i = 0" "win buf (Suc i) ?j = d" using w w1 by simp_all
    moreover have "bdy = None" using Cons.prems(5) Body_section
      by (auto simp: opt_list_def split: option.splits)
    moreover have "doc_framed d" using Cons.prems(3) Body_section by simp
    ultimately have "kind0_section buf e (i + 1) bdy = Inr d"
      using kind0_section_iff [OF Cons.prems(2)] le Body_section by simp
    moreover have "op_msg_sections buf e ?j (Some d) seqs = Inr (b, seqs @ section_sequences ss)"
      using Cons.prems le w2 Body_section \<open>bdy = None\<close> by (intro Cons.IH) simp_all
    ultimately show ?thesis
      using i k \<open>buf ! i = 0\<close> Body_section by (subst op_msg_sections.simps) simp
  next
    case (Sequence_section sq)
    then have "buf ! i = 1" "win buf (Suc i) ?j = sequence_bytes sq" using w w1 by simp_all
    moreover have "?j = Suc i + sequence_len sq" using Sequence_section by (simp add: sequence_len_def)
    ultimately have "kind1_section buf e (Suc i) = Inr (sq, ?j)"
      using Cons.prems(3) Sequence_section le by (intro kind1_sectionI [OF Cons.prems(2)]) simp_all
    moreover have "op_msg_sections buf e ?j bdy (seqs @ [sq]) = Inr (b, (seqs @ [sq]) @ section_sequences ss)"
      using Cons.prems le w2 Sequence_section by (intro Cons.IH) simp_all
    ultimately show ?thesis
      using i k \<open>buf ! i = 1\<close> Sequence_section by (subst op_msg_sections.simps) simp
  qed
qed

section \<open>Building replies\<close>

definition build_op_msg_reply :: "i32 \<Rightarrow> i32 \<Rightarrow> bytes \<Rightarrow> u32 \<Rightarrow> bytes" where
  "build_op_msg_reply respto reqid body_bytes fl =
     (let payload_len = 4 + 1 + length body_bytes;
          h = \<lparr>message_length = of_nat (HEADER_SIZE + payload_len), request_id = reqid,
               response_to = respto, op_code = OP_MSG\<rparr>
      in pack h @ i32_to_le fl @ 0 # body_bytes)"

definition build_op_reply :: "i32 \<Rightarrow> i32 \<Rightarrow> bytes list \<Rightarrow> i64 \<Rightarrow> i32 \<Rightarrow> u32 \<Rightarrow> bytes" where
  "build_op_reply respto reqid docs cursor_id starting_from response_flags =
     (let docs_len = sum_list (map length docs);
          payload_len = 4 + 8 + 4 + 4 + docs_len;
          h = \<lparr>message_length = of_nat (HEADER_SIZE + payload_len), request_id = reqid,
               response_to = respto, op_code = OP_REPLY\<rparr>
      in pack h @ i32_to_le response_flags @ le_bytes 8 (unat cursor_id) @ i32_to_le starting_from
         @ i32_to_le (of_nat (length docs)) @ concat docs)"

lemma length_pack [simp]: "length (pack h) = 16"
  by (simp add: pack_def)

lemma unpack_pack [simp]: "unpack (pack h @ rest) = Inr h"
  by (simp add: unpack_def rd_i32_win pack_def HEADER_SIZE_def)

lemma unpack_no_panic: "unpack buf \<noteq> Inl Panic"
  by (auto simp: unpack_def HEADER_SIZE_def bind_res_panic_iff rd_i32_win)

lemma op_msg_sections_no_panic:
  assumes "e \<le> length buf" shows "op_msg_sections buf e i bdy seqs \<noteq> Inl Panic"
  using assms
proof (induction buf e i bdy seqs rule: op_msg_sections.induct)
  case (1 buf e i bdy seqs)
  then show ?case
    by (subst op_msg_sections.simps)
       (auto simp: bind_res_panic_iff index_nth kind0_section_no_panic kind1_section_no_panic)
qed

lemma parse_op_msg_no_panic: "parse_op_msg buf \<noteq> Inl Panic"
  by (auto simp: parse_op_msg_def bind_res_panic_iff rd_u32_win Let_def op_msg_sections_no_panic
      split: option.splits)

lemma parse_op_query_no_panic: "parse_op_query buf \<noteq> Inl Panic"
proof -
  have "name_end \<le> length buf" if "memchr0 buf 4 (length buf) = Inr (Some name_end)" "4 \<le> length buf" for name_end
    using that by (auto simp: memchr0_win dest!: position_SomeD)
  moreover have "4 \<le> name_end" if "memchr0 buf 4 (length buf) = Inr (Some name_end)" for name_end
    using that by (auto simp: memchr0_def bind_res_Inr_iff)
  ultimately show ?thesis
    by (auto simp: parse_op_query_def bind_res_panic_iff rd_u32_win rd_i32_win slice_win Let_def
        doc_at_no_panic memchr0_win [of 4 "length buf" buf] split: option.splits if_splits)
qed

section \<open>Properties\<close>

lemma parse_op_msg_complete:
  assumes "length trailer = (if fl AND OP_MSG_FLAG_CHECKSUM_PRESENT \<noteq> 0 then 4 else 0)"
    and "list_all section_ok ss" "section_bodies ss = [b]"
  shows "parse_op_msg (i32_to_le fl @ concat (map section_bytes ss) @ trailer)
    = Inr \<lparr>flags = fl, body = b, document_sequences = section_sequences ss\<rparr>"
proof -
  define buf where "buf = i32_to_le fl @ concat (map section_bytes ss) @ trailer"
  define e where "e = 4 + length (concat (map section_bytes ss))"
  have "op_msg_sections buf e 4 None [] = Inr (Some b, [] @ section_sequences ss)"
    using assms by (intro op_msg_sections_complete) (simp_all add: e_def buf_def)
  moreover have "length buf = e + length trailer" by (simp add: e_def buf_def)
  moreover have "rd_u32 buf 0 = Inr fl" by (simp add: buf_def rd_u32_win)
  ultimately show ?thesis
    using assms by (simp add: parse_op_msg_def Let_def e_def buf_def [symmetric])
qed

text \<open>C4: \<open>parse_op_msg\<close> accepts exactly the bytes of the \<open>OP_MSG\<close> grammar and
  returns what they hold: the flags, then sections of kind 0 (exactly one) and kind 1 in any
  order, each document framed by its length and each identifier a UTF-8 C string, then four
  bytes of checksum where the flag says so. No byte is skipped and no length is trusted.\<close>

theorem parse_op_msg_exact:
  "parse_op_msg buf = Inr m \<longleftrightarrow>
     (\<exists>ss trailer. buf = i32_to_le (flags m) @ concat (map section_bytes ss) @ trailer
        \<and> length trailer = (if flags m AND OP_MSG_FLAG_CHECKSUM_PRESENT \<noteq> 0 then 4 else 0)
        \<and> list_all section_ok ss \<and> section_bodies ss = [body m]
        \<and> section_sequences ss = document_sequences m)" (is "_ \<longleftrightarrow> ?R")
proof
  assume p: "parse_op_msg buf = Inr m"
  let ?fl = "i32_from_le (win buf 0 4)"
  define e where "e = (if ?fl AND OP_MSG_FLAG_CHECKSUM_PRESENT \<noteq> 0 then length buf - 4 else length buf)"
  have l4: "4 \<le> length buf" using p by (auto simp: parse_op_msg_def split: if_splits)
  obtain r where r: "op_msg_sections buf e 4 None [] = Inr r" and b: "fst r = Some (body m)"
    and m: "flags m = ?fl" "document_sequences m = snd r"
    using p l4 by (auto simp: parse_op_msg_def rd_u32_win Let_def bind_res_Inr_iff e_def split: option.splits)
  have "4 \<le> e" 
  proof (rule ccontr)
    assume "\<not> 4 \<le> e"
    then have "r = (None, [])" using r by (subst (asm) op_msg_sections.simps) simp
    with b show False by simp
  qed
  moreover have el: "e \<le> length buf" by (simp add: e_def)
  ultimately obtain ss where ss: "list_all section_ok ss" "concat (map section_bytes ss) = win buf 4 e"
    "opt_list (fst r) = section_bodies ss" "snd r = section_sequences ss"
    using op_msg_sections_sound [OF _ _ r] by auto
  have "buf = win buf 0 4 @ win buf 4 e @ drop e buf"
    using win_split [of 0 4 e buf] \<open>4 \<le> e\<close> append_take_drop_id [of e buf] by simp
  moreover have "win buf 0 4 = i32_to_le (flags m)" using l4 m by (simp add: i32_to_le_from_le)
  moreover have "length (drop e buf) = (if flags m AND OP_MSG_FLAG_CHECKSUM_PRESENT \<noteq> 0 then 4 else 0)"
    using m l4 by (simp add: e_def)
  ultimately show ?R using ss b m by (intro exI [of _ ss] exI [of _ "drop e buf"]) simp
next
  assume ?R
  then show "parse_op_msg buf = Inr m" using parse_op_msg_complete by auto
qed

lemma parse_body_no_panic: "parse_body opc bdy \<noteq> Inl Panic"
  by (auto simp: parse_body_def bind_res_panic_iff parse_op_msg_no_panic
      parse_op_query_no_panic memchr0_win)

lemma body_len_iff:
  "body_len h = Inr n \<longleftrightarrow>
     (let s = sint (message_length h) in
        (16 \<le> s \<and> s \<le> MAX_MESSAGE_SIZE \<and> n = nat s - HEADER_SIZE)
      \<or> (s < 0 \<and> n = nat (2 ^ 64 + s) - HEADER_SIZE \<and> 2 ^ 63 < n))"
proof -
  let ?s = "sint (message_length h)"
  have "- (2 ^ 31) \<le> ?s" using sint_ge [of "message_length h"] by simp
  then show ?thesis
    by (cases "?s < 0")
       (auto simp: body_len_def as_usize_nonneg as_usize_neg HEADER_SIZE_def MAX_MESSAGE_SIZE_def Let_def)
qed

text \<open>C33: the lengths \<open>body_len\<close> accepts. Between the header size and the maximum it
  gives the length of the body. It also accepts every negative length, because the cast to
  \<open>usize\<close> makes it huge: the body then has more than \<open>2^63\<close> bytes, which no allocation can
  serve.\<close>

theorem body_len_accepts:
  "body_len h = Inr n \<longleftrightarrow>
     (let s = sint (message_length h) in
        (16 \<le> s \<and> s \<le> MAX_MESSAGE_SIZE \<and> n = nat s - HEADER_SIZE)
      \<or> (s < 0 \<and> n = nat (2 ^ 64 + s) - HEADER_SIZE \<and> 2 ^ 63 < n))"
  by (rule body_len_iff)

lemma sint_of_nat_i32: "n < 2 ^ 31 \<Longrightarrow> sint (of_nat n :: i32) = int n"
  by (simp add: signed_of_nat signed_take_bit_int_eq_self)

text \<open>A reply frame reads back: its header, the length of its body, and
  a parse of the rest that gives the flags and the document.\<close>

theorem op_msg_reply_roundtrip:
  assumes "doc_framed d" "length d + 21 \<le> nat MAX_MESSAGE_SIZE" "fl AND OP_MSG_FLAG_CHECKSUM_PRESENT = 0"
  shows "unpack (build_op_msg_reply respto reqid d fl)
           = Inr \<lparr>message_length = of_nat (length d + 21), request_id = reqid, response_to = respto, op_code = OP_MSG\<rparr>
       \<and> body_len \<lparr>message_length = of_nat (length d + 21), request_id = reqid, response_to = respto, op_code = OP_MSG\<rparr>
           = Inr (length d + 5)
       \<and> parse_body OP_MSG (drop HEADER_SIZE (build_op_msg_reply respto reqid d fl))
           = Inr (Msg \<lparr>flags = fl, body = d, document_sequences = []\<rparr>)"
proof (intro conjI)
  let ?m = "\<lparr>flags = fl, body = d, document_sequences = []\<rparr>"
  have h: "build_op_msg_reply respto reqid d fl = pack \<lparr>message_length = of_nat (length d + 21),
      request_id = reqid, response_to = respto, op_code = OP_MSG\<rparr> @ i32_to_le fl @ 0 # d"
    by (simp add: build_op_msg_reply_def HEADER_SIZE_def Let_def add_ac)
  show "unpack (build_op_msg_reply respto reqid d fl) = Inr \<lparr>message_length = of_nat (length d + 21),
      request_id = reqid, response_to = respto, op_code = OP_MSG\<rparr>"
    unfolding h by (rule unpack_pack)
  have "sint (of_nat (length d + 21) :: i32) = int (length d + 21)"
    using assms(2) by (intro sint_of_nat_i32) (simp add: MAX_MESSAGE_SIZE_def)
  then show "body_len \<lparr>message_length = of_nat (length d + 21), request_id = reqid, response_to = respto, op_code = OP_MSG\<rparr>
      = Inr (length d + 5)"
    using assms(2) unfolding body_len_def
    by (simp add: as_usize_nonneg HEADER_SIZE_def MAX_MESSAGE_SIZE_def del: of_nat_add)
  have "parse_op_msg (i32_to_le fl @ 0 # d) = Inr ?m"
    using parse_op_msg_complete [of "[]" fl "[Body_section d]" d] assms by simp
  then show "parse_body OP_MSG (drop HEADER_SIZE (build_op_msg_reply respto reqid d fl)) = Inr (Msg ?m)"
    unfolding h by (simp add: parse_body_def HEADER_SIZE_def)
qed

theorem op_msg_reply_roundtrip_witness:
  "parse_body OP_MSG (drop HEADER_SIZE (build_op_msg_reply 7 9 [5, 0, 0, 0, 0] 2))
     = Inr (Msg \<lparr>flags = 2, body = [5, 0, 0, 0, 0], document_sequences = []\<rparr>)"
  using op_msg_reply_roundtrip [of "[5, 0, 0, 0, 0]" 2 7 9]
  by (simp add: doc_framed_def MAX_MESSAGE_SIZE_def OP_MSG_FLAG_CHECKSUM_PRESENT_def)

end
