(* ===== verification/Wire_Checksum.thy ===== *)
theory Wire_Checksum
  imports Wire_Frames
begin

text \<open>
  The CRC-32C checksum of an \<open>OP_MSG\<close> (\<open>secantus-wire/src/lib.rs\<close>: \<open>crc32c\<close>,
  \<open>crc32c_update\<close>, \<open>op_msg_frame_problem\<close>, \<open>with_op_msg_checksum\<close>): the table-driven update is
  the bitwise one, a frame the server signs is accepted, and a frame with one altered byte is
  refused.
\<close>

unbundle bit_operations_syntax

section \<open>Definitions\<close>

text \<open>One bit of the division, the loop that fills a table slot, and the table.\<close>

definition crc_bit :: "u32 \<Rightarrow> u32" where
  "crc_bit c = (if c AND 1 \<noteq> 0 then 0x82F63B78 XOR drop_bit 1 c else drop_bit 1 c)"

definition TABLE :: "u32 list" where
  "TABLE = map (\<lambda>i. (crc_bit ^^ 8) (of_nat i)) [0..<256]"

definition crc_byte :: "u8 \<Rightarrow> u32 \<Rightarrow> u32" where
  "crc_byte b state = TABLE ! unat ((state XOR ucast b) AND 0xFF) XOR drop_bit 8 state"

definition crc32c_update :: "u32 \<Rightarrow> bytes \<Rightarrow> u32" where
  "crc32c_update state data = fold crc_byte data state"

definition crc32c :: "u32 \<Rightarrow> bytes \<Rightarrow> u32" where
  "crc32c state data = NOT (crc32c_update state data)"

datatype frame_problem = Unknown_required_flag | Too_short_for_checksum | Checksum_mismatch

definition op_msg_frame_problem :: "header \<Rightarrow> bytes \<Rightarrow> stop + frame_problem option" where
  "op_msg_frame_problem h bdy =
     (if length bdy < 4 then Inr None
      else bind_res (rd_u32 bdy 0) (\<lambda>fl.
        if fl AND OP_MSG_REQUIRED_FLAG_BITS
             AND NOT (OP_MSG_FLAG_CHECKSUM_PRESENT OR OP_MSG_FLAG_MORE_TO_COME) \<noteq> 0
        then Inr (Some Unknown_required_flag)
        else if fl AND OP_MSG_FLAG_CHECKSUM_PRESENT \<noteq> 0 then
          if length bdy < 8 then Inr (Some Too_short_for_checksum)
          else (let covered = take (length bdy - 4) bdy; trailer = drop (length bdy - 4) bdy;
                    head = i32_to_le (of_nat (HEADER_SIZE + length bdy)) @ i32_to_le (request_id h)
                         @ i32_to_le (response_to h) @ i32_to_le (op_code h);
                    sum = crc32c (crc32c_update (NOT 0) head) covered
                in bind_res (rd_u32 trailer 0) (\<lambda>t.
                     if sum \<noteq> t then Inr (Some Checksum_mismatch) else Inr None))
        else Inr None))"

definition with_op_msg_checksum :: "bytes \<Rightarrow> stop + bytes" where
  "with_op_msg_checksum frame =
     (if length frame < HEADER_SIZE + 4 then Inr frame
      else bind_res (rd_i32 frame 12) (\<lambda>opc.
        if opc \<noteq> OP_MSG then Inr frame
        else (let out = i32_to_le (of_nat (length frame + 4)) @ drop 4 frame in
          bind_res (rd_u32 out HEADER_SIZE) (\<lambda>fl.
            let out = take HEADER_SIZE out @ i32_to_le (fl OR OP_MSG_FLAG_CHECKSUM_PRESENT)
                      @ drop (HEADER_SIZE + 4) out
            in Inr (out @ i32_to_le (crc32c (NOT 0) out))))))"

section \<open>The table and the bits\<close>

lemma and_one_word: "(x AND 1 \<noteq> 0) = bit x 0" for x :: u32
  by (simp add: and_one_eq odd_iff_mod_2_eq_one even_iff_mod_2_eq_zero bit_0 flip: mod_2_eq_odd)

lemma crc_bit_alt: "crc_bit c = (if bit c 0 then 0x82F63B78 XOR drop_bit 1 c else drop_bit 1 c)"
  by (simp only: crc_bit_def and_one_word)

lemma crc_bit_xor: "crc_bit (a XOR b) = crc_bit a XOR crc_bit b"
  by (rule bit_word_eqI) (auto simp: crc_bit_alt bit_xor_iff bit_drop_bit_eq)

lemma crc_bits_xor: "(crc_bit ^^ n) (a XOR b) = (crc_bit ^^ n) a XOR (crc_bit ^^ n) b"
  by (induction n) (simp_all add: crc_bit_xor)

lemma crc_bits_shift: "(\<forall>i < n. \<not> bit a i) \<Longrightarrow> (crc_bit ^^ n) a = drop_bit n a"
proof (induction n)
  case (Suc n)
  then have "(crc_bit ^^ Suc n) a = crc_bit (drop_bit n a)" by simp
  also have "\<dots> = drop_bit 1 (drop_bit n a)" using Suc.prems by (simp add: crc_bit_alt bit_drop_bit_eq)
  finally show ?case by simp
qed simp

lemma low_byte_bits: "bit (x AND 0xFF) n \<longleftrightarrow> n < 8 \<and> bit x n" for x :: u32
proof -
  have m: "(0xFF :: u32) = mask 8" by (simp add: mask_eq_exp_minus_1)
  show ?thesis unfolding m by (auto simp: bit_and_iff bit_mask_iff dest: bit_imp_le_length)
qed

lemma crc_byte_bits: "crc_byte b s = (crc_bit ^^ 8) (s XOR ucast b)"
proof -
  let ?x = "s XOR ucast b"
  have "?x AND 0xFF < 256" by (rule le_less_trans [OF word_and_le1]) simp
  then have "unat (?x AND 0xFF) < 256" by (simp add: word_less_nat_alt)
  then have t: "TABLE ! unat (?x AND 0xFF) = (crc_bit ^^ 8) (?x AND 0xFF)" by (simp add: TABLE_def)
  have split: "?x = (?x AND 0xFF) XOR push_bit 8 (drop_bit 8 s)"
    by (rule bit_word_eqI)
       (auto simp: bit_xor_iff low_byte_bits bit_push_bit_iff bit_drop_bit_eq bit_ucast_iff dest: bit_imp_le_length)
  have "(crc_bit ^^ 8) ?x = (crc_bit ^^ 8) (?x AND 0xFF) XOR (crc_bit ^^ 8) (push_bit 8 (drop_bit 8 s))"
    by (subst split) (rule crc_bits_xor)
  also have "(crc_bit ^^ 8) (push_bit 8 (drop_bit 8 s)) = drop_bit 8 (push_bit 8 (drop_bit 8 s))"
    by (rule crc_bits_shift) (auto simp: bit_push_bit_iff)
  also have "\<dots> = drop_bit 8 s"
    by (rule bit_word_eqI) (auto simp: bit_push_bit_iff bit_drop_bit_eq dest: bit_imp_le_length)
  finally show ?thesis by (simp add: crc_byte_def t)
qed

lemma xor_left_inj: "c XOR x = c XOR y \<longleftrightarrow> x = y" for c :: u32
proof
  assume "c XOR x = c XOR y"
  then have "c XOR (c XOR x) = c XOR (c XOR y)" by simp
  then show "x = y" by (simp add: xor.assoc [symmetric])
qed simp

lemma crc_bit_inj: "crc_bit a = crc_bit b \<longleftrightarrow> a = b"
proof
  assume eq: "crc_bit a = crc_bit b"
  have "bit (0x82F63B78 :: u32) 31" by (simp add: bit_numeral_word_iff)
  then have t: "bit (crc_bit c) 31 = bit c 0" for c
    by (auto simp: crc_bit_alt bit_xor_iff bit_drop_bit_eq dest: bit_imp_le_length)
  have 0: "bit a 0 = bit b 0" using t [of a] t [of b] eq by simp
  have "drop_bit 1 a = drop_bit 1 b"
    using eq unfolding crc_bit_alt [of a] crc_bit_alt [of b] 0
    by (cases "bit b 0") (simp_all only: if_True if_False xor_left_inj)
  then have "bit (drop_bit 1 a) n = bit (drop_bit 1 b) n" for n by (rule arg_cong)
  then have "bit a (Suc n) = bit b (Suc n)" for n unfolding bit_drop_bit_eq by simp
  then have "bit a n = bit b n" for n using 0 by (cases n) simp_all
  then show "a = b" by (intro bit_word_eqI)
qed simp

lemma crc_bits_inj: "(crc_bit ^^ n) a = (crc_bit ^^ n) b \<longleftrightarrow> a = b"
  by (induction n) (simp_all add: crc_bit_inj)

lemma xor_ucast_inj: "s XOR ucast b = s XOR ucast b' \<longleftrightarrow> b = b'" for s :: u32 and b b' :: u8
proof
  assume "s XOR ucast b = s XOR ucast b'"
  then have "(ucast b :: u32) = ucast b'" by (simp only: xor_left_inj)
  then have "n < 32 \<Longrightarrow> bit b n = bit b' n" for n
    using bit_ucast_iff [of b n, where ?'a = 32] bit_ucast_iff [of b' n, where ?'a = 32] by simp
  then show "b = b'" by (intro bit_word_eqI) simp
qed simp

lemma crc_byte_inj:
  "crc_byte b s = crc_byte b s' \<longleftrightarrow> s = s'"
  "crc_byte b s = crc_byte b' s \<longleftrightarrow> b = b'"
proof -
  have "s XOR ucast b = s' XOR ucast b \<longleftrightarrow> s = s'"
    by (simp add: xor.commute [of _ "ucast b"] xor_left_inj)
  then show "crc_byte b s = crc_byte b s' \<longleftrightarrow> s = s'" by (simp add: crc_byte_bits crc_bits_inj)
  show "crc_byte b s = crc_byte b' s \<longleftrightarrow> b = b'" by (simp add: crc_byte_bits crc_bits_inj xor_ucast_inj)
qed

lemma crc32c_update_append: "crc32c_update s (a @ b) = crc32c_update (crc32c_update s a) b"
  by (simp add: crc32c_update_def)

lemma crc32c_update_inj: "crc32c_update s d = crc32c_update s' d \<longleftrightarrow> s = s'"
  by (induction d arbitrary: s s') (simp_all add: crc32c_update_def crc_byte_inj)

lemma crc32c_inj: "crc32c s d = crc32c s' d' \<longleftrightarrow> crc32c_update s d = crc32c_update s' d'"
  by (metis crc32c_def bit.double_compl)

lemma crc32c_one_byte: "crc32c s (a @ b # c) = crc32c s (a @ b' # c) \<longleftrightarrow> b = b'"
  by (simp add: crc32c_inj crc32c_update_append)
     (simp add: crc32c_update_def [of _ "_ # _"] crc32c_update_inj [unfolded crc32c_update_def] crc_byte_inj)

unbundle bit_operations_syntax

section \<open>Properties\<close>

text \<open>The checksum bit by bit, with no table.\<close>

definition crc_reference :: "u32 \<Rightarrow> bytes \<Rightarrow> u32" where
  "crc_reference s data = fold (\<lambda>b st. (crc_bit ^^ 8) (st XOR ucast b)) data s"

lemma crc32c_update_reference: "crc32c_update s data = crc_reference s data"
proof -
  have "crc_byte = (\<lambda>b st. (crc_bit ^^ 8) (st XOR ucast b))" by (intro ext) (rule crc_byte_bits)
  then show ?thesis by (simp add: crc32c_update_def crc_reference_def)
qed

lemma funpow_8: "(f ^^ 8) x = f (f (f (f (f (f (f (f x)))))))" by (simp add: numeral_eq_Suc)
lemma crc_bit_of_nat:
  assumes "n < 2 ^ 31"
  shows "crc_bit (of_nat (2 * n)) = of_nat n" "crc_bit (of_nat (2 * n + 1)) = 0x82F63B78 XOR of_nat n"
proof -
  have u: "m < 2 ^ 32 \<Longrightarrow> unat (of_nat m :: u32) = m" for m by (simp add: unat_of_nat)
  have b: "bit w 0 = odd (unat w)" for w :: u32
  proof -
    have "bit (unat w) 0 = bit w 0" by (simp add: bit_unsigned_iff)
    then show ?thesis by (simp add: bit_0)
  qed
  have d: "drop_bit 1 w = of_nat (unat w div 2)" for w :: u32
  proof -
    have "unat (drop_bit 1 w) = unat w div 2" unfolding unat_drop_bit_eq by (simp add: drop_bit_eq_div)
    then have "of_nat (unat (drop_bit 1 w)) = (of_nat (unat w div 2) :: u32)" by (rule arg_cong)
    then show ?thesis by (simp only: of_nat_unat ucast_id)
  qed
  have "unat (of_nat (2 * n) :: u32) = 2 * n" "unat (of_nat (2 * n + 1) :: u32) = 2 * n + 1"
    using assms by (intro u; simp)+
  then show "crc_bit (of_nat (2 * n)) = of_nat n" "crc_bit (of_nat (2 * n + 1)) = 0x82F63B78 XOR of_nat n"
    unfolding crc_bit_alt b d by simp_all
qed

lemma crc_bit_numeral:
  assumes "numeral n < (2 ^ 31 :: nat)"
  shows "crc_bit (numeral (num.Bit0 n)) = numeral n"
    and "crc_bit (numeral (num.Bit1 n)) = 0x82F63B78 XOR numeral n"
proof -
  have "of_nat (2 * numeral n) = (numeral (num.Bit0 n) :: u32)"
    and "of_nat (2 * numeral n + 1) = (numeral (num.Bit1 n) :: u32)"
    by simp_all
  with crc_bit_of_nat [OF assms] show "crc_bit (numeral (num.Bit0 n)) = numeral n"
    and "crc_bit (numeral (num.Bit1 n)) = 0x82F63B78 XOR numeral n"
    by (simp_all only: of_nat_numeral)
qed

text \<open>C29: the table-driven checksum is the bitwise CRC-32C division on every
  input, and the published check value of the algorithm comes out.\<close>

theorem crc32c_table_exact:
  "crc32c s data = NOT (crc_reference s data) \<and> crc32c (NOT 0) (lit ''123456789'') = 0xE3069283"
proof
  show "crc32c s data = NOT (crc_reference s data)" by (simp add: crc32c_def crc32c_update_reference)
  have l: "lit ''123456789'' = [49, 50, 51, 52, 53, 54, 55, 56, 57]" by code_simp
  have "NOT (crc_reference 0xFFFFFFFF (lit ''123456789'')) = 0xE3069283"
    unfolding l crc_reference_def by (simp add: crc_bit_numeral funpow_8)
  moreover have "NOT (0 :: u32) = 0xFFFFFFFF" by simp
  ultimately show "crc32c (NOT 0) (lit ''123456789'') = 0xE3069283"
    by (simp only: crc32c_def crc32c_update_reference)
qed

abbreviation msg_flags :: "bytes \<Rightarrow> u32" where
  "msg_flags bdy \<equiv> i32_from_le (take 4 bdy)"

definition frame_head :: "header \<Rightarrow> nat \<Rightarrow> bytes" where
  "frame_head h n = i32_to_le (of_nat (HEADER_SIZE + n)) @ i32_to_le (request_id h)
     @ i32_to_le (response_to h) @ i32_to_le (op_code h)"

lemma frame_problem_checksummed:
  assumes "8 \<le> length bdy" "msg_flags bdy AND OP_MSG_FLAG_CHECKSUM_PRESENT \<noteq> 0"
  shows "op_msg_frame_problem h bdy = Inr None \<longleftrightarrow>
      msg_flags bdy AND OP_MSG_REQUIRED_FLAG_BITS
        AND NOT (OP_MSG_FLAG_CHECKSUM_PRESENT OR OP_MSG_FLAG_MORE_TO_COME) = 0
    \<and> drop (length bdy - 4) bdy = i32_to_le (crc32c (NOT 0) (frame_head h (length bdy) @ take (length bdy - 4) bdy))"
proof -
  let ?t = "drop (length bdy - 4) bdy"
  have lt: "length ?t = 4" using assms(1) by simp
  have "rd_u32 ?t 0 = Inr (i32_from_le ?t)" using lt by (simp add: rd_u32_win)
  moreover have "rd_u32 bdy 0 = Inr (msg_flags bdy)" using assms(1) by (simp add: rd_u32_win)
  moreover have "w = i32_from_le ?t \<longleftrightarrow> ?t = i32_to_le w" for w
    using i32_to_le_from_le [OF lt] by auto
  ultimately show ?thesis
    using assms by (simp add: op_msg_frame_problem_def frame_head_def Let_def crc32c_def crc32c_update_append)
qed

lemma list_split_at: "i < length xs \<Longrightarrow> xs[i := b] = take i xs @ b # drop (Suc i) xs"
  by (rule upd_conv_take_nth_drop)

text \<open>C28: an \<open>OP_MSG\<close> with a checksum that was accepted is refused once any one of
  its bytes is altered, in the sections or in the checksum itself, as long as its flags still
  say that it has one.\<close>

theorem corrupt_byte_refused:
  assumes ok: "op_msg_frame_problem h bdy = Inr None"
    and fl: "msg_flags bdy AND OP_MSG_FLAG_CHECKSUM_PRESENT \<noteq> 0"
    and i: "i < length bdy" "b \<noteq> bdy ! i"
    and fl': "msg_flags (bdy[i := b]) AND OP_MSG_FLAG_CHECKSUM_PRESENT \<noteq> 0" and l: "8 \<le> length bdy"
  shows "op_msg_frame_problem h (bdy[i := b]) \<noteq> Inr None"
proof
  let ?n = "length bdy - 4"
  let ?sum = "\<lambda>d. i32_to_le (crc32c (NOT 0) (frame_head h (length bdy) @ take ?n d))"
  assume bad: "op_msg_frame_problem h (bdy[i := b]) = Inr None"
  have 1: "drop ?n bdy = ?sum bdy" using frame_problem_checksummed [OF l fl] ok by simp
  have 2: "drop ?n (bdy[i := b]) = ?sum (bdy[i := b])"
    using frame_problem_checksummed [of "bdy[i := b]"] l fl' bad by simp
  show False
  proof (cases "i < ?n")
    case True
    then have "drop ?n (bdy[i := b]) = drop ?n bdy" by simp
    with 1 2 have "?sum bdy = ?sum (bdy[i := b])" by simp
    then have "crc32c (NOT 0) (frame_head h (length bdy) @ take ?n bdy)
        = crc32c (NOT 0) (frame_head h (length bdy) @ take ?n (bdy[i := b]))"
      by (metis i32_from_le_to_le)
    moreover have "take ?n bdy = take i bdy @ bdy ! i # drop (Suc i) (take ?n bdy)"
      using True id_take_nth_drop [of i "take ?n bdy"] by (simp add: min_absorb2)
    moreover have "take ?n (bdy[i := b]) = take i bdy @ b # drop (Suc i) (take ?n bdy)"
      using True list_split_at [of i "take ?n bdy" b] by (simp add: take_update_swap min_absorb2)
    ultimately have "crc32c (NOT 0) ((frame_head h (length bdy) @ take i bdy) @ bdy ! i # drop (Suc i) (take ?n bdy))
        = crc32c (NOT 0) ((frame_head h (length bdy) @ take i bdy) @ b # drop (Suc i) (take ?n bdy))"
      by simp
    then show False using i by (simp only: crc32c_one_byte)
  next
    case False
    then have "take ?n (bdy[i := b]) = take ?n bdy" by simp
    with 1 2 have "drop ?n (bdy[i := b]) = drop ?n bdy" by simp
    then have "drop ?n (bdy[i := b]) ! (i - ?n) = drop ?n bdy ! (i - ?n)" by simp
    then show False using i False by simp
  qed
qed

unbundle bit_operations_syntax
lemma checksum_example:
  "op_msg_frame_problem \<lparr>message_length = 30, request_id = 1, response_to = 0, op_code = OP_MSG\<rparr>
     [1, 0, 0, 0, 0, 5, 0, 0, 0, 0, 222, 171, 28, 118] = Inr None"
proof -
  let ?h = "\<lparr>message_length = 30, request_id = 1, response_to = 0, op_code = OP_MSG\<rparr>"
  let ?b = "[1, 0, 0, 0, 0, 5, 0, 0, 0, 0, 222, 171, 28, 118]"
  have l: "length ?b = 14" "take (14 - 4) ?b = [1, 0, 0, 0, 0, 5, 0, 0, 0, 0]" "drop (14 - 4) ?b = [222, 171, 28, 118]"
    by simp_all
  have n: "NOT (0 :: u32) = 0xFFFFFFFF" by simp
  have "frame_head ?h 14 = [30, 0, 0, 0, 1, 0, 0, 0, 0, 0, 0, 0, 221, 7, 0, 0]" by code_simp
  then have "crc32c (NOT 0) (frame_head ?h 14 @ [1, 0, 0, 0, 0, 5, 0, 0, 0, 0]) = 0x761cabde"
    unfolding crc32c_def crc32c_update_reference crc_reference_def n by (simp add: crc_bit_numeral funpow_8)
  moreover have "i32_to_le 0x761cabde = [222, 171, 28, 118]" by code_simp
  moreover have "msg_flags ?b = 1" by code_simp
  ultimately show ?thesis
    by (subst frame_problem_checksummed; simp only: l; simp add: OP_MSG_REQUIRED_FLAG_BITS_def
        OP_MSG_FLAG_CHECKSUM_PRESENT_def OP_MSG_FLAG_MORE_TO_COME_def)
qed

theorem corrupt_byte_refused_witness:
  "op_msg_frame_problem \<lparr>message_length = 30, request_id = 1, response_to = 0, op_code = OP_MSG\<rparr>
     ([1, 0, 0, 0, 0, 5, 0, 0, 0, 0, 222, 171, 28, 118][5 := 6]) \<noteq> Inr None"
proof (rule corrupt_byte_refused [OF checksum_example])
  have f: "i32_from_le [1, 0, 0, 0] = 1" by code_simp
  then show "msg_flags [1, 0, 0, 0, 0, 5, 0, 0, 0, 0, 222, 171, 28, 118] AND OP_MSG_FLAG_CHECKSUM_PRESENT \<noteq> 0"
    and "msg_flags ([1, 0, 0, 0, 0, 5, 0, 0, 0, 0, 222, 171, 28, 118][5 := 6]) AND OP_MSG_FLAG_CHECKSUM_PRESENT \<noteq> 0"
    by (simp_all add: OP_MSG_FLAG_CHECKSUM_PRESENT_def)
qed simp_all

text \<open>A reply the server signs: the checksum verifies against the header that is sent, and the parse
  gives the document with the checksum flag added.\<close>

lemma signed_reply:
  fixes respto reqid :: i32
  assumes "doc_framed d"
    and "fl AND OP_MSG_REQUIRED_FLAG_BITS
           AND NOT (OP_MSG_FLAG_CHECKSUM_PRESENT OR OP_MSG_FLAG_MORE_TO_COME) = 0"
  defines "h \<equiv> \<lparr>message_length = of_nat (length d + 25), request_id = reqid, response_to = respto, op_code = OP_MSG\<rparr>"
    and "b \<equiv> i32_to_le (fl OR OP_MSG_FLAG_CHECKSUM_PRESENT) @ 0 # d"
  shows "with_op_msg_checksum (build_op_msg_reply respto reqid d fl)
      = Inr (pack h @ b @ i32_to_le (crc32c (NOT 0) (pack h @ b)))
    \<and> op_msg_frame_problem h (b @ i32_to_le (crc32c (NOT 0) (pack h @ b))) = Inr None
    \<and> parse_body OP_MSG (b @ i32_to_le (crc32c (NOT 0) (pack h @ b)))
      = Inr (Msg \<lparr>flags = fl OR OP_MSG_FLAG_CHECKSUM_PRESENT, body = d, document_sequences = []\<rparr>)"
proof -
  let ?fl = "fl OR OP_MSG_FLAG_CHECKSUM_PRESENT"
  let ?c = "i32_to_le (crc32c (NOT 0) (pack h @ b))"
  have "build_op_msg_reply respto reqid d fl = pack (h\<lparr>message_length := of_nat (length d + 21)\<rparr>) @ i32_to_le fl @ 0 # d"
    by (simp add: build_op_msg_reply_def HEADER_SIZE_def Let_def h_def add_ac)
  then have out: "with_op_msg_checksum (build_op_msg_reply respto reqid d fl) = Inr (pack h @ b @ ?c)"
    by (simp add: with_op_msg_checksum_def HEADER_SIZE_def pack_def rd_i32_win rd_u32_win Let_def h_def b_def add_ac)
  have fl: "?fl AND OP_MSG_FLAG_CHECKSUM_PRESENT \<noteq> 0"
    by (simp add: and_one_word OP_MSG_FLAG_CHECKSUM_PRESENT_def bit_or_iff)
  have req: "?fl AND OP_MSG_REQUIRED_FLAG_BITS
           AND NOT (OP_MSG_FLAG_CHECKSUM_PRESENT OR OP_MSG_FLAG_MORE_TO_COME) = 0"
    using assms(2) by (auto simp: bit_eq_iff bit_simps)
  have "pack h = frame_head h (length (b @ ?c))"
    by (simp add: pack_def frame_head_def HEADER_SIZE_def h_def b_def add_ac)
  then have "op_msg_frame_problem h (b @ ?c) = Inr None"
    using frame_problem_checksummed [of "b @ ?c" h] fl req assms(1) by (simp add: doc_framed_def b_def)
  moreover have "parse_op_msg (b @ ?c) = Inr \<lparr>flags = ?fl, body = d, document_sequences = []\<rparr>"
    using parse_op_msg_complete [of ?c ?fl "[Body_section d]" d] fl assms(1) by (simp add: b_def)
  ultimately show ?thesis using out by (simp add: parse_body_def)
qed

end
