(* ===== verification/Wire_Compression.thy ===== *)
theory Wire_Compression
  imports Wire_Frames
begin

text \<open>
  The compression wrapper of \<open>secantus-wire/src/compression.rs\<close>: compressor ids and names,
  \<open>OP_COMPRESSED\<close> parsing, the bounded decompression and \<open>compress_frame\<close>.

  The codecs themselves are third-party crates (\<open>snap\<close>, \<open>flate2\<close>, \<open>zstd\<close>). The calls made to
  them are the fields of \<open>codec_lib\<close>; that a codec undoes its own output is the hypothesis
  \<open>codecs_invert\<close> of the round trip. An error of a codec is \<open>None\<close>.
\<close>

section \<open>The codec crates\<close>

record codec_lib =
  snap_compress :: "bytes \<Rightarrow> bytes option"
  snap_decompress_len :: "bytes \<Rightarrow> nat option"
  snap_decompress :: "bytes \<Rightarrow> nat \<Rightarrow> bytes option"
  zlib_compress :: "bytes \<Rightarrow> bytes option"
  zlib_inflate :: "bytes \<Rightarrow> nat \<Rightarrow> (bool \<times> bytes) option"
  zstd_compress :: "bytes \<Rightarrow> bytes option"
  zstd_decompress :: "bytes \<Rightarrow> nat \<Rightarrow> bytes option"

text \<open>
  \<open>snap_decompress data size\<close> is the decoded prefix written into a buffer of that size;
  \<open>zlib_inflate\<close> says whether the stream ended within the capacity, and what was written.
\<close>

section \<open>Compressors\<close>

datatype compressor = Snappy | Zlib | Zstd

definition PREFIX_LEN :: nat where "PREFIX_LEN = 4 + 4 + 1"

fun compressor_id :: "compressor \<Rightarrow> u8" where
  "compressor_id Snappy = 1"
| "compressor_id Zlib = 2"
| "compressor_id Zstd = 3"

definition from_id :: "u8 \<Rightarrow> compressor option" where
  "from_id i = (if i = 1 then Some Snappy else if i = 2 then Some Zlib
                else if i = 3 then Some Zstd else None)"

fun compressor_name :: "compressor \<Rightarrow> rstr" where
  "compressor_name Snappy = lit ''snappy''"
| "compressor_name Zlib = lit ''zlib''"
| "compressor_name Zstd = lit ''zstd''"

definition from_name :: "rstr \<Rightarrow> compressor option" where
  "from_name n = (if n = lit ''snappy'' then Some Snappy else if n = lit ''zlib'' then Some Zlib
                  else if n = lit ''zstd'' then Some Zstd else None)"

definition compress :: "codec_lib \<Rightarrow> compressor \<Rightarrow> bytes \<Rightarrow> stop + bytes" where
  "compress lib c data =
     (case (case c of Snappy \<Rightarrow> snap_compress lib data | Zlib \<Rightarrow> zlib_compress lib data
                    | Zstd \<Rightarrow> zstd_compress lib data) of
        None \<Rightarrow> Inl (Err (Protocol Compression_failed))
      | Some z \<Rightarrow> Inr z)"

definition decompress_out :: "codec_lib \<Rightarrow> compressor \<Rightarrow> bytes \<Rightarrow> nat \<Rightarrow> stop + bytes" where
  "decompress_out lib c data sz =
     (case c of
        Snappy \<Rightarrow>
          (case snap_decompress_len lib data of
             None \<Rightarrow> Inl (Err (Protocol Decompression_failed))
           | Some claimed \<Rightarrow>
               if claimed \<noteq> sz then Inl (Err (Protocol (Decompressed_size claimed sz)))
               else (case snap_decompress lib data sz of
                       None \<Rightarrow> Inl (Err (Protocol Decompression_failed))
                     | Some out \<Rightarrow> Inr out))
      | Zlib \<Rightarrow>
          (case zlib_inflate lib data sz of
             None \<Rightarrow> Inl (Err (Protocol Decompression_failed))
           | Some (stream_end, out) \<Rightarrow>
               if \<not> stream_end then Inl (Err (Protocol Decompression_failed)) else Inr out)
      | Zstd \<Rightarrow>
          (case zstd_decompress lib data sz of
             None \<Rightarrow> Inl (Err (Protocol Decompression_failed))
           | Some out \<Rightarrow> Inr out))"

definition decompress :: "codec_lib \<Rightarrow> compressor \<Rightarrow> bytes \<Rightarrow> nat \<Rightarrow> stop + bytes" where
  "decompress lib c data sz =
     bind_res (decompress_out lib c data sz) (\<lambda>out.
       if length out \<noteq> sz then Inl (Err (Protocol (Decompressed_size (length out) sz))) else Inr out)"

section \<open>The wrapper\<close>

record op_compressed =
  original_opcode :: i32
  uncompressed_size :: i32
  wire_compressor_id :: u8
  wire_data :: bytes

definition parse_op_compressed :: "bytes \<Rightarrow> stop + op_compressed" where
  "parse_op_compressed bdy =
     (if length bdy < PREFIX_LEN then Inl (Err (Protocol (Compressed_prefix (length bdy))))
      else bind_res (rd_i32 bdy 0) (\<lambda>opc.
           bind_res (rd_i32 bdy 4) (\<lambda>sz.
           bind_res (index bdy 8) (\<lambda>cid.
           bind_res (slice bdy PREFIX_LEN (length bdy)) (\<lambda>d.
             Inr \<lparr>original_opcode = opc, uncompressed_size = sz, wire_compressor_id = cid, wire_data = d\<rparr>)))))"

definition op_decompress :: "codec_lib \<Rightarrow> op_compressed \<Rightarrow> stop + compressor \<times> bytes" where
  "op_decompress lib w =
     (case from_id (wire_compressor_id w) of
        None \<Rightarrow> Inl (Err (Protocol (Compressor_unknown (wire_compressor_id w))))
      | Some c \<Rightarrow>
          if sint (uncompressed_size w) < 0
          then Inl (Err (Protocol (Decompressed_negative (uncompressed_size w))))
          else (let sz = nat (sint (uncompressed_size w)) in
            if sz + HEADER_SIZE > nat MAX_MESSAGE_SIZE
            then Inl (Err (Protocol (Decompressed_exceeds_max (sz + HEADER_SIZE))))
            else bind_res (decompress lib c (wire_data w) sz) (\<lambda>bdy. Inr (c, bdy))))"

text \<open>\<open>i32::saturating_add\<close>.\<close>

definition sat_add_i32 :: "i32 \<Rightarrow> i32 \<Rightarrow> i32" where
  "sat_add_i32 a b = of_int (max (- (2 ^ 31)) (min (2 ^ 31 - 1) (sint a + sint b)))"

definition original_header :: "op_compressed \<Rightarrow> header \<Rightarrow> header" where
  "original_header w outer =
     \<lparr>message_length = sat_add_i32 (uncompressed_size w) (of_nat HEADER_SIZE),
      request_id = request_id outer, response_to = response_to outer, op_code = original_opcode w\<rparr>"

definition compress_frame :: "codec_lib \<Rightarrow> bytes \<Rightarrow> compressor \<Rightarrow> stop + bytes" where
  "compress_frame lib frame c =
     bind_res (unpack frame) (\<lambda>inner.
     bind_res (slice frame HEADER_SIZE (length frame)) (\<lambda>bdy.
     bind_res (compress lib c bdy) (\<lambda>z.
       let total = HEADER_SIZE + PREFIX_LEN + length z in
       if total \<ge> 2 ^ 31 then Inl (Err (Protocol (Compressed_frame_size total)))
       else (let h = \<lparr>message_length = of_nat total, request_id = request_id inner,
                      response_to = response_to inner, op_code = OP_COMPRESSED\<rparr>
             in Inr (pack h @ i32_to_le (op_code inner) @ i32_to_le (of_nat (length bdy))
                     @ compressor_id c # z)))))"

section \<open>Properties\<close>

text \<open>What the crates document: a codec restores what it compressed, given its exact size.\<close>

definition codecs_invert :: "codec_lib \<Rightarrow> bool" where
  "codecs_invert lib \<longleftrightarrow>
     (\<forall>data z. snap_compress lib data = Some z \<longrightarrow>
        snap_decompress_len lib z = Some (length data) \<and> snap_decompress lib z (length data) = Some data)
   \<and> (\<forall>data z. zlib_compress lib data = Some z \<longrightarrow> zlib_inflate lib z (length data) = Some (True, data))
   \<and> (\<forall>data z. zstd_compress lib data = Some z \<longrightarrow> zstd_decompress lib z (length data) = Some data)"

lemma from_id_id [simp]: "from_id (compressor_id c) = Some c"
  by (cases c) (simp_all add: from_id_def)

lemma from_name_name: "from_name (compressor_name c) = Some c"
  by (induction c) code_simp+

lemma codecs_invertD:
  assumes "codecs_invert lib"
  shows "snap_compress lib data = Some z \<Longrightarrow>
           snap_decompress_len lib z = Some (length data) \<and> snap_decompress lib z (length data) = Some data"
    and "zlib_compress lib data = Some z \<Longrightarrow> zlib_inflate lib z (length data) = Some (True, data)"
    and "zstd_compress lib data = Some z \<Longrightarrow> zstd_decompress lib z (length data) = Some data"
  using assms unfolding codecs_invert_def by blast+

lemma compress_SomeD:
  assumes "compress lib c data = Inr z"
  shows "(case c of Snappy \<Rightarrow> snap_compress lib data | Zlib \<Rightarrow> zlib_compress lib data
                  | Zstd \<Rightarrow> zstd_compress lib data) = Some z"
  using assms unfolding compress_def by (simp split: option.splits)

lemma decompress_compress:
  assumes "codecs_invert lib" "compress lib c data = Inr z"
  shows "decompress lib c z (length data) = Inr data"
proof (cases c)
  case Snappy
  then have "snap_compress lib data = Some z" using compress_SomeD [OF assms(2)] by simp
  from codecs_invertD(1) [OF assms(1) this] Snappy show ?thesis
    by (simp add: decompress_def decompress_out_def)
next
  case Zlib
  then have "zlib_compress lib data = Some z" using compress_SomeD [OF assms(2)] by simp
  from codecs_invertD(2) [OF assms(1) this] Zlib show ?thesis
    by (simp add: decompress_def decompress_out_def)
next
  case Zstd
  then have "zstd_compress lib data = Some z" using compress_SomeD [OF assms(2)] by simp
  from codecs_invertD(3) [OF assms(1) this] Zstd show ?thesis
    by (simp add: decompress_def decompress_out_def)
qed

lemma from_idD: "from_id i = Some c \<Longrightarrow> compressor_id c = i"
  by (auto simp: from_id_def split: if_splits)

lemma decompress_no_panic: "decompress lib c data sz \<noteq> Inl Panic"
  by (cases c) (auto simp: decompress_def decompress_out_def bind_res_panic_iff split: option.splits if_splits)

lemma decompress_length: "decompress lib c data sz = Inr out \<Longrightarrow> length out = sz"
  by (auto simp: decompress_def bind_res_Inr_iff split: if_splits)

lemma parse_op_compressed_no_panic: "parse_op_compressed bdy \<noteq> Inl Panic"
  by (auto simp: parse_op_compressed_def PREFIX_LEN_def bind_res_panic_iff rd_i32_win index_nth slice_win)

lemma op_decompress_no_panic: "op_decompress lib w \<noteq> Inl Panic"
  by (auto simp: op_decompress_def Let_def bind_res_panic_iff decompress_no_panic split: option.splits)

text \<open>whatever the codecs do, a message that is decompressed came from a known
  compressor and has exactly the size declared, which with a header is within the message limit;
  a size that is negative or too large is fatal, and reading the wrapper never panics.\<close>

theorem decompression_bounded:
  "parse_op_compressed bdy \<noteq> Inl Panic \<and> op_decompress lib w \<noteq> Inl Panic
   \<and> (\<forall>c out. op_decompress lib w = Inr (c, out) \<longrightarrow>
        compressor_id c = wire_compressor_id w \<and> int (length out) = sint (uncompressed_size w)
      \<and> int (length out + HEADER_SIZE) \<le> MAX_MESSAGE_SIZE)
   \<and> (sint (uncompressed_size w) < 0 \<or> sint (uncompressed_size w) + 16 > MAX_MESSAGE_SIZE
        \<longrightarrow> (\<exists>e. op_decompress lib w = Inl (Err e) \<and> \<not> is_recoverable e))"
proof (intro conjI allI impI)
  show "parse_op_compressed bdy \<noteq> Inl Panic" by (rule parse_op_compressed_no_panic)
  show "op_decompress lib w \<noteq> Inl Panic" by (rule op_decompress_no_panic)
  show "\<exists>e. op_decompress lib w = Inl (Err e) \<and> \<not> is_recoverable e"
    if "sint (uncompressed_size w) < 0 \<or> sint (uncompressed_size w) + 16 > MAX_MESSAGE_SIZE"
    using that by (auto simp: op_decompress_def Let_def is_recoverable_def HEADER_SIZE_def MAX_MESSAGE_SIZE_def
        split: option.splits)
next
  fix c out assume r: "op_decompress lib w = Inr (c, out)"
  then have c: "from_id (wire_compressor_id w) = Some c" and p: "0 \<le> sint (uncompressed_size w)"
    and m: "nat (sint (uncompressed_size w)) + HEADER_SIZE \<le> nat MAX_MESSAGE_SIZE"
    and d: "decompress lib c (wire_data w) (nat (sint (uncompressed_size w))) = Inr out"
    by (auto simp: op_decompress_def Let_def bind_res_Inr_iff split: option.splits if_splits)
  show "compressor_id c = wire_compressor_id w" using c by (rule from_idD)
  show l: "int (length out) = sint (uncompressed_size w)" using decompress_length [OF d] p by simp
  show "int (length out + HEADER_SIZE) \<le> MAX_MESSAGE_SIZE"
    using l m p by (simp add: MAX_MESSAGE_SIZE_def HEADER_SIZE_def)
qed

text \<open>The codecs that copy their input, as an instance of the crates.\<close>

definition copy_codecs :: codec_lib where
  "copy_codecs = \<lparr>snap_compress = Some, snap_decompress_len = (\<lambda>z. Some (length z)),
     snap_decompress = (\<lambda>z n. Some (take n z)), zlib_compress = Some,
     zlib_inflate = (\<lambda>z n. Some (length z \<le> n, take n z)), zstd_compress = Some,
     zstd_decompress = (\<lambda>z n. if length z \<le> n then Some z else None)\<rparr>"

lemma copy_codecs_invert: "codecs_invert copy_codecs"
  by (simp add: codecs_invert_def copy_codecs_def)

theorem decompression_bounded_witness:
  "\<exists>e. op_decompress copy_codecs \<lparr>original_opcode = 2013, uncompressed_size = -1, wire_compressor_id = 1, wire_data = []\<rparr>
     = Inl (Err e) \<and> \<not> is_recoverable e"
  using decompression_bounded [where w = "\<lparr>original_opcode = 2013, uncompressed_size = -1, wire_compressor_id = 1, wire_data = []\<rparr>"
      and lib = copy_codecs]
  by simp

text \<open>A frame wrapped in \<open>OP_COMPRESSED\<close> is unwrapped to itself: the header
  that goes out, the compressor the peer answers under, the body, and the header of the message
  inside, its length restored.\<close>

theorem compressed_frame_roundtrip:
  assumes lib: "codecs_invert lib"
    and len: "length bdy + HEADER_SIZE \<le> nat MAX_MESSAGE_SIZE"
    and h: "message_length h = of_nat (length bdy + HEADER_SIZE)"
    and out: "compress_frame lib (pack h @ bdy) c = Inr out"
  shows "\<exists>outer w. unpack out = Inr outer \<and> op_code outer = OP_COMPRESSED
    \<and> parse_op_compressed (drop HEADER_SIZE out) = Inr w
    \<and> op_decompress lib w = Inr (c, bdy) \<and> original_header w outer = h"
proof -
  let ?n = "of_nat (length bdy) :: i32"
  obtain z where z: "compress lib c bdy = Inr z"
    and o: "out = pack \<lparr>message_length = of_nat (HEADER_SIZE + PREFIX_LEN + length z), request_id = request_id h,
       response_to = response_to h, op_code = OP_COMPRESSED\<rparr> @ i32_to_le (op_code h) @ i32_to_le ?n @ compressor_id c # z"
    using out by (auto simp: compress_frame_def bind_res_Inr_iff HEADER_SIZE_def slice_win Let_def split: if_splits)
  let ?w = "\<lparr>original_opcode = op_code h, uncompressed_size = ?n, wire_compressor_id = compressor_id c, wire_data = z\<rparr>"
  have s: "sint ?n = int (length bdy)"
    using len by (intro sint_of_nat_i32) (simp add: MAX_MESSAGE_SIZE_def HEADER_SIZE_def)
  have "parse_op_compressed (drop HEADER_SIZE out) = Inr ?w"
    by (simp add: o parse_op_compressed_def PREFIX_LEN_def HEADER_SIZE_def rd_i32_win index_nth slice_win nth_append)
  moreover have "op_decompress lib ?w = Inr (c, bdy)"
    using decompress_compress [OF lib z] s len by (simp add: op_decompress_def Let_def)
  moreover have "original_header ?w outer = h" if "request_id outer = request_id h" "response_to outer = response_to h" for outer
    using that s len h by (cases h) (simp add: original_header_def sat_add_i32_def HEADER_SIZE_def MAX_MESSAGE_SIZE_def)
  ultimately show ?thesis by (auto simp: o)
qed

theorem compressed_frame_roundtrip_witness:
  "\<exists>outer w. op_decompress copy_codecs w = Inr (Zlib, [1, 2])
     \<and> original_header w outer = \<lparr>message_length = 18, request_id = 4, response_to = 5, op_code = OP_MSG\<rparr>"
proof -
  let ?h = "\<lparr>message_length = 18, request_id = 4, response_to = 5, op_code = OP_MSG\<rparr>"
  have "\<exists>out. compress_frame copy_codecs (pack ?h @ [1, 2]) Zlib = Inr out"
    by (simp add: compress_frame_def copy_codecs_def compress_def slice_win HEADER_SIZE_def PREFIX_LEN_def Let_def)
  then obtain out where "compress_frame copy_codecs (pack ?h @ [1, 2]) Zlib = Inr out" by blast
  from compressed_frame_roundtrip [OF copy_codecs_invert _ _ this]
  show ?thesis by (auto simp: HEADER_SIZE_def MAX_MESSAGE_SIZE_def)
qed

end
