(* ===== verification/Wire_Cursor.thy ===== *)
theory Wire_Cursor
  imports Wire_Frames
begin

text \<open>
  The cursor reply of \<open>secantus-wire/src/lib.rs\<close> (\<open>encode_cursor_reply\<close> with
  \<open>raw_elements\<close>, \<open>value_size\<close> and \<open>patch_len\<close>): the documents of a batch are copied as bytes
  into the \<open>cursor\<close> field of an encoded reply. The output reads back as the reply it was built
  from, with the batch as the first field of \<open>cursor\<close>.
\<close>

section \<open>Definitions\<close>

definition rd_i32_checked :: "bytes \<Rightarrow> nat \<Rightarrow> i32 option" where
  "rd_i32_checked b pos = map_option i32_from_le (slice_range b pos (pos + 4))"

definition len_at :: "bytes \<Rightarrow> nat \<Rightarrow> int \<Rightarrow> nat option" where
  "len_at rest pos least =
     Option.bind (rd_i32_checked rest pos) (\<lambda>n. if sint n \<ge> least then Some (nat (sint n)) else None)"

definition declared_size :: "u8 \<Rightarrow> bytes \<Rightarrow> nat option" where
  "declared_size t rest =
     (if t \<in> {0x01, 0x09, 0x11, 0x12} then Some 8
      else if t \<in> {0x02, 0x0D, 0x0E} then map_option (\<lambda>n. 4 + n) (len_at rest 0 1)
      else if t \<in> {0x03, 0x04, 0x0F} then len_at rest 0 5
      else if t = 0x05 then map_option (\<lambda>n. 5 + n) (len_at rest 0 0)
      else if t \<in> {0x06, 0x0A, 0x7F, 0xFF} then Some 0
      else if t = 0x07 then Some 12
      else if t = 0x08 then Some 1
      else if t = 0x0B then
        Option.bind (position (\<lambda>c. c = 0) rest) (\<lambda>p.
          map_option (\<lambda>q. p + 1 + q + 1) (position (\<lambda>c. c = 0) (drop (p + 1) rest)))
      else if t = 0x0C then map_option (\<lambda>n. 4 + n + 12) (len_at rest 0 1)
      else if t = 0x10 then Some 4
      else if t = 0x13 then Some 16
      else None)"

definition value_size :: "u8 \<Rightarrow> bytes \<Rightarrow> nat option" where
  "value_size t rest =
     Option.bind (declared_size t rest) (\<lambda>sz. if sz \<le> length rest then Some sz else None)"

type_synonym raw_element = "u8 \<times> bytes \<times> bytes"

text \<open>The loop of \<open>raw_elements\<close> on the bytes \<open>doc[i..end]\<close> that are left.\<close>

function raw_elements_loop :: "bytes \<Rightarrow> raw_element list option" where
  "raw_elements_loop s =
     (case s of
        [] \<Rightarrow> Some []
      | t # s' \<Rightarrow>
          (case position (\<lambda>c. c = 0) s' of
             None \<Rightarrow> None
           | Some k \<Rightarrow>
               (let key = take k s'; rest = drop (k + 1) s' in
                case value_size t rest of
                  None \<Rightarrow> None
                | Some sz \<Rightarrow>
                    map_option ((#) (t, key, take sz rest)) (raw_elements_loop (drop sz rest)))))"
  by pat_completeness auto
termination by (relation "measure length") auto

declare raw_elements_loop.simps [simp del]

definition raw_elements :: "bytes \<Rightarrow> raw_element list option" where
  "raw_elements doc =
     Option.bind (rd_i32_checked doc 0) (\<lambda>n.
       if sint n < 0 then None
       else (let len = nat (sint n) in
         if len < 5 \<or> len > length doc \<or> doc ! (len - 1) \<noteq> 0 then None
         else raw_elements_loop (take (len - 1 - 4) (drop 4 doc))))"

definition patch_len :: "bytes \<Rightarrow> nat \<Rightarrow> bytes" where
  "patch_len out start =
     take start out @ i32_to_le (of_nat (length out - start)) @ drop (start + 4) out"

definition blob_len :: "bytes \<Rightarrow> nat option" where
  "blob_len blob =
     Option.bind (map_option i32_from_le (slice_range blob 0 4)) (\<lambda>n.
       if sint n < 0 then None
       else if 5 \<le> nat (sint n) \<and> nat (sint n) \<le> length blob then Some (nat (sint n)) else None)"

text \<open>The loop that copies the batch, from index \<open>i\<close> on.\<close>

fun batch_elements :: "nat \<Rightarrow> bytes list \<Rightarrow> bytes \<Rightarrow> stop + bytes" where
  "batch_elements i [] out = Inr out"
| "batch_elements i (blob # batch) out =
     (case blob_len blob of
        None \<Rightarrow> Inl (Err (Protocol Cursor_malformed_batch))
      | Some len \<Rightarrow>
          batch_elements (Suc i) batch (out @ 0x03 # nat_to_string i @ 0 # take len blob))"

text \<open>The loop over the envelope's elements; the second result says whether it had a cursor.\<close>

fun reply_elements ::
  "rstr \<Rightarrow> bytes list \<Rightarrow> raw_element list \<Rightarrow> bytes \<Rightarrow> bool \<Rightarrow> stop + bytes \<times> bool" where
  "reply_elements batch_field batch [] out have_cursor = Inr (out, have_cursor)"
| "reply_elements batch_field batch ((t, key, value) # es) out have_cursor =
     (let out = out @ t # key @ [0] in
      if key \<noteq> lit ''cursor'' then reply_elements batch_field batch es (out @ value) have_cursor
      else if t \<noteq> 0x03 then Inl (Err (Protocol Cursor_not_a_document))
      else (let cursor_start = length out;
                out = out @ [0, 0, 0, 0] @ 0x04 # batch_field @ [0];
                array_start = length out
            in bind_res (batch_elements 0 batch (out @ [0, 0, 0, 0])) (\<lambda>out.
               let out = patch_len (out @ [0]) array_start in
               bind_res (slice value 4 (length value - 1)) (\<lambda>own.
                 let out = patch_len (out @ own @ [0]) cursor_start in
                 reply_elements batch_field batch es out True))))"

definition encode_cursor_reply :: "bytes \<Rightarrow> rstr \<Rightarrow> bytes list \<Rightarrow> stop + bytes" where
  "encode_cursor_reply envelope batch_field batch =
     (case raw_elements envelope of
        None \<Rightarrow> Inl (Err (Protocol Cursor_malformed_envelope))
      | Some elements \<Rightarrow>
          bind_res (reply_elements batch_field batch elements [0, 0, 0, 0] False) (\<lambda>r.
            if \<not> snd r then Inl (Err (Protocol Cursor_missing))
            else Inr (patch_len (fst r @ [0]) 0)))"

section \<open>Encoded documents as lists of elements\<close>

fun elem_bytes :: "raw_element \<Rightarrow> bytes" where
  "elem_bytes (t, key, value) = t # key @ 0 # value"

definition doc_bytes :: "bytes \<Rightarrow> bytes" where
  "doc_bytes content = i32_to_le (of_nat (length content + 5)) @ content @ [0]"

definition elements_bytes :: "raw_element list \<Rightarrow> bytes" where
  "elements_bytes es = concat (map elem_bytes es)"

lemma elements_bytes_simps [simp]:
  "elements_bytes [] = []"
  "elements_bytes (e # es) = elem_bytes e @ elements_bytes es"
  by (simp_all add: elements_bytes_def)

lemma length_doc_bytes [simp]: "length (doc_bytes c) = length c + 5"
  by (simp add: doc_bytes_def)

text \<open>An element that reads back: its key is a C string, and its value has the size its bytes say.\<close>

fun element_ok :: "raw_element \<Rightarrow> bool" where
  "element_ok (t, key, value) \<longleftrightarrow> 0 \<notin> set key \<and> value_size t value = Some (length value)"

text \<open>An answer found in a prefix stays the answer.\<close>

definition opt_le :: "'a option \<Rightarrow> 'a option \<Rightarrow> bool" where
  "opt_le a b \<longleftrightarrow> a = None \<or> a = b"

lemma opt_le_intros:
  "opt_le a a"
  "opt_le a b \<Longrightarrow> opt_le (map_option f a) (map_option f b)"
  "opt_le a b \<Longrightarrow> (\<And>x. a = Some x \<Longrightarrow> opt_le (g x) (g' x)) \<Longrightarrow> opt_le (Option.bind a g) (Option.bind b g')"
  "opt_le a b \<Longrightarrow> opt_le a' b' \<Longrightarrow> opt_le (if c then a else a') (if c then b else b')"
  by (cases a; auto simp: opt_le_def)+

lemma len_at_append: "opt_le (len_at v 0 m) (len_at (v @ r) 0 m)"
  by (auto simp: opt_le_def len_at_def rd_i32_checked_def slice_range_def)

lemma position_append_le: "opt_le (position p xs) (position p (xs @ ys))"
  by (induction xs) (auto simp: opt_le_def)

lemma declared_size_append: "opt_le (declared_size t v) (declared_size t (v @ r))"
proof -
  have "opt_le (position (\<lambda>c. c = 0) (drop (p + 1) v)) (position (\<lambda>c. c = 0) (drop (p + 1) (v @ r)))" for p
    unfolding drop_append by (rule position_append_le)
  then show ?thesis
    unfolding declared_size_def by (intro opt_le_intros len_at_append position_append_le)
qed

lemma value_size_append: "value_size t v = Some n \<Longrightarrow> value_size t (v @ r) = Some n"
proof -
  assume v: "value_size t v = Some n"
  then have "declared_size t v = Some n" "n \<le> length v" by (auto simp: value_size_def bind_eq_Some_conv split: if_splits)
  moreover from this have "declared_size t (v @ r) = Some n" using declared_size_append [of t v r] by (simp add: opt_le_def)
  ultimately show ?thesis by (simp add: value_size_def)
qed

lemma len_at_take: "4 \<le> n \<Longrightarrow> len_at (take n v) 0 m = len_at v 0 m"
  by (auto simp: len_at_def rd_i32_checked_def slice_range_def min_def)

lemma len_at_ge: "len_at v 0 m = Some n \<Longrightarrow> m \<le> int n"
  by (auto simp: len_at_def bind_eq_Some_conv split: if_splits)

lemma position_take: "position p xs = Some k \<Longrightarrow> k < n \<Longrightarrow> position p (take n xs) = Some k"
proof (induction xs arbitrary: k n)
  case (Cons x xs)
  then show ?case by (cases n) (auto split: if_splits)
qed simp

lemma declared_size_take:
  assumes "declared_size t v = Some n"
  shows "declared_size t (take n v) = Some n"
proof (cases "t = 0x0B")
  case True
  then obtain p q where pq: "position (\<lambda>c. c = 0) v = Some p"
    "position (\<lambda>c. c = 0) (drop (p + 1) v) = Some q" "n = p + 1 + q + 1"
    using assms by (auto simp: declared_size_def bind_eq_Some_conv)
  moreover have "drop (p + 1) (take n v) = take (q + 1) (drop (p + 1) v)"
    using pq(3) by (simp add: drop_take)
  ultimately show ?thesis using True
    by (simp add: declared_size_def position_take)
next
  case regex: False
  show ?thesis
  proof (cases "t \<in> {0x02, 0x0D, 0x0E, 0x03, 0x04, 0x0F, 0x05, 0x0C}")
    case True
    then have "4 \<le> n" using assms by (auto simp: declared_size_def dest!: len_at_ge)
    then show ?thesis using True assms by (auto simp: declared_size_def len_at_take)
  next
    case False
    then have "declared_size t (take n v) = declared_size t v" using regex by (simp add: declared_size_def)
    with assms show ?thesis by simp
  qed
qed

lemma value_size_take: "value_size t v = Some n \<Longrightarrow> value_size t (take n v) = Some n"
  by (auto simp: value_size_def bind_eq_Some_conv declared_size_take split: if_splits)

lemma raw_elements_loop_complete:
  "list_all element_ok es \<Longrightarrow> raw_elements_loop (elements_bytes es) = Some es"
proof (induction es)
  case Nil
  then show ?case by (simp add: raw_elements_loop.simps [of "[]"])
next
  case (Cons e es)
  obtain t key v where e: "e = (t, key, v)" by (cases e)
  have k: "0 \<notin> set key" and v: "value_size t v = Some (length v)" using Cons.prems e by simp_all
  let ?s = "key @ 0 # v @ elements_bytes es"
  have "position (\<lambda>c. c = 0) ?s = Some (length key)" using k by (intro position_append) auto
  moreover have "value_size t (v @ elements_bytes es) = Some (length v)" using v by (rule value_size_append)
  ultimately have "raw_elements_loop (t # ?s) = Some ((t, key, v) # es)"
    using Cons by (subst raw_elements_loop.simps) (simp add: Let_def)
  then show ?case by (simp add: e)
qed

lemma raw_elements_loop_sound:
  "raw_elements_loop s = Some es \<Longrightarrow> list_all element_ok es \<and> elements_bytes es = s"
proof (induction s arbitrary: es rule: raw_elements_loop.induct)
  case (1 s)
  show ?case
  proof (cases s)
    case Nil
    then show ?thesis using "1.prems" by (simp add: raw_elements_loop.simps [of "[]"])
  next
    case (Cons t s')
    then obtain k sz es' where k: "position (\<lambda>c. c = 0) s' = Some k"
      and sz: "value_size t (drop (k + 1) s') = Some sz"
      and es': "raw_elements_loop (drop sz (drop (k + 1) s')) = Some es'"
      and es: "es = (t, take k s', take sz (drop (k + 1) s')) # es'"
      using "1.prems" by (subst (asm) raw_elements_loop.simps) (auto simp: Let_def split: option.splits)
    have IH: "list_all element_ok es' \<and> elements_bytes es' = drop sz (drop (k + 1) s')"
      using "1.IH" [OF Cons k refl refl sz es'] .
    have "sz \<le> length (drop (k + 1) s')" using sz by (auto simp: value_size_def bind_eq_Some_conv split: if_splits)
    then have ok: "element_ok (t, take k s', take sz (drop (k + 1) s'))"
      using position_SomeD [OF k] value_size_take [OF sz] by auto
    have "s' = take k s' @ 0 # drop (k + 1) s'"
      using position_SomeD [OF k] id_take_nth_drop [of k s'] by simp
    then have "s' = take k s' @ 0 # take sz (drop (k + 1) s') @ drop sz (drop (k + 1) s')"
      by (simp only: append_take_drop_id)
    then show ?thesis using IH ok es Cons by simp
  qed
qed

lemma raw_elements_complete:
  assumes "list_all element_ok es" "length (elements_bytes es) + 5 < 2 ^ 31"
  shows "raw_elements (doc_bytes (elements_bytes es) @ r) = Some es"
proof -
  let ?b = "elements_bytes es"
  have "sint (of_nat (length ?b + 5) :: i32) = int (length ?b + 5)"
    using assms(2) by (rule sint_of_nat_i32)
  moreover have "rd_i32_checked (doc_bytes ?b @ r) 0 = Some (of_nat (length ?b + 5))"
    by (simp add: rd_i32_checked_def slice_range_def doc_bytes_def del: of_nat_add)
  moreover have "(doc_bytes ?b @ r) ! (length ?b + 4) = 0"
    by (simp add: doc_bytes_def nth_append)
  moreover have "take (length ?b) (drop 4 (doc_bytes ?b @ r)) = ?b" by (simp add: doc_bytes_def)
  ultimately show ?thesis
    using raw_elements_loop_complete [OF assms(1)]
    by (simp add: raw_elements_def Let_def nat_add_distrib add.commute del: of_nat_add)
qed

lemma raw_elements_sound:
  assumes "raw_elements doc = Some es"
  shows "list_all element_ok es \<and> length (elements_bytes es) + 5 < 2 ^ 31
       \<and> (\<exists>r. doc = doc_bytes (elements_bytes es) @ r)"
proof -
  let ?w = "take 4 doc"
  let ?n = "nat (sint (i32_from_le ?w))"
  have l4: "4 \<le> length doc" and nn: "0 \<le> sint (i32_from_le ?w)" and n5: "5 \<le> ?n" and nl: "?n \<le> length doc"
    and z: "doc ! (?n - 1) = 0" and lp: "raw_elements_loop (take (?n - 1 - 4) (drop 4 doc)) = Some es"
    using assms by (auto simp: raw_elements_def rd_i32_checked_def slice_range_def Let_def bind_eq_Some_conv split: if_splits)
  have lw: "length ?w = 4" using l4 by simp
  from raw_elements_loop_sound [OF lp] have ok: "list_all element_ok es"
    and b: "elements_bytes es = take (?n - 5) (drop 4 doc)" by simp_all
  have lb: "length (elements_bytes es) + 5 = ?n" using b n5 nl by simp
  have lt: "?n < 2 ^ 31" using sint_i32_from_le_nonneg [OF lw nn] by simp
  have "(of_nat ?n :: i32) = of_int (sint (i32_from_le ?w))" using nn by simp
  then have "of_nat ?n = i32_from_le ?w" by (simp only: of_int_sint scast_id)
  then have w: "i32_to_le (of_nat (length (elements_bytes es) + 5)) = ?w"
    unfolding lb using i32_to_le_from_le [OF lw] by simp
  have "take ?n doc = take (?n - 1) doc @ [0]"
    using z nl n5 take_Suc_conv_app_nth [of "?n - 1" doc] by simp
  also have "take (?n - 1) doc = ?w @ elements_bytes es"
    using b n5 take_add [of 4 "?n - 5" doc] by simp
  finally have "doc = (?w @ elements_bytes es @ [0]) @ drop ?n doc"
    by (metis append_take_drop_id append.assoc)
  then show ?thesis using ok lb lt w by (intro conjI exI [of _ "drop ?n doc"]) (simp_all add: doc_bytes_def)
qed

section \<open>The splice\<close>

text \<open>What the reply should hold: the batch as an array of documents, first in the cursor.\<close>

fun batch_list :: "nat \<Rightarrow> bytes list \<Rightarrow> raw_element list" where
  "batch_list i [] = []"
| "batch_list i (blob # batch) =
     (0x03, nat_to_string i, take (the (blob_len blob)) blob) # batch_list (Suc i) batch"

definition batch_element :: "rstr \<Rightarrow> bytes list \<Rightarrow> raw_element" where
  "batch_element batch_field batch = (0x04, batch_field, doc_bytes (elements_bytes (batch_list 0 batch)))"

fun spliced :: "rstr \<Rightarrow> bytes list \<Rightarrow> raw_element \<Rightarrow> raw_element" where
  "spliced batch_field batch (t, key, value) =
     (if key = lit ''cursor''
      then (t, key, doc_bytes (elem_bytes (batch_element batch_field batch)
                                 @ take (length value - 5) (drop 4 value)))
      else (t, key, value))"

definition is_cursor :: "raw_element \<Rightarrow> bool" where
  "is_cursor e \<longleftrightarrow> fst (snd e) = lit ''cursor''"

lemma patch_len_at: "patch_len (a @ [0, 0, 0, 0] @ b) (length a) = a @ i32_to_le (of_nat (length b + 4)) @ b"
  by (simp add: patch_len_def add.commute)

lemma patch_len_doc: "patch_len (a @ [0, 0, 0, 0] @ c @ [0]) (length a) = a @ doc_bytes c"
  using patch_len_at [of a "c @ [0]"] by (simp add: doc_bytes_def add_ac)

lemma batch_elements_run:
  "list_all (\<lambda>b. blob_len b \<noteq> None) batch \<Longrightarrow>
     batch_elements i batch out = Inr (out @ elements_bytes (batch_list i batch))"
  by (induction batch arbitrary: i out) auto

lemma value_size_doc: "value_size 0x03 v = Some (length v) \<Longrightarrow> 5 \<le> length v"
  by (auto simp: value_size_def declared_size_def bind_eq_Some_conv dest!: len_at_ge split: if_splits)

lemma reply_elements_run:
  assumes "list_all element_ok es" "list_all (\<lambda>e. is_cursor e \<longrightarrow> fst e = 0x03) es"
    and b: "list_all (\<lambda>b. blob_len b \<noteq> None) batch"
  shows "reply_elements f batch es out hc
    = Inr (out @ elements_bytes (map (spliced f batch) es), hc \<or> list_ex is_cursor es)"
  using assms(1,2)
proof (induction es arbitrary: out hc)
  case (Cons e es)
  obtain t key v where e: "e = (t, key, v)" by (cases e)
  show ?case
  proof (cases "key = lit ''cursor''")
    case False
    then show ?thesis using Cons by (simp add: e Let_def is_cursor_def)
  next
    case key: True
    then have t: "t = 0x03" using Cons.prems e by (simp add: is_cursor_def)
    then have l5: "5 \<le> length v" using Cons.prems e value_size_doc by simp
    let ?o = "out @ t # key @ [0]"
    let ?a = "?o @ [0, 0, 0, 0] @ 0x04 # f @ [0]"
    let ?own = "take (length v - 5) (drop 4 v)"
    let ?arr = "elements_bytes (batch_list 0 batch)"
    have own: "slice v 4 (length v - 1) = Inr ?own" using l5 by (simp add: slice_win)
    have 1: "batch_elements 0 batch (?a @ [0, 0, 0, 0]) = Inr (?a @ [0, 0, 0, 0] @ ?arr)"
      using b by (simp add: batch_elements_run)
    have 2: "patch_len ((?a @ [0, 0, 0, 0] @ ?arr) @ [0]) (length ?a) = ?a @ doc_bytes ?arr"
      using patch_len_doc [of ?a ?arr] by simp
    have 3: "patch_len ((?a @ doc_bytes ?arr) @ ?own @ [0]) (length ?o)
        = ?o @ doc_bytes (elem_bytes (batch_element f batch) @ ?own)"
      using patch_len_doc [of ?o "elem_bytes (batch_element f batch) @ ?own"]
      by (simp add: batch_element_def)
    have "reply_elements f batch (e # es) out hc
        = reply_elements f batch es (?o @ doc_bytes (elem_bytes (batch_element f batch) @ ?own)) True"
      using key t own 1 2 3 by (simp only: e reply_elements.simps Let_def bind_res_simps not_True_eq_False if_False if_True) simp
    also have "\<dots> = Inr ((?o @ doc_bytes (elem_bytes (batch_element f batch) @ ?own))
        @ elements_bytes (map (spliced f batch) es), True)"
      using Cons by simp
    finally show ?thesis using key by (simp add: e is_cursor_def)
  qed
qed simp

lemma value_size_doc_bytes:
  "t \<in> {0x03, 0x04} \<Longrightarrow> length c + 5 < 2 ^ 31 \<Longrightarrow> value_size t (doc_bytes c) = Some (length c + 5)"
  using sint_of_nat_i32 [of "length c + 5"]
  by (auto simp: value_size_def declared_size_def len_at_def rd_i32_checked_def slice_range_def doc_bytes_def
      simp del: of_nat_add)

lemma nat_to_string_no_nul: "0 \<notin> set (nat_to_string n)"
proof
  assume "0 \<in> set (nat_to_string n)"
  then obtain d where "d \<in> set (nat_digits n)" "(of_nat (48 + d) :: u8) = 0" by (auto simp: nat_to_string_def)
  then show False
    using is_ascii_digit_ascii [of d] nat_digits_less [of d n] by (simp add: is_ascii_digit_def del: of_nat_add)
qed

lemma blob_value_size:
  assumes "blob_len blob = Some n" shows "value_size 0x03 (take n blob) = Some n" "n \<le> length blob"
proof -
  from assms have "len_at blob 0 5 = Some n \<and> n \<le> length blob"
    by (auto simp: blob_len_def len_at_def rd_i32_checked_def bind_eq_Some_conv split: if_splits)
  then have "value_size 0x03 blob = Some n" "n \<le> length blob" by (simp_all add: value_size_def declared_size_def)
  then show "value_size 0x03 (take n blob) = Some n" "n \<le> length blob" by (simp_all add: value_size_take)
qed

lemma batch_list_ok: "list_all (\<lambda>b. blob_len b \<noteq> None) batch \<Longrightarrow> list_all element_ok (batch_list i batch)"
  by (induction batch arbitrary: i) (auto simp: nat_to_string_no_nul blob_value_size)

lemma elements_bytes_member: "e \<in> set es \<Longrightarrow> length (elem_bytes e) \<le> length (elements_bytes es)"
  by (induction es) auto

lemma spliced_ok:
  assumes e: "element_ok e" "is_cursor e \<longrightarrow> fst e = 0x03" and l: "length (elem_bytes (spliced f batch e)) + 5 < 2 ^ 31"
  shows "element_ok (spliced f batch e)"
proof -
  obtain t k v where tkv: "e = (t, k, v)" by (cases e)
  show ?thesis
  proof (cases "is_cursor e")
    case True
    then have "t = 0x03" "k = lit ''cursor''" using e tkv by (simp_all add: is_cursor_def)
    then show ?thesis
      using e l tkv value_size_doc_bytes [of "0x03" "elem_bytes (batch_element f batch) @ take (length v - 5) (drop 4 v)"]
      by (simp add: min_def)
  qed (use e tkv in \<open>simp add: is_cursor_def\<close>)
qed

lemma spliced_elements:
  assumes e: "element_ok e" "is_cursor e" "fst e = 0x03" and f: "0 \<notin> set f"
    and b: "list_all (\<lambda>b. blob_len b \<noteq> None) batch"
    and l: "length (elem_bytes (spliced f batch e)) + 5 < 2 ^ 31"
    and own: "raw_elements (snd (snd e)) = Some es"
  shows "raw_elements (snd (snd (spliced f batch e))) = Some (batch_element f batch # es)"
proof -
  obtain v where v: "e = (0x03, lit ''cursor'', v)" using e by (cases e) (auto simp: is_cursor_def)
  let ?c = "elements_bytes es"
  from raw_elements_sound [OF own] v obtain r where ok: "list_all element_ok es" "length ?c + 5 < 2 ^ 31"
    and vr: "v = doc_bytes ?c @ r" by auto
  have "value_size 0x03 v = Some (length ?c + 5)"
    unfolding vr using value_size_doc_bytes [of "0x03" ?c] ok by (intro value_size_append) simp
  then have "r = []" using e(1) v vr by simp
  then have c: "take (length v - 5) (drop 4 v) = ?c" by (simp add: vr doc_bytes_def)
  have "length (doc_bytes (elements_bytes (batch_list 0 batch))) < 2 ^ 31"
    using l by (simp add: v batch_element_def)
  then have "element_ok (batch_element f batch)"
    using f value_size_doc_bytes [of "0x04" "elements_bytes (batch_list 0 batch)"]
    by (simp add: batch_element_def)
  then show ?thesis
    using raw_elements_complete [of "batch_element f batch # es" "[]"] ok l by (simp add: v c)
qed

section \<open>Properties\<close>

text \<open>C22: a reply with its batch spliced in as bytes reads back as it should: every
  element of the envelope in its place, the cursor's own fields after the batch, and the batch
  as an array whose elements, keyed \<open>0, 1, \<dots>\<close>, are the documents given.\<close>

theorem cursor_reply_splices:
  assumes env: "raw_elements envelope = Some es"
    and cur: "list_all (\<lambda>e. is_cursor e \<longrightarrow> fst e = 0x03) es" "list_ex is_cursor es"
    and b: "list_all (\<lambda>b. blob_len b \<noteq> None) batch" and f: "0 \<notin> set f"
    and out: "out = doc_bytes (elements_bytes (map (spliced f batch) es))" "length out < 2 ^ 31"
  shows "encode_cursor_reply envelope f batch = Inr out
    \<and> raw_elements out = Some (map (spliced f batch) es)
    \<and> list_all (\<lambda>e. is_cursor e \<longrightarrow> (\<forall>own. raw_elements (snd (snd e)) = Some own \<longrightarrow>
          raw_elements (snd (snd (spliced f batch e))) = Some (batch_element f batch # own))) es
    \<and> raw_elements (doc_bytes (elements_bytes (batch_list 0 batch))) = Some (batch_list 0 batch)"
proof (intro conjI)
  from raw_elements_sound [OF env] have ok: "list_all element_ok es" by simp
  have len: "length (elem_bytes (spliced f batch e)) + 5 < 2 ^ 31" if "e \<in> set es" for e
    using elements_bytes_member [of "spliced f batch e" "map (spliced f batch) es"] that out by simp
  show "encode_cursor_reply envelope f batch = Inr out"
    using env cur reply_elements_run [OF ok cur(1) b] patch_len_doc [of "[]"]
    by (simp add: encode_cursor_reply_def out(1))
  show "raw_elements out = Some (map (spliced f batch) es)"
    using raw_elements_complete [of "map (spliced f batch) es" "[]"] ok cur(1) len out
    by (force simp: list_all_iff intro!: spliced_ok)
  show "list_all (\<lambda>e. is_cursor e \<longrightarrow> (\<forall>own. raw_elements (snd (snd e)) = Some own \<longrightarrow>
          raw_elements (snd (snd (spliced f batch e))) = Some (batch_element f batch # own))) es"
    using ok cur(1) b f len spliced_elements by (simp add: list_all_iff)
  obtain e where e: "e \<in> set es" "is_cursor e" using cur(2) by (auto simp: list_ex_iff)
  then have "length (elements_bytes (batch_list 0 batch)) + 5 < 2 ^ 31"
    using len [OF e(1)] by (cases e rule: prod_cases3) (simp add: is_cursor_def batch_element_def)
  then show "raw_elements (doc_bytes (elements_bytes (batch_list 0 batch))) = Some (batch_list 0 batch)"
    using raw_elements_complete [of "batch_list 0 batch" "[]"] batch_list_ok [OF b] by simp
qed

theorem cursor_reply_splices_witness:
  "encode_cursor_reply [18, 0, 0, 0, 3, 99, 117, 114, 115, 111, 114, 0, 5, 0, 0, 0, 0, 0] [98] [[5, 0, 0, 0, 0]]
     = Inr (doc_bytes (elements_bytes (map (spliced [98] [[5, 0, 0, 0, 0]])
         [(3, lit ''cursor'', [5, 0, 0, 0, 0])])))"
proof -
  let ?es = "[(3, lit ''cursor'', [5, 0, 0, 0, 0])]"
  have "raw_elements [18, 0, 0, 0, 3, 99, 117, 114, 115, 111, 114, 0, 5, 0, 0, 0, 0, 0] = Some ?es" by code_simp
  moreover have "list_all (\<lambda>e. is_cursor e \<longrightarrow> fst e = 0x03) ?es" "list_ex is_cursor ?es"
    by (simp_all add: is_cursor_def)
  moreover have "list_all (\<lambda>b. blob_len b \<noteq> None) [[5, 0, 0, 0, 0]]" by code_simp
  moreover have "length (doc_bytes (elements_bytes (map (spliced [98] [[5, 0, 0, 0, 0]]) ?es))) < 2 ^ 31"
    by code_simp
  ultimately show ?thesis using cursor_reply_splices [OF _ _ _ _ _ refl] by simp
qed

end
