(* ===== verification/Bson_Codec.thy ===== *)
theory Bson_Codec
  imports Wire_Cursor
begin

text \<open>
  The document reader and writer of \<open>secantus-core/src/bsondoc.rs\<close>: \<open>from_bytes\<close>, \<open>fields\<close> and
  the reader for documents whose text is not UTF-8 (\<open>read_doc\<close>, \<open>read_value\<close>, \<open>single\<close>), and
  \<open>write\<close>, \<open>to_vec\<close>, \<open>to_raw\<close> with the writer for the carriers (\<open>write_doc\<close>,
  \<open>write_element\<close>).

  The \<open>bson\<close> crate does the common case. What the sources call of it is the record
  \<open>bson_crate\<close>, an argument of every definition; the round trip states what it relies on of
  single scalar values as a hypothesis. The texts of the errors are constructors.
\<close>

section \<open>The crate\<close>

datatype raw_error = Utf8EncodingError rstr | Other_raw_error rstr

datatype ser_error = InvalidCString rstr | Other_ser_error rstr | Ser_io raw_error

text \<open>
  \<open>RawDocument::from_bytes\<close>; the elements a raw document iterates over, each with its value as
  \<open>Bson::try_from\<close> decodes it; \<open>Document::try_from\<close>; \<open>Document::to_writer\<close>, with what it wrote
  before an error; \<open>bson::to_vec\<close>; \<open>RawDocumentBuf::from_bytes\<close>.
\<close>

record bson_crate =
  raw_from_bytes :: "bytes \<Rightarrow> raw_error option"
  raw_iter :: "bytes \<Rightarrow> (raw_error + rstr \<times> (raw_error + bson)) list"
  document_try_from :: "bytes \<Rightarrow> raw_error + document"
  document_to_writer :: "document \<Rightarrow> bytes \<times> ser_error option"
  bson_to_vec :: "document \<Rightarrow> ser_error + bytes"
  raw_buf_from_bytes :: "bytes \<Rightarrow> raw_error option"

section \<open>Reading\<close>

datatype doc_error =
    Raw raw_error
  | Doc_length_past_end
  | Doc_length_too_small int
  | Doc_length_or_terminator
  | Unterminated_key
  | Unterminated_regex
  | Unterminated_regex_options
  | Unknown_element_type u8
  | Value_past_end
  | String_not_terminated
  | Value_did_not_decode

definition rd_len :: "bytes \<Rightarrow> nat \<Rightarrow> int \<Rightarrow> doc_error + nat" where
  "rd_len b pos least =
     (case slice_range b pos (pos + 4) of
        None \<Rightarrow> Inl Doc_length_past_end
      | Some s \<Rightarrow>
          (let n = sint (i32_from_le s) in
           if n < least then Inl (Doc_length_too_small n) else Inr (nat n)))"

definition single :: "bson_crate \<Rightarrow> u8 \<Rightarrow> bytes \<Rightarrow> doc_error + bson" where
  "single crate t v =
     (let buf = i32_to_le (of_nat (length v + 7)) @ [t, 0] @ v @ [0] in
      case raw_from_bytes crate buf of
        Some e \<Rightarrow> Inl (Raw e)
      | None \<Rightarrow>
          (case document_try_from crate buf of
             Inl e \<Rightarrow> Inl (Raw e)
           | Inr d \<Rightarrow> (case doc_get d [] of None \<Rightarrow> Inl Value_did_not_decode | Some x \<Rightarrow> Inr x)))"

text \<open>The name of a field, from its bytes.\<close>

definition key_name :: "bytes \<Rightarrow> rstr" where
  "key_name bs = (if utf8_valid bs then bs else escape_key bs)"

text \<open>The size of a value, as \<open>read_value\<close> computes it.\<close>

definition value_extent :: "u8 \<Rightarrow> bytes \<Rightarrow> doc_error + nat" where
  "value_extent t rest =
     (if t \<in> {0x01, 0x09, 0x11, 0x12} then Inr 8
      else if t \<in> {0x02, 0x0D, 0x0E} then bind_res (rd_len rest 0 1) (\<lambda>n. Inr (4 + n))
      else if t \<in> {0x03, 0x04, 0x0F} then rd_len rest 0 5
      else if t = 0x05 then bind_res (rd_len rest 0 0) (\<lambda>n. Inr (5 + n))
      else if t \<in> {0x06, 0x0A, 0x7F, 0xFF} then Inr 0
      else if t = 0x07 then Inr 12
      else if t = 0x08 then Inr 1
      else if t = 0x0B then
        (case position (\<lambda>c. c = 0) rest of
           None \<Rightarrow> Inl Unterminated_regex
         | Some p \<Rightarrow>
             (case position (\<lambda>c. c = 0) (drop (p + 1) rest) of
                None \<Rightarrow> Inl Unterminated_regex_options
              | Some q \<Rightarrow> Inr (p + 1 + q + 1)))
      else if t = 0x0C then bind_res (rd_len rest 0 1) (\<lambda>n. Inr (4 + n + 12))
      else if t = 0x10 then Inr 4
      else if t = 0x13 then Inr 16
      else Inl (Unknown_element_type t))"

function read_doc :: "bson_crate \<Rightarrow> bytes \<Rightarrow> doc_error + document"
  and read_elements :: "bson_crate \<Rightarrow> bytes \<Rightarrow> document \<Rightarrow> doc_error + document"
  and read_value :: "bson_crate \<Rightarrow> u8 \<Rightarrow> bytes \<Rightarrow> doc_error + bson \<times> nat" where
  "read_doc crate b =
     bind_res (rd_len b 0 5) (\<lambda>declared.
       if declared \<noteq> length b \<or> b ! (length b - 1) \<noteq> 0 then Inl Doc_length_or_terminator
       else read_elements crate (take (declared - 5) (drop 4 b)) [])"
| "read_elements crate s out =
     (case s of
        [] \<Rightarrow> Inr out
      | t # s' \<Rightarrow>
          (case position (\<lambda>c. c = 0) s' of
             None \<Rightarrow> Inl Unterminated_key
           | Some k \<Rightarrow>
               bind_res (read_value crate t (drop (k + 1) s')) (\<lambda>r.
                 read_elements crate (drop (snd r) (drop (k + 1) s'))
                   (doc_insert out (key_name (take k s')) (fst r)))))"
| "read_value crate t rest =
     bind_res (value_extent t rest) (\<lambda>sz.
       case slice_range rest 0 sz of
         None \<Rightarrow> Inl Value_past_end
       | Some v \<Rightarrow>
           bind_res
             (if t = 0x02 then
                (if v ! (sz - 1) \<noteq> 0 then Inl String_not_terminated
                 else Inr (string_from_bytes (take (sz - 5) (drop 4 v))))
              else if t = 0x03 then bind_res (read_doc crate v) (\<lambda>d. Inr (Document d))
              else if t = 0x04 then bind_res (read_doc crate v) (\<lambda>d. Inr (Array (map snd d)))
              else if 0x0B \<le> t \<and> t \<le> 0x0F then
                (case single crate t v of Inr x \<Rightarrow> Inr x | Inl _ \<Rightarrow> Inr (raw_text t v))
              else single crate t v)
             (\<lambda>x. Inr (x, sz)))"
  by pat_completeness auto
termination
  by (relation "measure (\<lambda>x. case x of
        Inl (_, b) \<Rightarrow> 2 * length b
      | Inr (Inl (_, s, _)) \<Rightarrow> 2 * length s
      | Inr (Inr (_, _, rest)) \<Rightarrow> 2 * length rest + 1)")
     (auto simp: rd_len_def slice_range_def Let_def split: option.splits if_splits)

declare read_doc.simps [simp del] read_elements.simps [simp del] read_value.simps [simp del]

definition from_bytes :: "bson_crate \<Rightarrow> bytes \<Rightarrow> doc_error + document" where
  "from_bytes crate bs =
     (let declared =
            Option.bind (map_option i32_from_le (slice_range bs 0 4)) (\<lambda>n.
              if sint n < 0 then None
              else if nat (sint n) \<le> length bs then Some (nat (sint n)) else None);
          exact = (case declared of Some n \<Rightarrow> take n bs | None \<Rightarrow> bs)
      in case raw_from_bytes crate exact of
           Some e \<Rightarrow> Inl (Raw e)
         | None \<Rightarrow>
             (case document_try_from crate exact of
                Inr doc \<Rightarrow> Inr doc
              | Inl (Utf8EncodingError _) \<Rightarrow> read_doc crate exact
              | Inl e \<Rightarrow> Inl (Raw e)))"

text \<open>The fast loop of \<open>fields\<close>, and its loop over a decoded document.\<close>

fun fields_fast ::
  "(rstr \<Rightarrow> bool) \<Rightarrow> (raw_error + rstr \<times> (raw_error + bson)) list \<Rightarrow> document \<Rightarrow> raw_error + document" where
  "fields_fast keep [] out = Inr out"
| "fields_fast keep (Inl e # es) out = Inl e"
| "fields_fast keep (Inr (key, val) # es) out =
     (if keep key then bind_res val (\<lambda>x. fields_fast keep es (doc_insert out key x))
      else fields_fast keep es out)"

definition fields_of :: "bson_crate \<Rightarrow> bytes \<Rightarrow> (rstr \<Rightarrow> bool) \<Rightarrow> doc_error + document" where
  "fields_of crate bs keep =
     (case (case raw_from_bytes crate bs of Some e \<Rightarrow> Inl e | None \<Rightarrow> fields_fast keep (raw_iter crate bs) []) of
        Inr d \<Rightarrow> Inr d
      | Inl _ \<Rightarrow>
          bind_res (from_bytes crate bs) (\<lambda>d.
            Inr (foldl (\<lambda>out (k, v). if keep k then doc_insert out k v else out) [] d)))"

section \<open>Writing\<close>

text \<open>
  A writer appends to the buffer it is given and returns the buffer with the error it stopped at,
  if any: what was appended before an error stays. The one index that can be out of range, into
  the crate's own output, is \<open>Write_panic\<close>.
\<close>

datatype write_stop = Ser ser_error | Write_panic

type_synonym written = "bytes \<times> write_stop option"

definition and_then :: "written \<Rightarrow> (bytes \<Rightarrow> written) \<Rightarrow> written" where
  "and_then w f = (case snd w of Some e \<Rightarrow> w | None \<Rightarrow> f (fst w))"

lemma and_then_simps [simp]:
  "and_then (out, None) f = f out" "and_then (out, Some e) f = (out, Some e)"
  by (simp_all add: and_then_def)

lemma and_then_cong [fundef_cong]:
  "w = w' \<Longrightarrow> (\<And>out. w' = (out, None) \<Longrightarrow> f out = f' out) \<Longrightarrow> and_then w f = and_then w' f'"
  by (cases w'; cases "snd w'") (auto simp: and_then_def)

text \<open>The closure \<open>head\<close>: the type, the key and its terminator.\<close>

definition elem_head :: "bytes \<Rightarrow> u8 \<Rightarrow> bytes \<Rightarrow> bytes" where
  "elem_head key t out = out @ t # key @ [0]"

definition codec_patch_len :: "bytes \<Rightarrow> nat \<Rightarrow> bytes" where
  "codec_patch_len out start =
     take start out @ i32_to_le (of_nat (length out - start)) @ drop (start + 4) out"

text \<open>A value written through the crate's encoder, as a document with an empty key.\<close>

definition write_other :: "bson_crate \<Rightarrow> bytes \<Rightarrow> bson \<Rightarrow> bytes \<Rightarrow> written" where
  "write_other crate key v out =
     (case bson_to_vec crate [([], v)] of
        Inl e \<Rightarrow> (out, Some (Ser e))
      | Inr bs \<Rightarrow>
          if length bs < 7 then (out, Some Write_panic)
          else (elem_head key (bs ! 4) out @ take (length bs - 7) (drop 6 bs), None))"

function write_doc :: "bson_crate \<Rightarrow> document \<Rightarrow> bytes \<Rightarrow> written"
  and write_fields :: "bson_crate \<Rightarrow> document \<Rightarrow> bytes \<Rightarrow> written"
  and write_element :: "bson_crate \<Rightarrow> bytes \<Rightarrow> bson \<Rightarrow> bytes \<Rightarrow> written"
  and write_items :: "bson_crate \<Rightarrow> nat \<Rightarrow> bson list \<Rightarrow> bytes \<Rightarrow> written" where
  "write_doc crate doc out =
     and_then (write_fields crate doc (out @ [0, 0, 0, 0]))
       (\<lambda>o1. (codec_patch_len (o1 @ [0]) (length out), None))"
| "write_fields crate [] out = (out, None)"
| "write_fields crate ((k, v) # doc) out =
     (case key_bytes k of
        None \<Rightarrow> (out, Some (Ser (InvalidCString k)))
      | Some key \<Rightarrow> and_then (write_element crate key v out) (write_fields crate doc))"
| "write_element crate key v out =
     (case as_raw_text v of
        Some (t, raw) \<Rightarrow> (elem_head key t out @ raw, None)
      | None \<Rightarrow>
     (case as_invalid_utf8 v of
        Some bs \<Rightarrow> (elem_head key 0x02 out @ i32_to_le (of_nat (length bs + 1)) @ bs @ [0], None)
      | None \<Rightarrow>
     (case v of
        Document d \<Rightarrow> write_doc crate d (elem_head key 0x03 out)
      | Array a \<Rightarrow>
          (let o1 = elem_head key 0x04 out in
           and_then (write_items crate 0 a (o1 @ [0, 0, 0, 0]))
             (\<lambda>o2. (codec_patch_len (o2 @ [0]) (length o1), None)))
      | JavaScriptCodeWithScope code scope \<Rightarrow>
          (let o1 = elem_head key 0x0F out in
           and_then
             (write_doc crate scope
               (o1 @ [0, 0, 0, 0] @ i32_to_le (of_nat (length code + 1)) @ code @ [0]))
             (\<lambda>o2. (codec_patch_len o2 (length o1), None)))
      | _ \<Rightarrow> write_other crate key v out)))"
| "write_items crate i [] out = (out, None)"
| "write_items crate i (x # xs) out =
     and_then (write_element crate (nat_to_string i) x out) (write_items crate (Suc i) xs)"
  by pat_completeness auto
termination by size_change

declare write_doc.simps [simp del] write_element.simps [simp del]

definition write_bson :: "bson_crate \<Rightarrow> document \<Rightarrow> bytes \<Rightarrow> written" where
  "write_bson crate doc out =
     (let r = document_to_writer crate doc; o1 = out @ fst r in
      case snd r of
        None \<Rightarrow> (o1, None)
      | Some (InvalidCString _) \<Rightarrow> write_doc crate doc (take (length out) o1)
      | Some e \<Rightarrow> (o1, Some (Ser e)))"

definition to_vec :: "bson_crate \<Rightarrow> document \<Rightarrow> write_stop + bytes" where
  "to_vec crate doc =
     (let r = write_bson crate doc [] in case snd r of None \<Rightarrow> Inr (fst r) | Some e \<Rightarrow> Inl e)"

definition to_raw :: "bson_crate \<Rightarrow> document \<Rightarrow> write_stop + bytes" where
  "to_raw crate doc =
     bind_res (to_vec crate doc) (\<lambda>bs.
       case raw_buf_from_bytes crate bs of None \<Rightarrow> Inr bs | Some e \<Rightarrow> Inl (Ser (Ser_io e)))"

section \<open>The layout both readers compute\<close>

definition res_option :: "'e + 'a \<Rightarrow> 'a option" where
  "res_option r = (case r of Inl _ \<Rightarrow> None | Inr x \<Rightarrow> Some x)"

lemma res_option_simps [simp]:
  "res_option (Inl e) = None" "res_option (Inr x) = Some x"
  "res_option (bind_res r f) = Option.bind (res_option r) (\<lambda>x. res_option (f x))"
  "res_option (if b then r else r') = (if b then res_option r else res_option r')"
  by (cases r; simp add: res_option_def)+

lemma rd_len_len_at: "res_option (rd_len b 0 m) = len_at b 0 m" if "0 \<le> m"
  using that by (auto simp: rd_len_def len_at_def rd_i32_checked_def Let_def split: option.splits)

lemma value_extent_declared: "res_option (value_extent t rest) = declared_size t rest"
proof -
  have "res_option (case position (\<lambda>c. c = 0) rest of None \<Rightarrow> Inl Unterminated_regex
     | Some p \<Rightarrow> (case position (\<lambda>c. c = 0) (drop (p + 1) rest) of
          None \<Rightarrow> Inl Unterminated_regex_options | Some q \<Rightarrow> Inr (p + 1 + q + 1)))
    = Option.bind (position (\<lambda>c. c = 0) rest) (\<lambda>p.
          map_option (\<lambda>q. p + 1 + q + 1) (position (\<lambda>c. c = 0) (drop (p + 1) rest)))"
    by (auto split: option.splits)
  then show ?thesis
    by (simp add: value_extent_def declared_size_def rd_len_len_at map_conv_bind_option comp_def)
qed

lemma value_extent_iff: "value_extent t rest = Inr n \<longleftrightarrow> declared_size t rest = Some n"
  using value_extent_declared [of t rest] by (cases "value_extent t rest") (auto simp: res_option_def)

lemma value_extent_append: "value_extent t v = Inr n \<Longrightarrow> value_extent t (v @ r) = Inr n"
  using declared_size_append [of t v r] by (simp add: value_extent_iff opt_le_def)

end
