(* ===== verification/Codec_Roundtrip.thy ===== *)
theory Codec_Roundtrip
  imports Bson_Codec
begin

text \<open>
  Documents with text that is not UTF-8 survive the writer and the reader of
  \<open>secantus-core/src/bsondoc.rs\<close>: what \<open>write_doc\<close> writes, \<open>read_doc\<close> reads back as the same
  document.
\<close>

section \<open>Documents that can be written\<close>

text \<open>A field name as the reader makes it: from bytes without a NUL.\<close>

definition key_ok :: "rstr \<Rightarrow> bool" where
  "key_ok k \<longleftrightarrow> (case key_bytes k of None \<Rightarrow> False | Some bs \<Rightarrow> 0 \<notin> set bs \<and> key_name bs = k)"

text \<open>
  What the crate documents of one scalar value: the document it encodes for it under an empty key
  holds the value's type and bytes, of the size BSON gives that type, and decodes to the value. A
  string is its length, its bytes and a NUL.
\<close>

definition crate_scalar :: "bson_crate \<Rightarrow> bson \<Rightarrow> bool" where
  "crate_scalar crate v \<longleftrightarrow>
     (\<exists>t p. bson_to_vec crate [([], v)] = Inr (i32_to_le (of_nat (length p + 7)) @ [t, 0] @ p @ [0])
        \<and> declared_size t p = Some (length p) \<and> t \<noteq> 0x03 \<and> t \<noteq> 0x04
        \<and> (if t = 0x02
           then (\<exists>s. v = String s \<and> utf8_valid s \<and> p = i32_to_le (of_nat (length s + 1)) @ s @ [0])
           else single crate t p = Inr v))"

fun is_scalar :: "bson \<Rightarrow> bool" where
  "is_scalar (Document _) = False"
| "is_scalar (Array _) = False"
| "is_scalar (JavaScriptCodeWithScope _ _) = False"
| "is_scalar _ = True"

inductive value_ok :: "bson_crate \<Rightarrow> bson \<Rightarrow> bool" for crate where
  scalar: "is_scalar v \<Longrightarrow> crate_scalar crate v \<Longrightarrow> value_ok crate v"
| carrier: "\<not> utf8_valid bs \<Longrightarrow> value_ok crate (invalid_utf8 bs)"
| raw_carrier: "0x0B \<le> t \<Longrightarrow> t \<le> 0x0F \<Longrightarrow> declared_size t raw = Some (length raw) \<Longrightarrow>
     single crate t raw = Inl e \<Longrightarrow> value_ok crate (raw_text t raw)"
| document: "distinct (map fst d) \<Longrightarrow> \<forall>kv \<in> set d. key_ok (fst kv) \<Longrightarrow> \<forall>kv \<in> set d. value_ok crate (snd kv) \<Longrightarrow>
     value_ok crate (Document d)"
| array: "\<forall>x \<in> set a. value_ok crate x \<Longrightarrow> value_ok crate (Array a)"

section \<open>One element\<close>

definition element_roundtrip :: "bson_crate \<Rightarrow> bson \<Rightarrow> bool" where
  "element_roundtrip crate v \<longleftrightarrow>
     (\<exists>t p. (\<forall>key out. write_element crate key v out = (elem_head key t out @ p, None))
        \<and> (length p < 2 ^ 31 \<longrightarrow> (\<forall>rest. read_value crate t (p @ rest) = Inr (v, length p))))"

lemma element_roundtripI:
  assumes "\<And>key out. write_element crate key v out = (elem_head key t out @ p, None)"
    and "\<And>rest. length p < 2 ^ 31 \<Longrightarrow> read_value crate t (p @ rest) = Inr (v, length p)"
  shows "element_roundtrip crate v"
  using assms unfolding element_roundtrip_def by blast

lemma slice_range_prefix: "slice_range (p @ r) 0 (length p) = Some p"
  by (simp add: slice_range_def)

lemma key_okD:
  assumes "key_ok k"
  obtains bs where "key_bytes k = Some bs" "0 \<notin> set bs" "key_name bs = k"
  using assms by (auto simp: key_ok_def split: option.splits)

text \<open>The string layout under type \<open>0x02\<close>.\<close>

abbreviation string_payload :: "bytes \<Rightarrow> bytes" where
  "string_payload s \<equiv> i32_to_le (of_nat (length s + 1)) @ s @ [0]"

lemma read_value_string:
  assumes "length (string_payload s) < 2 ^ 31"
  shows "read_value crate 0x02 (string_payload s @ rest) = Inr (string_from_bytes s, length (string_payload s))"
proof -
  let ?p = "string_payload s"
  have "sint (of_nat (length s + 1) :: i32) = int (length s + 1)"
    using assms by (intro sint_of_nat_i32) simp
  then have "declared_size 0x02 (?p @ rest) = Some (length ?p)"
    by (simp add: declared_size_def len_at_def rd_i32_checked_def slice_range_def nat_add_distrib del: of_nat_add)
  then have e: "value_extent 0x02 (?p @ rest) = Inr (length ?p)" by (simp only: value_extent_iff)
  have "?p ! (length ?p - 1) = 0" "take (length ?p - 5) (drop 4 ?p) = s"
    by (simp_all add: nth_append)
  then show ?thesis
    by (subst read_value.simps) (simp only: e bind_res_simps slice_range_prefix option.case, simp)
qed

lemma scalar_write:
  assumes "is_scalar v" shows "write_element crate key v out = write_other crate key v out"
proof -
  have "as_raw_text v = None" "as_invalid_utf8 v = None"
    using assms by (cases v; simp add: as_raw_text_def as_invalid_utf8_def)+
  then show ?thesis using assms by (subst write_element.simps) (cases v; simp)
qed

lemma scalar_roundtrip:
  assumes "is_scalar v" "crate_scalar crate v" shows "element_roundtrip crate v"
proof -
  from assms(2) obtain t p where
    enc: "bson_to_vec crate [([], v)] = Inr (i32_to_le (of_nat (length p + 7)) @ [t, 0] @ p @ [0])"
    and sz: "declared_size t p = Some (length p)" and t: "t \<noteq> 0x03" "t \<noteq> 0x04"
    and dec: "if t = 0x02 then (\<exists>s. v = String s \<and> utf8_valid s \<and> p = string_payload s) else single crate t p = Inr v"
    unfolding crate_scalar_def by blast
  show ?thesis
  proof (rule element_roundtripI)
    show "write_element crate key v out = (elem_head key t out @ p, None)" for key out
      by (simp add: scalar_write [OF assms(1)] write_other_def enc nth_append)
    show "read_value crate t (p @ rest) = Inr (v, length p)" if l: "length p < 2 ^ 31" for rest
    proof (cases "t = 0x02")
      case True
      then obtain s where "v = String s" "utf8_valid s" "p = string_payload s" using dec by auto
      then show ?thesis using read_value_string [of s crate rest] l True by (simp add: string_from_bytes_def)
    next
      case False
      then have "single crate t p = Inr v" using dec by simp
      moreover have "value_extent t (p @ rest) = Inr (length p)"
        using sz by (intro value_extent_append) (simp add: value_extent_iff)
      ultimately show ?thesis using False t
        by (subst read_value.simps) (simp add: slice_range_prefix)
    qed
  qed
qed

lemma carrier_roundtrip:
  assumes "\<not> utf8_valid bs" shows "element_roundtrip crate (invalid_utf8 bs)"
proof (rule element_roundtripI)
  have "as_raw_text (invalid_utf8 bs) = None"
    by (simp add: as_raw_text_def invalid_utf8_def INVALID_UTF8_KEY_def)
  then show "write_element crate key (invalid_utf8 bs) out = (elem_head key 0x02 out @ string_payload bs, None)" for key out
    by (subst write_element.simps) simp
  show "read_value crate 0x02 (string_payload bs @ rest) = Inr (invalid_utf8 bs, length (string_payload bs))"
    if "length (string_payload bs) < 2 ^ 31" for rest
    using read_value_string [OF that] assms by (simp add: string_from_bytes_def)
qed

lemma raw_carrier_roundtrip:
  assumes t: "0x0B \<le> t" "t \<le> 0x0F" and sz: "declared_size t raw = Some (length raw)"
    and s: "single crate t raw = Inl e"
  shows "element_roundtrip crate (raw_text t raw)"
proof (rule element_roundtripI)
  show "write_element crate key (raw_text t raw) out = (elem_head key t out @ raw, None)" for key out
    using as_raw_text_raw_text [OF t, of raw] by (subst write_element.simps) simp
  have "t \<noteq> 0x02" "t \<noteq> 0x03" "t \<noteq> 0x04" using t by auto
  moreover have "value_extent t (raw @ rest) = Inr (length raw)" for rest
    using sz by (intro value_extent_append) (simp add: value_extent_iff)
  ultimately show "read_value crate t (raw @ rest) = Inr (raw_text t raw, length raw)" for rest
    using t s by (subst read_value.simps) (simp add: slice_range_prefix)
qed

section \<open>Documents and arrays\<close>

lemma codec_patch_len_doc:
  "codec_patch_len (a @ [0, 0, 0, 0] @ c @ [0]) (length a) = a @ doc_bytes c"
  using patch_len_doc [of a c] by (simp add: codec_patch_len_def patch_len_def)

lemma read_doc_bytes:
  assumes "length c + 5 < 2 ^ 31"
  shows "read_doc crate (doc_bytes c) = read_elements crate c []"
proof -
  have "sint (of_nat (length c + 5) :: i32) = int (length c + 5)" using assms by (rule sint_of_nat_i32)
  then have "rd_len (doc_bytes c) 0 5 = Inr (length c + 5)"
    by (simp add: rd_len_def slice_range_def doc_bytes_def Let_def nat_add_distrib del: of_nat_add)
  moreover have "doc_bytes c ! (length c + 4) = 0" "take (length c) (drop 4 (doc_bytes c)) = c"
    by (simp_all add: doc_bytes_def nth_append)
  ultimately show ?thesis by (subst read_doc.simps) (simp add: add.commute)
qed

lemma doc_insert_new: "k \<notin> set (map fst d) \<Longrightarrow> doc_insert d k v = d @ [(k, v)]"
  by (induction d k v rule: doc_insert.induct) auto

lemma fields_roundtrip:
  assumes "\<forall>kv \<in> set d. key_ok (fst kv) \<and> element_roundtrip crate (snd kv)"
  shows "\<exists>w. (\<forall>out. write_fields crate d out = (out @ w, None))
    \<and> (length w < 2 ^ 31 \<longrightarrow> (\<forall>acc. distinct (map fst (acc @ d)) \<longrightarrow> read_elements crate w acc = Inr (acc @ d)))"
  using assms
proof (induction d)
  case Nil
  then show ?case by (intro exI [of _ "[]"]) (simp add: read_elements.simps)
next
  case (Cons kv d)
  obtain k v where kv: "kv = (k, v)" by (cases kv)
  obtain bs where bs: "key_bytes k = Some bs" "0 \<notin> set bs" "key_name bs = k"
    using Cons.prems kv by (auto elim!: key_okD)
  from Cons.prems kv obtain t p where
    wr: "\<And>key out. write_element crate key v out = (elem_head key t out @ p, None)"
    and rd: "length p < 2 ^ 31 \<Longrightarrow> \<forall>rest. read_value crate t (p @ rest) = Inr (v, length p)"
    by (auto simp: element_roundtrip_def)
  from Cons obtain w where w: "\<forall>out. write_fields crate d out = (out @ w, None)"
    and r: "length w < 2 ^ 31 \<longrightarrow> (\<forall>acc. distinct (map fst (acc @ d)) \<longrightarrow> read_elements crate w acc = Inr (acc @ d))"
    by auto
  let ?w = "t # bs @ 0 # p @ w"
  have "write_fields crate (kv # d) out = (out @ ?w, None)" for out
    using bs wr w by (simp add: kv elem_head_def)
  moreover have "read_elements crate ?w acc = Inr (acc @ kv # d)"
    if l: "length ?w < 2 ^ 31" and d: "distinct (map fst (acc @ kv # d))" for acc
  proof -
    have "position (\<lambda>c. c = 0) (bs @ 0 # p @ w) = Some (length bs)"
      using bs(2) by (intro position_append) auto
    moreover have "read_value crate t (p @ w) = Inr (v, length p)" using rd l by simp
    moreover have "doc_insert acc k v = acc @ [(k, v)]" using d kv by (intro doc_insert_new) auto
    moreover have "read_elements crate w (acc @ [(k, v)]) = Inr ((acc @ [(k, v)]) @ d)"
      using r l d kv by simp
    ultimately show ?thesis using bs(3) kv by (subst read_elements.simps) simp
  qed
  ultimately show ?case by blast
qed

lemma document_roundtrip_bytes:
  assumes "\<forall>kv \<in> set d. key_ok (fst kv) \<and> element_roundtrip crate (snd kv)"
  shows "\<exists>w. (\<forall>out. write_fields crate d out = (out @ w, None)) \<and> (\<forall>out. write_doc crate d out = (out @ doc_bytes w, None))
    \<and> (length (doc_bytes w) < 2 ^ 31 \<longrightarrow> distinct (map fst d) \<longrightarrow> read_doc crate (doc_bytes w) = Inr d)"
proof -
  from fields_roundtrip [OF assms] obtain w where w: "\<forall>out. write_fields crate d out = (out @ w, None)"
    and r: "length w < 2 ^ 31 \<longrightarrow> (\<forall>acc. distinct (map fst (acc @ d)) \<longrightarrow> read_elements crate w acc = Inr (acc @ d))"
    by blast
  have "write_doc crate d out = (out @ doc_bytes w, None)" for out
    using w codec_patch_len_doc [of out w] by (subst write_doc.simps) simp
  moreover have "read_doc crate (doc_bytes w) = Inr d"
    if "length (doc_bytes w) < 2 ^ 31" "distinct (map fst d)"
    using r that by (simp add: read_doc_bytes)
  ultimately show ?thesis using w by blast
qed

text \<open>A value of type \<open>0x03\<close> or \<open>0x04\<close> that reads as a document.\<close>

lemma value_extent_doc:
  "t \<in> {0x03, 0x04} \<Longrightarrow> length (doc_bytes w) < 2 ^ 31 \<Longrightarrow> value_extent t (doc_bytes w @ rest) = Inr (length (doc_bytes w))"
  using value_size_doc_bytes [of t w]
  by (intro value_extent_append) (auto simp: value_extent_iff value_size_def bind_eq_Some_conv split: if_splits)

lemma key_ok_not_carrier:
  assumes "\<forall>kv \<in> set d. key_ok (fst kv)"
  shows "as_raw_text (Document d) = None" "as_invalid_utf8 (Document d) = None"
proof -
  have "key_bytes INVALID_UTF8_KEY = None" by code_simp
  then have "\<not> key_ok INVALID_UTF8_KEY" by (simp add: key_ok_def)
  then show "as_invalid_utf8 (Document d) = None"
    using assms as_invalid_utf8_SomeD [of "Document d"] by (cases "as_invalid_utf8 (Document d)") auto
  have no: "\<not> key_ok (0 # hex2 t)" if "0x0B \<le> t" "t \<le> 0x0F" for t :: u8
  proof -
    have "t \<in> {0x0B, 0x0C, 0x0D, 0x0E, 0x0F}"
    proof -
      have "unat t \<in> {11, 12, 13, 14, 15}" using that by (auto simp: word_le_nat_alt)
      then show ?thesis by (auto simp: word_unat_eq_iff)
    qed
    moreover have "key_bytes (0 # hex2 0x0B) = None" "key_bytes (0 # hex2 0x0C) = None"
      "key_bytes (0 # hex2 0x0D) = None" "key_bytes (0 # hex2 0x0E) = None" "key_bytes (0 # hex2 0x0F) = None"
      by code_simp+
    ultimately show ?thesis by (auto simp: key_ok_def)
  qed
  show "as_raw_text (Document d) = None"
  proof (cases "as_raw_text (Document d)")
    case (Some r)
    obtain t raw where "r = (t, raw)" by (cases r)
    with Some as_raw_text_SomeD [of "Document d" t raw] no [of t] assms show ?thesis by auto
  qed simp
qed

lemma document_roundtrip_value:
  assumes "distinct (map fst d)" "\<forall>kv \<in> set d. key_ok (fst kv)" "\<forall>kv \<in> set d. element_roundtrip crate (snd kv)"
  shows "element_roundtrip crate (Document d)"
proof -
  from document_roundtrip_bytes [of d crate] assms obtain w where
    wr: "\<forall>out. write_doc crate d out = (out @ doc_bytes w, None)"
    and rd: "length (doc_bytes w) < 2 ^ 31 \<longrightarrow> distinct (map fst d) \<longrightarrow> read_doc crate (doc_bytes w) = Inr d" by blast
  show ?thesis
  proof (rule element_roundtripI)
    show "write_element crate key (Document d) out = (elem_head key 0x03 out @ doc_bytes w, None)" for key out
      using key_ok_not_carrier [OF assms(2)] wr by (subst write_element.simps) simp
    show "read_value crate 0x03 (doc_bytes w @ rest) = Inr (Document d, length (doc_bytes w))"
      if "length (doc_bytes w) < 2 ^ 31" for rest
      using that rd assms(1) value_extent_doc [of "0x03" w rest] slice_range_prefix [of "doc_bytes w" rest]
      by (subst read_value.simps) simp
  qed
qed

text \<open>An array is written as the document of its indices.\<close>

fun index_doc :: "nat \<Rightarrow> bson list \<Rightarrow> document" where
  "index_doc i [] = []"
| "index_doc i (x # xs) = (nat_to_string i, x) # index_doc (Suc i) xs"

lemma snd_index_doc [simp]: "map snd (index_doc i xs) = xs"
  by (induction xs arbitrary: i) auto

lemma set_index_doc: "kv \<in> set (index_doc i xs) \<Longrightarrow> (\<exists>j \<ge> i. fst kv = nat_to_string j) \<and> snd kv \<in> set xs"
proof (induction xs arbitrary: i)
  case (Cons x xs)
  then consider "kv = (nat_to_string i, x)" | "kv \<in> set (index_doc (Suc i) xs)" by auto
  then show ?case
  proof cases
    case 2
    then show ?thesis using Cons.IH [of "Suc i"] by (auto intro: Suc_leD)
  qed auto
qed simp

lemma nat_to_string_inj: "nat_to_string a = nat_to_string b \<Longrightarrow> a = b"
proof -
  assume "nat_to_string a = nat_to_string b"
  then have "map digit_of (nat_to_string a) = map digit_of (nat_to_string b)" by simp
  moreover have "map digit_of (nat_to_string n) = nat_digits n" for n
  proof -
    have "map (\<lambda>d. digit_of (of_nat (48 + d))) (nat_digits n) = map (\<lambda>d. d) (nat_digits n)"
      using nat_digits_less [of _ n] by (intro map_cong refl digit_of_ascii)
    then show ?thesis unfolding nat_to_string_def by (simp only: map_map comp_def list.map_ident)
  qed
  ultimately have "nat_digits a = nat_digits b" by simp
  then show "a = b" by (metis digits_val_nat_digits)
qed

lemma distinct_index_doc: "distinct (map fst (index_doc i xs))"
proof (induction xs arbitrary: i)
  case (Cons x xs)
  have "nat_to_string i \<notin> set (map fst (index_doc (Suc i) xs))"
    using set_index_doc [of _ "Suc i" xs] nat_to_string_inj by fastforce
  with Cons show ?case by simp
qed simp

lemma ascii_utf8_valid: "\<forall>b \<in> set bs. b < 0x80 \<Longrightarrow> utf8_valid bs"
proof (induction bs rule: utf8_items.induct)
  case (1 bs)
  show ?case
  proof (cases bs)
    case (Cons b cs)
    then have i: "utf8_item bs = (True, 1)" using "1.prems" by (simp add: utf8_item_def)
    have "utf8_valid cs" using "1.IH" [of "(True, 1)" True 1] i Cons "1.prems" by auto
    then show ?thesis using i
      by (simp add: utf8_valid_def Cons utf8_items.simps [of "b # cs"])
  qed (simp add: utf8_valid_def utf8_items.simps [of "[]"])
qed

lemma key_ok_index: "key_ok (nat_to_string i)"
proof -
  have "\<forall>b \<in> set (nat_to_string i). b < 0x80"
    using nat_digits_less [of _ i]
    by (fastforce simp: nat_to_string_def word_less_nat_alt unat_of_nat simp del: of_nat_add)
  then show ?thesis
    by (simp add: key_ok_def key_bytes_def nat_to_string_no_nul key_name_def ascii_utf8_valid)
qed

lemma write_items_fields: "write_items crate i xs out = write_fields crate (index_doc i xs) out"
proof (induction xs arbitrary: i out)
  case (Cons x xs)
  then have "write_items crate (Suc i) xs = write_fields crate (index_doc (Suc i) xs)" by (intro ext)
  then show ?case by (simp add: key_bytes_def nat_to_string_no_nul)
qed simp

lemma array_roundtrip_value:
  assumes "\<forall>x \<in> set a. element_roundtrip crate x"
  shows "element_roundtrip crate (Array a)"
proof -
  have "\<forall>kv \<in> set (index_doc 0 a). key_ok (fst kv) \<and> element_roundtrip crate (snd kv)"
    using set_index_doc [of _ 0 a] assms key_ok_index by metis
  from document_roundtrip_bytes [OF this] obtain w where
    wr: "\<forall>out. write_fields crate (index_doc 0 a) out = (out @ w, None)"
    and rd: "length (doc_bytes w) < 2 ^ 31 \<longrightarrow> read_doc crate (doc_bytes w) = Inr (index_doc 0 a)"
    using distinct_index_doc by blast
  have c: "as_raw_text (Array a) = None" "as_invalid_utf8 (Array a) = None"
    by (simp_all add: as_raw_text_def as_invalid_utf8_def)
  show ?thesis
  proof (rule element_roundtripI)
    show "write_element crate key (Array a) out = (elem_head key 0x04 out @ doc_bytes w, None)" for key out
      using wr c codec_patch_len_doc [of "elem_head key 0x04 out" w]
      by (subst write_element.simps) (simp add: write_items_fields Let_def)
    show "read_value crate 0x04 (doc_bytes w @ rest) = Inr (Array a, length (doc_bytes w))"
      if "length (doc_bytes w) < 2 ^ 31" for rest
      using that rd value_extent_doc [of "0x04" w rest] slice_range_prefix [of "doc_bytes w" rest]
      by (subst read_value.simps) simp
  qed
qed

lemma value_ok_roundtrip: "value_ok crate v \<Longrightarrow> element_roundtrip crate v"
proof (induction rule: value_ok.induct)
  case (document d)
  then show ?case by (blast intro: document_roundtrip_value)
next
  case (array a)
  then show ?case by (blast intro: array_roundtrip_value)
qed (blast intro: scalar_roundtrip carrier_roundtrip raw_carrier_roundtrip)+

definition doc_ok :: "bson_crate \<Rightarrow> document \<Rightarrow> bool" where
  "doc_ok crate d \<longleftrightarrow> distinct (map fst d) \<and> (\<forall>kv \<in> set d. key_ok (fst kv) \<and> value_ok crate (snd kv))"

lemma doc_ok_roundtrip:
  assumes "doc_ok crate d"
  shows "\<exists>w. (\<forall>out. write_doc crate d out = (out @ doc_bytes w, None))
    \<and> (length (doc_bytes w) < 2 ^ 31 \<longrightarrow> read_doc crate (doc_bytes w) = Inr d)"
  using document_roundtrip_bytes [of d crate] assms value_ok_roundtrip by (fastforce simp: doc_ok_def)

section \<open>What the reader accepts\<close>

lemma read_value_extent:
  assumes "read_value crate t rest = Inr (x, n)"
  shows "value_extent t rest = Inr n \<and> n \<le> length rest"
  using assms
  by (subst (asm) read_value.simps) (auto simp: bind_res_Inr_iff slice_range_def split: option.splits if_splits)

lemma key_ok_key_name: "0 \<notin> set bs \<Longrightarrow> key_ok (key_name bs)"
  by (auto simp: key_ok_def key_name_def key_bytes_def [of bs] key_bytes_escape_key split: option.splits)

lemma read_elements_sound:
  assumes "read_elements crate s acc = Inr d" "doc_keys_distinct acc" "\<forall>k \<in> set (map fst acc). key_ok k"
  shows "\<exists>es. list_all element_ok es \<and> s = elements_bytes es \<and> doc_keys_distinct d
    \<and> (\<forall>k \<in> set (map fst d). key_ok k)
    \<and> set (map fst d) = set (map fst acc) \<union> (\<lambda>e. key_name (fst (snd e))) ` set es"
  using assms
proof (induction "length s" arbitrary: s acc rule: less_induct)
  case less
  show ?case
  proof (cases s)
    case Nil
    then have "d = acc" using less.prems(1) by (simp add: read_elements.simps)
    then show ?thesis using Nil less.prems by (intro exI [of _ "[]"]) simp
  next
    case (Cons t s')
    then obtain k r where k: "position (\<lambda>c. c = 0) s' = Some k"
      and r: "read_value crate t (drop (k + 1) s') = Inr r"
      and rec: "read_elements crate (drop (snd r) (drop (k + 1) s')) (doc_insert acc (key_name (take k s')) (fst r)) = Inr d"
      using less.prems(1) by (subst (asm) read_elements.simps) (auto simp: bind_res_Inr_iff split: option.splits)
    let ?rest = "drop (k + 1) s'" and ?key = "take k s'"
    obtain x n where xn: "r = (x, n)" by (cases r)
    have kl: "k < length s'" and z: "s' ! k = 0" and nz: "0 \<notin> set ?key" using position_SomeD [OF k] by auto
    have ext: "declared_size t ?rest = Some n" "n \<le> length ?rest"
      using read_value_extent [of crate t ?rest x n] r xn by (simp_all add: value_extent_iff)
    have ok: "element_ok (t, ?key, take n ?rest)"
      using nz ext declared_size_take [OF ext(1)] by (simp add: value_size_def min_absorb2)
    let ?acc = "doc_insert acc (key_name ?key) x"
    have ko: "key_ok (key_name ?key)" using nz by (rule key_ok_key_name)
    have "doc_keys_distinct ?acc" using less.prems(2) by (rule bson_doc.invar_insert)
    moreover have ka: "set (map fst ?acc) = insert (key_name ?key) (set (map fst acc))"
      by (auto simp: keys_doc_insert)
    moreover have "length (drop n ?rest) < length s" using Cons by simp
    ultimately obtain es where es: "list_all element_ok es" "drop n ?rest = elements_bytes es"
      "doc_keys_distinct d" "\<forall>k \<in> set (map fst d). key_ok k"
      "set (map fst d) = set (map fst ?acc) \<union> (\<lambda>e. key_name (fst (snd e))) ` set es"
      using less.hyps [of "drop n ?rest" ?acc] rec xn less.prems(3) ko by auto
    have "s' = ?key @ 0 # ?rest" using id_take_nth_drop [OF kl] z by simp
    also have "?rest = take n ?rest @ elements_bytes es" using es(2) by (metis append_take_drop_id)
    finally have "s = elements_bytes ((t, ?key, take n ?rest) # es)" using Cons by simp
    moreover have "set (map fst d) = set (map fst acc) \<union> (\<lambda>e. key_name (fst (snd e))) ` set ((t, ?key, take n ?rest) # es)"
      unfolding es(5) ka by auto
    moreover have "list_all element_ok ((t, ?key, take n ?rest) # es)" using es(1) ok by (simp only: list.pred_inject)
    ultimately show ?thesis using es(3,4) by blast
  qed
qed

section \<open>Properties\<close>

text \<open>C32: bytes that \<open>read_doc\<close> accepts are exactly one framed document, the same elements the
  wire layer's splitter finds, and the result has distinct field names, one for each name in the
  bytes, all of which the writer can write.\<close>

theorem read_doc_accepts:
  assumes "read_doc crate b = Inr d"
  shows "\<exists>es. b = doc_bytes (elements_bytes es) \<and> raw_elements b = Some es \<and> doc_keys_distinct d
    \<and> set (map fst d) = (\<lambda>e. key_name (fst (snd e))) ` set es \<and> list_all (\<lambda>kv. key_bytes (fst kv) \<noteq> None) d"
proof -
  let ?w = "take 4 b"
  obtain n where n: "rd_len b 0 5 = Inr n" "n = length b" and z: "b ! (length b - 1) = 0"
    and r: "read_elements crate (take (n - 5) (drop 4 b)) [] = Inr d"
    using assms by (subst (asm) read_doc.simps) (auto simp: bind_res_Inr_iff split: if_splits)
  from read_elements_sound [OF r] obtain es where es: "list_all element_ok es"
    "take (n - 5) (drop 4 b) = elements_bytes es" "doc_keys_distinct d" "\<forall>k \<in> set (map fst d). key_ok k"
    "set (map fst d) = (\<lambda>e. key_name (fst (snd e))) ` set es"
    by (auto simp: doc_keys_distinct_def)
  have lw: "4 \<le> length b" and s: "5 \<le> sint (i32_from_le ?w)" "nat (sint (i32_from_le ?w)) = length b"
    using n by (auto simp: rd_len_def slice_range_def Let_def split: if_splits option.splits)
  have "5 \<le> length b" using s by simp
  then have "raw_elements b = raw_elements_loop (take (length b - 5) (drop 4 b))"
    using lw s z by (simp add: raw_elements_def rd_i32_checked_def slice_range_def Let_def)
  then have raw: "raw_elements b = Some es" using es n raw_elements_loop_complete by simp
  from raw_elements_sound [OF raw] obtain r where "b = doc_bytes (elements_bytes es) @ r" by blast
  moreover have "length (elements_bytes es) + 5 = length b"
    using arg_cong [OF es(2), of length] n s lw by auto
  ultimately have "b = doc_bytes (elements_bytes es)" by simp
  moreover have "list_all (\<lambda>kv. key_bytes (fst kv) \<noteq> None) d"
    using es(4) by (auto simp: list_all_iff key_ok_def split: option.splits)
  ultimately show ?thesis using raw es by blast
qed

text \<open>C14: a document with text that is not UTF-8, in values or in field names, survives
  storage: the crate's encoder refuses it, \<open>to_vec\<close> writes it with its own writer, and
  \<open>from_bytes\<close> of those bytes, whatever follows them, gives the same document.\<close>

theorem carrier_document_roundtrip:
  assumes ok: "doc_ok crate d"
    and refused: "document_to_writer crate d = (junk, Some (InvalidCString k))"
    and bs: "bs = fst (write_doc crate d [])" "length bs < 2 ^ 31"
    and raw: "raw_from_bytes crate bs = None" "document_try_from crate bs = Inl (Utf8EncodingError m)"
  shows "to_vec crate d = Inr bs \<and> from_bytes crate (bs @ trailing) = Inr d"
proof
  from doc_ok_roundtrip [OF ok] obtain w where wr: "\<forall>out. write_doc crate d out = (out @ doc_bytes w, None)"
    and rd: "length (doc_bytes w) < 2 ^ 31 \<longrightarrow> read_doc crate (doc_bytes w) = Inr d" by blast
  have b: "bs = doc_bytes w" using bs(1) wr by simp
  show "to_vec crate d = Inr bs" using wr refused by (simp add: to_vec_def write_bson_def b Let_def)
  have "sint (of_nat (length w + 5) :: i32) = int (length w + 5)"
    using bs(2) b by (intro sint_of_nat_i32) simp
  then have s: "sint (i32_from_le (take 4 (bs @ trailing))) = int (length bs)" by (simp add: b doc_bytes_def)
  moreover have "4 \<le> length bs" by (simp add: b)
  ultimately show "from_bytes crate (bs @ trailing) = Inr d"
    using raw rd bs(2) by (simp add: from_bytes_def slice_range_def b nat_add_distrib)
qed

text \<open>A crate that knows the null value, and the document of the witnesses: a null under a name that is not
  UTF-8 and a string that is not UTF-8 under a plain name.\<close>

definition null_crate :: bson_crate where
  "null_crate = \<lparr>raw_from_bytes = (\<lambda>_. None), raw_iter = (\<lambda>_. [Inl (Utf8EncodingError [])]),
     document_try_from = (\<lambda>b. if b = [7, 0, 0, 0, 10, 0, 0] then Inr [([], Null)] else Inl (Utf8EncodingError [])),
     document_to_writer = (\<lambda>_. ([], Some (InvalidCString []))),
     bson_to_vec = (\<lambda>_. Inr [7, 0, 0, 0, 10, 0, 0]), raw_buf_from_bytes = (\<lambda>_. None)\<rparr>"

definition carrier_doc :: document where
  "carrier_doc = [(escape_key [0xFF], Null), ([97], invalid_utf8 [0xC3])]"

lemma carrier_doc_ok: "doc_ok null_crate carrier_doc"
proof -
  have "i32_to_le (of_nat 7) = [7, 0, 0, 0]" by code_simp
  then have "bson_to_vec null_crate [([], Null)] = Inr (i32_to_le (of_nat (length ([] :: bytes) + 7)) @ [0x0A, 0] @ [] @ [0])"
    and "single null_crate 0x0A [] = Inr Null" by (simp_all add: null_crate_def single_def)
  moreover have "declared_size 0x0A [] = Some 0" by (simp add: declared_size_def)
  ultimately have "crate_scalar null_crate Null"
    unfolding crate_scalar_def by (intro exI [of _ "0x0A"] exI [of _ "[]"]) simp
  then have "value_ok null_crate Null" by (intro value_ok.scalar) simp_all
  moreover have "value_ok null_crate (invalid_utf8 [0xC3])" by (intro value_ok.carrier) code_simp
  moreover have "key_ok (escape_key [0xFF])" "key_ok [97]" "escape_key [0xFF] \<noteq> [97]" by code_simp+
  ultimately show ?thesis by (simp add: doc_ok_def carrier_doc_def)
qed

theorem carrier_document_roundtrip_witness:
  "from_bytes null_crate (fst (write_doc null_crate carrier_doc []) @ [1]) = Inr carrier_doc"
proof -
  let ?bs = "fst (write_doc null_crate carrier_doc [])"
  have "document_to_writer null_crate carrier_doc = ([], Some (InvalidCString []))"
    "raw_from_bytes null_crate ?bs = None" by (simp_all add: null_crate_def)
  moreover have "length ?bs < 2 ^ 31" "document_try_from null_crate ?bs = Inl (Utf8EncodingError [])" by code_simp+
  ultimately show ?thesis using carrier_document_roundtrip [OF carrier_doc_ok _ refl] by blast
qed

theorem read_doc_accepts_witness:
  "\<exists>es. raw_elements [8, 0, 0, 0, 10, 97, 0, 0] = Some es \<and> {[97]} = (\<lambda>e. key_name (fst (snd e))) ` set es"
proof -
  have "read_doc null_crate [8, 0, 0, 0, 10, 97, 0, 0] = Inr [([97], Null)]" by code_simp
  from read_doc_accepts [OF this] show ?thesis by auto
qed

lemma foldl_keep:
  assumes "distinct (map fst (acc @ d))"
  shows "foldl (\<lambda>out (k, v). if keep k then doc_insert out k v else out) acc d = acc @ filter (\<lambda>kv. keep (fst kv)) d"
  using assms
proof (induction d arbitrary: acc)
  case (Cons kv d)
  then show ?case
    by (cases kv) (auto simp: doc_insert_new)
qed simp

lemma fields_fast_keep:
  assumes "distinct (map fst (acc @ d))"
  shows "fields_fast keep (map (\<lambda>(k, v). Inr (k, Inr v)) d) acc = Inr (acc @ filter (\<lambda>kv. keep (fst kv)) d)"
  using assms
proof (induction d arbitrary: acc)
  case (Cons kv d)
  then show ?case
    by (cases kv) (auto simp: doc_insert_new)
qed simp

text \<open>\<open>fields\<close> gives what decoding the whole document and keeping the wanted fields
  gives, on the fast path, where the crate's iterator yields the fields of the document, and
  when that path fails on text that is not UTF-8.\<close>

theorem fields_filter_document:
  assumes "from_bytes crate bs = Inr d" "doc_keys_distinct d"
    and "raw_from_bytes crate bs = None \<and> raw_iter crate bs = map (\<lambda>(k, v). Inr (k, Inr v)) d
       \<or> raw_from_bytes crate bs = Some e \<or> fields_fast keep (raw_iter crate bs) [] = Inl e"
  shows "fields_of crate bs keep = Inr (filter (\<lambda>kv. keep (fst kv)) d)"
  using assms foldl_keep [of "[]" d keep] fields_fast_keep [of "[]" d keep]
  by (auto simp: fields_of_def doc_keys_distinct_def split: option.splits)

theorem fields_filter_document_witness:
  "fields_of null_crate (fst (write_doc null_crate carrier_doc [])) (\<lambda>k. k = [97])
     = Inr (filter (\<lambda>kv. fst kv = [97]) carrier_doc)"
proof (rule fields_filter_document)
  show "from_bytes null_crate (fst (write_doc null_crate carrier_doc [])) = Inr carrier_doc" by code_simp
  show "doc_keys_distinct carrier_doc" using carrier_doc_ok by (simp add: doc_ok_def doc_keys_distinct_def)
  show "raw_from_bytes null_crate (fst (write_doc null_crate carrier_doc [])) = None
        \<and> raw_iter null_crate (fst (write_doc null_crate carrier_doc [])) = map (\<lambda>(k, v). Inr (k, Inr v)) carrier_doc
     \<or> raw_from_bytes null_crate (fst (write_doc null_crate carrier_doc [])) = Some (Utf8EncodingError [])
     \<or> fields_fast (\<lambda>k. k = [97]) (raw_iter null_crate (fst (write_doc null_crate carrier_doc []))) []
         = Inl (Utf8EncodingError [])"
    by (simp add: null_crate_def)
qed

end
