(* ===== verification/Alloc_Budget.thy ===== *)
theory Alloc_Budget
  imports Wire_Frames
begin

text \<open>
  The byte budget of \<open>secantus-server/src/lib.rs\<close> for message bodies in flight (\<open>AllocBudget\<close>,
  \<open>AllocReservation\<close>), and the part of the request loop \<open>serve\<close> that uses it: a connection
  reads a header, takes the length \<open>body_len\<close> gives, reserves it, allocates the body, and, when
  the message is compressed, reserves the length of the message inside while it still holds the
  first reservation.

  Sizes are \<open>usize\<close> values, words of 64 bits whose sums wrap, as they do in a release build.
  \<open>body_len\<close> accepts a negative length, whose body no allocation can serve: the thread then
  panics and unwinds, which drops its reservation. Which lengths clients send is a parameter of
  the step relation, so that a theorem can speak of clients that send none below zero.

  Connections interleave. The condition variable is explicit: a connection that has to wait
  goes to sleep, and a reservation that is dropped wakes all of them (\<open>notify_all\<close>), to look
  again.
\<close>

section \<open>The budget\<close>

definition MAX_INFLIGHT_BYTES :: u64 where "MAX_INFLIGHT_BYTES = 512 * 1024 * 1024"

record alloc_budget =
  used :: u64
  cap :: u64

definition budget_new :: "u64 \<Rightarrow> alloc_budget" where
  "budget_new c = \<lparr>used = 0, cap = c\<rparr>"

text \<open>The condition of the loop in \<open>acquire\<close>, what it does once the loop ends, and \<open>drop\<close>, which
  subtracts with saturation.\<close>

definition must_wait :: "alloc_budget \<Rightarrow> u64 \<Rightarrow> bool" where
  "must_wait b n \<longleftrightarrow> used b \<noteq> 0 \<and> used b + n > cap b"

definition take_bytes :: "alloc_budget \<Rightarrow> u64 \<Rightarrow> alloc_budget" where
  "take_bytes b n = b\<lparr>used := used b + n\<rparr>"

definition drop_reservation :: "alloc_budget \<Rightarrow> u64 \<Rightarrow> alloc_budget" where
  "drop_reservation b n = b\<lparr>used := (if n \<le> used b then used b - n else 0)\<rparr>"

section \<open>The request loop\<close>

text \<open>
  Where a connection stands: reading a header; waiting for its body's bytes (asleep or about to
  look), with the size it will ask for once it finds the message compressed; with the bytes
  reserved and the body not yet allocated; holding the body; waiting for the bytes of the
  message inside; holding both.
\<close>

datatype serving =
    Reading
  | Body_wait bool u64 "u64 option"
  | Body_reserved u64 "u64 option"
  | Body_held u64 "u64 option"
  | Inflate_wait bool u64 u64
  | Both_held u64 u64

record server =
  budget :: alloc_budget
  conns :: "nat \<Rightarrow> serving"

definition server_new :: server where
  "server_new = \<lparr>budget = budget_new MAX_INFLIGHT_BYTES, conns = (\<lambda>_. Reading)\<rparr>"

fun woken :: "serving \<Rightarrow> serving" where
  "woken (Body_wait _ n om) = Body_wait False n om"
| "woken (Inflate_wait _ n m) = Inflate_wait False n m"
| "woken p = p"

definition set_conn :: "server \<Rightarrow> nat \<Rightarrow> serving \<Rightarrow> server" where
  "set_conn s c p = s\<lparr>conns := (conns s)(c := p)\<rparr>"

text \<open>Dropping \<open>n\<close> bytes and waking every sleeper.\<close>

definition release_bytes :: "server \<Rightarrow> u64 \<Rightarrow> server" where
  "release_bytes s n = s\<lparr>budget := drop_reservation (budget s) n, conns := woken \<circ> conns s\<rparr>"

definition size_ok :: "u64 option \<Rightarrow> bool" where
  "size_ok om = (case om of None \<Rightarrow> True | Some m \<Rightarrow> 1 \<le> unat m \<and> unat m \<le> nat MAX_MESSAGE_SIZE)"

text \<open>\<open>vec![0u8; n]\<close> panics when \<open>n\<close> is above \<open>isize::MAX\<close>.\<close>

definition vec_fits :: "u64 \<Rightarrow> bool" where
  "vec_fits n \<longleftrightarrow> unat n < 2 ^ 63"

inductive serve_step :: "(i32 \<Rightarrow> bool) \<Rightarrow> server \<Rightarrow> server \<Rightarrow> bool" for sends where
  header: "conns s c = Reading \<Longrightarrow> sends (message_length h) \<Longrightarrow> body_len h = Inr n \<Longrightarrow> size_ok om \<Longrightarrow>
     serve_step sends s (set_conn s c (Body_wait False (of_nat n) om))"
| body_sleep: "conns s c = Body_wait False n om \<Longrightarrow> must_wait (budget s) n \<Longrightarrow>
     serve_step sends s (set_conn s c (Body_wait True n om))"
| body_grant: "conns s c = Body_wait False n om \<Longrightarrow> \<not> must_wait (budget s) n \<Longrightarrow>
     serve_step sends s (set_conn (s\<lparr>budget := take_bytes (budget s) n\<rparr>) c (Body_reserved n om))"
| allocate: "conns s c = Body_reserved n om \<Longrightarrow> vec_fits n \<Longrightarrow>
     serve_step sends s (set_conn s c (Body_held n om))"
| alloc_panic: "conns s c = Body_reserved n om \<Longrightarrow> \<not> vec_fits n \<Longrightarrow>
     serve_step sends s (set_conn (release_bytes s n) c Reading)"
| unwrap: "conns s c = Body_held n (Some m) \<Longrightarrow>
     serve_step sends s (set_conn s c (Inflate_wait False n m))"
| inflate_sleep: "conns s c = Inflate_wait False n m \<Longrightarrow> must_wait (budget s) m \<Longrightarrow>
     serve_step sends s (set_conn s c (Inflate_wait True n m))"
| inflate_grant: "conns s c = Inflate_wait False n m \<Longrightarrow> \<not> must_wait (budget s) m \<Longrightarrow>
     serve_step sends s (set_conn (s\<lparr>budget := take_bytes (budget s) m\<rparr>) c (Both_held n m))"
| drop_inflated: "conns s c = Both_held n m \<Longrightarrow>
     serve_step sends s (set_conn (release_bytes s m) c (Body_held n None))"
| drop_body: "conns s c = Body_held n om \<Longrightarrow>
     serve_step sends s (set_conn (release_bytes s n) c Reading)"

inductive_cases serve_stepE: "serve_step sends s s'"

inductive serve_reachable :: "(i32 \<Rightarrow> bool) \<Rightarrow> server \<Rightarrow> bool" for sends where
  start: "serve_reachable sends server_new"
| step: "serve_reachable sends s \<Longrightarrow> serve_step sends s s' \<Longrightarrow> serve_reachable sends s'"

text \<open>Clients that declare no negative length, and clients that may send anything.\<close>

definition no_negative :: "i32 \<Rightarrow> bool" where
  "no_negative L \<longleftrightarrow> 0 \<le> sint L"

definition anything :: "i32 \<Rightarrow> bool" where
  "anything L \<longleftrightarrow> True"

section \<open>What connections hold\<close>

fun held_by :: "serving \<Rightarrow> nat" where
  "held_by (Body_reserved n _) = unat n"
| "held_by (Body_held n _) = unat n"
| "held_by (Inflate_wait _ n _) = unat n"
| "held_by (Both_held n m) = unat n + unat m"
| "held_by _ = 0"

fun asks :: "serving \<Rightarrow> u64 option" where
  "asks (Body_wait True n _) = Some n"
| "asks (Inflate_wait True _ m) = Some m"
| "asks _ = None"

definition body_ok :: "u64 \<Rightarrow> bool" where
  "body_ok n \<longleftrightarrow> unat n + HEADER_SIZE \<le> nat MAX_MESSAGE_SIZE"

fun sizes_ok :: "serving \<Rightarrow> bool" where
  "sizes_ok (Body_wait _ n om) \<longleftrightarrow> body_ok n \<and> size_ok om"
| "sizes_ok (Body_reserved n om) \<longleftrightarrow> body_ok n \<and> size_ok om"
| "sizes_ok (Body_held n om) \<longleftrightarrow> body_ok n \<and> size_ok om"
| "sizes_ok (Inflate_wait _ n m) \<longleftrightarrow> body_ok n \<and> size_ok (Some m)"
| "sizes_ok (Both_held n m) \<longleftrightarrow> body_ok n \<and> size_ok (Some m)"
| "sizes_ok Reading \<longleftrightarrow> True"

definition busy :: "server \<Rightarrow> nat set" where
  "busy s = {c. conns s c \<noteq> Reading}"

definition total_held :: "server \<Rightarrow> nat" where
  "total_held s = (\<Sum>c \<in> busy s. held_by (conns s c))"

text \<open>
  The invariant: the count is what the connections hold and never above the cap, and a
  connection asleep could not proceed if it looked.
\<close>

definition budget_inv :: "server \<Rightarrow> bool" where
  "budget_inv s \<longleftrightarrow> finite (busy s) \<and> unat (used (budget s)) = total_held s
     \<and> cap (budget s) = MAX_INFLIGHT_BYTES \<and> used (budget s) \<le> cap (budget s)
     \<and> (\<forall>c. sizes_ok (conns s c))
     \<and> (\<forall>c n. asks (conns s c) = Some n \<longrightarrow> must_wait (budget s) n)"

lemma total_held_remove:
  "finite (busy s) \<Longrightarrow> total_held s = held_by (conns s c) + (\<Sum>d \<in> busy s - {c}. held_by (conns s d))"
  by (cases "c \<in> busy s") (auto simp: total_held_def sum.remove busy_def)

lemma held_by_woken [simp]: "held_by (woken p) = held_by p" "woken p = Reading \<longleftrightarrow> p = Reading"
  "sizes_ok (woken p) = sizes_ok p" "asks (woken p) = None"
  by (cases p; simp)+

lemma busy_set_conn: "busy (set_conn s c p) = (if p = Reading then busy s - {c} else insert c (busy s))"
  by (auto simp: busy_def set_conn_def)

lemma busy_simps [simp]:
  "busy (s\<lparr>budget := b\<rparr>) = busy s" "busy (release_bytes s n) = busy s"
  by (auto simp: busy_def release_bytes_def)

lemma total_held_set_conn:
  assumes "finite (busy s)"
  shows "total_held (set_conn s c p) + held_by (conns s c) = total_held s + held_by p"
proof -
  have f: "finite (busy (set_conn s c p))" using assms by (simp add: busy_set_conn)
  have "busy (set_conn s c p) - {c} = busy s - {c}" by (auto simp: busy_set_conn)
  moreover have "(\<Sum>d \<in> busy s - {c}. held_by (conns (set_conn s c p) d)) = (\<Sum>d \<in> busy s - {c}. held_by (conns s d))"
    by (rule sum.cong) (auto simp: set_conn_def)
  moreover have "conns (set_conn s c p) c = p" by (simp add: set_conn_def)
  ultimately show ?thesis
    using total_held_remove [OF f, of c] total_held_remove [OF assms, of c] by simp
qed

lemma total_held_simps [simp]:
  "total_held (s\<lparr>budget := b\<rparr>) = total_held s" "total_held (release_bytes s n) = total_held s"
  by (simp_all add: total_held_def release_bytes_def busy_def)

lemma server_fields [simp]:
  "conns (set_conn s c p) = (conns s)(c := p)" "budget (set_conn s c p) = budget s"
  "conns (release_bytes s n) = woken \<circ> conns s"
  "budget (release_bytes s n) = drop_reservation (budget s) n"
  "used (take_bytes b n) = used b + n" "cap (take_bytes b n) = cap b"
  "used (drop_reservation b n) = (if n \<le> used b then used b - n else 0)" "cap (drop_reservation b n) = cap b"
  by (simp_all add: set_conn_def release_bytes_def take_bytes_def drop_reservation_def)

lemma budget_inv_set_conn:
  assumes "budget_inv s" "held_by p = held_by (conns s c)" "sizes_ok p"
    and "\<forall>n. asks p = Some n \<longrightarrow> must_wait (budget s) n"
  shows "budget_inv (set_conn s c p)"
  using assms total_held_set_conn [of s c p]
  by (auto simp: budget_inv_def busy_set_conn)

text \<open>Sums of sizes within the bounds do not wrap.\<close>

lemma MAX_INFLIGHT_val: "unat MAX_INFLIGHT_BYTES = 536870912"
  by (simp add: MAX_INFLIGHT_BYTES_def)

lemma unat_sum:
  assumes "unat a \<le> 536870912" "unat b \<le> 536870912"
  shows "unat (a + b :: u64) = unat a + unat b"
  using assms by (intro unat_add_lem [THEN iffD1]) simp

lemma must_wait_iff:
  assumes "used b \<le> cap b" "cap b = MAX_INFLIGHT_BYTES" "unat n \<le> nat MAX_MESSAGE_SIZE"
  shows "must_wait b n \<longleftrightarrow> unat (used b) \<noteq> 0 \<and> 536870912 < unat (used b) + unat n"
proof -
  have "unat (used b + n) = unat (used b) + unat n"
    using assms MAX_INFLIGHT_val by (intro unat_sum) (auto simp: word_le_nat_alt MAX_MESSAGE_SIZE_def)
  then show ?thesis using assms MAX_INFLIGHT_val by (auto simp: must_wait_def word_less_nat_alt unat_eq_zero)
qed

lemma asks_size: "sizes_ok p \<Longrightarrow> asks p = Some n \<Longrightarrow> unat n \<le> nat MAX_MESSAGE_SIZE"
  by (cases p rule: asks.cases) (auto simp: size_ok_def body_ok_def)

lemma budget_inv_grant:
  assumes inv: "budget_inv s" and w: "\<not> must_wait (budget s) n" and n: "unat n \<le> nat MAX_MESSAGE_SIZE"
    and p: "held_by p = held_by (conns s c) + unat n" "sizes_ok p" "asks p = None"
  shows "budget_inv (set_conn (s\<lparr>budget := take_bytes (budget s) n\<rparr>) c p)"
proof -
  let ?s = "s\<lparr>budget := take_bytes (budget s) n\<rparr>" and ?b = "budget s"
  have b: "used ?b \<le> cap ?b" "cap ?b = MAX_INFLIGHT_BYTES" using inv unfolding budget_inv_def by blast+
  have le: "unat (used ?b) + unat n \<le> 536870912"
    using w must_wait_iff [OF b n] n by (auto simp: MAX_MESSAGE_SIZE_def)
  then have sum: "unat (used ?b + n) = unat (used ?b) + unat n" by (intro unat_sum) simp_all
  have "total_held (set_conn ?s c p) = total_held s + unat n"
    using total_held_set_conn [of ?s c p] inv p(1) by (simp add: budget_inv_def)
  moreover have "used ?b + n \<le> MAX_INFLIGHT_BYTES" using sum le by (simp add: word_le_nat_alt MAX_INFLIGHT_val)
  moreover have "must_wait (take_bytes ?b n) k" if k: "asks (conns s d) = Some k" for d k
  proof -
    have "unat k \<le> nat MAX_MESSAGE_SIZE" "must_wait ?b k"
      using inv asks_size [OF _ k] k by (auto simp: budget_inv_def)
    then show ?thesis
      using must_wait_iff [OF b] must_wait_iff [of "take_bytes ?b n" k] b sum \<open>used ?b + n \<le> MAX_INFLIGHT_BYTES\<close> by auto
  qed
  ultimately show ?thesis
    using inv p sum by (auto simp: budget_inv_def busy_set_conn)
qed

lemma budget_inv_release:
  assumes inv: "budget_inv s" and p: "held_by (conns s c) = held_by p + unat n" "sizes_ok p" "asks p = None"
  shows "budget_inv (set_conn (release_bytes s n) c p)"
proof -
  have f: "finite (busy s)" using inv by (simp add: budget_inv_def)
  have t: "total_held (set_conn (release_bytes s n) c p) + unat n = total_held s"
    using total_held_set_conn [of "release_bytes s n" c p] f p(1) by simp
  then have le: "n \<le> used (budget s)" using inv by (simp add: budget_inv_def word_le_nat_alt)
  then have "used (budget s) - n \<le> used (budget s)" by (simp add: word_sub_le)
  then show ?thesis
    using inv p t le unat_sub [OF le] by (auto simp: budget_inv_def busy_set_conn intro: order.trans)
qed

lemma sizes_ok_conn: "budget_inv s \<Longrightarrow> conns s c = p \<Longrightarrow> sizes_ok p"
  by (auto simp: budget_inv_def)

lemma body_ok_header:
  assumes "no_negative (message_length h)" "body_len h = Inr n"
  shows "body_ok (of_nat n)"
proof -
  have "n + HEADER_SIZE \<le> nat MAX_MESSAGE_SIZE"
    using assms by (auto simp: body_len_iff no_negative_def Let_def HEADER_SIZE_def)
  moreover from this have "unat (of_nat n :: u64) = n"
    by (simp add: unat_of_nat MAX_MESSAGE_SIZE_def)
  ultimately show ?thesis by (simp add: body_ok_def)
qed

lemma body_ok_size: "body_ok n \<Longrightarrow> unat n \<le> nat MAX_MESSAGE_SIZE"
  by (simp add: body_ok_def)

lemma body_ok_fits: "body_ok n \<Longrightarrow> vec_fits n"
  by (simp add: body_ok_def vec_fits_def MAX_MESSAGE_SIZE_def)

lemma budget_inv_step:
  assumes inv: "budget_inv s" and st: "serve_step no_negative s s'"
  shows "budget_inv s'"
  using st
proof cases
  case (header c h n om)
  then show ?thesis using inv body_ok_header by (auto intro!: budget_inv_set_conn)
next
  case (body_sleep c n om)
  then show ?thesis using inv sizes_ok_conn [OF inv body_sleep(2)] by (auto intro!: budget_inv_set_conn)
next
  case (body_grant c n om)
  then show ?thesis using inv sizes_ok_conn [OF inv body_grant(2)] by (auto intro!: budget_inv_grant body_ok_size)
next
  case (allocate c n om)
  then show ?thesis using inv sizes_ok_conn [OF inv allocate(2)] by (auto intro!: budget_inv_set_conn)
next
  case (alloc_panic c n om)
  then show ?thesis using sizes_ok_conn [OF inv alloc_panic(2)] body_ok_fits by auto
next
  case (unwrap c n m)
  then show ?thesis using inv sizes_ok_conn [OF inv unwrap(2)] by (auto intro!: budget_inv_set_conn)
next
  case (inflate_sleep c n m)
  then show ?thesis using inv sizes_ok_conn [OF inv inflate_sleep(2)] by (auto intro!: budget_inv_set_conn)
next
  case (inflate_grant c n m)
  then show ?thesis using inv sizes_ok_conn [OF inv inflate_grant(2)]
    by (auto simp: size_ok_def intro!: budget_inv_grant)
next
  case (drop_inflated c n m)
  then show ?thesis using inv sizes_ok_conn [OF inv drop_inflated(2)]
    by (auto simp: size_ok_def intro!: budget_inv_release)
next
  case (drop_body c n om)
  then show ?thesis using inv by (auto intro!: budget_inv_release)
qed

lemma budget_inv_reachable: "serve_reachable no_negative s \<Longrightarrow> budget_inv s"
proof (induction rule: serve_reachable.induct)
  case start
  show ?case by (simp add: budget_inv_def server_new_def budget_new_def busy_def total_held_def)
next
  case (step s s')
  then show ?case by (blast intro: budget_inv_step)
qed

section \<open>Runs\<close>

text \<open>A header of the given length, and the steps of a connection that reads it and is let in.\<close>

definition sized_header :: "i32 \<Rightarrow> header" where
  "sized_header L = \<lparr>message_length = L, request_id = 0, response_to = 0, op_code = OP_MSG\<rparr>"

definition reserve :: "server \<Rightarrow> nat \<Rightarrow> u64 \<Rightarrow> u64 option \<Rightarrow> server" where
  "reserve s c n om = set_conn (s\<lparr>budget := take_bytes (budget s) n\<rparr>) c (Body_reserved n om)"

lemma reserve_run:
  assumes "serve_reachable sends s" "conns s c = Reading" "sends L" "body_len (sized_header L) = Inr (unat n)"
    and "size_ok om" "\<not> must_wait (budget s) n"
  shows "serve_reachable sends (reserve s c n om)"
proof -
  let ?w = "set_conn s c (Body_wait False n om)"
  have "serve_step sends s ?w"
    using serve_step.header [of s c sends "sized_header L" "unat n" om] assms by (simp add: sized_header_def)
  moreover have "serve_step sends ?w (set_conn (?w\<lparr>budget := take_bytes (budget ?w) n\<rparr>) c (Body_reserved n om))"
    using assms(6) by (intro body_grant) simp_all
  moreover have "set_conn (?w\<lparr>budget := take_bytes (budget ?w) n\<rparr>) c (Body_reserved n om) = reserve s c n om"
    by (simp add: reserve_def set_conn_def)
  ultimately show ?thesis using assms(1) by (metis serve_reachable.step)
qed

lemma hold_run:
  assumes "serve_reachable sends s" "conns s c = Reading" "sends L" "body_len (sized_header L) = Inr (unat n)"
    and "size_ok om" "\<not> must_wait (budget s) n" "vec_fits n"
  shows "serve_reachable sends (set_conn (s\<lparr>budget := take_bytes (budget s) n\<rparr>) c (Body_held n om))"
proof -
  have "serve_step sends (reserve s c n om) (set_conn (reserve s c n om) c (Body_held n om))"
    using assms(7) by (intro allocate) (simp_all add: reserve_def)
  moreover have "set_conn (reserve s c n om) c (Body_held n om)
      = set_conn (s\<lparr>budget := take_bytes (budget s) n\<rparr>) c (Body_held n om)"
    by (simp add: reserve_def set_conn_def)
  ultimately show ?thesis using reserve_run [OF assms(1-6)] by (metis serve_reachable.step)
qed

lemma big_body: "body_len (sized_header 44000016) = Inr (unat (44000000 :: u64))" "vec_fits 44000000" "no_negative 44000016"
  by code_simp+

section \<open>A negative length empties the budget\<close>

text \<open>Connections \<open>0 \<dots> k - 1\<close> hold a body of 44 million bytes each, and the budget counts none.\<close>

definition uncounted :: "nat \<Rightarrow> server" where
  "uncounted k = \<lparr>budget = \<lparr>used = 0, cap = MAX_INFLIGHT_BYTES\<rparr>,
     conns = (\<lambda>i. if i < k then Body_held 44000000 None else Reading)\<rparr>"

lemma negative_header: "body_len (sized_header (-1)) = Inr (unat (18446744073709551599 :: u64))" "\<not> vec_fits 18446744073709551599"
  by code_simp+

lemma uncounted_reachable: "serve_reachable anything (uncounted k)"
proof (induction k)
  case 0
  have "uncounted 0 = server_new" by (simp add: uncounted_def server_new_def budget_new_def)
  then show ?case by (simp add: serve_reachable.start)
next
  case (Suc k)
  let ?n = "44000000 :: u64" and ?N = "18446744073709551599 :: u64"
  let ?s = "uncounted k"
  let ?h = "set_conn (?s\<lparr>budget := take_bytes (budget ?s) ?n\<rparr>) k (Body_held ?n None)"
  let ?r = "reserve ?h (Suc k) ?N None"
  have h: "serve_reachable anything ?h"
    by (rule hold_run [OF Suc _ _ big_body(1) _ _ big_body(2)])
       (simp_all add: uncounted_def anything_def must_wait_def size_ok_def)
  have b: "budget ?h = \<lparr>used = 44000000, cap = 536870912\<rparr>"
    by (simp add: uncounted_def take_bytes_def MAX_INFLIGHT_BYTES_def)
  have "\<not> must_wait \<lparr>used = 44000000, cap = 536870912\<rparr> ?N" by code_simp
  then have "\<not> must_wait (budget ?h) ?N" unfolding b .
  then have "serve_reachable anything ?r"
    by (intro reserve_run [OF h _ _ negative_header(1)]) (simp_all add: uncounted_def anything_def size_ok_def)
  moreover have "serve_step anything ?r (set_conn (release_bytes ?r ?N) (Suc k) Reading)"
    using negative_header(2) by (intro alloc_panic) (simp_all add: reserve_def)
  moreover have "drop_reservation (take_bytes \<lparr>used = 44000000, cap = 536870912\<rparr> ?N) ?N = \<lparr>used = 0, cap = 536870912\<rparr>"
    by code_simp
  then have f: "budget (set_conn (release_bytes ?r ?N) (Suc k) Reading) = budget (uncounted (Suc k))"
    using b by (simp add: reserve_def uncounted_def MAX_INFLIGHT_BYTES_def)
  have "conns (set_conn (release_bytes ?r ?N) (Suc k) Reading) = conns (uncounted (Suc k))"
    by (auto simp: reserve_def uncounted_def fun_eq_iff less_Suc_eq)
  with f have "set_conn (release_bytes ?r ?N) (Suc k) Reading = uncounted (Suc k)" by (intro server.equality) simp_all
  ultimately show ?case by (metis serve_reachable.step)
qed

lemma uncounted_held: "total_held (uncounted k) = 44000000 * k"
proof -
  have "busy (uncounted k) = {..<k}" by (auto simp: busy_def uncounted_def)
  then show ?thesis by (simp add: total_held_def uncounted_def)
qed

section \<open>Properties\<close>

text \<open>C30: as long as no client declares a negative message length, in every
  reachable state the budget counts exactly what the connections hold, never more than its cap, no
  sum of sizes wraps, no allocation panics, and a connection that sleeps would have to wait if it
  looked: no wake-up is lost. The condition is needed: with negative lengths, which \<open>body_len\<close> lets
  through, there is no bound on what connections hold, because the panic of the allocation that
  follows resets a count that has wrapped.\<close>

theorem budget_never_exceeded:
  "(serve_reachable no_negative s \<longrightarrow>
      unat (used (budget s)) = total_held s \<and> total_held s \<le> unat MAX_INFLIGHT_BYTES
      \<and> (asks (conns s c) = Some n \<longrightarrow> must_wait (budget s) n \<and> unat (used (budget s) + n) = total_held s + unat n)
      \<and> (conns s c = Body_reserved n om \<longrightarrow> vec_fits n))
   \<and> (\<exists>s. serve_reachable anything s \<and> used (budget s) = 0 \<and> bound < total_held s)"
proof (intro conjI impI)
  assume "serve_reachable no_negative s"
  then have inv: "budget_inv s" by (rule budget_inv_reachable)
  then show u: "unat (used (budget s)) = total_held s" by (simp add: budget_inv_def)
  show m: "total_held s \<le> unat MAX_INFLIGHT_BYTES"
    using inv unfolding u [symmetric] by (auto simp: budget_inv_def word_le_nat_alt)
  show "must_wait (budget s) n" if "asks (conns s c) = Some n"
    using inv that unfolding budget_inv_def by blast
  show "unat (used (budget s) + n) = total_held s + unat n" if "asks (conns s c) = Some n"
    using asks_size [OF sizes_ok_conn [OF inv refl] that] u m
    by (subst unat_sum) (simp_all add: MAX_INFLIGHT_val MAX_MESSAGE_SIZE_def)
  show "vec_fits n" if "conns s c = Body_reserved n om"
    using sizes_ok_conn [OF inv that] body_ok_fits by simp
next
  have "serve_reachable anything (uncounted (Suc bound))" "bound < total_held (uncounted (Suc bound))"
    using uncounted_reachable by (simp_all add: uncounted_held)
  then show "\<exists>s. serve_reachable anything s \<and> used (budget s) = 0 \<and> bound < total_held s"
    by (intro exI [of _ "uncounted (Suc bound)"]) (simp add: uncounted_def)
qed

theorem budget_never_exceeded_witness:
  "total_held (reserve server_new 0 44000000 None) \<le> unat MAX_INFLIGHT_BYTES \<and>
   (\<exists>s. serve_reachable anything s \<and> used (budget s) = 0 \<and> 10 ^ 12 < total_held s)"
proof -
  have "serve_reachable no_negative (reserve server_new 0 44000000 None)"
    by (rule reserve_run [where sends = no_negative, OF serve_reachable.start _ big_body(3,1)])
       (simp_all add: server_new_def budget_new_def must_wait_def size_ok_def)
  with budget_never_exceeded [of "reserve server_new 0 44000000 None" 0 0 None "10 ^ 12"] show ?thesis by simp
qed

section \<open>Sleepers\<close>

text \<open>as long as no connection waits for the bytes of a compressed message,
  one that sleeps on the budget sleeps because another holds bytes that it can give back by
  itself: there is a step that releases some and wakes the sleeper, or one that brings the
  other's body, reserved already, to where it can.\<close>

theorem plain_waiter_unblocked:
  assumes "serve_reachable no_negative s" and "\<forall>d a n m. conns s d \<noteq> Inflate_wait a n m"
    and "asks (conns s c) = Some k"
  shows "\<exists>s'. (serve_step no_negative)\<^sup>*\<^sup>* s s' \<and> used (budget s') < used (budget s) \<and> asks (conns s' c) = None"
proof -
  have inv: "budget_inv s" using assms(1) by (rule budget_inv_reachable)
  then have "unat (used (budget s)) = total_held s" "used (budget s) \<noteq> 0"
    using assms(3) by (auto simp: budget_inv_def must_wait_def)
  then have "total_held s \<noteq> 0" by (metis unat_eq_zero)
  then obtain d where d: "d \<in> busy s" "held_by (conns s d) \<noteq> 0"
    unfolding total_held_def by (meson sum.neutral)
  have le: "held_by (conns s d) \<le> unat (used (budget s))"
    using inv total_held_remove [of s d] by (simp add: budget_inv_def)
  have cd: "c \<noteq> d" using assms(2,3) d by (cases "conns s c") auto
  have drop: "used (drop_reservation (budget s) n) < used (budget s)" if "unat n \<noteq> 0" "unat n \<le> unat (used (budget s))" for n
    using that unat_sub [of n "used (budget s)"] by (simp add: word_le_nat_alt word_less_nat_alt)
  show ?thesis
  proof (cases "conns s d")
    case (Body_reserved n om)
    then have "vec_fits n" using sizes_ok_conn [OF inv] body_ok_fits by fastforce
    then have 1: "serve_step no_negative s (set_conn s d (Body_held n om))" using Body_reserved by (intro allocate)
    have 2: "serve_step no_negative (set_conn s d (Body_held n om)) (set_conn (release_bytes (set_conn s d (Body_held n om)) n) d Reading)"
      by (rule drop_body) simp
    have "(serve_step no_negative)\<^sup>*\<^sup>* s (set_conn (release_bytes (set_conn s d (Body_held n om)) n) d Reading)"
      using 1 2 by (meson converse_rtranclp_into_rtranclp rtranclp.rtrancl_refl)
    then show ?thesis using Body_reserved d le cd drop [of n] by (intro exI conjI) auto
  next
    case (Body_held n om)
    then have "serve_step no_negative s (set_conn (release_bytes s n) d Reading)" by (rule drop_body)
    then show ?thesis using Body_held d le cd drop [of n] by (intro exI conjI, intro r_into_rtranclp) auto
  next
    case (Both_held n m)
    then have "serve_step no_negative s (set_conn (release_bytes s m) d (Body_held n None))" by (rule drop_inflated)
    moreover have "0 < unat m" using sizes_ok_conn [OF inv Both_held] by (simp add: size_ok_def)
    ultimately show ?thesis using Both_held d le cd drop [of m] by (intro exI conjI, intro r_into_rtranclp) auto
  qed (use assms(2) d in auto)
qed

text \<open>Connections \<open>0 \<dots> k - 1\<close> that hold a body of 44 million bytes each.\<close>

definition holders :: "nat \<Rightarrow> u64 option \<Rightarrow> server" where
  "holders k om = \<lparr>budget = \<lparr>used = 44000000 * of_nat k, cap = MAX_INFLIGHT_BYTES\<rparr>,
     conns = (\<lambda>i. if i < k then Body_held 44000000 om else Reading)\<rparr>"

lemma holders_free: "k < 12 \<Longrightarrow> \<not> must_wait (budget (holders k om)) 44000000"
proof -
  assume "k < 12"
  then have "k = 0 \<or> k = 1 \<or> k = 2 \<or> k = 3 \<or> k = 4 \<or> k = 5 \<or> k = 6 \<or> k = 7 \<or> k = 8 \<or> k = 9 \<or> k = 10 \<or> k = 11" by arith
  then show ?thesis by (elim disjE) (simp_all add: holders_def must_wait_def MAX_INFLIGHT_BYTES_def)
qed

lemma holders_reachable: "size_ok om \<Longrightarrow> k \<le> 12 \<Longrightarrow> serve_reachable no_negative (holders k om)"
proof (induction k)
  case 0
  have "holders 0 om = server_new" by (simp add: holders_def server_new_def budget_new_def)
  then show ?case by (simp add: serve_reachable.start)
next
  case (Suc k)
  let ?s = "holders k om" and ?n = "44000000 :: u64"
  have "serve_reachable no_negative (set_conn (?s\<lparr>budget := take_bytes (budget ?s) ?n\<rparr>) k (Body_held ?n om))"
    using Suc holders_free [of k om] by (intro hold_run [where sends = no_negative, OF _ _ big_body(3,1) _ _ big_body(2)]) (simp_all add: holders_def)
  moreover have "set_conn (?s\<lparr>budget := take_bytes (budget ?s) ?n\<rparr>) k (Body_held ?n om) = holders (Suc k) om"
    by (auto simp: holders_def set_conn_def take_bytes_def fun_eq_iff algebra_simps)
  ultimately show ?case by simp
qed

definition sleeper_state :: server where
  "sleeper_state = set_conn (holders 12 None) 12 (Body_wait True 44000000 None)"

lemma full_budget: "must_wait (budget (holders 12 om)) 44000000" "must_wait (budget (holders 12 om)) 48000000"
  by (simp_all add: holders_def must_wait_def MAX_INFLIGHT_BYTES_def)

lemma sleeper_reachable: "serve_reachable no_negative sleeper_state"
proof -
  let ?s = "holders 12 None" and ?n = "44000000 :: u64"
  let ?w = "set_conn ?s 12 (Body_wait False ?n None)"
  have 1: "serve_step no_negative ?s ?w"
    using serve_step.header [of ?s 12 no_negative "sized_header 44000016" "unat ?n" None] big_body
    by (simp add: holders_def size_ok_def sized_header_def)
  have 2: "serve_step no_negative ?w (set_conn ?w 12 (Body_wait True ?n None))"
    using full_budget(1) by (intro body_sleep) simp_all
  have "serve_reachable no_negative ?s" by (rule holders_reachable) (simp_all add: size_ok_def)
  moreover have "set_conn ?w 12 (Body_wait True ?n None) = sleeper_state"
    by (simp add: sleeper_state_def set_conn_def)
  ultimately show ?thesis using serve_reachable.step [OF serve_reachable.step [OF _ 1] 2] by simp
qed

theorem plain_waiter_unblocked_witness:
  "\<exists>s'. (serve_step no_negative)\<^sup>*\<^sup>* sleeper_state s' \<and> used (budget s') < used (budget sleeper_state) \<and> asks (conns s' 12) = None"
  by (rule plain_waiter_unblocked [OF sleeper_reachable, of 12 44000000]) (simp_all add: sleeper_state_def holders_def)

section \<open>Compressed messages\<close>

lemma asleep_reachable:
  "j \<le> 12 \<Longrightarrow> serve_reachable no_negative ((holders 12 (Some 48000000))\<lparr>conns := (\<lambda>i.
     if i < j then Inflate_wait True 44000000 48000000 else if i < 12 then Body_held 44000000 (Some 48000000) else Reading)\<rparr>)"
  (is "_ \<Longrightarrow> serve_reachable _ (?S j)")
proof (induction j)
  case 0
  have "?S 0 = holders 12 (Some 48000000)" by (simp add: holders_def)
  then show ?case using holders_reachable [of "Some 48000000" 12]
    by (simp add: size_ok_def MAX_MESSAGE_SIZE_def)
next
  case (Suc j)
  let ?w = "set_conn (?S j) j (Inflate_wait False 44000000 48000000)"
  have 1: "serve_step no_negative (?S j) ?w" using Suc.prems by (intro unwrap) simp
  have 2: "serve_step no_negative ?w (set_conn ?w j (Inflate_wait True 44000000 48000000))"
    using full_budget(2) by (intro inflate_sleep) simp_all
  have "set_conn ?w j (Inflate_wait True 44000000 48000000) = ?S (Suc j)"
    using Suc.prems by (auto simp: set_conn_def fun_eq_iff)
  then show ?case
    using serve_reachable.step [OF serve_reachable.step [OF Suc.IH 1] 2] Suc.prems by simp
qed

text \<open>Twelve connections that wait for the inside of their message while they hold its outside.\<close>

definition all_stuck :: "server \<Rightarrow> bool" where
  "all_stuck s \<longleftrightarrow> list_all (\<lambda>i. conns s i = Inflate_wait True 44000000 48000000
      \<or> conns s i = Inflate_wait False 44000000 48000000) [0..<12]"

lemma all_stuckD:
  "all_stuck s \<Longrightarrow> i < 12 \<Longrightarrow>
     conns s i = Inflate_wait True 44000000 48000000 \<or> conns s i = Inflate_wait False 44000000 48000000"
  by (simp add: all_stuck_def list_all_iff)

lemma all_stuck_used:
  assumes "budget_inv s" "all_stuck s" shows "must_wait (budget s) 48000000"
proof -
  have h: "conns s i \<noteq> Reading \<and> held_by (conns s i) = 44000000" if "i < 12" for i
    using all_stuckD [OF assms(2) that] by auto
  then have "{..<12} \<subseteq> busy s" by (auto simp: busy_def)
  moreover have "(\<Sum>i<12. held_by (conns s i)) = 528000000" using h by simp
  ultimately have "528000000 \<le> unat (used (budget s))"
    using assms(1) sum_mono2 [of "busy s" "{..<12}" "\<lambda>i. held_by (conns s i)"]
    by (simp add: budget_inv_def total_held_def)
  moreover have b: "used (budget s) \<le> cap (budget s)" "cap (budget s) = MAX_INFLIGHT_BYTES"
    using assms(1) unfolding budget_inv_def by blast+
  ultimately show ?thesis by (subst must_wait_iff [OF b]) (simp_all add: MAX_MESSAGE_SIZE_def)
qed

lemma all_stuck_step: "budget_inv s \<Longrightarrow> all_stuck s \<Longrightarrow> serve_step no_negative s s' \<Longrightarrow> all_stuck s'"
proof -
  assume a: "budget_inv s" "all_stuck s" "serve_step no_negative s s'"
  have w: "must_wait (budget s) 48000000" using a by (intro all_stuck_used)
  have st: "conns s i \<in> {Inflate_wait True 44000000 48000000, Inflate_wait False 44000000 48000000}" if "i < 12" for i
    using all_stuckD [OF a(2) that] by simp
  have "conns s' i \<in> {Inflate_wait True 44000000 48000000, Inflate_wait False 44000000 48000000}" if i: "i < 12" for i
    using a(3) st [OF i] w by cases auto
  then show ?thesis by (auto simp: all_stuck_def list_all_iff)
qed

text \<open>C34: twelve connections with large compressed messages deadlock the
  budget: there is a state, reached by well-formed traffic, from which all of them wait for ever,
  whatever any connection does that declares no negative length, because each waits for bytes while
  it keeps those of its own body.\<close>

theorem compressed_requests_deadlock:
  "\<exists>s. serve_reachable no_negative s \<and> {s'. (serve_step no_negative)\<^sup>*\<^sup>* s s'} \<subseteq> {s'. all_stuck s'}"
proof -
  let ?s = "(holders 12 (Some 48000000))\<lparr>conns := (\<lambda>i. if i < 12 then Inflate_wait True 44000000 48000000
      else if i < 12 then Body_held 44000000 (Some 48000000) else Reading)\<rparr>"
  have r: "serve_reachable no_negative ?s" by (rule asleep_reachable) simp
  have "budget_inv s' \<and> all_stuck s'" if "(serve_step no_negative)\<^sup>*\<^sup>* ?s s'" for s'
    using that
  proof (induction rule: rtranclp_induct)
    case base
    show ?case using budget_inv_reachable [OF r] by (simp add: all_stuck_def list_all_iff)
  next
    case (step s1 s2)
    then show ?case using budget_inv_step all_stuck_step by blast
  qed
  with r show ?thesis by (intro exI [of _ ?s]) auto
qed

end
