(* ===== verification/Serve_Frames.thy ===== *)
theory Serve_Frames
  imports Wire_Checksum Wire_Compression Codec_Roundtrip Alloc_Budget
begin

text \<open>
  The frame path of \<open>secantus-server/src/lib.rs\<close>: what the request loop \<open>serve\<close> does with the
  bytes of a message up to the point where it has an operation (unpack the header, take the body's
  length and allocate it, read it, unwrap a compressed message, check flags and checksum, parse,
  decide between an answer and a hang-up),
  \<open>merge_op_msg_body\<close>, and \<open>send_frame\<close>, which stamps and compresses a reply the way its request
  came. Sockets, counters and the dispatch itself are not part of it.
\<close>

unbundle bit_operations_syntax

section \<open>Receiving\<close>

record inbound =
  in_request_id :: i32
  in_compressor :: "compressor option"
  in_checksum :: bool

datatype received =
    Hang_up
  | Bad_value inbound wire_error
  | Got inbound op
  | Panicked

text \<open>\<open>OP_COMPRESSED\<close>: the message inside, its header, and the compressor it came under.\<close>

definition unwrap_compressed :: "codec_lib \<Rightarrow> header \<Rightarrow> bytes \<Rightarrow> stop + header \<times> bytes \<times> compressor option" where
  "unwrap_compressed lib h bdy =
     (if op_code h = OP_COMPRESSED then
        bind_res (parse_op_compressed bdy) (\<lambda>w.
        bind_res (op_decompress lib w) (\<lambda>r.
          Inr (original_header w h, snd r, Some (fst r))))
      else Inr (h, bdy, None))"

definition parse_outcome :: "inbound \<Rightarrow> stop + op \<Rightarrow> received" where
  "parse_outcome req r =
     (case r of
        Inr opn \<Rightarrow> Got req opn
      | Inl Panic \<Rightarrow> Panicked
      | Inl (Err e) \<Rightarrow> if is_recoverable e then Bad_value req e else Hang_up)"

definition receive :: "codec_lib \<Rightarrow> header \<Rightarrow> bytes \<Rightarrow> received" where
  "receive lib h0 body0 =
     (case unwrap_compressed lib h0 body0 of
        Inl Panic \<Rightarrow> Panicked
      | Inl (Err _) \<Rightarrow> Hang_up
      | Inr (h, bdy, how) \<Rightarrow>
          (let req = \<lparr>in_request_id = request_id h0, in_compressor = how, in_checksum = False\<rparr> in
           if op_code h = OP_MSG then
             (case op_msg_frame_problem h bdy of
                Inl _ \<Rightarrow> Panicked
              | Inr (Some _) \<Rightarrow> Hang_up
              | Inr None \<Rightarrow>
                  parse_outcome
                    (req\<lparr>in_checksum := (case bdy of [] \<Rightarrow> False | f # _ \<Rightarrow> f AND 1 \<noteq> 0)\<rparr>)
                    (parse_body (op_code h) bdy))
           else parse_outcome req (parse_body (op_code h) bdy)))"

text \<open>
  The turn of the loop from the sixteen bytes of the header on. \<open>read_body n\<close> is what reading \<open>n\<close>
  bytes of the body gives, \<open>None\<close> when the client closes. The body is allocated first, which panics
  for a length above \<open>isize::MAX\<close>.
\<close>

definition read_message :: "codec_lib \<Rightarrow> bytes \<Rightarrow> (nat \<Rightarrow> bytes option) \<Rightarrow> received" where
  "read_message lib header_buf read_body =
     (case unpack header_buf of
        Inl Panic \<Rightarrow> Panicked
      | Inl (Err _) \<Rightarrow> Hang_up
      | Inr h \<Rightarrow>
          (case body_len h of
             Inl Panic \<Rightarrow> Panicked
           | Inl (Err _) \<Rightarrow> Hang_up
           | Inr n \<Rightarrow>
               (if \<not> vec_fits (of_nat n) then Panicked
                else case read_body n of None \<Rightarrow> Hang_up | Some bdy \<Rightarrow> receive lib h bdy)))"

text \<open>The documents of a section, decoded as an array.\<close>

fun decode_docs :: "bson_crate \<Rightarrow> bytes list \<Rightarrow> doc_error + bson list" where
  "decode_docs crate [] = Inr []"
| "decode_docs crate (b # bs) =
     bind_res (from_bytes crate b) (\<lambda>d. bind_res (decode_docs crate bs) (\<lambda>ds. Inr (Document d # ds)))"

fun merge_sequences ::
  "bson_crate \<Rightarrow> bool \<Rightarrow> document_sequence list \<Rightarrow> document \<Rightarrow> bytes list option
    \<Rightarrow> doc_error + document \<times> bytes list option" where
  "merge_sequences crate is_insert [] bdy raw = Inr (bdy, raw)"
| "merge_sequences crate is_insert (sq # sqs) bdy raw =
     (if is_insert \<and> seq_identifier sq = lit ''documents''
      then merge_sequences crate is_insert sqs bdy (Some (documents sq))
      else bind_res (decode_docs crate (documents sq)) (\<lambda>docs.
             merge_sequences crate is_insert sqs (doc_insert bdy (seq_identifier sq) (Array docs)) raw))"

definition merge_op_msg_body :: "bson_crate \<Rightarrow> op_msg \<Rightarrow> doc_error + document \<times> bytes list option" where
  "merge_op_msg_body crate m =
     bind_res (from_bytes crate (body m)) (\<lambda>bdy.
       let is_insert = (case bdy of [] \<Rightarrow> False | kv # _ \<Rightarrow> fst kv = lit ''insert'')
       in merge_sequences crate is_insert (document_sequences m) bdy None)"

section \<open>Sending\<close>

definition send_frame :: "codec_lib \<Rightarrow> inbound \<Rightarrow> bytes \<Rightarrow> stop + bytes" where
  "send_frame lib req frame =
     bind_res (if in_checksum req then with_op_msg_checksum frame else Inr frame) (\<lambda>frame.
       case in_compressor req of
         None \<Rightarrow> Inr frame
       | Some c \<Rightarrow> compress_frame lib frame c)"

text \<open>\<open>cursor_or_plain_body\<close> with \<open>write_op_msg\<close>: the bytes of a reply frame.\<close>

datatype reply_error = Encode_error write_stop | Wire_stop stop

definition cursor_or_plain_body ::
  "bson_crate \<Rightarrow> document \<Rightarrow> (rstr \<times> bytes list) option \<Rightarrow> reply_error + bytes" where
  "cursor_or_plain_body crate reply batch =
     (case batch of
        Some (batch_field, blobs) \<Rightarrow>
          (case to_vec crate reply of
             Inl e \<Rightarrow> Inl (Encode_error e)
           | Inr envelope \<Rightarrow>
               (case encode_cursor_reply envelope batch_field blobs of
                  Inl e \<Rightarrow> Inl (Wire_stop e)
                | Inr bs \<Rightarrow> Inr bs))
      | None \<Rightarrow>
          (let r = write_bson crate reply [] in
           case snd r of Some e \<Rightarrow> Inl (Encode_error e) | None \<Rightarrow> Inr (fst r)))"

definition write_op_msg ::
  "codec_lib \<Rightarrow> bson_crate \<Rightarrow> inbound \<Rightarrow> i32 \<Rightarrow> document \<Rightarrow> (rstr \<times> bytes list) option \<Rightarrow> reply_error + bytes" where
  "write_op_msg lib crate req reply_id reply batch =
     bind_res (cursor_or_plain_body crate reply batch) (\<lambda>bs.
       case send_frame lib req (build_op_msg_reply (in_request_id req) reply_id bs 0) of
         Inl e \<Rightarrow> Inl (Wire_stop e)
       | Inr out \<Rightarrow> Inr out)"

section \<open>Properties\<close>

lemma op_msg_frame_problem_no_panic: "op_msg_frame_problem h bdy \<noteq> Inl st"
  by (auto simp: op_msg_frame_problem_def rd_u32_win Let_def)

lemma unwrap_no_panic: "unwrap_compressed lib h bdy \<noteq> Inl Panic"
  by (auto simp: unwrap_compressed_def bind_res_panic_iff parse_op_compressed_no_panic op_decompress_no_panic)

lemma parse_outcome_no_panic: "parse_outcome req (parse_body opc bdy) \<noteq> Panicked"
  using parse_body_no_panic [of opc bdy] by (auto simp: parse_outcome_def split: sum.splits stop.splits)

lemma batch_elements_no_panic: "batch_elements i batch out \<noteq> Inl Panic"
  by (induction batch arbitrary: i out) (auto split: option.splits)

lemma reply_elements_no_panic:
  "list_all element_ok es \<Longrightarrow> reply_elements f batch es out hc \<noteq> Inl Panic"
proof (induction es arbitrary: out hc)
  case (Cons e es)
  obtain t k v where e: "e = (t, k, v)" by (cases e)
  then have "t = 0x03 \<Longrightarrow> 5 \<le> length v" using Cons.prems value_size_doc by simp
  then show ?case
    using Cons by (auto simp: e Let_def bind_res_panic_iff batch_elements_no_panic slice_win)
qed simp

lemma receive_no_panic: "receive lib h bdy \<noteq> Panicked"
  using unwrap_no_panic [of lib h bdy]
  by (auto simp: receive_def Let_def op_msg_frame_problem_no_panic parse_outcome_no_panic
      split: sum.splits stop.splits option.splits)

lemma body_len_no_panic: "body_len h \<noteq> Inl Panic"
  by (simp add: body_len_def)

text \<open>A length \<open>body_len\<close> accepts can be allocated exactly when the declared one is not negative.\<close>

lemma body_len_fits:
  assumes "body_len h = Inr n"
  shows "vec_fits (of_nat n) \<longleftrightarrow> 0 \<le> sint (message_length h)"
proof -
  have s: "- (2 ^ 31) \<le> sint (message_length h)" using sint_ge [of "message_length h"] by simp
  have "n < 2 ^ 64" using assms s by (auto simp: body_len_iff Let_def HEADER_SIZE_def MAX_MESSAGE_SIZE_def)
  then have "unat (of_nat n :: u64) = n" by (simp add: unat_of_nat)
  then show ?thesis using assms s by (auto simp: vec_fits_def body_len_iff Let_def HEADER_SIZE_def MAX_MESSAGE_SIZE_def)
qed

lemma accepts_negative:
  assumes "sint (message_length h) < 0" shows "\<exists>n. body_len h = Inr n"
proof -
  have "- (2 ^ 31) \<le> sint (message_length h)" using sint_ge [of "message_length h"] by simp
  then have "body_len h = Inr (nat (2 ^ 64 + sint (message_length h)) - HEADER_SIZE)"
    using assms by (simp add: body_len_iff Let_def HEADER_SIZE_def)
  then show ?thesis by blast
qed

text \<open>C31: of all the bytes a client can send, exactly a header with a negative
  message length panics the frame path: neither unpacking the header, nor unwrapping a compressed
  message, nor checking and parsing any body does; and splicing a batch into a reply never panics.\<close>

theorem frame_path_panics_exactly:
  "(read_message lib buf read_body = Panicked \<longleftrightarrow> (\<exists>h. unpack buf = Inr h \<and> sint (message_length h) < 0))
   \<and> encode_cursor_reply envelope f batch \<noteq> Inl Panic"
proof
  show "read_message lib buf read_body = Panicked \<longleftrightarrow> (\<exists>h. unpack buf = Inr h \<and> sint (message_length h) < 0)"
  proof (cases "unpack buf")
    case (Inl e)
    then show ?thesis using unpack_no_panic [of buf] by (cases e) (auto simp: read_message_def)
  next
    case (Inr h)
    show ?thesis
    proof (cases "body_len h")
      case (Inl e)
      then show ?thesis using Inr body_len_no_panic [of h] accepts_negative [of h] by (cases e) (auto simp: read_message_def)
    next
      case n: (Inr n)
      then show ?thesis
        using Inr body_len_fits [OF n] receive_no_panic by (auto simp: read_message_def split: option.splits)
    qed
  qed
  show "encode_cursor_reply envelope f batch \<noteq> Inl Panic"
    using raw_elements_sound [of envelope] reply_elements_no_panic
    by (auto simp: encode_cursor_reply_def bind_res_panic_iff split: option.splits if_splits)
qed

unbundle bit_operations_syntax

text \<open>One reply frame, signed or not, as its header and body.\<close>

lemma stamped_reply:
  fixes chk :: bool
  assumes d: "doc_framed d" and fl: "fl \<in> {0, OP_MSG_FLAG_MORE_TO_COME}"
  defines "fl' \<equiv> if chk then fl OR OP_MSG_FLAG_CHECKSUM_PRESENT else fl"
  shows "\<exists>h b. (if chk then with_op_msg_checksum (build_op_msg_reply respto reqid d fl)
                 else Inr (build_op_msg_reply respto reqid d fl)) = Inr (pack h @ b)
    \<and> op_code h = OP_MSG \<and> request_id h = reqid \<and> message_length h = of_nat (length b + HEADER_SIZE)
    \<and> length b \<le> length d + 9 \<and> op_msg_frame_problem h b = Inr None
    \<and> parse_body OP_MSG b = Inr (Msg \<lparr>flags = fl', body = d, document_sequences = []\<rparr>)
    \<and> (case b of [] \<Rightarrow> False | f # _ \<Rightarrow> f AND 1 \<noteq> 0) = chk"
proof (cases chk)
  case True
  have req: "fl AND OP_MSG_REQUIRED_FLAG_BITS AND NOT (OP_MSG_FLAG_CHECKSUM_PRESENT OR OP_MSG_FLAG_MORE_TO_COME) = 0"
    using fl by (auto simp: OP_MSG_REQUIRED_FLAG_BITS_def OP_MSG_FLAG_CHECKSUM_PRESENT_def OP_MSG_FLAG_MORE_TO_COME_def)
  let ?h = "\<lparr>message_length = of_nat (length d + 25), request_id = reqid, response_to = respto, op_code = OP_MSG\<rparr>"
  let ?b = "i32_to_le fl' @ 0 # d"
  let ?c = "i32_to_le (crc32c (NOT 0) (pack ?h @ ?b))"
  have f: "fl' = fl OR OP_MSG_FLAG_CHECKSUM_PRESENT" using True by (simp add: fl'_def)
  have "fl' \<in> {1, 3}" using fl by (auto simp: f OP_MSG_FLAG_CHECKSUM_PRESENT_def OP_MSG_FLAG_MORE_TO_COME_def)
  moreover have "i32_to_le 1 = [1, 0, 0, 0]" "i32_to_le 3 = [3, 0, 0, 0]" by code_simp+
  ultimately have "(case ?b @ ?c of [] \<Rightarrow> False | f # _ \<Rightarrow> f AND 1 \<noteq> 0)" by auto
  then show ?thesis
    using signed_reply [OF d req, of respto reqid, folded f] True
    by (intro exI [of _ ?h] exI [of _ "?b @ ?c"]) (simp add: HEADER_SIZE_def add_ac)
next
  case False
  let ?h = "\<lparr>message_length = of_nat (length d + 21), request_id = reqid, response_to = respto, op_code = OP_MSG\<rparr>"
  let ?b = "i32_to_le fl @ 0 # d"
  have z: "fl AND OP_MSG_FLAG_CHECKSUM_PRESENT = 0"
    "fl AND OP_MSG_REQUIRED_FLAG_BITS AND NOT (OP_MSG_FLAG_CHECKSUM_PRESENT OR OP_MSG_FLAG_MORE_TO_COME) = 0"
    using fl by (auto simp: OP_MSG_REQUIRED_FLAG_BITS_def OP_MSG_FLAG_CHECKSUM_PRESENT_def OP_MSG_FLAG_MORE_TO_COME_def)
  have "i32_to_le 0 = [0, 0, 0, 0]" "i32_to_le OP_MSG_FLAG_MORE_TO_COME = [2, 0, 0, 0]" by code_simp+
  then have "\<not> (case ?b of [] \<Rightarrow> False | f # _ \<Rightarrow> f AND 1 \<noteq> 0)" using fl by auto
  moreover have "build_op_msg_reply respto reqid d fl = pack ?h @ ?b"
    by (simp add: build_op_msg_reply_def HEADER_SIZE_def Let_def add_ac)
  moreover have "op_msg_frame_problem ?h ?b = Inr None"
    using z by (simp add: op_msg_frame_problem_def rd_u32_win)
  moreover have "parse_op_msg ?b = Inr \<lparr>flags = fl, body = d, document_sequences = []\<rparr>"
    using parse_op_msg_complete [of "[]" fl "[Body_section d]" d] d z by simp
  ultimately show ?thesis
    using False by (intro exI [of _ ?h] exI [of _ ?b]) (simp add: HEADER_SIZE_def parse_body_def fl'_def add_ac)
qed

text \<open>C15: a reply sent the way its request came, signed or not and under any compressor
  or none, is received again as the same message: nothing hangs up on it, and it is known to be
  signed and compressed as it was.\<close>

theorem reply_survives_transport:
  assumes lib: "codecs_invert lib" and d: "doc_framed d" "length d + 9 + HEADER_SIZE \<le> nat MAX_MESSAGE_SIZE"
    and fl: "fl \<in> {0, OP_MSG_FLAG_MORE_TO_COME}"
    and out: "send_frame lib req (build_op_msg_reply respto reqid d fl) = Inr out"
  shows "\<exists>h. unpack out = Inr h \<and> receive lib h (drop HEADER_SIZE out)
    = Got \<lparr>in_request_id = reqid, in_compressor = in_compressor req, in_checksum = in_checksum req\<rparr>
        (Msg \<lparr>flags = (if in_checksum req then fl OR OP_MSG_FLAG_CHECKSUM_PRESENT else fl), body = d,
              document_sequences = []\<rparr>)"
proof -
  obtain h b where st: "(if in_checksum req then with_op_msg_checksum (build_op_msg_reply respto reqid d fl)
                 else Inr (build_op_msg_reply respto reqid d fl)) = Inr (pack h @ b)"
    and h: "op_code h = OP_MSG" "request_id h = reqid" "message_length h = of_nat (length b + HEADER_SIZE)"
    and l: "length b \<le> length d + 9" and ok: "op_msg_frame_problem h b = Inr None"
    and p: "parse_body OP_MSG b = Inr (Msg \<lparr>flags = (if in_checksum req then fl OR OP_MSG_FLAG_CHECKSUM_PRESENT else fl),
        body = d, document_sequences = []\<rparr>)"
    and c: "(case b of [] \<Rightarrow> False | f # _ \<Rightarrow> f AND 1 \<noteq> 0) = in_checksum req"
    using stamped_reply [OF d(1) fl, of "in_checksum req" respto reqid] by blast
  have recv: "receive lib h0 body0 = Got \<lparr>in_request_id = reqid, in_compressor = how, in_checksum = in_checksum req\<rparr>
        (Msg \<lparr>flags = (if in_checksum req then fl OR OP_MSG_FLAG_CHECKSUM_PRESENT else fl), body = d, document_sequences = []\<rparr>)"
    if "unwrap_compressed lib h0 body0 = Inr (h, b, how)" "request_id h0 = reqid" for h0 body0 how
    using that h ok p c by (simp add: receive_def parse_outcome_def Let_def)
  show ?thesis
  proof (cases "in_compressor req")
    case None
    then have "out = pack h @ b" using out st by (simp add: send_frame_def)
    moreover have "unwrap_compressed lib h b = Inr (h, b, None)" using h by (simp add: unwrap_compressed_def op_codes)
    ultimately show ?thesis using recv [of h b None] h None by (simp add: HEADER_SIZE_def)
  next
    case (Some cmp)
    then have "compress_frame lib (pack h @ b) cmp = Inr out" using out st by (simp add: send_frame_def)
    from compressed_frame_roundtrip [OF lib _ h(3) this] l d(2) obtain outer w where
      o: "unpack out = Inr outer" "op_code outer = OP_COMPRESSED"
      "parse_op_compressed (drop HEADER_SIZE out) = Inr w" "op_decompress lib w = Inr (cmp, b)"
      "original_header w outer = h" by auto
    have "request_id outer = reqid" using o(5) h(2) by (auto simp: original_header_def)
    moreover have "unwrap_compressed lib outer (drop HEADER_SIZE out) = Inr (h, b, Some cmp)"
      using o by (simp add: unwrap_compressed_def)
    ultimately show ?thesis using recv o Some by simp
  qed
qed

theorem reply_survives_transport_witness:
  "\<exists>out h. send_frame copy_codecs \<lparr>in_request_id = 7, in_compressor = Some Zstd, in_checksum = True\<rparr>
       (build_op_msg_reply 7 9 [5, 0, 0, 0, 0] 0) = Inr out \<and> unpack out = Inr h
     \<and> receive copy_codecs h (drop HEADER_SIZE out)
       = Got \<lparr>in_request_id = 9, in_compressor = Some Zstd, in_checksum = True\<rparr>
           (Msg \<lparr>flags = 1, body = [5, 0, 0, 0, 0], document_sequences = []\<rparr>)"
proof -
  let ?req = "\<lparr>in_request_id = 7, in_compressor = Some Zstd, in_checksum = True\<rparr>"
  have d: "doc_framed [5, 0, 0, 0, 0]" by (simp add: doc_framed_def)
  obtain out where out: "send_frame copy_codecs ?req (build_op_msg_reply 7 9 [5, 0, 0, 0, 0] 0) = Inr out"
  proof -
    obtain h b where hb: "with_op_msg_checksum (build_op_msg_reply 7 9 [5, 0, 0, 0, 0] 0) = Inr (pack h @ b)"
      and l: "length b \<le> 14" using stamped_reply [OF d, of 0 True 7 9] by auto
    then have "\<exists>out. send_frame copy_codecs ?req (build_op_msg_reply 7 9 [5, 0, 0, 0, 0] 0) = Inr out"
      by (simp add: send_frame_def compress_frame_def compress_def copy_codecs_def slice_win HEADER_SIZE_def
          PREFIX_LEN_def Let_def)
    then show ?thesis using that by blast
  qed
  from reply_survives_transport [OF copy_codecs_invert d _ _ out]
  show ?thesis using out by (auto simp: HEADER_SIZE_def MAX_MESSAGE_SIZE_def OP_MSG_FLAG_CHECKSUM_PRESENT_def)
qed

text \<open>Whether a section is kept as bytes for the insert handler.\<close>

definition diverted :: "bool \<Rightarrow> document_sequence \<Rightarrow> bool" where
  "diverted ins sq \<longleftrightarrow> ins \<and> seq_identifier sq = lit ''documents''"

lemma merge_sequences_run:
  assumes "\<forall>sq \<in> set sqs. diverted ins sq \<or> decode_docs crate (documents sq) = Inr (dec sq)"
    and "distinct (map seq_identifier sqs)"
  shows "\<exists>r. merge_sequences crate ins sqs bdy raw
        = Inr (r, case find (diverted ins) sqs of Some sq \<Rightarrow> Some (documents sq) | None \<Rightarrow> raw)
    \<and> (\<forall>k. doc_get r k = (case find (\<lambda>sq. \<not> diverted ins sq \<and> seq_identifier sq = k) sqs of
             Some sq \<Rightarrow> Some (Array (dec sq)) | None \<Rightarrow> doc_get bdy k))"
  using assms
proof (induction sqs arbitrary: bdy raw)
  case (Cons sq sqs)
  show ?case
  proof (cases "diverted ins sq")
    case True
    then have n: "find (diverted ins) sqs = None"
      using Cons.prems(2) by (force simp: find_None_iff diverted_def)
    have "merge_sequences crate ins (sq # sqs) bdy raw = merge_sequences crate ins sqs bdy (Some (documents sq))"
      using True by (simp add: diverted_def)
    moreover obtain r where "merge_sequences crate ins sqs bdy (Some (documents sq)) = Inr (r, Some (documents sq))"
      "\<forall>k. doc_get r k = (case find (\<lambda>sq. \<not> diverted ins sq \<and> seq_identifier sq = k) sqs of
             Some sq \<Rightarrow> Some (Array (dec sq)) | None \<Rightarrow> doc_get bdy k)"
      using Cons.IH [of bdy "Some (documents sq)"] Cons.prems n by auto
    ultimately show ?thesis using True by (intro exI [of _ r]) simp
  next
    case False
    let ?b = "doc_insert bdy (seq_identifier sq) (Array (dec sq))"
    have "find (\<lambda>s. \<not> diverted ins s \<and> seq_identifier s = seq_identifier sq) sqs = None"
      using Cons.prems(2) by (auto simp: find_None_iff image_iff)
    moreover obtain r where "merge_sequences crate ins sqs ?b raw
        = Inr (r, case find (diverted ins) sqs of Some sq \<Rightarrow> Some (documents sq) | None \<Rightarrow> raw)"
      "\<forall>k. doc_get r k = (case find (\<lambda>sq. \<not> diverted ins sq \<and> seq_identifier sq = k) sqs of
             Some sq \<Rightarrow> Some (Array (dec sq)) | None \<Rightarrow> doc_get ?b k)"
      using Cons by fastforce
    moreover have "merge_sequences crate ins (sq # sqs) bdy raw = merge_sequences crate ins sqs ?b raw"
      using Cons.prems(1) False by (auto simp: diverted_def)
    ultimately show ?thesis
      using False by (intro exI [of _ r]) (auto simp: bson_doc.get_insert split: option.split)
  qed
qed simp

text \<open>the request the server dispatches has each document section of the message as an
  array under its name and every other field as the body had it; only the documents of an insert
  are taken out, and they are the client's bytes, untouched.\<close>

theorem merge_keeps_sections:
  assumes "from_bytes crate (body m) = Inr bdy"
    and "ins = (case bdy of [] \<Rightarrow> False | kv # _ \<Rightarrow> fst kv = lit ''insert'')"
    and "list_all (\<lambda>sq. diverted ins sq \<or> decode_docs crate (documents sq) = Inr (dec sq)) (document_sequences m)"
    and "distinct (map seq_identifier (document_sequences m))"
  shows "\<exists>r. merge_op_msg_body crate m
        = Inr (r, map_option documents (find (diverted ins) (document_sequences m)))
    \<and> (\<forall>k. doc_get r k = (case find (\<lambda>sq. \<not> diverted ins sq \<and> seq_identifier sq = k) (document_sequences m) of
             Some sq \<Rightarrow> Some (Array (dec sq)) | None \<Rightarrow> doc_get bdy k))"
proof -
  have "(case x of Some sq \<Rightarrow> Some (documents sq) | None \<Rightarrow> None) = map_option documents x" for x :: "document_sequence option"
    by (cases x) simp_all
  then show ?thesis
    using merge_sequences_run [of "document_sequences m" ins crate dec bdy None] assms
    by (simp add: merge_op_msg_body_def list_all_iff Let_def)
qed

theorem merge_keeps_sections_witness:
  "\<exists>r. merge_op_msg_body null_crate \<lparr>flags = 0, body = [7, 0, 0, 0, 10, 0, 0],
        document_sequences = [\<lparr>seq_identifier = [117], documents = [[7, 0, 0, 0, 10, 0, 0]]\<rparr>]\<rparr> = Inr (r, None)
    \<and> doc_get r [117] = Some (Array [Document [([], Null)]])"
proof -
  let ?sq = "\<lparr>seq_identifier = [117], documents = [[7, 0, 0, 0, 10, 0, 0]]\<rparr>"
  let ?m = "\<lparr>flags = 0, body = [7, 0, 0, 0, 10, 0, 0], document_sequences = [?sq]\<rparr>"
  have b: "from_bytes null_crate (body ?m) = Inr [([], Null)]" by code_simp
  have l: "list_all (\<lambda>sq. diverted False sq \<or> decode_docs null_crate (documents sq) = Inr [Document [([], Null)]])
      (document_sequences ?m)" by code_simp
  have i: "False = (case [([], Null)] of [] \<Rightarrow> False | kv # _ \<Rightarrow> fst kv = lit ''insert'')" by code_simp
  from merge_keeps_sections [OF b i l] show ?thesis by (auto simp: diverted_def)
qed

end
