(* ===== verification/Decimal_Mag.thy ===== *)
theory Decimal_Mag
  imports Rust_Std
begin

text \<open>
  The base-10 big-number arithmetic of \<open>secantus-core/src/decimal.rs\<close>: a magnitude is a
  vector of decimal digits, most significant first (\<open>Vec<u8>\<close>; a digit is a number below ten,
  so no \<open>u8\<close> operation on digits wraps). Each helper of the source is a definition here, and
  each is shown to compute the arithmetic operation it stands for on the number
  \<open>digits_val\<close> its digits denote.
\<close>

section \<open>Magnitudes\<close>

definition digits :: "nat list \<Rightarrow> bool" where
  "digits ds \<longleftrightarrow> (\<forall>d \<in> set ds. d < 10)"

definition all_zero :: "nat list \<Rightarrow> bool" where
  "all_zero ds \<longleftrightarrow> (\<forall>d \<in> set ds. d = 0)"

fun strip_leading :: "nat list \<Rightarrow> nat list" where
  "strip_leading (d # e # ds) = (if d = 0 then strip_leading (e # ds) else d # e # ds)"
| "strip_leading ds = ds"

definition cmp_mag :: "nat list \<Rightarrow> nat list \<Rightarrow> ordering" where
  "cmp_mag a b =
     (let a = strip_leading a; b = strip_leading b
      in then_with (cmp_of (length a) (length b)) (cmp_of a b))"

text \<open>
  The loops of \<open>add_mag\<close> and \<open>sub_mag\<close> walk both vectors from their last digit; the
  accumulated digits come out least significant first and are reversed at the end.
\<close>

function add_loop :: "nat list \<Rightarrow> nat list \<Rightarrow> nat \<Rightarrow> nat list" where
  "add_loop [] [] c = (if c > 0 then c mod 10 # add_loop [] [] (c div 10) else [])"
| "add_loop (x # xs) [] c = (let s = c + x in s mod 10 # add_loop xs [] (s div 10))"
| "add_loop [] (y # ys) c = (let s = c + y in s mod 10 # add_loop [] ys (s div 10))"
| "add_loop (x # xs) (y # ys) c = (let s = c + x + y in s mod 10 # add_loop xs ys (s div 10))"
  by pat_completeness auto
termination
  by (relation "inv_image (less_than <*lex*> less_than) (\<lambda>(xs, ys, c). (length xs + length ys, c))") auto

definition add_mag :: "nat list \<Rightarrow> nat list \<Rightarrow> nat list" where
  "add_mag a b = rev (add_loop (rev a) (rev b) 0)"

fun sub_loop :: "nat list \<Rightarrow> nat list \<Rightarrow> int \<Rightarrow> nat list" where
  "sub_loop [] ys brw = []"
| "sub_loop (x # xs) ys brw =
     (let d0 = int x - brw;
          d = (case ys of [] \<Rightarrow> d0 | y # _ \<Rightarrow> d0 - int y)
      in if d < 0 then nat (d + 10) # sub_loop xs (drop 1 ys) 1
         else nat d # sub_loop xs (drop 1 ys) 0)"

definition sub_mag :: "nat list \<Rightarrow> nat list \<Rightarrow> nat list" where
  "sub_mag a b = strip_leading (rev (sub_loop (rev a) (rev b) 0))"

text \<open>
  \<open>mul_mag\<close>: one accumulator cell per digit of the product (\<open>u32\<close> in the source), filled by
  the two nested loops, then one carry pass from the right.
\<close>

definition mul_cell :: "nat list \<Rightarrow> nat list \<Rightarrow> nat \<Rightarrow> nat \<Rightarrow> nat list \<Rightarrow> nat list" where
  "mul_cell a b i j acc = acc[i + j + 1 := acc ! (i + j + 1) + a ! i * b ! j]"

definition mul_cells :: "nat list \<Rightarrow> nat list \<Rightarrow> nat list" where
  "mul_cells a b =
     fold (\<lambda>i. fold (mul_cell a b i) (rev [0..<length b])) (rev [0..<length a])
       (replicate (length a + length b) 0)"

definition carry_cell :: "nat \<Rightarrow> nat list \<Rightarrow> nat list" where
  "carry_cell k acc =
     (let carry = acc ! k div 10
      in (acc[k := acc ! k mod 10])[k - 1 := acc[k := acc ! k mod 10] ! (k - 1) + carry])"

definition mul_mag :: "nat list \<Rightarrow> nat list \<Rightarrow> nat list" where
  "mul_mag a b =
     (if all_zero a \<or> all_zero b then [0]
      else let acc = mul_cells a b;
               acc = fold carry_cell (rev [1..<length acc]) acc
           in strip_leading (map (\<lambda>d. d mod 256) acc))"

fun divmod_loop :: "nat \<Rightarrow> nat list \<Rightarrow> nat \<Rightarrow> nat list \<times> nat" where
  "divmod_loop n [] r = ([], r)"
| "divmod_loop n (d # ds) r =
     (let r1 = r * 10 + d; (out, r2) = divmod_loop n ds (r1 mod n)
      in ((r1 div n) mod 256 # out, r2))"

definition divmod_small :: "nat list \<Rightarrow> nat \<Rightarrow> nat list \<times> nat" where
  "divmod_small a n = (let (out, r) = divmod_loop n a 0 in (strip_leading out, r))"

definition round_half_even :: "nat list \<Rightarrow> nat \<Rightarrow> nat list \<times> int" where
  "round_half_even coeff keep =
     (if length coeff \<le> keep then (coeff, 0)
      else let dropped = length coeff - keep;
               kept = take keep coeff;
               first = coeff ! keep;
               rest_nonzero = (\<exists>d \<in> set (drop (keep + 1) coeff). d \<noteq> 0);
               last_odd = (kept \<noteq> [] \<and> last kept mod 2 = 1);
               round_up = (first > 5 \<or> (first = 5 \<and> (rest_nonzero \<or> last_odd)))
           in if round_up
              then let kept2 = add_mag kept [1]
                   in if length kept2 > keep then (take keep kept2, int dropped + 1)
                      else (kept2, int dropped)
              else (kept, int dropped))"


section \<open>Digit strings and numbers\<close>

lemma digits_simps [simp]:
  "digits []" "digits (d # ds) \<longleftrightarrow> d < 10 \<and> digits ds"
  "digits (xs @ ys) \<longleftrightarrow> digits xs \<and> digits ys" "digits (rev xs) = digits xs"
  by (auto simp: digits_def)

lemma digits_take_drop [simp]: "digits ds \<Longrightarrow> digits (take n ds)" "digits ds \<Longrightarrow> digits (drop n ds)"
  by (auto simp: digits_def dest: in_set_takeD in_set_dropD)

lemma digits_replicate [simp]: "d < 10 \<Longrightarrow> digits (replicate n d)"
  by (simp add: digits_def)

lemma digits_nth: "digits ds \<Longrightarrow> i < length ds \<Longrightarrow> ds ! i < 10"
  by (simp add: digits_def)

lemma digits_nat_digits [simp]: "digits (nat_digits n)"
  by (auto simp: digits_def dest: nat_digits_less)

lemma digits_val_bound: "digits ds \<Longrightarrow> digits_val ds < 10 ^ length ds"
  by (simp add: digits_def digits_val_less)

lemma digits_val_eq_0: "digits_val ds = 0 \<longleftrightarrow> all_zero ds"
  by (induction ds) (auto simp: all_zero_def)

lemma digits_val_take_drop:
  "digits_val ds = digits_val (take k ds) * 10 ^ (length ds - k) + digits_val (drop k ds)"
  by (metis append_take_drop_id digits_val_append length_drop)

lemma digits_strip_leading [simp]: "digits ds \<Longrightarrow> digits (strip_leading ds)"
  by (induction ds rule: strip_leading.induct) auto

lemma digits_val_strip_leading [simp]: "digits_val (strip_leading ds) = digits_val ds"
  by (induction ds rule: strip_leading.induct) auto

lemma strip_leading_Nil [simp]: "strip_leading ds = [] \<longleftrightarrow> ds = []"
  by (induction ds rule: strip_leading.induct) auto

lemma length_strip_leading: "length (strip_leading ds) \<le> length ds"
  by (induction ds rule: strip_leading.induct) auto

lemma hd_strip_leading: "hd (strip_leading ds) = 0 \<Longrightarrow> ds \<noteq> [] \<Longrightarrow> strip_leading ds = [0]"
  by (induction ds rule: strip_leading.induct) (auto split: if_splits)

text \<open>A digit string with no leading zero is the rendering of its number.\<close>

lemma nat_digits_canonical:
  assumes "digits ds" "ds \<noteq> []" "hd ds = 0 \<Longrightarrow> ds = [0]"
  shows "nat_digits (digits_val ds) = ds"
  using assms
proof (induction ds rule: rev_induct)
  case (snoc d ds)
  show ?case
  proof (cases "ds = []")
    case True
    with snoc show ?thesis by (simp add: nat_digits.simps)
  next
    case False
    with snoc.prems have hd: "hd ds \<noteq> 0" by auto
    with snoc False have IH: "nat_digits (digits_val ds) = ds" by auto
    have "digits_val ds \<noteq> 0"
      using False hd by (cases ds) auto
    with snoc.prems IH show ?thesis
      by (subst nat_digits.simps) (simp add: digits_val_append)
  qed
qed simp

lemma strip_leading_eq:
  "digits ds \<Longrightarrow> ds \<noteq> [] \<Longrightarrow> strip_leading ds = nat_digits (digits_val ds)"
  by (metis digits_strip_leading digits_val_strip_leading hd_strip_leading nat_digits_canonical
      strip_leading_Nil)

lemma length_nat_digits_le: "0 < k \<Longrightarrow> length (nat_digits n) \<le> k \<longleftrightarrow> n < 10 ^ k"
proof (induction n arbitrary: k rule: nat_digits.induct)
  case (1 n)
  show ?case
  proof (cases "n < 10")
    case True
    moreover have "(10::nat) ^ 1 \<le> 10 ^ k" using 1 by (intro power_increasing) auto
    ultimately show ?thesis using 1 by (simp add: nat_digits.simps [of n])
  next
    case False
    show ?thesis
    proof (cases "k = 1")
      case True
      with False show ?thesis
        by (simp add: nat_digits.simps [of n] not_less Suc_le_eq)
    next
      case k: False
      with 1 obtain j where j: "k = Suc j" "0 < j" by (cases k) auto
      have "length (nat_digits n) \<le> k \<longleftrightarrow> length (nat_digits (n div 10)) \<le> j"
        using False j by (simp add: nat_digits.simps [of n])
      also have "\<dots> \<longleftrightarrow> n div 10 < 10 ^ j" using 1 False j by simp
      also have "\<dots> \<longleftrightarrow> n < 10 ^ k" using j by (simp add: div_less_iff_less_mult mult.commute)
      finally show ?thesis .
    qed
  qed
qed

lemma nat_digits_bounds:
  assumes "0 < n"
  shows "10 ^ (length (nat_digits n) - 1) \<le> n" "n < 10 ^ length (nat_digits n)"
proof -
  let ?k = "length (nat_digits n)"
  have "0 < ?k" by (simp add: length_greater_0_conv)
  then show "n < 10 ^ ?k" using length_nat_digits_le by blast
  show "10 ^ (?k - 1) \<le> n"
  proof (cases "?k - 1 = 0")
    case False
    then have "\<not> ?k \<le> ?k - 1" by linarith
    then have "\<not> n < 10 ^ (?k - 1)" using False length_nat_digits_le by blast
    then show ?thesis by simp
  qed (use assms in simp)
qed

lemma length_nat_digits_eqI:
  assumes "10 ^ k \<le> n" "n < 10 ^ Suc k"
  shows "length (nat_digits n) = Suc k"
proof (rule antisym)
  show "length (nat_digits n) \<le> Suc k" using assms length_nat_digits_le [of "Suc k" n] by simp
  show "Suc k \<le> length (nat_digits n)"
  proof (cases k)
    case 0 then show ?thesis by (simp add: Suc_le_eq)
  next
    case (Suc j)
    then have "\<not> length (nat_digits n) \<le> k" using assms length_nat_digits_le [of k n] by simp
    then show ?thesis by simp
  qed
qed

lemma nat_digits_append_zeros:
  assumes "0 < n" shows "nat_digits n @ replicate k 0 = nat_digits (n * 10 ^ k)"
proof -
  have "hd (nat_digits n @ replicate k 0) \<noteq> 0" using hd_nat_digits [OF assms] by simp
  then have "nat_digits (digits_val (nat_digits n @ replicate k 0)) = nat_digits n @ replicate k 0"
    by (intro nat_digits_canonical) auto
  moreover have "digits_val (replicate k 0) = 0" by (simp add: digits_val_eq_0 all_zero_def)
  ultimately show ?thesis by (simp add: digits_val_append)
qed

section \<open>Addition, subtraction, comparison\<close>

lemma digits_val_rev_Cons:
  "digits_val (rev (x # xs)) = 10 * digits_val (rev xs) + x"
  by (simp add: digits_val_append)

lemma add_loop_val:
  "digits_val (rev (add_loop xs ys c)) = digits_val (rev xs) + digits_val (rev ys) + c"
  by (induction xs ys c rule: add_loop.induct)
     (simp_all add: Let_def digits_val_rev_Cons del: rev.simps(2))

lemma add_loop_digits: "digits (add_loop xs ys c)"
  by (induction xs ys c rule: add_loop.induct) (simp_all add: Let_def)

theorem add_mag_val: "digits_val (add_mag a b) = digits_val a + digits_val b"
  by (simp add: add_mag_def add_loop_val)

lemma add_mag_digits [simp]: "digits (add_mag a b)"
  by (simp add: add_mag_def add_loop_digits)

lemma le_carry: "p \<le> q + s div 10 \<longleftrightarrow> 10 * p \<le> 10 * q + (s :: nat)"
proof -
  have "s = 10 * (s div 10) + s mod 10" "s mod 10 < 10" by simp_all
  then show ?thesis by (intro iffI) linarith+
qed

lemma add_loop_length:
  "digits xs \<Longrightarrow> digits ys \<Longrightarrow> c \<le> 1 \<Longrightarrow>
   length (add_loop xs ys c) =
     max (length xs) (length ys) +
     (if 10 ^ max (length xs) (length ys) \<le> digits_val (rev xs) + digits_val (rev ys) + c then 1 else 0)"
proof (induction xs ys c rule: add_loop.induct)
  case (1 c)
  then show ?case by (cases c) (auto simp: add_loop.simps)
next
  case (2 x xs c)
  have "(c + x) div 10 \<le> 1" using "2.prems" by (simp only: digits_simps) linarith
  moreover have "10 ^ length xs \<le> digits_val (rev xs) + (c + x) div 10 \<longleftrightarrow>
    10 * 10 ^ length xs \<le> (10 * digits_val (rev xs) + x) + c"
    unfolding le_carry by (simp add: ac_simps)
  ultimately show ?case using 2
    by (auto simp: Let_def digits_val_rev_Cons simp del: rev.simps(2))
next
  case (3 y ys c)
  have "(c + y) div 10 \<le> 1" using "3.prems" by (simp only: digits_simps) linarith
  moreover have "10 ^ length ys \<le> digits_val (rev ys) + (c + y) div 10 \<longleftrightarrow>
    10 * 10 ^ length ys \<le> (10 * digits_val (rev ys) + y) + c"
    unfolding le_carry by (simp add: ac_simps)
  ultimately show ?case using 3
    by (auto simp: Let_def digits_val_rev_Cons simp del: rev.simps(2))
next
  case (4 x xs y ys c)
  let ?m = "max (length xs) (length ys)"
  have "(c + x + y) div 10 \<le> 1" using "4.prems" by (simp only: digits_simps) linarith
  moreover have "10 ^ ?m \<le> digits_val (rev xs) + digits_val (rev ys) + (c + x + y) div 10 \<longleftrightarrow>
    10 * 10 ^ ?m \<le> (10 * digits_val (rev xs) + x) + (10 * digits_val (rev ys) + y) + c"
    unfolding le_carry by (simp add: ac_simps)
  moreover have "max (length (x # xs)) (length (y # ys)) = Suc ?m" by simp
  ultimately show ?case using 4
    by (auto simp: Let_def digits_val_rev_Cons simp del: rev.simps(2))
qed

lemma length_add_mag:
  "digits a \<Longrightarrow> digits b \<Longrightarrow>
   length (add_mag a b) =
     max (length a) (length b) +
     (if 10 ^ max (length a) (length b) \<le> digits_val a + digits_val b then 1 else 0)"
  by (simp add: add_mag_def add_loop_length)

lemma sub_loop_val:
  "digits xs \<Longrightarrow> digits ys \<Longrightarrow> 0 \<le> br \<Longrightarrow> br \<le> 1 \<Longrightarrow>
   int (digits_val (rev ys)) + br \<le> int (digits_val (rev xs)) \<Longrightarrow>
   int (digits_val (rev (sub_loop xs ys br))) = int (digits_val (rev xs)) - int (digits_val (rev ys)) - br"
proof (induction xs ys br rule: sub_loop.induct)
  case (1 ys br)
  then show ?case by simp
next
  case (2 x xs ys br)
  let ?d = "case ys of [] \<Rightarrow> int x - br | y # _ \<Rightarrow> int x - br - int y"
  have d: "- 10 \<le> ?d" "?d < 10" using 2 by (auto split: list.splits)
  have ys: "int (digits_val (rev ys)) = 10 * int (digits_val (rev (drop 1 ys))) + (int x - br - ?d)"
    by (cases ys) (simp_all add: digits_val_append)
  have IH: "int (digits_val (rev (sub_loop xs (drop 1 ys) b))) =
      int (digits_val (rev xs)) - int (digits_val (rev (drop 1 ys))) - b"
    if "b = (if ?d < 0 then 1 else 0)" for b
  proof -
    have "int (digits_val (rev (drop 1 ys))) + b \<le> int (digits_val (rev xs))"
      using 2 ys d that by (simp add: digits_val_append split: if_splits)
    then show ?thesis using 2 that by (cases "?d < 0") auto
  qed
  show ?case
    using IH [of 0] IH [of 1] d ys
    by (cases "?d < 0") (simp_all add: Let_def digits_val_append)
qed

lemma sub_loop_digits: "digits xs \<Longrightarrow> digits ys \<Longrightarrow> 0 \<le> br \<Longrightarrow> br \<le> 1 \<Longrightarrow> digits (sub_loop xs ys br)"
  by (induction xs ys br rule: sub_loop.induct) (auto simp: Let_def nat_less_iff split: list.splits)

lemma length_sub_loop [simp]: "length (sub_loop xs ys br) = length xs"
  by (induction xs ys br rule: sub_loop.induct) (auto simp: Let_def)

theorem sub_mag_val:
  assumes "digits a" "digits b" "a \<noteq> []" "digits_val b \<le> digits_val a"
  shows "sub_mag a b = nat_digits (digits_val a - digits_val b)"
proof -
  let ?r = "rev (sub_loop (rev a) (rev b) 0)"
  have "int (digits_val ?r) = int (digits_val a) - int (digits_val b)"
    using sub_loop_val [of "rev a" "rev b" 0] assms by simp
  then have "digits_val ?r = digits_val a - digits_val b" using assms by linarith
  moreover have "?r \<noteq> []" using assms by (metis length_0_conv length_rev length_sub_loop)
  moreover have "digits ?r" using assms by (simp add: sub_loop_digits)
  ultimately show ?thesis by (simp add: sub_mag_def strip_leading_eq)
qed

lemma digits_val_less_lex:
  "digits xs \<Longrightarrow> digits ys \<Longrightarrow> length xs = length ys \<Longrightarrow> xs < ys \<longleftrightarrow> digits_val xs < digits_val ys"
proof (induction xs ys rule: list_induct2')
  case (4 x xs y ys)
  have b: "digits_val xs < 10 ^ length xs" "digits_val ys < 10 ^ length xs"
    using 4 digits_val_bound [of xs] digits_val_bound [of ys] by auto
  have *: "u * 10 ^ length xs + p < v * 10 ^ length xs + q"
    if "u < v" "p < 10 ^ length xs" for u v p q :: nat
  proof -
    have "u * 10 ^ length xs + p < (u + 1) * 10 ^ length xs" using that by simp
    also have "\<dots> \<le> v * 10 ^ length xs" using that by (intro mult_right_mono) auto
    finally show ?thesis by simp
  qed
  show ?case
  proof (cases x y rule: linorder_cases)
    case less then show ?thesis using * [of x y] b 4 by simp
  next
    case equal then show ?thesis using 4 by simp
  next
    case greater then show ?thesis using * [of y x] b 4 by (simp add: not_less order.strict_implies_order)
  qed
qed auto

theorem cmp_mag_val:
  assumes "digits a" "digits b" "a \<noteq> []" "b \<noteq> []"
  shows "cmp_mag a b = cmp_of (digits_val a) (digits_val b)"
proof -
  let ?a = "digits_val a" and ?b = "digits_val b"
  have key: "x < y" if "length (nat_digits x) < length (nat_digits y)" for x y
  proof -
    have "x < 10 ^ length (nat_digits x)" using length_nat_digits_le [of "length (nat_digits x)" x] by simp
    also have "(10::nat) ^ length (nat_digits x) \<le> 10 ^ (length (nat_digits y) - 1)"
      using that by (intro power_increasing) auto
    also have "\<dots> \<le> y" using nat_digits_bounds(1) [of y] that
      by (cases "y = 0") (auto simp: nat_digits.simps [of 0])
    finally show ?thesis .
  qed
  have lex: "length (nat_digits x) = length (nat_digits y) \<Longrightarrow> nat_digits x < nat_digits y \<longleftrightarrow> x < y" for x y
    using digits_val_less_lex [of "nat_digits x" "nat_digits y"] by simp
  have "cmp_mag a b = then_with (cmp_of (length (nat_digits ?a)) (length (nat_digits ?b)))
      (cmp_of (nat_digits ?a) (nat_digits ?b))"
    using assms by (simp add: cmp_mag_def strip_leading_eq Let_def)
  then show ?thesis
    using key [of ?a ?b] key [of ?b ?a] lex [of ?a ?b] lex [of ?b ?a]
    by (cases "length (nat_digits ?a)" "length (nat_digits ?b)" rule: linorder_cases)
       (simp_all add: cmp_of_def then_with_def)
qed

section \<open>Multiplication\<close>

lemma nat_digits_0 [simp]: "nat_digits 0 = [0]"
  by (subst nat_digits.simps) simp

lemma digits_val_update:
  "k < length xs \<Longrightarrow>
   digits_val (xs[k := v]) + xs ! k * 10 ^ (length xs - 1 - k) = digits_val xs + v * 10 ^ (length xs - 1 - k)"
proof (induction xs arbitrary: k)
  case (Cons x xs)
  show ?case
  proof (cases k)
    case (Suc j)
    then show ?thesis using Cons.IH [of j] Cons.prems by (simp add: Suc_diff_Suc)
  qed simp
qed simp

lemma digits_val_add_cell:
  "k < length xs \<Longrightarrow> digits_val (xs[k := xs ! k + v]) = digits_val xs + v * 10 ^ (length xs - 1 - k)"
  using digits_val_update [of k xs "xs ! k + v"] by (simp add: algebra_simps)

text \<open>One cell update adds one partial product at its place.\<close>

lemma mul_cell_val:
  assumes "i < length a" "j < length b" "length acc = length a + length b"
  shows "digits_val (mul_cell a b i j acc) =
    digits_val acc + a ! i * 10 ^ (length a - 1 - i) * (b ! j * 10 ^ (length b - 1 - j))"
proof -
  have "length acc - 1 - (i + j + 1) = (length a - 1 - i) + (length b - 1 - j)" using assms by simp
  moreover have "i + j + 1 < length acc" using assms by simp
  ultimately show ?thesis
    by (simp only: mul_cell_def digits_val_add_cell power_add) (simp add: ac_simps)
qed

lemma length_mul_cell [simp]: "length (mul_cell a b i j acc) = length acc"
  by (simp add: mul_cell_def)

lemma length_fold_mul_cell [simp]: "length (fold (mul_cell a b i) js acc) = length acc"
  by (induction js arbitrary: acc) auto

lemma digits_val_sum: "digits_val ds = (\<Sum>j<length ds. ds ! j * 10 ^ (length ds - 1 - j))"
proof (induction ds)
  case (Cons d ds)
  then show ?case
    by (simp add: sum.lessThan_Suc_shift del: sum.lessThan_Suc)
qed simp

lemma fold_mul_cell_val:
  "i < length a \<Longrightarrow> (\<forall>j \<in> set js. j < length b) \<Longrightarrow> distinct js \<Longrightarrow> length acc = length a + length b \<Longrightarrow>
   digits_val (fold (mul_cell a b i) js acc) =
   digits_val acc + a ! i * 10 ^ (length a - 1 - i) * (\<Sum>j\<in>set js. b ! j * 10 ^ (length b - 1 - j))"
  by (induction js arbitrary: acc) (simp_all add: mul_cell_val algebra_simps)

lemma fold_mul_row_val:
  "(\<forall>i \<in> set ks. i < length a) \<Longrightarrow> distinct ks \<Longrightarrow> length acc = length a + length b \<Longrightarrow>
   digits_val (fold (\<lambda>i. fold (mul_cell a b i) (rev [0..<length b])) ks acc) =
   digits_val acc + (\<Sum>i\<in>set ks. a ! i * 10 ^ (length a - 1 - i)) * digits_val b"
proof (induction ks arbitrary: acc)
  case (Cons i ks)
  have "digits_val (fold (mul_cell a b i) (rev [0..<length b]) acc) =
      digits_val acc + a ! i * 10 ^ (length a - 1 - i) * digits_val b"
    using Cons.prems
    by (simp add: fold_mul_cell_val digits_val_sum [of b] atLeast0LessThan)
  with Cons show ?case by (simp add: algebra_simps)
qed simp

lemma length_fold_mul_row [simp]:
  "length (fold (\<lambda>i. fold (mul_cell a b i) js) ks acc) = length acc"
  by (induction ks arbitrary: acc) auto

lemma length_mul_cells [simp]: "length (mul_cells a b) = length a + length b"
  by (simp add: mul_cells_def)

lemma mul_cells_val: "digits_val (mul_cells a b) = digits_val a * digits_val b"
proof -
  have "digits_val (replicate n 0) = 0" for n by (simp add: digits_val_eq_0 all_zero_def)
  then show ?thesis
    by (simp add: mul_cells_def fold_mul_row_val digits_val_sum [of a] atLeast0LessThan)
qed


lemma length_carry_cell [simp]: "length (carry_cell k acc) = length acc"
  by (simp add: carry_cell_def Let_def)

lemma carry_cell_val:
  assumes "0 < k" "k < length acc"
  shows "digits_val (carry_cell k acc) = digits_val acc"
proof -
  let ?n = "length acc" let ?acc = "acc[k := acc ! k mod 10]" and ?c = "acc ! k div 10"
  have e: "length acc - 1 - (k - 1) = Suc (length acc - 1 - k)" using assms by simp
  have "digits_val (carry_cell k acc) = digits_val ?acc + ?c * 10 ^ (?n - 1 - (k - 1))"
    using assms digits_val_add_cell [of "k - 1" ?acc ?c] by (simp add: carry_cell_def Let_def)
  moreover have "digits_val ?acc + acc ! k * 10 ^ (?n - 1 - k) = digits_val acc + (acc ! k mod 10) * 10 ^ (?n - 1 - k)"
    using digits_val_update assms by blast
  moreover have "acc ! k * 10 ^ (?n - 1 - k) = ?c * 10 ^ (?n - 1 - (k - 1)) + (acc ! k mod 10) * 10 ^ (?n - 1 - k)"
    unfolding e by (metis (no_types, lifting) add_mult_distrib div_mult_mod_eq mult.assoc power_Suc)
  ultimately show ?thesis by linarith
qed

lemma fold_carry_cell:
  assumes "m < length acc" "\<forall>k. m < k \<longrightarrow> k < length acc \<longrightarrow> acc ! k < 10"
  shows "digits_val (fold carry_cell (rev [1..<Suc m]) acc) = digits_val acc \<and>
    length (fold carry_cell (rev [1..<Suc m]) acc) = length acc \<and>
    (\<forall>k. 0 < k \<longrightarrow> k < length acc \<longrightarrow> fold carry_cell (rev [1..<Suc m]) acc ! k < 10)"
  using assms
proof (induction m arbitrary: acc)
  case (Suc m)
  let ?acc = "carry_cell (Suc m) acc"
  have "?acc ! k < 10" if "m < k" "k < length acc" for k
    using that Suc.prems by (cases "k = Suc m") (auto simp: carry_cell_def Let_def nth_list_update)
  then have "digits_val (fold carry_cell (rev [1..<Suc m]) ?acc) = digits_val ?acc \<and>
    length (fold carry_cell (rev [1..<Suc m]) ?acc) = length ?acc \<and>
    (\<forall>k. 0 < k \<longrightarrow> k < length ?acc \<longrightarrow> fold carry_cell (rev [1..<Suc m]) ?acc ! k < 10)"
    using Suc.prems by (intro Suc.IH) auto
  then show ?case using Suc.prems carry_cell_val [of "Suc m" acc] by simp
qed simp

theorem mul_mag_val:
  assumes "digits a" "digits b"
  shows "mul_mag a b = nat_digits (digits_val a * digits_val b)"
proof (cases "all_zero a \<or> all_zero b")
  case True
  then have "digits_val a * digits_val b = 0" by (auto simp flip: digits_val_eq_0)
  then have "nat_digits (digits_val a * digits_val b) = [0]" by (simp only: nat_digits_0)
  with True show ?thesis by (simp add: mul_mag_def)
next
  case False
  let ?n = "length a + length b" let ?acc = "mul_cells a b"
  let ?out = "fold carry_cell (rev [1..<length ?acc]) ?acc"
  from False have n: "0 < length a" "0 < length b" by (auto simp: all_zero_def)
  then have "?n = Suc (?n - 1)" by simp
  then have out: "digits_val ?out = digits_val a * digits_val b" "length ?out = ?n"
    "\<forall>k. 0 < k \<longrightarrow> k < ?n \<longrightarrow> ?out ! k < 10"
    using fold_carry_cell [of "?n - 1" ?acc] n by (simp_all add: mul_cells_val)
  have "digits_val a * digits_val b < 10 ^ length a * 10 ^ length b"
    using assms by (intro mult_strict_mono) (simp_all add: digits_val_bound)
  then have lt: "digits_val ?out < 10 * 10 ^ (?n - 1)"
    using out n by (simp add: power_add [symmetric] flip: power_Suc)
  have "out ! 0 * 10 ^ (length out - 1) \<le> digits_val out" if "out \<noteq> []" for out
    using that by (cases out) auto
  moreover have ne: "?out \<noteq> []" using out(2) n by (metis add_gr_0 length_greater_0_conv)
  ultimately have "?out ! 0 * 10 ^ (?n - 1) \<le> digits_val ?out" using out(2) by metis
  with lt have "?out ! 0 < 10" by (metis le_less_trans mult_less_cancel2)
  then have dig: "digits ?out"
    using out by (auto simp: digits_def in_set_conv_nth) (metis gr0I)
  then have "map (\<lambda>d. d mod 256) ?out = ?out"
    by (intro map_idI) (auto simp: digits_def)
  then show ?thesis
    using False dig ne out(1) by (simp add: mul_mag_def Let_def strip_leading_eq)
qed

text \<open>
  No \<open>u32\<close> cell wraps: a cell collects at most one product of two digits per digit of the
  first operand, and the carry pass adds at most a ninth of that.
\<close>

lemma row_cell_bound:
  "distinct js \<Longrightarrow> digits a \<Longrightarrow> digits b \<Longrightarrow> i < length a \<Longrightarrow> \<forall>j \<in> set js. j < length b \<Longrightarrow>
   length acc = length a + length b \<Longrightarrow> k < length acc \<Longrightarrow>
   fold (mul_cell a b i) js acc ! k \<le> acc ! k + (if k \<in> (\<lambda>j. i + j + 1) ` set js then 81 else 0)"
proof (induction js arbitrary: acc)
  case (Cons j js)
  have "a ! i \<le> 9" "b ! j \<le> 9"
    using digits_nth [of a i] digits_nth [of b j] Cons.prems by auto
  then have p: "a ! i * b ! j \<le> 81" using mult_le_mono [of "a ! i" 9 "b ! j" 9] by simp
  have "fold (mul_cell a b i) js (mul_cell a b i j acc) ! k \<le>
      mul_cell a b i j acc ! k + (if k \<in> (\<lambda>j. i + j + 1) ` set js then 81 else 0)"
    using Cons by auto
  moreover have "mul_cell a b i j acc ! k \<le> acc ! k + (if k = i + j + 1 then 81 else 0)"
    using Cons.prems p by (auto simp: mul_cell_def nth_list_update)
  moreover have "k = i + j + 1 \<Longrightarrow> k \<notin> (\<lambda>j. i + j + 1) ` set js" using Cons.prems by auto
  ultimately show ?case by (auto split: if_splits)
qed simp

lemma rows_cell_bound:
  "digits a \<Longrightarrow> digits b \<Longrightarrow> \<forall>i \<in> set ks. i < length a \<Longrightarrow>
   length acc = length a + length b \<Longrightarrow> k < length acc \<Longrightarrow>
   fold (\<lambda>i. fold (mul_cell a b i) (rev [0..<length b])) ks acc ! k \<le> acc ! k + 81 * length ks"
proof (induction ks arbitrary: acc)
  case (Cons i ks)
  let ?row = "fold (mul_cell a b i) (rev [0..<length b]) acc"
  have "?row ! k \<le> acc ! k + 81"
    using Cons.prems row_cell_bound [of "rev [0..<length b]" a b i acc k] by (auto split: if_splits)
  moreover have "fold (\<lambda>i. fold (mul_cell a b i) (rev [0..<length b])) ks ?row ! k \<le> ?row ! k + 81 * length ks"
    using Cons by simp
  ultimately show ?case by simp
qed simp

lemma carry_bound:
  assumes "m \<le> length acc" "\<forall>k < length acc. acc ! k \<le> 81 * n" "k < length acc"
  shows "fold carry_cell (rev [m..<length acc]) acc ! k \<le> (if k + 1 < m then 81 else 90) * n"
  using assms(1,3)
proof (induction "length acc - m" arbitrary: m k)
  case 0
  then show ?case using assms(2) by (auto intro: order_trans)
next
  case (Suc d)
  let ?st = "fold carry_cell (rev [Suc m..<length acc]) acc"
  have len: "length (fold carry_cell ks acc) = length acc" for ks by (induction ks arbitrary: acc) auto
  have IH: "?st ! k \<le> (if k + 1 < Suc m then 81 else 90) * n" if "k < length acc" for k
    using Suc that by (intro Suc.hyps) auto
  have m: "m < length acc" using Suc.hyps(2) by linarith
  then have step: "fold carry_cell (rev [m..<length acc]) acc = carry_cell m ?st"
    by (simp add: upt_rec [of m])
  have le: "?st ! m \<le> 90 * n" using IH [OF m] by simp
  then have "?st ! m div 10 \<le> 9 * n" by simp
  moreover have "?st ! m mod 10 \<le> 90 * n" using le by (meson mod_less_eq_dividend order_trans)
  ultimately show ?case
    using IH [OF Suc.prems(2)] m Suc.prems le
    by (auto simp: step carry_cell_def Let_def len nth_list_update split: if_splits)
qed

theorem mul_mag_no_wrap:
  assumes "digits a" "digits b" "length a \<le> 40000000" "m \<le> length a + length b" "k < length a + length b"
  shows "fold carry_cell (rev [m..<length a + length b]) (mul_cells a b) ! k < 2 ^ 32"
proof -
  have "mul_cells a b ! k \<le> 81 * length a" if "k < length a + length b" for k
    using rows_cell_bound [of a b "rev [0..<length a]" "replicate (length a + length b) 0" k] assms that
    by (simp add: mul_cells_def)
  then have "fold carry_cell (rev [m..<length (mul_cells a b)]) (mul_cells a b) ! k \<le>
      (if k + 1 < m then 81 else 90) * length a"
    using assms by (intro carry_bound) auto
  also have "\<dots> \<le> 90 * length a" by simp
  also have "\<dots> < 2 ^ 32" using assms by simp
  finally show ?thesis by simp
qed

section \<open>Division by a machine integer\<close>

lemma divmod_loop_val:
  assumes "0 < n" "r < n" "digits ds"
  shows "\<exists>out r2. divmod_loop n ds r = (out, r2) \<and> r2 < n \<and> digits out \<and> length out = length ds \<and>
    digits_val out * n + r2 = r * 10 ^ length ds + digits_val ds"
  using assms(2,3)
proof (induction ds arbitrary: r)
  case (Cons d ds)
  let ?r1 = "r * 10 + d"
  obtain out r2 where rec: "divmod_loop n ds (?r1 mod n) = (out, r2)" "r2 < n" "digits out"
    "length out = length ds" "digits_val out * n + r2 = (?r1 mod n) * 10 ^ length ds + digits_val ds"
    using Cons assms(1) by (metis digits_simps(2) mod_less_divisor)
  have "?r1 < 10 * n" using Cons.prems by simp
  then have q: "?r1 div n < 10" by (simp add: div_less_iff_less_mult assms(1))
  have "(?r1 div n) * n + ?r1 mod n = ?r1" by simp
  then have "(?r1 div n) * n * 10 ^ length ds + (?r1 mod n) * 10 ^ length ds = ?r1 * 10 ^ length ds"
    by (metis add_mult_distrib)
  with rec q show ?case by (simp add: Let_def algebra_simps)
qed simp

theorem divmod_small_val:
  assumes "0 < n" "digits a" "a \<noteq> []"
  shows "divmod_small a n = (nat_digits (digits_val a div n), digits_val a mod n)"
proof -
  obtain out r where l: "divmod_loop n a 0 = (out, r)" "r < n" "digits out" "length out = length a"
    "digits_val out * n + r = digits_val a"
    using divmod_loop_val [of n 0 a] assms by auto
  then have "digits_val a div n = digits_val out" "digits_val a mod n = r"
    using assms(1) by (simp_all flip: l(5))
  moreover have "out \<noteq> []" using l(4) assms by auto
  ultimately show ?thesis using l by (simp add: divmod_small_def strip_leading_eq)
qed

section \<open>Rounding half to even\<close>

lemma hd_nonzero_ge: "ds \<noteq> [] \<Longrightarrow> hd ds \<noteq> 0 \<Longrightarrow> 10 ^ (length ds - 1) \<le> digits_val ds"
proof (cases ds)
  case (Cons x xs)
  assume "hd ds \<noteq> 0"
  with Cons obtain y where "x = Suc y" by (cases x) auto
  with Cons show ?thesis by simp
qed simp

lemma hd_zero_less: "digits ds \<Longrightarrow> ds \<noteq> [] \<Longrightarrow> hd ds = 0 \<Longrightarrow> digits_val ds < 10 ^ (length ds - 1)"
  by (cases ds) (auto simp: digits_val_bound)

text \<open>The integer nearest to \<open>n / m\<close>, the even one of two equally near.\<close>

definition rne_div :: "nat \<Rightarrow> nat \<Rightarrow> nat" where
  "rne_div n m =
     (let q = n div m; r = n mod m
      in if 2 * r < m \<or> 2 * r = m \<and> even q then q else q + 1)"

lemma digit_le_4: "f \<le> 4 \<Longrightarrow> v < p \<Longrightarrow> 2 * (f * p + v) < 10 * (p :: nat)"
proof -
  assume "f \<le> 4" "v < p"
  moreover from this have "f = 0 \<or> f = 1 \<or> f = 2 \<or> f = 3 \<or> f = 4" by linarith
  ultimately show ?thesis by auto
qed

lemma digit_ge_6: "6 \<le> f \<Longrightarrow> 0 < p \<Longrightarrow> 10 * p < 2 * (f * p + v :: nat)"
proof -
  assume "6 \<le> f" "0 < p"
  moreover from this obtain g where "f = 6 + g" using le_Suc_ex by blast
  ultimately show ?thesis by (simp add: algebra_simps)
qed

lemma half_tail:
  assumes "digits (f # rest)"
  shows "10 * 10 ^ length rest < 2 * digits_val (f # rest) \<longleftrightarrow> f > 5 \<or> f = 5 \<and> (\<exists>d \<in> set rest. d \<noteq> 0)"
    and "10 * 10 ^ length rest = 2 * digits_val (f # rest) \<longleftrightarrow> f = 5 \<and> \<not> (\<exists>d \<in> set rest. d \<noteq> 0)"
proof -
  let ?P = "(10::nat) ^ length rest"
  have v: "digits_val rest < ?P" using assms by (simp add: digits_val_bound)
  have z: "(\<exists>d \<in> set rest. d \<noteq> 0) \<longleftrightarrow> 0 < digits_val rest"
    using digits_val_eq_0 [of rest] by (auto simp: all_zero_def)
  consider "f \<le> 4" | "f = 5" | "6 \<le> f" by linarith
  then have "(10 * ?P < 2 * (f * ?P + digits_val rest) \<longleftrightarrow> f > 5 \<or> f = 5 \<and> 0 < digits_val rest) \<and>
      (10 * ?P = 2 * (f * ?P + digits_val rest) \<longleftrightarrow> f = 5 \<and> \<not> 0 < digits_val rest)"
  proof cases
    case 1
    then have "2 * (f * ?P + digits_val rest) < 10 * ?P" using v by (rule digit_le_4)
    with 1 show ?thesis by auto
  next
    case 3
    then have "10 * ?P < 2 * (f * ?P + digits_val rest)" by (rule digit_ge_6) simp
    with 3 show ?thesis by auto
  qed simp
  then show "10 * 10 ^ length rest < 2 * digits_val (f # rest) \<longleftrightarrow> f > 5 \<or> f = 5 \<and> (\<exists>d \<in> set rest. d \<noteq> 0)"
    "10 * 10 ^ length rest = 2 * digits_val (f # rest) \<longleftrightarrow> f = 5 \<and> \<not> (\<exists>d \<in> set rest. d \<noteq> 0)"
    unfolding z by simp_all
qed

lemma odd_last: "ds \<noteq> [] \<Longrightarrow> last ds mod 2 = 1 \<longleftrightarrow> odd (digits_val ds)"
  by (induction ds rule: rev_induct) (auto simp: digits_val_append odd_iff_mod_2_eq_one)

lemma round_up_iff:
  assumes "digits c" "0 < keep" "keep < length c"
  defines "m \<equiv> 10 ^ (length c - keep)"
  shows "c ! keep > 5 \<or> c ! keep = 5 \<and> ((\<exists>d \<in> set (drop (keep + 1) c). d \<noteq> 0) \<or>
       (take keep c \<noteq> [] \<and> last (take keep c) mod 2 = 1)) \<longleftrightarrow>
     rne_div (digits_val c) m = digits_val (take keep c) + 1"
    and "rne_div (digits_val c) m \<in> {digits_val (take keep c), digits_val (take keep c) + 1}"
proof -
  let ?k = "take keep c" and ?t = "drop keep c"
  have t: "?t = c ! keep # drop (keep + 1) c" using assms by (simp add: Cons_nth_drop_Suc)
  have dt: "digits ?t" and lt: "length ?t = length c - keep" using assms by simp_all
  have m: "m = 10 * 10 ^ length (drop (keep + 1) c)"
    using assms by (simp add: Suc_diff_Suc flip: power_Suc)
  have r: "digits_val ?t < m" using digits_val_bound [OF dt] lt by (simp add: m_def)
  have c: "digits_val c = digits_val ?k * m + digits_val ?t"
    unfolding m_def by (rule digits_val_take_drop)
  have q: "digits_val c div m = digits_val ?k" "digits_val c mod m = digits_val ?t"
    using r unfolding c by simp_all
  have half: "m < 2 * digits_val ?t \<longleftrightarrow> c ! keep > 5 \<or> c ! keep = 5 \<and> (\<exists>d \<in> set (drop (keep + 1) c). d \<noteq> 0)"
    "m = 2 * digits_val ?t \<longleftrightarrow> c ! keep = 5 \<and> \<not> (\<exists>d \<in> set (drop (keep + 1) c). d \<noteq> 0)"
    using half_tail [of "c ! keep" "drop (keep + 1) c"] dt unfolding t m by blast+
  have ne: "?k \<noteq> []" using assms by auto
  show "rne_div (digits_val c) m \<in> {digits_val ?k, digits_val ?k + 1}"
    by (simp add: rne_div_def q Let_def)
  have "rne_div (digits_val c) m = digits_val ?k + 1 \<longleftrightarrow>
      m < 2 * digits_val ?t \<or> m = 2 * digits_val ?t \<and> odd (digits_val ?k)"
    by (auto simp: rne_div_def q Let_def)
  then show "c ! keep > 5 \<or> c ! keep = 5 \<and> ((\<exists>d \<in> set (drop (keep + 1) c). d \<noteq> 0) \<or>
       (?k \<noteq> [] \<and> last ?k mod 2 = 1)) \<longleftrightarrow> rne_div (digits_val c) m = digits_val ?k + 1"
    using half odd_last [OF ne] ne by blast
qed

lemma length_add_one:
  "digits ks \<Longrightarrow> ks \<noteq> [] \<Longrightarrow>
   length (add_mag ks [1]) = length ks + (if 10 ^ length ks \<le> digits_val ks + 1 then 1 else 0)"
  using length_add_mag [of ks "[1]"] by (simp add: max_absorb1 Suc_le_eq)

lemma take_all_nines:
  assumes "digits ks" "0 < length ks" "10 ^ length ks \<le> digits_val ks + 1"
  shows "take (length ks) (add_mag ks [1]) = nat_digits (10 ^ (length ks - 1))"
    and "digits_val ks + 1 = 10 ^ length ks"
proof -
  let ?n = "length ks"
  show v: "digits_val ks + 1 = 10 ^ ?n" using assms digits_val_bound [of ks] by simp
  have len: "length (add_mag ks [1]) = Suc ?n" using assms length_add_one [of ks] by simp
  have val: "digits_val (add_mag ks [1]) = 10 ^ ?n" using v by (simp add: add_mag_val)
  have ne: "add_mag ks [1] \<noteq> []" using len by auto
  have hd: "hd (add_mag ks [1]) \<noteq> 0"
  proof
    assume "hd (add_mag ks [1]) = 0"
    then have "digits_val (add_mag ks [1]) = digits_val (tl (add_mag ks [1]))"
      using ne by (cases "add_mag ks [1]") auto
    also have "\<dots> < 10 ^ length (tl (add_mag ks [1]))"
      by (rule digits_val_bound) (metis add_mag_digits digits_simps(2) list.collapse ne)
    finally show False using val len by simp
  qed
  have "add_mag ks [1] = nat_digits (10 ^ ?n)"
    using nat_digits_canonical [of "add_mag ks [1]"] hd ne val by simp
  also have "\<dots> = nat_digits (10 ^ (?n - 1)) @ [0]"
    using nat_digits_append_zeros [of "10 ^ (?n - 1)" 1] assms(2)
    power_minus_mult [of ?n "10::nat"] by (simp only: power_one_right) simp
  finally show "take ?n (add_mag ks [1]) = nat_digits (10 ^ (?n - 1))"
    using len by (metis append_eq_conv_conj butlast_snoc diff_Suc_1 length_butlast)
qed

text \<open>Adding one in the last place; when all digits are nines, one more digit falls off.\<close>

lemma carry_up:
  assumes "digits ks" "ks \<noteq> []" "hd ks \<noteq> 0"
  defines "a \<equiv> add_mag ks [1]"
  shows "if length a > length ks
    then digits (take (length ks) a) \<and> length (take (length ks) a) = length ks \<and> hd (take (length ks) a) \<noteq> 0 \<and>
      digits_val (take (length ks) a) * 10 = digits_val ks + 1
    else digits a \<and> length a = length ks \<and> hd a \<noteq> 0 \<and> digits_val a = digits_val ks + 1"
proof (cases "10 ^ length ks \<le> digits_val ks + 1")
  case True
  let ?n = "length ks"
  have la: "length a = Suc ?n" using True assms length_add_one [of ks] by simp
  have nine: "take ?n a = nat_digits (10 ^ (?n - 1))" "digits_val ks + 1 = 10 ^ ?n"
    using take_all_nines [of ks] True assms by auto
  have "hd (take ?n a) \<noteq> 0" using hd_nat_digits [of "10 ^ (?n - 1)"] nine(1) by simp
  moreover have "digits_val (take ?n a) * 10 = digits_val ks + 1"
    using nine assms(2) power_minus_mult [of ?n "10::nat"] by simp
  ultimately show ?thesis using la by (simp add: a_def)
next
  case False
  have la: "length a = length ks" using False assms length_add_one [of ks] by simp
  have v: "digits_val a = digits_val ks + 1" by (simp add: a_def add_mag_val)
  have "hd a \<noteq> 0"
  proof
    assume h: "hd a = 0"
    have "digits_val a < 10 ^ (length ks - 1)"
      using hd_zero_less [of a] h la assms(2) by (metis a_def add_mag_digits length_0_conv)
    with hd_nonzero_ge [OF assms(2,3)] v show False by simp
  qed
  then show ?thesis using la v by (simp add: a_def)
qed

theorem round_half_even_val:
  assumes "digits c" "0 < keep" "keep < length c" "hd c \<noteq> 0" "round_half_even c keep = (ks, bump)"
  shows "digits ks" "length ks = keep" "hd ks \<noteq> 0"
    "digits_val ks * 10 ^ nat bump = rne_div (digits_val c) (10 ^ (length c - keep)) * 10 ^ (length c - keep)"
    "bump = int (length c - keep) \<or> bump = int (length c - keep) + 1"
proof -
  let ?k = "take keep c" and ?d = "length c - keep"
  let ?up = "c ! keep > 5 \<or> c ! keep = 5 \<and> ((\<exists>d \<in> set (drop (keep + 1) c). d \<noteq> 0) \<or>
       (take keep c \<noteq> [] \<and> last (take keep c) mod 2 = 1))"
  have k: "length ?k = keep" "digits ?k" "hd ?k \<noteq> 0" "?k \<noteq> []" using assms by (auto simp: hd_take)
  have rh: "round_half_even c keep =
     (if ?up then if length (add_mag ?k [1]) > keep then (take keep (add_mag ?k [1]), int ?d + 1)
                  else (add_mag ?k [1], int ?d)
      else (?k, int ?d))"
  proof -
    have "\<not> length c \<le> keep" using assms(3) by simp
    then show ?thesis by (simp only: round_half_even_def Let_def if_False)
  qed
  note up = round_up_iff [OF assms(1-3)]
  have "digits ks \<and> length ks = keep \<and> hd ks \<noteq> 0 \<and>
    digits_val ks * 10 ^ nat bump = rne_div (digits_val c) (10 ^ ?d) * 10 ^ ?d \<and>
    (bump = int ?d \<or> bump = int ?d + 1)"
  proof (cases ?up)
    case False
    then have "ks = ?k" "bump = int ?d" using assms(5) unfolding rh if_not_P [OF False] by auto
    moreover from False up have "rne_div (digits_val c) (10 ^ ?d) = digits_val ?k" by blast
    ultimately show ?thesis using k by (simp del: of_nat_diff)
  next
    case True
    let ?a = "add_mag ?k [1]"
    have rv: "rne_div (digits_val c) (10 ^ ?d) = digits_val ?a" using up True by (simp add: add_mag_val)
    note up1 = carry_up [OF k(2,4,3), unfolded k(1)]
    show ?thesis
    proof (cases "length ?a > keep")
      case len: True
      then have r: "ks = take keep ?a" "bump = int ?d + 1"
        using assms(5) unfolding rh if_P [OF True] by auto
      have "digits_val ks * 10 = digits_val ?a" using up1 len r by (simp add: add_mag_val)
      then have "digits_val ks * 10 ^ nat bump = digits_val ?a * 10 ^ ?d"
        unfolding r(2) by (simp add: nat_add_distrib flip: \<open>digits_val ks * 10 = digits_val ?a\<close>)
      then show ?thesis using up1 len r rv by simp
    next
      case len: False
      then have "ks = ?a" "bump = int ?d"
        using assms(5) unfolding rh if_P [OF True] by auto
      then show ?thesis using up1 len rv by simp
    qed
  qed
  then show "digits ks" "length ks = keep" "hd ks \<noteq> 0"
    "digits_val ks * 10 ^ nat bump = rne_div (digits_val c) (10 ^ ?d) * 10 ^ ?d"
    "bump = int ?d \<or> bump = int ?d + 1" by blast+
qed

section \<open>Long division\<close>

text \<open>
  The inner loop of \<open>int_divmod_mag\<close> and of \<open>hp_div\<close>: subtract the divisor while it fits and
  count. On a zero divisor the loop of the source never ends, which is \<open>None\<close> here.
\<close>

partial_function (option) quot_digit :: "nat list \<Rightarrow> nat list \<Rightarrow> nat \<Rightarrow> (nat list \<times> nat) option" where
  "quot_digit cur den q =
     (if cmp_mag cur den \<noteq> Less
      then quot_digit (strip_leading (sub_mag cur den)) den (q + 1)
      else Some (cur, q))"

declare quot_digit.simps [code]

fun int_divmod_loop :: "nat list \<Rightarrow> nat list \<Rightarrow> nat list \<Rightarrow> nat list \<Rightarrow> (nat list \<times> nat list) option" where
  "int_divmod_loop den [] quot r = Some (strip_leading quot, strip_leading r)"
| "int_divmod_loop den (d # ds) quot r =
     (let r1 = (if r = [0] then [d] else r @ [d])
      in case quot_digit r1 den 0 of
           None \<Rightarrow> None
         | Some (r2, q) \<Rightarrow> int_divmod_loop den ds (quot @ [q]) r2)"

definition int_divmod_mag :: "nat list \<Rightarrow> nat list \<Rightarrow> (nat list \<times> nat list) option" where
  "int_divmod_mag a b = int_divmod_loop (strip_leading b) a [] [0]"

lemma quot_digit_val:
  assumes "digits den" "den \<noteq> []" "0 < digits_val den" "digits cur" "cur \<noteq> []"
  shows "\<exists>r. quot_digit cur den q = Some (r, q + digits_val cur div digits_val den) \<and>
    digits r \<and> r \<noteq> [] \<and> digits_val r = digits_val cur mod digits_val den \<and>
    (r = cur \<or> r = nat_digits (digits_val r))"
  using assms(4,5)
proof (induction "digits_val cur" arbitrary: cur q rule: less_induct)
  case less
  let ?v = "digits_val cur" and ?m = "digits_val den"
  have c: "cmp_mag cur den = cmp_of ?v ?m" using assms less.prems by (simp add: cmp_mag_val)
  show ?case
  proof (cases "?v < ?m")
    case True
    then have "quot_digit cur den q = Some (cur, q)"
      by (subst quot_digit.simps) (simp add: c cmp_of_def)
    with True less.prems show ?thesis by simp
  next
    case False
    let ?c = "strip_leading (sub_mag cur den)"
    have sub: "sub_mag cur den = nat_digits (?v - ?m)"
      using False assms less.prems by (simp add: sub_mag_val)
    have c': "?c = nat_digits (?v - ?m)" by (simp add: sub strip_leading_eq)
    have "quot_digit cur den q = quot_digit ?c den (q + 1)"
      using False by (subst quot_digit.simps) (simp add: c cmp_of_def)
    moreover have "\<exists>r. quot_digit ?c den (q + 1) = Some (r, q + 1 + digits_val ?c div ?m) \<and>
        digits r \<and> r \<noteq> [] \<and> digits_val r = digits_val ?c mod ?m \<and> (r = ?c \<or> r = nat_digits (digits_val r))"
      using False assms(3) by (intro less.hyps) (simp_all add: c')
    moreover have "?v div ?m = Suc ((?v - ?m) div ?m)" "?v mod ?m = (?v - ?m) mod ?m"
      using False assms(3) by (simp_all add: le_div_geq le_mod_geq)
    ultimately show ?thesis by (auto simp: c' add.assoc)
  qed
qed

lemma int_divmod_loop_val:
  assumes "digits den" "den \<noteq> []" "0 < digits_val den"
    "digits ds" "digits quot" "digits r" "r \<noteq> []" "digits_val r < digits_val den" "quot @ ds \<noteq> []"
  defines "n \<equiv> digits_val r * 10 ^ length ds + digits_val ds"
  shows "int_divmod_loop den ds quot r =
    Some (nat_digits (digits_val quot * 10 ^ length ds + n div digits_val den), nat_digits (n mod digits_val den))"
  using assms(4-9) unfolding n_def
proof (induction ds arbitrary: quot r)
  case Nil
  then show ?case by (simp add: strip_leading_eq)
next
  case (Cons d ds)
  let ?m = "digits_val den"
  define r1 where "r1 = (if r = [0] then [d] else r @ [d])"
  have v1: "digits_val r1 = digits_val r * 10 + d" by (simp add: r1_def digits_val_append)
  have d1: "digits r1" "r1 \<noteq> []" using Cons.prems by (simp_all add: r1_def)
  obtain r2 where r2: "quot_digit r1 den 0 = Some (r2, digits_val r1 div ?m)" "digits r2" "r2 \<noteq> []"
    "digits_val r2 = digits_val r1 mod ?m"
    using quot_digit_val [OF assms(1-3) d1] by (metis add_0)
  define q where "q = digits_val r1 div ?m"
  have "digits_val r1 < 10 * ?m" unfolding v1 using Cons.prems by simp
  then have q: "q < 10" unfolding q_def using assms(3) by (simp add: div_less_iff_less_mult)
  have lt: "digits_val r2 < ?m" using r2(4) assms(3) by simp
  let ?n = "digits_val r2 * 10 ^ length ds + digits_val ds"
  have "int_divmod_loop den (d # ds) quot r = int_divmod_loop den ds (quot @ [q]) r2"
    using r2(1) by (simp add: Let_def r1_def q_def)
  also have "\<dots> = Some (nat_digits (digits_val (quot @ [q]) * 10 ^ length ds + ?n div ?m), nat_digits (?n mod ?m))"
    using Cons.prems q r2 lt by (intro Cons.IH) simp_all
  finally have res: "int_divmod_loop den (d # ds) quot r =
    Some (nat_digits (digits_val (quot @ [q]) * 10 ^ length ds + ?n div ?m), nat_digits (?n mod ?m))" .
  let ?N = "digits_val r * 10 ^ length (d # ds) + digits_val (d # ds)"
  have "?N = digits_val r1 * 10 ^ length ds + digits_val ds" unfolding v1 by (simp add: algebra_simps)
  also have "digits_val r1 = q * ?m + digits_val r2" using r2(4) by (simp add: q_def)
  finally have N: "?N = ?n + (q * 10 ^ length ds) * ?m" by (simp add: algebra_simps)
  have "?N div ?m = q * 10 ^ length ds + ?n div ?m" "?N mod ?m = ?n mod ?m"
    unfolding N using assms(3) by (simp_all only: div_mult_self1 mod_mult_self1)
  then show ?case unfolding res by (simp add: digits_val_append algebra_simps)
qed

theorem int_divmod_mag_val:
  assumes "digits a" "a \<noteq> []" "digits b" "0 < digits_val b"
  shows "int_divmod_mag a b = Some (nat_digits (digits_val a div digits_val b), nat_digits (digits_val a mod digits_val b))"
proof -
  have "b \<noteq> []" using assms by auto
  then show ?thesis
    using int_divmod_loop_val [of "strip_leading b" a "[]" "[0]"] assms
    by (simp add: int_divmod_mag_def)
qed

section \<open>Integer square root\<close>

fun root_digit :: "nat list \<Rightarrow> nat list \<Rightarrow> nat list \<Rightarrow> nat \<times> nat list \<Rightarrow> nat \<times> nat list" where
  "root_digit twenty_root r [] best = best"
| "root_digit twenty_root r (d # ds) best =
     (let cand = add_mag twenty_root [d]; prod = mul_mag cand [d]
      in if cmp_mag prod r = Greater then best else root_digit twenty_root r ds (d, prod))"

fun isqrt_loop :: "nat list \<Rightarrow> nat list \<Rightarrow> nat list \<Rightarrow> nat list \<times> nat list" where
  "isqrt_loop rt r (p # q # ds) =
     (let r1 = strip_leading (r @ [p, q]);
          twenty_root = mul_mag rt [2, 0];
          (best, best_prod) = root_digit twenty_root r1 [1..<10] (0, [0]);
          r2 = strip_leading (sub_mag r1 best_prod)
      in isqrt_loop (rt @ [best]) r2 ds)"
| "isqrt_loop rt r _ = (strip_leading rt, strip_leading r)"

definition isqrt_mag :: "nat list \<Rightarrow> nat list \<times> nat list" where
  "isqrt_mag n = isqrt_loop [] [] (if length n mod 2 = 1 then 0 # n else n)"

lemma root_digit_val:
  assumes "digits tw" "digits r" "r \<noteq> []" "(digits_val tw + d) * d \<le> digits_val r" "d < k" "k \<le> 10"
    "d + 1 = k"
  shows "\<exists>b. root_digit tw r [k..<10] (d, nat_digits ((digits_val tw + d) * d)) =
      (b, nat_digits ((digits_val tw + b) * b)) \<and> b \<le> 9 \<and> (digits_val tw + b) * b \<le> digits_val r \<and>
      (b = 9 \<or> digits_val r < (digits_val tw + (b + 1)) * (b + 1))"
  using assms(4-7)
proof (induction "10 - k" arbitrary: k d)
  case 0
  then show ?case by auto
next
  case (Suc n)
  then have k: "k < 10" by linarith
  let ?p = "nat_digits ((digits_val tw + k) * k)"
  have prod: "mul_mag (add_mag tw [k]) [k] = ?p"
    using k by (simp add: mul_mag_val add_mag_val)
  have c: "cmp_mag ?p r = cmp_of ((digits_val tw + k) * k) (digits_val r)"
    using assms by (simp add: cmp_mag_val)
  show ?case
  proof (cases "digits_val r < (digits_val tw + k) * k")
    case True
    then show ?thesis using Suc.prems k
      by (auto simp: upt_conv_Cons Let_def prod c cmp_of_def)
  next
    case False
    have "root_digit tw r [k..<10] (d, nat_digits ((digits_val tw + d) * d)) =
        root_digit tw r [Suc k..<10] (k, ?p)"
      using False k by (simp add: upt_conv_Cons Let_def prod c cmp_of_def)
    moreover have "\<exists>b. root_digit tw r [Suc k..<10] (k, ?p) =
      (b, nat_digits ((digits_val tw + b) * b)) \<and> b \<le> 9 \<and> (digits_val tw + b) * b \<le> digits_val r \<and>
      (b = 9 \<or> digits_val r < (digits_val tw + (b + 1)) * (b + 1))"
      using Suc.hyps(2) k False by (intro Suc.hyps(1)) auto
    ultimately show ?thesis by simp
  qed
qed

lemma isqrt_loop_val:
  assumes "digits rt" "digits r" "digits ds" "even (length ds)" "rt @ ds \<noteq> []"
    "r \<noteq> [] \<or> rt = []" "digits_val rt ^ 2 + digits_val r = n" "n < (digits_val rt + 1) ^ 2"
  shows "\<exists>s. isqrt_loop rt r ds = (nat_digits s, nat_digits (n * 10 ^ length ds + digits_val ds - s ^ 2)) \<and>
    s ^ 2 \<le> n * 10 ^ length ds + digits_val ds \<and> n * 10 ^ length ds + digits_val ds < (s + 1) ^ 2"
  using assms
proof (induction rt r ds arbitrary: n rule: isqrt_loop.induct)
  case (1 rt r p q ds)
  let ?R = "digits_val rt" and ?r1 = "strip_leading (r @ [p, q])"
  let ?M = "digits_val r * 100 + (p * 10 + q)" and ?tw = "mul_mag rt [2, 0]"
  have r1: "digits ?r1" "?r1 \<noteq> []" "digits_val ?r1 = ?M" using "1.prems" by (simp_all add: digits_val_append)
  have tw: "digits ?tw" "digits_val ?tw = 20 * ?R" using "1.prems" by (simp_all add: mul_mag_val)
  obtain b where b: "root_digit ?tw ?r1 [1..<10] (0, [0]) = (b, nat_digits ((20 * ?R + b) * b))"
    "b \<le> 9" "(20 * ?R + b) * b \<le> ?M" "b = 9 \<or> ?M < (20 * ?R + (b + 1)) * (b + 1)"
    using root_digit_val [of ?tw ?r1 0 1] r1 tw by auto
  let ?r2 = "strip_leading (sub_mag ?r1 (nat_digits ((20 * ?R + b) * b)))"
  have r2: "?r2 = nat_digits (?M - (20 * ?R + b) * b)"
    using r1 b by (simp add: sub_mag_val strip_leading_eq)
  let ?n = "n * 100 + (p * 10 + q)"
  have root2: "digits_val (rt @ [b]) = 10 * ?R + b" by (simp add: digits_val_append)
  have sq: "(10 * ?R + b) ^ 2 = 100 * ?R ^ 2 + (20 * ?R + b) * b" by (simp add: power2_eq_square algebra_simps)
  have eq: "(10 * ?R + b) ^ 2 + (?M - (20 * ?R + b) * b) = ?n"
    using b(3) "1.prems"(7) by (simp add: sq)
  have lt: "?n < (10 * ?R + b + 1) ^ 2"
  proof (cases "b = 9")
    case True
    have "p * 10 + q \<le> 99" using "1.prems"(3) by simp
    then have "?n < 100 * (n + 1)" by simp
    also have "n + 1 \<le> (?R + 1) ^ 2" using "1.prems"(8) by simp
    then have "100 * (n + 1) \<le> 100 * (?R + 1) ^ 2" by (rule mult_le_mono2)
    also have "100 * (?R + 1) ^ 2 = (10 * ?R + b + 1) ^ 2"
      using True by (simp add: power2_eq_square algebra_simps)
    finally show ?thesis .
  next
    case False
    with b have "?M < (20 * ?R + (b + 1)) * (b + 1)" by simp
    moreover have "(10 * ?R + b + 1) ^ 2 = 100 * ?R ^ 2 + (20 * ?R + (b + 1)) * (b + 1)"
      by (simp add: power2_eq_square algebra_simps)
    ultimately show ?thesis using "1.prems"(7) by linarith
  qed
  have tot: "n * 10 ^ length (p # q # ds) + digits_val (p # q # ds) = ?n * 10 ^ length ds + digits_val ds"
    by (simp add: algebra_simps)
  have "\<exists>s. isqrt_loop (rt @ [b]) ?r2 ds = (nat_digits s, nat_digits (?n * 10 ^ length ds + digits_val ds - s ^ 2)) \<and>
    s ^ 2 \<le> ?n * 10 ^ length ds + digits_val ds \<and> ?n * 10 ^ length ds + digits_val ds < (s + 1) ^ 2"
    using "1.prems" b eq lt by (intro "1.IH" [OF refl refl b(1) [symmetric] refl refl]) (simp_all add: r2 root2)
  moreover have "isqrt_loop rt r (p # q # ds) = isqrt_loop (rt @ [b]) ?r2 ds"
    using b(1) by (simp add: Let_def)
  ultimately show ?case unfolding tot by simp
qed (auto simp: strip_leading_eq)

theorem isqrt_mag_val:
  assumes "digits n" "n \<noteq> []"
  shows "\<exists>s. isqrt_mag n = (nat_digits s, nat_digits (digits_val n - s ^ 2)) \<and>
    s ^ 2 \<le> digits_val n \<and> digits_val n < (s + 1) ^ 2"
proof -
  let ?n = "if length n mod 2 = 1 then 0 # n else n"
  have "digits_val ?n = digits_val n" "even (length ?n)" "digits ?n" "?n \<noteq> []"
    using assms by (auto simp: even_iff_mod_2_eq_zero mod_Suc)
  then show ?thesis
    using isqrt_loop_val [of "[]" "[]" ?n 0] by (simp add: isqrt_mag_def)
qed

text \<open>Subtracting zero never gets below zero: the digit loop does not return for a zero divisor.\<close>

lemma quot_digit_zero_diverges:
  assumes "digits den" "den \<noteq> []" "digits_val den = 0" "digits cur" "cur \<noteq> []"
  shows "quot_digit cur den q = None"
proof -
  have "\<not> (digits den \<and> den \<noteq> [] \<and> digits_val den = 0 \<and> digits cur \<and> cur \<noteq> [])" if "quot_digit cur den q = Some res" for res
  proof (rule quot_digit.raw_induct [OF _ that])
    fix loop cur den q res
    assume IH: "\<And>cur den q res. loop cur den q = Some res \<Longrightarrow> \<not> (digits den \<and> den \<noteq> [] \<and> digits_val den = 0 \<and> digits cur \<and> cur \<noteq> [])"
      and step: "(if cmp_mag cur den \<noteq> Less then loop (strip_leading (sub_mag cur den)) den (q + 1) else Some (cur, q)) = Some res"
    show "\<not> (digits den \<and> den \<noteq> [] \<and> digits_val den = 0 \<and> digits cur \<and> cur \<noteq> [])"
    proof
      assume a: "digits den \<and> den \<noteq> [] \<and> digits_val den = 0 \<and> digits cur \<and> cur \<noteq> []"
      then have "cmp_mag cur den \<noteq> Less" by (simp add: cmp_mag_val cmp_of_def)
      moreover have "digits (strip_leading (sub_mag cur den))" "strip_leading (sub_mag cur den) \<noteq> []"
        using a by (simp_all add: sub_mag_val strip_leading_eq)
      ultimately show False using IH [of "strip_leading (sub_mag cur den)" den "q + 1" res] step a by simp
    qed
  qed
  with assms show ?thesis by (cases "quot_digit cur den q") auto
qed

text \<open>
  C25: the long division of two magnitudes, whose inner loop subtracts the
  divisor until the rest is smaller, returns for every divisor but zero, with the quotient and
  the rest as plain digits. For zero the inner loop runs for ever at the first digit, so the
  guard against a zero divisor in \<open>rem\<close> and \<open>div\<close> is what makes them return.
\<close>

theorem int_divmod_terminates:
  assumes "digits a" "a \<noteq> []" "digits b" "b \<noteq> []"
  shows "int_divmod_mag a b =
    (if digits_val b = 0 then None
     else Some (nat_digits (digits_val a div digits_val b), nat_digits (digits_val a mod digits_val b)))"
proof (cases "digits_val b = 0")
  case True
  obtain d ds where a: "a = d # ds" using assms(2) by (cases a) auto
  have "quot_digit [d] (strip_leading b) 0 = None"
    using assms True a by (intro quot_digit_zero_diverges) simp_all
  then show ?thesis using True by (simp add: a int_divmod_mag_def)
next
  case False
  then show ?thesis using int_divmod_mag_val assms by simp
qed

theorem int_divmod_terminates_witness:
  "digits [2, 0] \<and> digits [0, 6] \<and> int_divmod_mag [2, 0] [0, 6] = Some ([3], [2]) \<and> int_divmod_mag [2, 0] [0, 0] = None"
proof -
  have "digits [2, 0]" "digits [0, 6]" "digits [0, 0]" by simp_all
  moreover have "nat_digits 3 = [3]" "nat_digits 2 = [2]" by code_simp+
  ultimately show ?thesis using int_divmod_terminates [of "[2, 0]" "[0, 6]"] int_divmod_terminates [of "[2, 0]" "[0, 0]"] by simp
qed

end
