(* ===== verification/Decimal_Text.thy ===== *)
theory Decimal_Text
  imports Decimal_Mag
begin

text \<open>
  The decimal type of \<open>secantus-core/src/decimal.rs\<close> and its two text boundaries, \<open>parse\<close> and
  \<open>to_string\<close>: the texts in which BSON's decimal128 values enter and leave the arithmetic. A
  value is not normalised (trailing zeros are significant), so the round trip is stated on
  sign, coefficient and exponent, not only on the number.
\<close>

section \<open>Values\<close>

text \<open>
  \<open>Dec\<close>: \<open>sign\<close> (\<open>i8\<close>) is 1 or -1, \<open>coeff\<close> the digits most significant first, \<open>exp\<close> an \<open>i32\<close>.
  The exponent is kept as an integer; where the source computes on it unchecked, the
  wrap-around of \<open>i32\<close> is written out with \<open>i32_wrap\<close>.
\<close>

datatype dec =
    DecNan
  | DecInf int
  | DecFin int "nat list" int

definition in_i32 :: "int \<Rightarrow> bool" where
  "in_i32 z \<longleftrightarrow> - (2 ^ 31) \<le> z \<and> z < 2 ^ 31"

definition i32_wrap :: "int \<Rightarrow> int" where
  "i32_wrap z = (z + 2 ^ 31) mod 2 ^ 32 - 2 ^ 31"

definition i32_checked :: "int \<Rightarrow> int option" where
  "i32_checked z = (if in_i32 z then Some z else None)"

lemma i32_wrap_id [simp]: "in_i32 z \<Longrightarrow> i32_wrap z = z"
  by (simp add: in_i32_def i32_wrap_def)

lemma in_i32_wrap [simp]: "in_i32 (i32_wrap z)"
  using pos_mod_bound [of "2 ^ 32" "z + 2 ^ 31"] pos_mod_sign [of "2 ^ 32" "z + 2 ^ 31"]
  by (simp add: in_i32_def i32_wrap_def)

fun is_zero :: "dec \<Rightarrow> bool" where
  "is_zero (DecFin sign coeff ex) = all_zero coeff"
| "is_zero _ = False"

fun neg :: "dec \<Rightarrow> dec" where
  "neg (DecFin sign coeff ex) = DecFin (- sign) coeff ex"
| "neg other = other"

section \<open>Parsing\<close>

definition parse_i32 :: "rstr \<Rightarrow> int option" where
  "parse_i32 s = (case parse_i64 s of None \<Rightarrow> None | Some v \<Rightarrow> i32_checked v)"

fun parse_coeff :: "rstr \<Rightarrow> nat list option" where
  "parse_coeff [] = Some []"
| "parse_coeff (c # cs) =
     (case to_digit c of
        None \<Rightarrow> None
      | Some d \<Rightarrow> (case parse_coeff cs of None \<Rightarrow> None | Some ds \<Rightarrow> Some (d # ds)))"

definition parse_number :: "int \<Rightarrow> rstr \<Rightarrow> dec option" where
  "parse_number sign rest =
     (case (case split_once (\<lambda>b. b = 101 \<or> b = 69) rest of
              Some (m, e) \<Rightarrow> (case parse_i32 e of None \<Rightarrow> None | Some x \<Rightarrow> Some (m, x))
            | None \<Rightarrow> Some (rest, 0)) of
        None \<Rightarrow> None
      | Some (mantissa, exp_extra) \<Rightarrow>
          (let (int_part, frac_part) =
                 (case split_once (\<lambda>b. b = 46) mantissa of Some (i, f) \<Rightarrow> (i, f) | None \<Rightarrow> (mantissa, []))
           in if int_part = [] \<and> frac_part = [] then None
              else case parse_coeff (int_part @ frac_part) of
                     None \<Rightarrow> None
                   | Some coeff \<Rightarrow>
                       (case i32_checked (exp_extra - i32_wrap (int (length frac_part))) of
                          None \<Rightarrow> None
                        | Some ex \<Rightarrow> Some (DecFin sign (strip_leading coeff) ex))))"

definition parse :: "rstr \<Rightarrow> dec option" where
  "parse s =
     (let t = trim s; low = ascii_lower t
      in if contains_str (lit ''nan'') low then Some DecNan
         else if contains_str (lit ''inf'') low
              then Some (DecInf (if strip_prefix [45] t \<noteq> None then -1 else 1))
         else let (sign, rest) =
                    (case strip_prefix [45] t of
                       Some r \<Rightarrow> (-1, r)
                     | None \<Rightarrow> (1, (case strip_prefix [43] t of Some r \<Rightarrow> r | None \<Rightarrow> t)))
              in parse_number sign rest)"

section \<open>Rendering\<close>

definition ascii :: "nat list \<Rightarrow> rstr" where
  "ascii ds = map (\<lambda>d. of_nat (48 + d)) ds"

definition adjusted :: "nat list \<Rightarrow> int \<Rightarrow> int" where
  "adjusted coeff ex = ex + int (length coeff) - 1"

definition to_string_body :: "nat list \<Rightarrow> int \<Rightarrow> rstr" where
  "to_string_body coeff ex =
     (let ds = ascii coeff; adj = adjusted coeff ex
      in if ex \<le> 0 \<and> adj \<ge> -6
         then (if ex = 0 then ds
               else if adj \<ge> 0
                    then let point = nat (adj + 1) in take point ds @ lit ''.'' @ drop point ds
               else lit ''0.'' @ replicate (nat (- adj - 1)) 48 @ ds)
         else (let body = (if length ds > 1 then take 1 ds @ lit ''.'' @ drop 1 ds else ds)
               in body @ lit ''E'' @ (if adj < 0 then lit ''-'' else lit ''+'') @ nat_to_string (nat \<bar>adj\<bar>)))"

fun to_string :: "dec \<Rightarrow> rstr" where
  "to_string DecNan = lit ''NaN''"
| "to_string (DecInf s) = (if s < 0 then lit ''-Infinity'' else lit ''Infinity'')"
| "to_string (DecFin sign coeff ex) = (if sign < 0 then lit ''-'' else []) @ to_string_body coeff ex"

section \<open>Round trip\<close>

definition dec_wf :: "dec \<Rightarrow> bool" where
  "dec_wf d =
     (case d of
        DecNan \<Rightarrow> True
      | DecInf s \<Rightarrow> s = 1 \<or> s = -1
      | DecFin s c e \<Rightarrow>
          (s = 1 \<or> s = -1) \<and> digits c \<and> c \<noteq> [] \<and> (hd c = 0 \<longrightarrow> c = [0]) \<and>
          int (length c) < 2 ^ 31 \<and> - (2 ^ 31) < e \<and> in_i32 e \<and> in_i32 (adjusted c e))"

lemma lit_bytes [simp]:
  "lit ''.'' = [46]" "lit ''0.'' = [48, 46]" "lit ''E'' = [69]" "lit ''-'' = [45]" "lit ''+'' = [43]"
  by (simp_all add: lit_def)

lemma contains_str_subset: "contains_str s t \<Longrightarrow> set s \<subseteq> set t"
proof (induction t)
  case (Cons b t)
  show ?case
  proof (cases "contains_str s t")
    case True with Cons show ?thesis by auto
  next
    case False
    with Cons.prems obtain r where "strip_prefix s (b # t) = Some r" by auto
    then have "b # t = s @ r" by (simp add: strip_prefix_Some_iff)
    then have "set (b # t) = set s \<union> set r" by (metis set_append)
    then show ?thesis by auto
  qed
qed simp

lemma unat_ascii: "d < 10 \<Longrightarrow> unat (of_nat (48 + d) :: u8) = 48 + d"
  by (simp add: unat_of_nat del: of_nat_add)

definition num_byte :: "u8 \<Rightarrow> bool" where
  "num_byte b \<longleftrightarrow> is_ascii_digit b \<or> b = 43 \<or> b = 45 \<or> b = 46 \<or> b = 69 \<or> b = 101"

lemma ascii_simps [simp]:
  "ascii [] = []" "ascii (d # ds) = of_nat (48 + d) # ascii ds" "ascii (xs @ ys) = ascii xs @ ascii ys"
  "length (ascii ds) = length ds" "ascii ds = [] \<longleftrightarrow> ds = []"
  "take n (ascii ds) = ascii (take n ds)" "drop n (ascii ds) = ascii (drop n ds)"
  by (simp_all add: ascii_def take_map drop_map)

lemma ascii_digit: "digits ds \<Longrightarrow> b \<in> set (ascii ds) \<Longrightarrow> is_ascii_digit b"
  by (auto simp: ascii_def digits_def is_ascii_digit_ascii simp del: of_nat_add)

lemma ascii_zeros: "replicate n 48 = ascii (replicate n 0)"
  by (simp add: ascii_def)

lemma nat_to_string_ascii: "nat_to_string n = ascii (nat_digits n)"
  by (simp add: nat_to_string_def ascii_def)

lemma parse_coeff_ascii: "digits ds \<Longrightarrow> parse_coeff (ascii ds) = Some ds"
  by (induction ds) (simp_all add: to_digit_def is_ascii_digit_ascii digit_of_ascii del: of_nat_add)

lemma split_once_none: "\<forall>b \<in> set s. \<not> p b \<Longrightarrow> split_once p s = None"
  by (induction s) auto

lemma split_once_append: "\<forall>b \<in> set s. \<not> p b \<Longrightarrow> p c \<Longrightarrow> split_once p (s @ c # t) = Some (s, t)"
  by (induction s) auto

lemma digit_not_sep:
  "is_ascii_digit b \<Longrightarrow> b \<noteq> 46 \<and> b \<noteq> 101 \<and> b \<noteq> 69 \<and> b \<noteq> 43 \<and> b \<noteq> 45 \<and> \<not> is_space b"
  by (auto simp: is_ascii_digit_def is_space_def word_le_nat_alt unat_arith_simps)

lemma ascii_not_sep: "digits ds \<Longrightarrow> b \<in> set (ascii ds) \<Longrightarrow> b \<noteq> 46 \<and> b \<noteq> 101 \<and> b \<noteq> 69"
  using ascii_digit digit_not_sep by blast

text \<open>An exponent with its sign reads back as itself.\<close>

lemma parse_i32_adjusted:
  assumes "in_i32 a"
  shows "parse_i32 ((if a < 0 then [45] else [43]) @ nat_to_string (nat \<bar>a\<bar>)) = Some a"
proof -
  let ?s = "nat_to_string (nat \<bar>a\<bar>)"
  have "parse_digits ?s 0 = Some (nat \<bar>a\<bar>)"
    using parse_digits_ascii [of "nat_digits (nat \<bar>a\<bar>)" 0] digits_nat_digits [of "nat \<bar>a\<bar>"]
    by (simp add: nat_to_string_def digits_val_def [symmetric] digits_def del: of_nat_add)
  moreover have "nat_to_string n \<noteq> []" for n by (simp add: nat_to_string_ascii)
  moreover have "- (2 ^ 63) \<le> a" "a < 2 ^ 63" using assms by (simp_all add: in_i32_def)
  ultimately show ?thesis
    using assms by (auto simp: parse_i32_def parse_i64_def Let_def i32_checked_def)
qed

text \<open>What \<open>parse_number\<close> makes of a mantissa and an exponent text.\<close>

lemma parse_number_core:
  assumes "(case split_once (\<lambda>b. b = 101 \<or> b = 69) rest of
              Some (m, e) \<Rightarrow> (case parse_i32 e of None \<Rightarrow> None | Some x \<Rightarrow> Some (m, x))
            | None \<Rightarrow> Some (rest, 0)) = Some (m, x)"
    and "(case split_once (\<lambda>b. b = 46) m of Some (i, f) \<Rightarrow> (i, f) | None \<Rightarrow> (m, [])) = (ascii i, ascii f)"
    and "digits i" "digits f" "i @ f \<noteq> []" "int (length f) < 2 ^ 31" "in_i32 (x - int (length f))"
  shows "parse_number s rest = Some (DecFin s (strip_leading (i @ f)) (x - int (length f)))"
proof -
  have "parse_coeff (ascii i @ ascii f) = Some (i @ f)" using parse_coeff_ascii [of "i @ f"] assms by simp
  moreover have "in_i32 (int (length f))" using assms by (simp add: in_i32_def)
  ultimately show ?thesis using assms by (auto simp: parse_number_def i32_checked_def)
qed

lemma parse_number_forms:
  assumes "digits i" "digits f" "int (length f) < 2 ^ 31" "i \<noteq> []"
  shows "parse_number s (ascii i) = Some (DecFin s (strip_leading i) 0)"
    and "parse_number s (ascii i @ 46 # ascii f) = Some (DecFin s (strip_leading (i @ f)) (- int (length f)))"
    and "parse_i32 e = Some x \<Longrightarrow> in_i32 x \<Longrightarrow> parse_number s (ascii i @ 69 # e) = Some (DecFin s (strip_leading i) x)"
    and "parse_i32 e = Some x \<Longrightarrow> in_i32 (x - int (length f)) \<Longrightarrow> sep = 69 \<or> sep = 101 \<Longrightarrow>
      parse_number s (ascii i @ 46 # ascii f @ sep # e) = Some (DecFin s (strip_leading (i @ f)) (x - int (length f)))"
proof -
  have i: "\<forall>b \<in> set (ascii i). b \<noteq> 46 \<and> b \<noteq> 101 \<and> b \<noteq> 69" "\<forall>b \<in> set (ascii f). b \<noteq> 46 \<and> b \<noteq> 101 \<and> b \<noteq> 69"
    using assms ascii_not_sep by blast+
  have dot: "split_once (\<lambda>b. b = 46) (ascii i) = None" "split_once (\<lambda>b. b = 46) (ascii i @ 46 # ascii f) = Some (ascii i, ascii f)"
    using i by (simp_all add: split_once_none split_once_append)
  have e0: "split_once (\<lambda>b. b = 101 \<or> b = 69) (ascii i) = None"
    "split_once (\<lambda>b. b = 101 \<or> b = 69) (ascii i @ 46 # ascii f) = None"
    using i by (auto intro!: split_once_none)
  have e1: "split_once (\<lambda>b. b = 101 \<or> b = 69) (ascii i @ 69 # e) = Some (ascii i, e)"
    using i by (intro split_once_append) auto
  have e2: "split_once (\<lambda>b. b = 101 \<or> b = 69) ((ascii i @ 46 # ascii f) @ sep # e) = Some (ascii i @ 46 # ascii f, e)"
    if "sep = 69 \<or> sep = 101" for sep
    using i that by (intro split_once_append) auto
  have z: "in_i32 0" "in_i32 (- int (length f))" using assms by (simp_all add: in_i32_def)
  show "parse_number s (ascii i) = Some (DecFin s (strip_leading i) 0)"
    using parse_number_core [of "ascii i" "ascii i" 0 i "[]" s] assms z by (simp add: e0 dot)
  show "parse_number s (ascii i @ 46 # ascii f) = Some (DecFin s (strip_leading (i @ f)) (- int (length f)))"
    using parse_number_core [of "ascii i @ 46 # ascii f" "ascii i @ 46 # ascii f" 0 i f s] assms z by (simp add: e0 dot)
  show "parse_number s (ascii i @ 69 # e) = Some (DecFin s (strip_leading i) x)"
    if "parse_i32 e = Some x" "in_i32 x"
    using parse_number_core [of "ascii i @ 69 # e" "ascii i" x i "[]" s] assms that by (simp add: e1 dot)
  show "parse_number s (ascii i @ 46 # ascii f @ sep # e) = Some (DecFin s (strip_leading (i @ f)) (x - int (length f)))"
    if "parse_i32 e = Some x" "in_i32 (x - int (length f))" "sep = 69 \<or> sep = 101"
    using parse_number_core [of "ascii i @ 46 # ascii f @ sep # e" "ascii i @ 46 # ascii f" x i f s] e2 [of sep] assms that
    by (simp add: dot)
qed

text \<open>The sign and the body of a rendered number.\<close>

lemma trim_id:
  assumes "t \<noteq> []" "\<not> is_space (hd t)" "\<not> is_space (last t)"
  shows "trim t = t"
proof -
  have "trim_start t = t" using assms by (cases t) (auto simp: trim_start_def)
  moreover have "dropWhile is_space (rev t) = rev t"
    using assms by (simp add: dropWhile_eq_self_iff hd_rev)
  ultimately show ?thesis by (simp add: trim_def)
qed

lemma num_byte_lower:
  assumes "\<forall>b \<in> set t. num_byte b"
  shows "\<not> contains_str (lit ''nan'') (ascii_lower t)" "\<not> contains_str (lit ''inf'') (ascii_lower t)"
proof -
  have "110 \<notin> set (ascii_lower t)"
  proof
    assume "110 \<in> set (ascii_lower t)"
    then obtain b where b: "b \<in> set t" "(if 65 \<le> b \<and> b \<le> 90 then b + 32 else b) = 110"
      by (auto simp: ascii_lower_def)
    with assms have "num_byte b" by blast
    with b show False
      by (auto simp: num_byte_def is_ascii_digit_def word_le_nat_alt unat_arith_simps split: if_splits)
  qed
  moreover have "110 \<in> set (lit ''nan'')" "110 \<in> set (lit ''inf'')" by (simp_all add: lit_def)
  ultimately show "\<not> contains_str (lit ''nan'') (ascii_lower t)" "\<not> contains_str (lit ''inf'') (ascii_lower t)"
    using contains_str_subset by blast+
qed

lemma parse_signed_body:
  assumes "body \<noteq> []" "is_ascii_digit (hd body)" "is_ascii_digit (last body)" "\<forall>b \<in> set body. num_byte b"
    "s = 1 \<or> s = -1"
  shows "parse ((if s < 0 then lit ''-'' else []) @ body) = parse_number s body"
proof -
  let ?t = "(if s < 0 then lit ''-'' else []) @ body"
  have hd: "hd body \<noteq> 43" "hd body \<noteq> 45" using assms digit_not_sep by blast+
  have "trim ?t = ?t"
    using assms digit_not_sep by (intro trim_id) (auto simp: is_space_def)
  moreover have "\<forall>b \<in> set ?t. num_byte b" using assms by (auto simp: num_byte_def)
  moreover obtain b bs where "body = b # bs" using assms by (cases body) auto
  ultimately show ?thesis
    using hd assms(5) by (auto simp: parse_def Let_def num_byte_lower)
qed

lemma to_string_body_digits:
  assumes "digits c" "c \<noteq> []"
  shows "to_string_body c e \<noteq> []" "is_ascii_digit (hd (to_string_body c e))"
    "is_ascii_digit (last (to_string_body c e))" "\<forall>b \<in> set (to_string_body c e). num_byte b"
proof -
  have nd: "is_ascii_digit b" if "b \<in> set (ascii ds)" "digits ds" for b ds using that ascii_digit by blast
  have hd: "ds \<noteq> [] \<Longrightarrow> digits ds \<Longrightarrow> is_ascii_digit (hd (ascii ds)) \<and> is_ascii_digit (last (ascii ds))" for ds
    using nd by (metis ascii_simps(5) hd_in_set last_in_set)
  have z: "is_ascii_digit 48" by (simp add: is_ascii_digit_def)
  show "to_string_body c e \<noteq> []" using assms by (auto simp: to_string_body_def Let_def)
  show "is_ascii_digit (hd (to_string_body c e))"
    using assms hd z by (auto simp: to_string_body_def Let_def hd_append)
  show "is_ascii_digit (last (to_string_body c e))"
    using assms hd z by (auto simp: to_string_body_def Let_def last_append nat_to_string_ascii adjusted_def)
  show "\<forall>b \<in> set (to_string_body c e). num_byte b"
    using assms nd z by (auto simp: to_string_body_def Let_def num_byte_def nat_to_string_ascii)
qed

lemma strip_leading_zeros:
  "digits c \<Longrightarrow> c \<noteq> [] \<Longrightarrow> hd c = 0 \<longrightarrow> c = [0] \<Longrightarrow> strip_leading (replicate n 0 @ c) = c"
  by (induction n) (auto simp: strip_leading_eq nat_digits_canonical)

lemma parse_to_string_body:
  assumes "dec_wf (DecFin s c e)"
  shows "parse_number s (to_string_body c e) = Some (DecFin s c e)"
proof -
  have c: "digits c" "c \<noteq> []" "hd c = 0 \<longrightarrow> c = [0]" "- (2 ^ 31) < e" "in_i32 (adjusted c e)" "in_i32 e"
    "int (length c) < 2 ^ 31"
    using assms by (auto simp: dec_wf_def)
  have strip: "strip_leading c = c" using strip_leading_zeros [of c 0] c by simp
  let ?a = "adjusted c e"
  consider (int) "e = 0" | (plain) "e < 0" "0 \<le> ?a" | (small) "e < 0" "-6 \<le> ?a" "?a < 0"
    | (sci) "\<not> (e \<le> 0 \<and> -6 \<le> ?a)" by linarith
  then show ?thesis
  proof cases
    case int
    then have "to_string_body c e = ascii c" using c by (simp add: to_string_body_def adjusted_def Let_def Suc_le_eq)
    then show ?thesis using parse_number_forms(1) [of c "[]" s] c strip int by simp
  next
    case plain
    let ?p = "nat (?a + 1)"
    have p: "?p < length c" "0 < ?p" "int (length (drop ?p c)) = - e" using plain c by (auto simp: adjusted_def)
    have "to_string_body c e = ascii (take ?p c) @ 46 # ascii (drop ?p c)"
      using plain by (simp add: to_string_body_def Let_def)
    moreover have "- e < 2 ^ 31" using c(4) by simp
    ultimately show ?thesis
      using parse_number_forms(2) [of "take ?p c" "drop ?p c" s] c strip p by simp
  next
    case small
    let ?z = "replicate (nat (- ?a - 1)) 0"
    have "to_string_body c e = ascii [0] @ 46 # ascii (?z @ c)"
      using small by (simp add: to_string_body_def Let_def ascii_zeros)
    moreover have "int (length (?z @ c)) = - e" using small by (simp add: adjusted_def)
    moreover have "- e < 2 ^ 31" using c(4) by simp
    moreover have "strip_leading ([0] @ ?z @ c) = c"
      using strip_leading_zeros [of c "Suc (nat (- ?a - 1))"] c by simp
    ultimately show ?thesis using parse_number_forms(2) [of "[0]" "?z @ c" s] c by simp
  next
    case sci
    let ?e = "(if ?a < 0 then [45] else [43]) @ nat_to_string (nat \<bar>?a\<bar>)"
    have e: "parse_i32 ?e = Some ?a" using c(5) by (rule parse_i32_adjusted)
    show ?thesis
    proof (cases "length c > 1")
      case True
      then obtain d ds where ds: "c = d # ds" "ds \<noteq> []" by (cases c) auto
      have "to_string_body c e = ascii [d] @ 46 # ascii ds @ 69 # ?e"
        using sci True ds by (auto simp: to_string_body_def Let_def)
      moreover have "?a - int (length ds) = e" using ds by (simp add: adjusted_def)
      moreover have "int (length ds) < 2 ^ 31" using c ds by simp
      ultimately show ?thesis
        using parse_number_forms(4) [of "[d]" ds ?e ?a 69 s] c ds strip e by simp
    next
      case False
      with c obtain d where "c = [d]" by (cases c) auto
      moreover from this sci have "to_string_body c e = ascii [d] @ 69 # ?e"
        by (auto simp: to_string_body_def Let_def)
      ultimately show ?thesis
        using parse_number_forms(3) [of "[d]" "[]" ?e ?a s] c strip e by (simp add: adjusted_def)
    qed
  qed
qed

text \<open>
  C23: rendering a decimal and parsing the text back gives the same
  sign, the same coefficient digits (trailing zeros included) and the same exponent, over
  plain, fractional and scientific notation.
\<close>

theorem decimal_text_roundtrip:
  assumes "dec_wf d" shows "parse (to_string d) = Some d"
proof (cases d)
  case (DecFin s c e)
  with assms have c: "digits c" "c \<noteq> []" "s = 1 \<or> s = -1" by (auto simp: dec_wf_def)
  then show ?thesis
    using DecFin assms parse_signed_body [OF to_string_body_digits [OF c(1,2)] c(3)] parse_to_string_body
    by simp
qed (use assms in \<open>auto simp: dec_wf_def parse_def lit_def trim_def trim_start_def is_space_def ascii_lower_def Let_def\<close>)

theorem decimal_text_roundtrip_witness:
  "dec_wf (DecFin (-1) [2, 5, 0] (-2)) \<and> parse (to_string (DecFin (-1) [2, 5, 0] (-2))) = Some (DecFin (-1) [2, 5, 0] (-2))"
  using decimal_text_roundtrip [of "DecFin (-1) [2, 5, 0] (-2)"]
  by (simp add: dec_wf_def in_i32_def adjusted_def)
end
