(* ===== verification/Decimal_Arith.thy ===== *)
theory Decimal_Arith
  imports Decimal_Text
begin

text \<open>
  Decimal128 arithmetic of \<open>secantus-core/src/decimal.rs\<close>: operands are aligned exactly and
  the exact result is rounded once to 34 digits. Every operation is compared with the real
  number it should give: \<open>dec_val\<close> of the result is the real result rounded to 34 significant
  digits, half to even.
\<close>


section \<open>Exact real values and correct rounding\<close>

text \<open>
  The specification: the real number a decimal denotes, the nearest integer (ties to the
  even one), and a real rounded to \<open>p\<close> significant decimal digits.
\<close>

fun dec_val :: "dec \<Rightarrow> real" where
  "dec_val (DecFin s c e) = of_int s * real (digits_val c) * 10 powi e"
| "dec_val _ = 0"

definition rne :: "real \<Rightarrow> int" where
  "rne x = (if x - \<lfloor>x\<rfloor> < 1 / 2 \<or> x - \<lfloor>x\<rfloor> = 1 / 2 \<and> even \<lfloor>x\<rfloor> then \<lfloor>x\<rfloor> else \<lfloor>x\<rfloor> + 1)"

definition sig_quantum :: "nat \<Rightarrow> real \<Rightarrow> int" where
  "sig_quantum p x = \<lfloor>log 10 \<bar>x\<bar>\<rfloor> + 1 - int p"

definition round_sig :: "nat \<Rightarrow> real \<Rightarrow> real" where
  "round_sig p x = (if x = 0 then 0 else of_int (rne (x / 10 powi sig_quantum p x)) * 10 powi sig_quantum p x)"

lemma rne_of_int [simp]: "rne (of_int k) = k"
  by (simp add: rne_def)

lemma rne_iff: "rne x = k \<longleftrightarrow> \<bar>x - of_int k\<bar> < 1 / 2 \<or> \<bar>x - of_int k\<bar> = 1 / 2 \<and> even k"
proof -
  let ?f = "\<lfloor>x\<rfloor>"
  have f: "of_int ?f \<le> x" "x < of_int ?f + 1" by linarith+
  consider "k < ?f" | "k = ?f" | "k = ?f + 1" | "?f + 1 < k" by linarith
  then show ?thesis
  proof cases
    case 1
    then have "1 \<le> \<bar>x - of_int k\<bar>" using f by linarith
    with 1 f show ?thesis by (auto simp: rne_def)
  next
    case 2
    with f show ?thesis by (auto simp: rne_def)
  next
    case 3
    with f show ?thesis by (auto simp: rne_def)
  next
    case 4
    then have "1 \<le> \<bar>x - of_int k\<bar>" using f by linarith
    with 4 f show ?thesis by (auto simp: rne_def)
  qed
qed

lemma rne_minus [simp]: "rne (- x) = - rne x"
proof -
  have "\<bar>x - of_int (rne x)\<bar> < 1 / 2 \<or> \<bar>x - of_int (rne x)\<bar> = 1 / 2 \<and> even (rne x)" using rne_iff by blast
  moreover have "\<bar>- x - of_int (- rne x)\<bar> = \<bar>x - of_int (rne x)\<bar>" by simp
  ultimately show ?thesis unfolding rne_iff by simp
qed

lemma round_sig_minus [simp]: "round_sig p (- x) = - round_sig p x"
  by (simp add: round_sig_def sig_quantum_def)

lemma round_sig_sign: "s = 1 \<or> s = -1 \<Longrightarrow> round_sig p (of_int s * x) = of_int s * round_sig p x"
  by auto

text \<open>Rounding a real from its integer part: only what lies beyond a tie is left to the fraction.\<close>

lemma rne_floor:
  assumes "0 < m" "even m" "of_nat q \<le> y" "y < of_nat q + 1"
  shows "rne (y / real m) =
    (if 2 * (q mod m) < m then int (q div m)
     else if m < 2 * (q mod m) \<or> real q < y then int (q div m) + 1
     else int (q div m) + (if even (q div m) then 0 else 1))"
proof -
  obtain h where h: "m = 2 * h" "0 < h" using assms by (auto elim!: evenE)
  let ?r = "q mod m" and ?k = "q div m"
  have q: "real q = real ?k * real m + real ?r" by (metis div_mult_mod_eq of_nat_add of_nat_mult)
  have d: "y / real m = real ?k + (real ?r + (y - real q)) / real m"
    using assms(1) by (simp add: q field_simps)
  have r: "?r < m" using assms by simp
  let ?t = "(real ?r + (y - real q)) / real m"
  have cmp: "?t < 1 / 2 \<longleftrightarrow> real ?r + (y - real q) < real h" "?t = 1 / 2 \<longleftrightarrow> real ?r + (y - real q) = real h"
    using h by (auto simp: field_simps)
  have t: "0 \<le> ?t" "?t < 1"
    using assms r by (simp_all add: field_simps)
  have fl: "\<lfloor>y / real m\<rfloor> = int ?k" unfolding d using t by linarith
  have "y / real m - of_int \<lfloor>y / real m\<rfloor> = ?t" unfolding fl using d by simp
  then have rn: "rne (y / real m) = (if ?t < 1 / 2 \<or> ?t = 1 / 2 \<and> even ?k then int ?k else int ?k + 1)"
    by (simp only: rne_def fl even_of_nat)
  consider (lt) "?r < h" | (eq) "?r = h" | (gt) "h < ?r" by linarith
  then show ?thesis
  proof cases
    case lt
    then have "real ?r + 1 \<le> real h" by linarith
    then have "?t < 1 / 2" unfolding cmp using assms by linarith
    then show ?thesis using lt h unfolding rn by simp
  next
    case eq
    show ?thesis
    proof (cases "real q < y")
      case True
      then have "\<not> ?t < 1 / 2" "?t \<noteq> 1 / 2" unfolding cmp using eq by auto
      then show ?thesis using eq True h unfolding rn by simp
    next
      case False
      then have "?t = 1 / 2" unfolding cmp using eq assms by auto
      then show ?thesis using eq False h unfolding rn by simp
    qed
  next
    case gt
    then have "\<not> ?t < 1 / 2" "?t \<noteq> 1 / 2" unfolding cmp using assms by auto
    then show ?thesis using gt h unfolding rn by simp
  qed
qed

lemma rne_rne_div:
  assumes "0 < m" "even m" shows "rne (real n / real m) = int (rne_div n m)"
  using rne_floor [OF assms, of n "real n"] by (auto simp: rne_div_def Let_def)

lemma floor_log10:
  assumes "10 powi k \<le> x" "x < 10 powi (k + 1)"
  shows "\<lfloor>log 10 x\<rfloor> = k"
proof -
  have "0 < x" using assms(1) by (smt (verit) zero_less_power_int)
  moreover have p: "10 powr real_of_int j = 10 powi j" for j by (simp add: powr_real_of_int')
  moreover have "10 powr (real_of_int k + 1) = 10 powi (k + 1)" using p [of "k + 1"] by simp
  ultimately show ?thesis
    using assms by (subst floor_log_eq_powr_iff) simp_all
qed

text \<open>Rounding a number whose leading digit is known.\<close>

lemma round_sig_scaled:
  assumes "10 ^ (L - 1) \<le> y" "y < 10 ^ L" "0 < L"
  shows "round_sig p (y * 10 powi e) =
    of_int (rne (y / 10 powi (int L - int p))) * 10 powi (int L - int p + e)"
proof -
  have y: "0 < y" using assms by (smt (verit) zero_less_power)
  have P: "(0::real) < 10 powi k" for k :: int by simp
  have lo: "10 powi (int L - 1 + e) \<le> y * 10 powi e"
  proof -
    have "(10::real) powi (int L - 1 + e) = 10 ^ (L - 1) * 10 powi e"
      using assms(3) by (simp add: power_int_add of_nat_diff flip: power_int_of_nat)
    with assms(1) P [of e] show ?thesis by simp
  qed
  have hi: "y * 10 powi e < 10 powi (int L - 1 + e + 1)"
  proof -
    have "(10::real) powi (int L - 1 + e + 1) = 10 ^ L * 10 powi e"
      by (simp add: power_int_add flip: power_int_of_nat)
    with assms(2) P [of e] show ?thesis by simp
  qed
  have q: "sig_quantum p (y * 10 powi e) = int L - int p + e"
    using floor_log10 [OF lo hi] y P [of e] by (simp add: sig_quantum_def abs_mult)
  have "y * 10 powi e / 10 powi (int L - int p + e) = y / 10 powi (int L - int p)"
    by (simp add: power_int_add)
  then show ?thesis using y P [of e] by (simp add: round_sig_def q)
qed

section \<open>Addition and multiplication\<close>

definition MAX_DIGITS :: nat where "MAX_DIGITS = 34"
definition WORK_DIGITS :: nat where "WORK_DIGITS = 12400"

definition finish :: "int \<Rightarrow> nat list \<Rightarrow> int \<Rightarrow> dec option" where
  "finish sign coeff ex =
     (let coeff = strip_leading coeff;
          (coeff, bump) = round_half_even coeff MAX_DIGITS
      in case i32_checked (ex + bump) of None \<Rightarrow> None | Some ex \<Rightarrow> Some (DecFin sign coeff ex))"

definition i32_as_usize :: "int \<Rightarrow> nat" where
  "i32_as_usize z = nat (z mod 2 ^ 64)"

definition scale_to :: "nat list \<Rightarrow> int \<Rightarrow> int \<Rightarrow> nat list" where
  "scale_to coeff ex target = coeff @ replicate (i32_as_usize (i32_wrap (ex - target))) 0"

definition add_fin :: "int \<times> nat list \<times> int \<Rightarrow> int \<times> nat list \<times> int \<Rightarrow> dec option" where
  "add_fin = (\<lambda>(s1, c1, e1) (s2, c2, e2).
     let target = min e1 e2;
         width = max (length c1) (length c2) + i32_as_usize (max (i32_wrap (e1 - target)) (i32_wrap (e2 - target)))
     in if width > WORK_DIGITS then None
        else let x = scale_to c1 e1 target; y = scale_to c2 e2 target
             in if s1 = s2 then finish s1 (add_mag x y) target
                else case cmp_mag x y of
                       Equal \<Rightarrow> finish 1 [0] target
                     | Greater \<Rightarrow> finish s1 (sub_mag x y) target
                     | Less \<Rightarrow> finish s2 (sub_mag y x) target)"

fun dec_add :: "dec \<Rightarrow> dec \<Rightarrow> dec option" where
  "dec_add DecNan _ = Some DecNan"
| "dec_add _ DecNan = Some DecNan"
| "dec_add (DecInf x) (DecInf y) = Some (if x = y then DecInf x else DecNan)"
| "dec_add (DecInf x) _ = Some (DecInf x)"
| "dec_add _ (DecInf y) = Some (DecInf y)"
| "dec_add (DecFin s1 c1 e1) (DecFin s2 c2 e2) = add_fin (s1, c1, e1) (s2, c2, e2)"

definition mul_inf :: "int \<Rightarrow> dec \<Rightarrow> dec" where
  "mul_inf x other =
     (if is_zero other then DecNan
      else case other of
             DecFin sign _ _ \<Rightarrow> DecInf (x * sign)
           | DecInf y \<Rightarrow> DecInf (x * y)
           | DecNan \<Rightarrow> DecNan)"

fun dec_mul :: "dec \<Rightarrow> dec \<Rightarrow> dec option" where
  "dec_mul DecNan _ = Some DecNan"
| "dec_mul _ DecNan = Some DecNan"
| "dec_mul (DecInf x) other = Some (mul_inf x other)"
| "dec_mul other (DecInf x) = Some (mul_inf x other)"
| "dec_mul (DecFin s1 c1 e1) (DecFin s2 c2 e2) =
     (case i32_checked (e1 + e2) of None \<Rightarrow> None | Some ex \<Rightarrow> finish (s1 * s2) (mul_mag c1 c2) ex)"

text \<open>
  The values decimal128 holds: a coefficient of at most 34 digits with no leading zero, and
  an exponent in the format's range.
\<close>

definition coeff34 :: "nat list \<Rightarrow> bool" where
  "coeff34 c \<longleftrightarrow> digits c \<and> c \<noteq> [] \<and> (hd c = 0 \<longrightarrow> c = [0]) \<and> length c \<le> 34"

definition sgn_ok :: "int \<Rightarrow> bool" where
  "sgn_ok s \<longleftrightarrow> s = 1 \<or> s = -1"

fun dec128 :: "dec \<Rightarrow> bool" where
  "dec128 DecNan = True"
| "dec128 (DecInf s) = sgn_ok s"
| "dec128 (DecFin s c e) \<longleftrightarrow> sgn_ok s \<and> coeff34 c \<and> -6176 \<le> e \<and> e \<le> 6111"

lemma even_pow10 [simp]: "0 < k \<Longrightarrow> even ((10::nat) ^ k)"
  by simp

lemma coeff34_nat_digits: "coeff34 (nat_digits n) \<longleftrightarrow> n < 10 ^ 34"
  by (auto simp: coeff34_def length_nat_digits_le) (metis gr0I hd_nat_digits less_irrefl nat_digits_0)

lemma powi_nonneg: "0 \<le> k \<Longrightarrow> (10::real) powi k = 10 ^ nat k"
  by (simp add: power_int_def)

lemma div_powi_nonpos: "k \<le> 0 \<Longrightarrow> x / (10::real) powi k = x * 10 ^ nat (- k)"
proof -
  assume "k \<le> 0"
  then obtain n where "k = - int n" by (rule nonpos_int_cases)
  then show ?thesis by (simp add: power_int_minus divide_inverse)
qed

lemma nat_int_minus: "n \<le> m \<Longrightarrow> nat (int m - int n) = m - n"
  by simp

theorem finish_rounds:
  assumes "sgn_ok s" "digits c" "c \<noteq> []" "in_i32 ex" "ex + int (length c) < 2 ^ 31"
  shows "\<exists>k e2. finish s c ex = Some (DecFin s k e2) \<and> coeff34 k \<and>
    dec_val (DecFin s k e2) = round_sig 34 (of_int s * real (digits_val c) * 10 powi ex) \<and>
    ex \<le> e2 \<and> e2 \<le> ex + int (length c) \<and>
    (if digits_val c < 10 ^ 34 then k = nat_digits (digits_val c) \<and> e2 = ex else length k = 34)"
proof -
  let ?n = "digits_val c" let ?d = "nat_digits ?n" let ?L = "length ?d"
  have sl: "strip_leading c = ?d" using assms by (simp add: strip_leading_eq)
  have len: "?L \<le> length c" using length_strip_leading [of c] sl by simp
  have rs: "round_sig 34 (of_int s * real ?n * 10 powi ex) = of_int s * round_sig 34 (real ?n * 10 powi ex)"
    using round_sig_sign [of s 34 "real ?n * 10 powi ex"] assms(1) by (simp add: sgn_ok_def mult.assoc)
  have L: "?n \<noteq> 0 \<Longrightarrow> 10 ^ (?L - 1) \<le> real ?n" "?n \<noteq> 0 \<Longrightarrow> real ?n < 10 ^ ?L" "0 < ?L"
  proof -
    assume "?n \<noteq> 0"
    then have "real (10 ^ (?L - 1)) \<le> real ?n" "real ?n < real (10 ^ ?L)"
      using nat_digits_bounds [of ?n] by (simp_all only: of_nat_le_iff of_nat_less_iff)
    then show "10 ^ (?L - 1) \<le> real ?n" "real ?n < 10 ^ ?L" by simp_all
  qed (simp add: length_greater_0_conv)
  show ?thesis
  proof (cases "?n < 10 ^ 34")
    case True
    then have L34: "?L \<le> 34" using length_nat_digits_le [of 34 ?n] by simp
    then have f: "finish s c ex = Some (DecFin s ?d ex)"
      using assms(4) by (simp add: finish_def sl round_half_even_def MAX_DIGITS_def i32_checked_def)
    have "round_sig 34 (real ?n * 10 powi ex) = real ?n * 10 powi ex"
    proof (cases "?n = 0")
      case False
      have "real ?n / 10 powi (int ?L - 34) = real_of_int (int ?n * 10 ^ (34 - ?L))"
        using L34 div_powi_nonpos [of "int ?L - 34" "real ?n"] nat_int_minus [of ?L 34] by simp
      then have "of_int (rne (real ?n / 10 powi (int ?L - 34))) = real ?n / 10 powi (int ?L - 34)"
        by (metis rne_of_int)
      then show ?thesis
        using round_sig_scaled [of ?L "real ?n" 34 ex] L False by (simp add: power_int_add)
    qed (simp add: round_sig_def)
    with f True rs show ?thesis by (auto simp: coeff34_nat_digits)
  next
    case False
    then have L34: "34 < ?L" using length_nat_digits_le [of 34 ?n] by simp
    have n: "?n \<noteq> 0" using False by auto
    obtain k bump where r: "round_half_even ?d 34 = (k, bump)" by fastforce
    note v = round_half_even_val [OF digits_nat_digits _ L34 _ r]
    have hd: "hd ?d \<noteq> 0" using hd_nat_digits [of ?n] n by simp
    have k: "digits k" "length k = 34" "hd k \<noteq> 0"
      "digits_val k * 10 ^ nat bump = rne_div ?n (10 ^ (?L - 34)) * 10 ^ (?L - 34)"
      "bump = int (?L - 34) \<or> bump = int (?L - 34) + 1"
      using v hd by simp_all
    have "in_i32 (ex + bump)" using k(5) assms(4,5) len L34 by (auto simp: in_i32_def)
    then have f: "finish s c ex = Some (DecFin s k (ex + bump))"
      by (simp add: finish_def sl MAX_DIGITS_def r i32_checked_def)
    have b: "0 \<le> bump" using k(5) by auto
    have "rne (real ?n / 10 powi (int ?L - 34)) = int (rne_div ?n (10 ^ (?L - 34)))"
      using rne_rne_div [of "10 ^ (?L - 34)" ?n] L34 powi_nonneg [of "int ?L - 34"] nat_int_minus [of 34 ?L] by simp
    then have "round_sig 34 (real ?n * 10 powi ex) =
        real (rne_div ?n (10 ^ (?L - 34))) * 10 ^ (?L - 34) * 10 powi ex"
      using round_sig_scaled [of ?L "real ?n" 34 ex] L n L34
        powi_nonneg [of "int ?L - 34"] nat_int_minus [of 34 ?L] by (simp add: power_int_add)
    also have "\<dots> = real (digits_val k * 10 ^ nat bump) * 10 powi ex" unfolding k(4) by simp
    also have "\<dots> = real (digits_val k) * 10 powi (ex + bump)"
      using b powi_nonneg [of bump] by (simp add: power_int_add)
    finally show ?thesis
      using f rs k b False len L34 by (auto simp: coeff34_def)
  qed
qed

lemma usize_of_diff: "0 \<le> z \<Longrightarrow> z < 2 ^ 31 \<Longrightarrow> i32_as_usize (i32_wrap z) = nat z"
  by (simp add: i32_as_usize_def in_i32_def)

lemma scale_to_val:
  assumes "target \<le> ex" "ex - target < 2 ^ 31" "digits c" "c \<noteq> []"
  shows "digits (scale_to c ex target)" "scale_to c ex target \<noteq> []"
    "length (scale_to c ex target) = length c + nat (ex - target)"
    "real (digits_val (scale_to c ex target)) * 10 powi target = real (digits_val c) * 10 powi ex"
proof -
  have u: "i32_as_usize (i32_wrap (ex - target)) = nat (ex - target)"
    using assms by (intro usize_of_diff) auto
  then show "digits (scale_to c ex target)" "scale_to c ex target \<noteq> []"
    "length (scale_to c ex target) = length c + nat (ex - target)"
    using assms by (simp_all add: scale_to_def)
  have z: "digits_val (replicate k 0) = 0" for k by (simp add: digits_val_eq_0 all_zero_def)
  have "(10::real) powi ex = 10 powi target * 10 powi (ex - target)"
    by (simp flip: power_int_add)
  then show "real (digits_val (scale_to c ex target)) * 10 powi target = real (digits_val c) * 10 powi ex"
    using assms(1) powi_nonneg [of "ex - target"]
    by (simp add: scale_to_def u digits_val_append z)
qed

lemma add_rounds:
  assumes "dec128 (DecFin s1 c1 e1)" "dec128 (DecFin s2 c2 e2)"
  shows "\<exists>s k e. dec_add (DecFin s1 c1 e1) (DecFin s2 c2 e2) = Some (DecFin s k e) \<and>
    sgn_ok s \<and> coeff34 k \<and>
    dec_val (DecFin s k e) = round_sig 34 (dec_val (DecFin s1 c1 e1) + dec_val (DecFin s2 c2 e2)) \<and>
    (e = min e1 e2 \<or> min e1 e2 < e \<and> length k = 34)"
proof -
  let ?t = "min e1 e2" let ?x = "scale_to c1 e1 ?t" and ?y = "scale_to c2 e2 ?t"
  have a: "sgn_ok s1" "sgn_ok s2" "digits c1" "digits c2" "c1 \<noteq> []" "c2 \<noteq> []" "length c1 \<le> 34" "length c2 \<le> 34"
    "-6176 \<le> ?t" "?t \<le> 6111" "e1 - ?t \<le> 12287" "e2 - ?t \<le> 12287"
    using assms by (auto simp: coeff34_def)
  have d: "e1 - ?t < 2 ^ 31" "e2 - ?t < 2 ^ 31" using a by simp_all
  note x = scale_to_val [OF _ d(1) a(3,5), simplified] and y = scale_to_val [OF _ d(2) a(4,6), simplified]
  have "i32_as_usize (max (i32_wrap (e1 - ?t)) (i32_wrap (e2 - ?t))) = nat (max (e1 - ?t) (e2 - ?t))"
  proof -
    have "i32_wrap (e1 - ?t) = e1 - ?t" "i32_wrap (e2 - ?t) = e2 - ?t"
      using d by (simp_all add: in_i32_def)
    moreover have "0 \<le> max (e1 - ?t) (e2 - ?t)" "max (e1 - ?t) (e2 - ?t) < 2 ^ 31" using d by auto
    ultimately show ?thesis unfolding i32_as_usize_def by simp
  qed
  then have w: "max (length c1) (length c2) +
      i32_as_usize (max (i32_wrap (e1 - ?t)) (i32_wrap (e2 - ?t))) \<le> WORK_DIGITS"
  proof -
    have "max (length c1) (length c2) \<le> 34" "nat (max (e1 - ?t) (e2 - ?t)) \<le> 12287" using a by auto
    then show ?thesis unfolding \<open>i32_as_usize _ = _\<close> WORK_DIGITS_def by linarith
  qed
  have fin: "\<exists>k e. finish s c ?t = Some (DecFin s k e) \<and> coeff34 k \<and>
      dec_val (DecFin s k e) = round_sig 34 (of_int s * real (digits_val c) * 10 powi ?t) \<and>
      (e = ?t \<or> ?t < e \<and> length k = 34)"
    if "sgn_ok s" "digits c" "c \<noteq> []" "length c \<le> 13000" for s c
  proof -
    have "in_i32 ?t" "?t + int (length c) < 2 ^ 31" using a that by (simp_all add: in_i32_def)
    from finish_rounds [OF that(1-3) this] show ?thesis by (auto split: if_splits)
  qed
  have sum: "dec_val (DecFin s1 c1 e1) + dec_val (DecFin s2 c2 e2) =
      (of_int s1 * real (digits_val ?x) + of_int s2 * real (digits_val ?y)) * 10 powi ?t"
    using x(4) y(4) by (simp add: distrib_right mult.assoc)
  have len: "length ?x \<le> 12400" "length ?y \<le> 12400" using x(3) y(3) a(7,8,11,12) by linarith+
  let ?r = "dec_add (DecFin s1 c1 e1) (DecFin s2 c2 e2)"
  show ?thesis
  proof (cases "s1 = s2")
    case True
    have "length (add_mag ?x ?y) \<le> 13000" using length_add_mag [OF x(1) y(1)] len by simp
    moreover have "add_mag ?x ?y \<noteq> []" using length_add_mag [OF x(1) y(1)] x(2) by auto
    moreover have r: "?r = finish s1 (add_mag ?x ?y) ?t" using True w by (simp add: add_fin_def Let_def)
    moreover have v: "of_int s1 * real (digits_val ?x) + of_int s2 * real (digits_val ?y) =
        of_int s1 * real (digits_val (add_mag ?x ?y))" using True by (simp add: add_mag_val distrib_left)
    ultimately show ?thesis
      using fin [of s1 "add_mag ?x ?y"] a(1) add_mag_digits unfolding sum r v by blast
  next
    case False
    then have neg: "s2 = - s1" using a by (auto simp: sgn_ok_def)
    have c: "cmp_mag ?x ?y = cmp_of (digits_val ?x) (digits_val ?y)" using x(1,2) y(1,2) by (simp add: cmp_mag_val)
    have sub: "sub_mag u v = nat_digits (digits_val u - digits_val v) \<and> length (sub_mag u v) \<le> 13000"
      if "digits u" "digits v" "u \<noteq> []" "digits_val v \<le> digits_val u" "length u \<le> 12400" for u v
    proof -
      have "length (sub_mag u v) \<le> length u"
        unfolding sub_mag_def using length_strip_leading [of "rev (sub_loop (rev u) (rev v) 0)"] by simp
      with that show ?thesis by (simp add: sub_mag_val)
    qed
    consider (lt) "digits_val ?x < digits_val ?y" | (eq) "digits_val ?x = digits_val ?y"
      | (gt) "digits_val ?y < digits_val ?x" by linarith
    then show ?thesis
    proof cases
      case lt
      have r: "?r = finish s2 (sub_mag ?y ?x) ?t" using False w lt c by (simp add: add_fin_def Let_def cmp_of_def)
      have u: "sub_mag ?y ?x = nat_digits (digits_val ?y - digits_val ?x)" "length (sub_mag ?y ?x) \<le> 13000"
        using sub [OF y(1) x(1) y(2) _ len(2)] lt by auto
      have v: "of_int s1 * real (digits_val ?x) + of_int s2 * real (digits_val ?y) =
          of_int s2 * real (digits_val (sub_mag ?y ?x))"
        using lt by (simp add: u(1) of_nat_diff neg right_diff_distrib)
      show ?thesis
        using fin [of s2 "sub_mag ?y ?x"] a(2) u(2) unfolding sum r v by (simp add: u(1)) blast
    next
      case eq
      have r: "?r = finish 1 [0] ?t" using False w eq c by (simp add: add_fin_def Let_def cmp_of_def)
      have v: "of_int s1 * real (digits_val ?x) + of_int s2 * real (digits_val ?y) = of_int 1 * real (digits_val [0])"
        using eq neg by simp
      have z: "sgn_ok 1" "digits [0]" "[0::nat] \<noteq> []" "length [0::nat] \<le> 13000" by (simp_all add: sgn_ok_def)
      show ?thesis using fin [OF z] z(1) unfolding sum r v by blast
    next
      case gt
      have r: "?r = finish s1 (sub_mag ?x ?y) ?t" using False w gt c by (simp add: add_fin_def Let_def cmp_of_def)
      have u: "sub_mag ?x ?y = nat_digits (digits_val ?x - digits_val ?y)" "length (sub_mag ?x ?y) \<le> 13000"
        using sub [OF x(1) y(1) x(2) _ len(1)] gt by auto
      have v: "of_int s1 * real (digits_val ?x) + of_int s2 * real (digits_val ?y) =
          of_int s1 * real (digits_val (sub_mag ?x ?y))"
        using gt by (simp add: u(1) of_nat_diff neg right_diff_distrib)
      show ?thesis
        using fin [of s1 "sub_mag ?x ?y"] a(1) u(2) unfolding sum r v by (simp add: u(1)) blast
    qed
  qed
qed

text \<open>
  C12: the sum of two finite decimal128 values is never given up on
  (the alignment width of any two representable values stays within \<open>WORK_DIGITS\<close>); it is the
  exact sum rounded once to 34 digits, half to even, in the preferred exponent \<open>min e1 e2\<close>
  unless the sum needs more than 34 digits.
\<close>

theorem add_correctly_rounded:
  assumes "dec128 (DecFin s1 c1 e1)" "dec128 (DecFin s2 c2 e2)"
  shows "\<exists>s k e. dec_add (DecFin s1 c1 e1) (DecFin s2 c2 e2) = Some (DecFin s k e) \<and>
    sgn_ok s \<and> coeff34 k \<and>
    dec_val (DecFin s k e) = round_sig 34 (dec_val (DecFin s1 c1 e1) + dec_val (DecFin s2 c2 e2)) \<and>
    (e = min e1 e2 \<or> min e1 e2 < e \<and> length k = 34)"
  using assms by (rule add_rounds)

theorem add_correctly_rounded_witness:
  "dec128 (DecFin 1 [2, 5, 0] (-2)) \<and> dec128 (DecFin (-1) [1] 6111) \<and>
   (\<exists>s k e. dec_add (DecFin 1 [2, 5, 0] (-2)) (DecFin (-1) [1] 6111) = Some (DecFin s k e) \<and> sgn_ok s \<and> coeff34 k \<and>
    dec_val (DecFin s k e) = round_sig 34 (dec_val (DecFin 1 [2, 5, 0] (-2)) + dec_val (DecFin (-1) [1] 6111)) \<and>
    (e = min (-2) 6111 \<or> min (-2) 6111 < e \<and> length k = 34))"
  using add_correctly_rounded [of 1 "[2, 5, 0]" "-2" "-1" "[1]" 6111]
  by (simp add: coeff34_def sgn_ok_def del: dec_add.simps dec_mul.simps dec_val.simps)

text \<open>
  the product of two finite decimal128 values is the exact product
  rounded once to 34 digits, with the product of the signs and the preferred exponent
  \<open>e1 + e2\<close> unless the product needs more than 34 digits.
\<close>

theorem mul_correctly_rounded:
  assumes "dec128 (DecFin s1 c1 e1)" "dec128 (DecFin s2 c2 e2)"
  shows "\<exists>k e. dec_mul (DecFin s1 c1 e1) (DecFin s2 c2 e2) = Some (DecFin (s1 * s2) k e) \<and> coeff34 k \<and>
    dec_val (DecFin (s1 * s2) k e) = round_sig 34 (dec_val (DecFin s1 c1 e1) * dec_val (DecFin s2 c2 e2)) \<and>
    (e = e1 + e2 \<or> e1 + e2 < e \<and> length k = 34)"
proof -
  let ?c = "mul_mag c1 c2"
  have a: "sgn_ok (s1 * s2)" "digits c1" "digits c2" "length c1 \<le> 34" "length c2 \<le> 34"
    using assms by (auto simp: coeff34_def sgn_ok_def)
  have m: "?c = nat_digits (digits_val c1 * digits_val c2)" using a by (simp add: mul_mag_val)
  have "digits_val c1 * digits_val c2 < 10 ^ length c1 * 10 ^ length c2"
    using a by (intro mult_strict_mono) (simp_all add: digits_val_bound)
  also have "\<dots> = 10 ^ (length c1 + length c2)" by (simp add: power_add)
  also have "(10::nat) ^ (length c1 + length c2) \<le> 10 ^ 68" using a by (intro power_increasing) auto
  finally have l: "length ?c \<le> 68" unfolding m using length_nat_digits_le [of 68] by simp
  have ex: "in_i32 (e1 + e2)" "e1 + e2 + int (length ?c) < 2 ^ 31" using assms l by (auto simp: in_i32_def)
  have v: "of_int (s1 * s2) * real (digits_val ?c) * 10 powi (e1 + e2) =
      dec_val (DecFin s1 c1 e1) * dec_val (DecFin s2 c2 e2)"
    by (simp add: m power_int_add)
  show ?thesis
    using finish_rounds [OF a(1) _ _ ex, unfolded v] ex(1) m
    by (auto simp: i32_checked_def split: if_splits)
qed

theorem mul_correctly_rounded_witness:
  "dec128 (DecFin 1 [2, 5, 0] (-2)) \<and> dec128 (DecFin (-1) [2] 0) \<and>
   (\<exists>k e. dec_mul (DecFin 1 [2, 5, 0] (-2)) (DecFin (-1) [2] 0) = Some (DecFin (1 * -1) k e) \<and> coeff34 k \<and>
    dec_val (DecFin (1 * -1) k e) = round_sig 34 (dec_val (DecFin 1 [2, 5, 0] (-2)) * dec_val (DecFin (-1) [2] 0)) \<and>
    (e = -2 + 0 \<or> -2 + 0 < e \<and> length k = 34))"
  using mul_correctly_rounded [of 1 "[2, 5, 0]" "-2" "-1" "[2]" 0]
  by (simp add: coeff34_def sgn_ok_def del: dec_add.simps dec_mul.simps dec_val.simps)

section \<open>Rounding to a quantum\<close>

datatype round_mode = Ceil | Floor | Trunc | HalfEven

text \<open>
  The digits kept above the target place, whether anything below it is dropped, and whether
  what is dropped exceeds half a unit (or is half of one, next to an odd digit).
\<close>

definition split_at_place :: "nat list \<Rightarrow> nat \<Rightarrow> nat list \<times> bool \<times> bool" where
  "split_at_place coeff drp =
     (let keep = length coeff - drp;
          dropped_nonzero = (\<exists>x \<in> set (drop (min keep (length coeff)) coeff). x \<noteq> 0);
          kept = take keep coeff;
          kept = (if kept = [] then [0] else kept);
          deciding = (if drp < length coeff then coeff ! keep
                      else if drp = length coeff then coeff ! 0 else 0);
          after_deciding_nonzero =
            (if drp \<le> length coeff
             then (\<exists>x \<in> set (drop (min (keep + 1) (length coeff)) coeff). x \<noteq> 0)
             else (\<exists>x \<in> set coeff. x \<noteq> 0));
          last_odd = (last kept mod 2 = 1)
      in (kept, dropped_nonzero,
          deciding > 5 \<or> (deciding = 5 \<and> (after_deciding_nonzero \<or> last_odd))))"

definition round_away :: "round_mode \<Rightarrow> int \<Rightarrow> bool \<Rightarrow> bool \<Rightarrow> bool" where
  "round_away mode sign dropped_nonzero half_even =
     (case mode of
        Trunc \<Rightarrow> False
      | Ceil \<Rightarrow> dropped_nonzero \<and> sign > 0
      | Floor \<Rightarrow> dropped_nonzero \<and> sign < 0
      | HalfEven \<Rightarrow> half_even)"

fun round_to_exp :: "dec \<Rightarrow> int \<Rightarrow> round_mode \<Rightarrow> dec option" where
  "round_to_exp (DecFin sign coeff ex) target_exp mode =
     (if ex \<ge> target_exp then finish sign (scale_to coeff ex target_exp) target_exp
      else let drp = i32_as_usize (i32_wrap (target_exp - ex));
               (kept, dropped_nonzero, half_even) = split_at_place coeff drp
           in finish sign (if round_away mode sign dropped_nonzero half_even then add_mag kept [1] else kept) target_exp)"
| "round_to_exp d target_exp mode = Some d"

text \<open>The specification of a rounding mode on reals.\<close>

fun round_int :: "round_mode \<Rightarrow> real \<Rightarrow> int" where
  "round_int Ceil x = \<lceil>x\<rceil>"
| "round_int Floor x = \<lfloor>x\<rfloor>"
| "round_int Trunc x = (if x < 0 then \<lceil>x\<rceil> else \<lfloor>x\<rfloor>)"
| "round_int HalfEven x = rne x"

lemma round_int_of_int [simp]: "round_int mode (of_int k) = k"
  by (cases mode) auto

lemma split_at_place_val:
  assumes "digits c" "c \<noteq> []" "0 < d"
  defines "m \<equiv> 10 ^ d"
  shows "\<exists>ks. split_at_place c d =
      (ks, digits_val c mod m \<noteq> 0,
       m < 2 * (digits_val c mod m) \<or> m = 2 * (digits_val c mod m) \<and> odd (digits_val c div m)) \<and>
    digits ks \<and> ks \<noteq> [] \<and> digits_val ks = digits_val c div m \<and> length ks \<le> max 1 (length c)"
proof -
  let ?L = "length c" and ?n = "digits_val c"
  have any: "(\<exists>x \<in> set ds. x \<noteq> 0) \<longleftrightarrow> digits_val ds \<noteq> 0" for ds
    using digits_val_eq_0 [of ds] by (auto simp: all_zero_def)
  consider (mid) "d < ?L" | (eq) "d = ?L" | (below) "?L < d" by linarith
  then show ?thesis
  proof cases
    case mid
    let ?k = "?L - d"
    have ne: "take ?k c \<noteq> []" using mid assms by auto
    have k: "0 < ?k" "?k < ?L" "?L - ?k = d" using mid assms by auto
    have c: "?n = digits_val (take ?k c) * m + digits_val (drop ?k c)"
      using digits_val_take_drop [of c ?k] k by (simp add: m_def)
    have r: "digits_val (drop ?k c) < m" using digits_val_bound [of "drop ?k c"] k assms by simp
    have q: "?n div m = digits_val (take ?k c)" "?n mod m = digits_val (drop ?k c)" using r unfolding c by simp_all
    have up: "rne_div ?n m = digits_val (take ?k c) + 1 \<longleftrightarrow>
        m < 2 * (?n mod m) \<or> m = 2 * (?n mod m) \<and> odd (?n div m)"
      by (auto simp: rne_div_def q Let_def)
    note u = round_up_iff(1) [OF assms(1) k(1,2), unfolded k(3), folded m_def, unfolded up]
    have s: "split_at_place c d = (take ?k c, (\<exists>x \<in> set (drop ?k c). x \<noteq> 0),
        c ! ?k > 5 \<or> c ! ?k = 5 \<and> ((\<exists>x \<in> set (drop (?k + 1) c). x \<noteq> 0) \<or> (take ?k c \<noteq> [] \<and> last (take ?k c) mod 2 = 1)))"
      using mid ne k by (simp add: split_at_place_def Let_def min_def)
    show ?thesis unfolding s u unfolding any using q ne assms by auto
  next
    case eq
    obtain f rest where f: "c = f # rest" using assms by (cases c) auto
    have m: "m = 10 * 10 ^ length rest" using eq f by (simp add: m_def)
    have lt: "?n < m" using digits_val_bound [OF assms(1)] eq by (simp add: m_def)
    then have q: "?n div m = 0" "?n mod m = ?n" by simp_all
    have h: "m < 2 * ?n \<longleftrightarrow> f > 5 \<or> f = 5 \<and> (\<exists>x \<in> set rest. x \<noteq> 0)"
      unfolding m using half_tail(1) [of f rest] assms(1) unfolding f .
    have s: "split_at_place c d = ([0], (\<exists>x \<in> set c. x \<noteq> 0), f > 5 \<or> f = 5 \<and> (\<exists>x \<in> set rest. x \<noteq> 0))"
      using eq f by (simp add: split_at_place_def Let_def)
    show ?thesis unfolding s h [symmetric] unfolding any q by (simp add: Suc_le_eq)
  next
    case below
    have "?n < 10 ^ ?L" using digits_val_bound [OF assms(1)] .
    also have "10 * (10::nat) ^ ?L \<le> m" unfolding m_def power_Suc [symmetric] using below by (intro power_increasing) auto
    then have "(10::nat) ^ ?L \<le> m div 10" by (simp add: less_eq_div_iff_mult_less_eq)
    finally have lt: "?n < m div 10" .
    then have q: "?n div m = 0" "?n mod m = ?n" "2 * ?n < m" by auto
    have s: "split_at_place c d = ([0], (\<exists>x \<in> set c. x \<noteq> 0), False)"
      using below by (simp add: split_at_place_def Let_def)
    show ?thesis unfolding s any using q by auto
  qed
qed

lemma round_away_int:
  assumes "sgn_ok s" "0 < m" "even m"
  shows "int (n div m) + (if round_away mode s (n mod m \<noteq> 0)
           (m < 2 * (n mod m) \<or> m = 2 * (n mod m) \<and> odd (n div m)) then 1 else 0) =
    s * round_int mode (of_int s * (real n / real m))"
proof -
  have fl: "\<lfloor>real n / real m\<rfloor> = int (n div m)" by (rule floor_divide_of_nat_eq)
  have cl: "\<lceil>real n / real m\<rceil> = int (n div m) + (if n mod m \<noteq> 0 then 1 else 0)"
  proof (cases "n mod m = 0")
    case True
    then have "real n / real m = real (n div m)" using assms(2) by (simp add: real_of_nat_div mod_eq_0_iff_dvd)
    with True show ?thesis by simp
  next
    case False
    have "real n / real m \<noteq> real (n div m)"
    proof
      assume "real n / real m = real (n div m)"
      then have "real n = real (n div m * m)" using assms(2) by (simp add: field_simps)
      then have "n = n div m * m" by (simp only: of_nat_eq_iff)
      with False show False by (metis mod_mult_self2_is_0)
    qed
    then have "\<lceil>real n / real m\<rceil> = \<lfloor>real n / real m\<rfloor> + 1"
      by (metis ceiling_altdef fl of_int_of_nat_eq)
    with False fl show ?thesis by simp
  qed
  have nn: "0 \<le> real n / real m" by simp
  have rn: "rne (real n / real m) = int (n div m) +
      (if m < 2 * (n mod m) \<or> m = 2 * (n mod m) \<and> odd (n div m) then 1 else 0)"
    using rne_rne_div [OF assms(2,3), of n] by (auto simp: rne_div_def Let_def)
  show ?thesis
    using assms(1) nn fl cl rn
    by (cases mode) (auto simp: sgn_ok_def round_away_def ceiling_minus floor_minus divide_less_0_iff zero_less_divide_iff)
qed

lemma round_sig_exact:
  assumes "sgn_ok s" "n < 10 ^ 34 \<or> n = 10 ^ 34"
  shows "round_sig 34 (of_int s * real n * 10 powi e) = of_int s * real n * 10 powi e"
proof -
  have small: "round_sig 34 (real k * 10 powi e) = real k * 10 powi e" if "k < 10 ^ 34" for k e
  proof (cases "k = 0")
    case False
    let ?L = "length (nat_digits k)"
    have L: "?L \<le> 34" using length_nat_digits_le [of 34 k] that by simp
    have "real (10 ^ (?L - 1)) \<le> real k" "real k < real (10 ^ ?L)"
      using nat_digits_bounds [of k] False by (simp_all only: of_nat_le_iff of_nat_less_iff)
    then have b: "10 ^ (?L - 1) \<le> real k" "real k < 10 ^ ?L" "0 < ?L" by (simp_all add: length_greater_0_conv)
    have "real k / 10 powi (int ?L - 34) = real_of_int (int k * 10 ^ (34 - ?L))"
      using L div_powi_nonpos [of "int ?L - 34" "real k"] nat_int_minus [of ?L 34] by simp
    then have "of_int (rne (real k / 10 powi (int ?L - 34))) = real k / 10 powi (int ?L - 34)"
      by (metis rne_of_int)
    then show ?thesis using round_sig_scaled [OF b, of 34 e] by (simp add: power_int_add)
  qed (simp add: round_sig_def)
  have "round_sig 34 (real n * 10 powi e) = real n * 10 powi e"
  proof (cases "n < 10 ^ 34")
    case False
    then have "real n * 10 powi e = real (10 ^ 33) * 10 powi (e + 1)" using assms(2) by (simp add: power_int_add)
    then show ?thesis using small [of "10 ^ 33" "e + 1"] by simp
  qed (rule small)
  then show ?thesis using round_sig_sign [of s 34 "real n * 10 powi e"] assms(1) by (simp add: sgn_ok_def mult.assoc)
qed

lemma finish_exact:
  assumes "sgn_ok s" "digits c" "c \<noteq> []" "digits_val c = n * 10 ^ j" "n \<le> 10 ^ 34"
    "in_i32 ex" "ex + int (length c) < 2 ^ 31"
  shows "\<exists>k e. finish s c ex = Some (DecFin s k e) \<and> coeff34 k \<and>
    dec_val (DecFin s k e) = of_int s * real (digits_val c) * 10 powi ex \<and>
    (e = ex \<and> k = nat_digits (digits_val c) \<or> ex < e \<and> length k = 34 \<and> 10 ^ 34 \<le> digits_val c)"
proof -
  have "of_int s * real (digits_val c) * 10 powi ex = of_int s * real n * 10 powi (ex + int j)"
    by (simp add: assms(4) power_int_add)
  moreover have "n < 10 ^ 34 \<or> n = 10 ^ 34" using assms(5) by linarith
  ultimately have "round_sig 34 (of_int s * real (digits_val c) * 10 powi ex) = of_int s * real (digits_val c) * 10 powi ex"
    using round_sig_exact [of s n "ex + int j"] assms(1) by (simp only:)
  moreover obtain k e where f: "finish s c ex = Some (DecFin s k e)" "coeff34 k"
    "dec_val (DecFin s k e) = round_sig 34 (of_int s * real (digits_val c) * 10 powi ex)"
    "ex \<le> e" "if digits_val c < 10 ^ 34 then k = nat_digits (digits_val c) \<and> e = ex else length k = 34"
    using finish_rounds [OF assms(1-3,6,7)] by blast
  moreover have "e \<noteq> ex" if big: "\<not> digits_val c < 10 ^ 34"
  proof
    assume "e = ex"
    with f(3) calculation(1) have "real (digits_val k) = real (digits_val c)"
      using assms(1) by (auto simp: sgn_ok_def)
    then have "digits_val k = digits_val c" by simp
    moreover have "digits_val k < 10 ^ 34"
      using digits_val_bound [of k] f(2,5) big by (simp add: coeff34_def)
    ultimately show False using big by simp
  qed
  ultimately show ?thesis by (cases "digits_val c < 10 ^ 34") auto
qed

text \<open>Rounding to a target exponent, against the rounding of reals.\<close>

lemma round_to_exp_rounds:
  assumes "sgn_ok s" "coeff34 c" "\<bar>e\<bar> \<le> 2 ^ 29" "\<bar>t\<bar> \<le> 2 ^ 29"
  shows "\<exists>k e2. round_to_exp (DecFin s c e) t mode = Some (DecFin s k e2) \<and> coeff34 k \<and>
    dec_val (DecFin s k e2) = of_int (round_int mode (dec_val (DecFin s c e) / 10 powi t)) * 10 powi t \<and>
    (e2 = t \<or> t < e2 \<and> length k = 34)"
proof -
  have c: "digits c" "c \<noteq> []" "length c \<le> 34" using assms by (simp_all add: coeff34_def)
  let ?n = "digits_val c"
  have n: "?n < 10 ^ 34"
  proof -
    have "?n < 10 ^ length c" using c by (simp add: digits_val_bound)
    also have "(10::nat) ^ length c \<le> 10 ^ 34" using c by (intro power_increasing) auto
    finally show ?thesis .
  qed
  have t: "in_i32 t" using assms by (auto simp: in_i32_def)
  show ?thesis
  proof (cases "t \<le> e")
    case True
    have d: "e - t < 2 ^ 31" using assms by simp
    note x = scale_to_val [OF True d c(1,2)]
    have "real (digits_val (scale_to c e t)) = real ?n * 10 powi (e - t)"
      using x(4) by (simp add: power_int_diff field_simps)
    also have "\<dots> = real (?n * 10 ^ nat (e - t))" using True powi_nonneg [of "e - t"] by simp
    finally have v: "digits_val (scale_to c e t) = ?n * 10 ^ nat (e - t)" by (simp only: of_nat_eq_iff)
    have len: "t + int (length (scale_to c e t)) < 2 ^ 31" using x(3) assms c True by simp
    have "dec_val (DecFin s c e) = of_int s * real (digits_val (scale_to c e t)) * 10 powi t"
      using x(4) by (simp add: mult.assoc)
    moreover from this have "dec_val (DecFin s c e) / 10 powi t = of_int (s * int (digits_val (scale_to c e t)))"
      by (simp del: dec_val.simps)
    then have "of_int (round_int mode (dec_val (DecFin s c e) / 10 powi t)) = dec_val (DecFin s c e) / 10 powi t"
      by (metis round_int_of_int)
    ultimately show ?thesis
      using finish_exact [OF assms(1) x(1,2) v _ t len] n True by (auto simp del: dec_val.simps)
  next
    case False
    let ?d = "nat (t - e)" let ?m = "(10::nat) ^ ?d"
    have d: "0 < ?d" "i32_as_usize (i32_wrap (t - e)) = ?d" using False assms by (auto intro: usize_of_diff)
    let ?half = "?m < 2 * (?n mod ?m) \<or> ?m = 2 * (?n mod ?m) \<and> odd (?n div ?m)"
    obtain ks where ks: "split_at_place c ?d = (ks, ?n mod ?m \<noteq> 0, ?half)" "digits ks" "ks \<noteq> []"
      "digits_val ks = ?n div ?m" "length ks \<le> max 1 (length c)"
      using split_at_place_val [OF c(1,2) d(1)] by blast
    define up where "up = round_away mode s (?n mod ?m \<noteq> 0) ?half"
    let ?r = "if up then add_mag ks [1] else ks"
    have "length ks \<le> 34" using ks(5) c(3) by linarith
    then have len: "length ?r \<le> 35" using length_add_one [OF ks(2,3)] by simp
    have val: "digits_val ?r = ?n div ?m + (if up then 1 else 0)" by (simp add: add_mag_val ks(4))
    have rd: "digits ?r" "?r \<noteq> []" using ks length_add_one [OF ks(2,3)] by auto
    have le: "digits_val ?r \<le> 10 ^ 34"
    proof -
      have "?n div ?m + (if up then 1 else 0) \<le> ?n + 1" using div_le_dividend [of ?n ?m] by (cases up) (simp_all add: le_SucI)
      then show ?thesis unfolding val using n by linarith
    qed
    have m: "real ?m = 10 powi (t - e)" using False powi_nonneg [of "t - e"] by simp
    have y: "dec_val (DecFin s c e) / 10 powi t = of_int s * (real ?n / real ?m)"
      unfolding m by (simp add: power_int_diff field_simps)
    have ra: "int (?n div ?m) + (if up then 1 else 0) = s * round_int mode (of_int s * (real ?n / real ?m))"
      unfolding up_def by (rule round_away_int) (use d assms(1) in simp_all)
    have "int (digits_val ?r) = int (?n div ?m) + (if up then 1 else 0)"
      unfolding val of_nat_add by (cases up) simp_all
    also note ra
    finally have "int (digits_val ?r) = s * round_int mode (of_int s * (real ?n / real ?m))" .
    then have "s * int (digits_val ?r) = round_int mode (dec_val (DecFin s c e) / 10 powi t)"
      unfolding y using assms(1) by (auto simp: sgn_ok_def)
    then have "of_int (round_int mode (dec_val (DecFin s c e) / 10 powi t)) = real_of_int s * real (digits_val ?r)"
      by (metis of_int_mult of_int_of_nat_eq)
    moreover have "round_to_exp (DecFin s c e) t mode = finish s ?r t"
      using False d ks(1) by (simp add: up_def Let_def)
    moreover have "t + int (length ?r) < 2 ^ 31" using len assms by auto
    moreover have "digits_val ?r = digits_val ?r * 10 ^ 0" by simp
    ultimately show ?thesis
      using finish_exact [OF assms(1) rd _ le t] by (metis (no_types, lifting))
  qed
qed

text \<open>
  \<open>round_to_exp\<close> moves a finite decimal to the nearest multiple of
  the target quantum in the direction its mode names (toward either infinity, toward zero, or
  to the nearest with ties to even), also when the whole value lies below the target place;
  the result carries the target exponent unless that needs more than 34 digits.
\<close>

theorem round_to_exp_correct:
  assumes "sgn_ok s" "coeff34 c" "\<bar>e\<bar> \<le> 2 ^ 29" "\<bar>t\<bar> \<le> 2 ^ 29"
  shows "\<exists>k e2. round_to_exp (DecFin s c e) t mode = Some (DecFin s k e2) \<and> coeff34 k \<and>
    dec_val (DecFin s k e2) = of_int (round_int mode (dec_val (DecFin s c e) / 10 powi t)) * 10 powi t \<and>
    (e2 = t \<or> t < e2 \<and> length k = 34)"
  using assms by (rule round_to_exp_rounds)

theorem round_to_exp_correct_witness:
  "sgn_ok (-1) \<and> coeff34 [9, 9, 9, 5] \<and> \<bar>-3\<bar> \<le> (2::int) ^ 29 \<and> \<bar>3\<bar> \<le> (2::int) ^ 29 \<and>
   (\<exists>k e2. round_to_exp (DecFin (-1) [9, 9, 9, 5] (-3)) 3 HalfEven = Some (DecFin (-1) k e2) \<and> coeff34 k \<and>
    dec_val (DecFin (-1) k e2) =
      of_int (round_int HalfEven (dec_val (DecFin (-1) [9, 9, 9, 5] (-3)) / 10 powi 3)) * 10 powi 3 \<and>
    (e2 = 3 \<or> 3 < e2 \<and> length k = 34))"
  using round_to_exp_correct [of "-1" "[9, 9, 9, 5]" "-3" 3 HalfEven]
  by (simp add: coeff34_def sgn_ok_def del: round_to_exp.simps dec_val.simps round_int.simps)

section \<open>Comparison of magnitudes\<close>

fun dec_rank :: "dec \<Rightarrow> nat" where
  "dec_rank DecNan = 2"
| "dec_rank (DecInf _) = 1"
| "dec_rank (DecFin _ _ _) = 0"

definition cmp_abs_fin :: "nat list \<Rightarrow> int \<Rightarrow> nat list \<Rightarrow> int \<Rightarrow> ordering" where
  "cmp_abs_fin ca ea cb eb =
     (let ma = strip_leading ca; mb = strip_leading cb; za = all_zero ma; zb = all_zero mb
      in if za \<or> zb
         then (case (za, zb) of (True, True) \<Rightarrow> Equal | (True, False) \<Rightarrow> Less | _ \<Rightarrow> Greater)
         else let adj_a = i32_wrap (i32_wrap (ea + i32_wrap (int (length ma))) - 1);
                  adj_b = i32_wrap (i32_wrap (eb + i32_wrap (int (length mb))) - 1)
              in case cmp_of adj_a adj_b of
                   Equal \<Rightarrow> (let width = max (length ma) (length mb)
                            in cmp_mag (ma @ replicate (width - length ma) 0) (mb @ replicate (width - length mb) 0))
                 | other \<Rightarrow> other)"

definition cmp_abs :: "dec \<Rightarrow> dec \<Rightarrow> ordering option" where
  "cmp_abs a b =
     (if dec_rank a = 2 \<or> dec_rank b = 2 then None
      else case cmp_of (dec_rank a) (dec_rank b) of
             Equal \<Rightarrow> (case (a, b) of
                        (DecFin _ ca ea, DecFin _ cb eb) \<Rightarrow> Some (cmp_abs_fin ca ea cb eb)
                      | _ \<Rightarrow> Some Equal)
           | other \<Rightarrow> Some other)"

lemma wrap_adjusted:
  assumes "\<bar>e\<bar> \<le> 2 ^ 29" "L \<le> 2 ^ 29"
  shows "i32_wrap (i32_wrap (e + i32_wrap (int L)) - 1) = e + int L - 1"
proof -
  have "in_i32 (int L)" "in_i32 (e + int L)" "in_i32 (e + int L - 1)"
    using assms by (auto simp: in_i32_def)
  then show ?thesis by simp
qed

lemma pad_val:
  assumes "L \<le> w" shows "real (n * 10 ^ (w - L)) * 10 powi (e + int L - int w) = real n * 10 powi e"
proof -
  have "real (10 ^ (w - L)) = 10 powi (int w - int L)"
    using assms powi_nonneg [of "int w - int L"] nat_int_minus [of L w] by simp
  moreover have "(10::real) powi (int w - int L) * 10 powi (e + int L - int w) = 10 powi e"
    by (simp flip: power_int_add)
  ultimately show ?thesis by simp
qed

lemma cmp_of_scale: "0 < (k::real) \<Longrightarrow> cmp_of (x * k) (y * k) = cmp_of x y"
  by (simp add: cmp_of_def)

lemma cmp_of_nat: "cmp_of (real m) (real n) = cmp_of m n"
  by (simp add: cmp_of_def)

lemma dec_val_bounds:
  assumes "0 < n"
  shows "10 powi (e + int (length (nat_digits n)) - 1) \<le> real n * 10 powi e"
    "real n * 10 powi e < 10 powi (e + int (length (nat_digits n)))"
proof -
  let ?L = "length (nat_digits n)"
  have L: "0 < ?L" by (simp add: length_greater_0_conv)
  have "real (10 ^ (?L - 1)) \<le> real n" "real n < real (10 ^ ?L)"
    using nat_digits_bounds [OF assms] by (simp_all only: of_nat_le_iff of_nat_less_iff)
  moreover have "real (10 ^ (?L - 1)) = 10 powi (int ?L - 1)" "real (10 ^ ?L) = 10 powi int ?L"
    using powi_nonneg [of "int ?L - 1"] L by (simp_all add: nat_diff_distrib)
  ultimately have "10 powi (int ?L - 1) \<le> real n" "real n < 10 powi int ?L" by linarith+
  then have "10 powi (int ?L - 1) * 10 powi e \<le> real n * 10 powi e" "real n * 10 powi e < 10 powi int ?L * 10 powi e"
    by simp_all
  moreover have "(10::real) powi (int ?L - 1) * 10 powi e = 10 powi (e + int ?L - 1)"
    "(10::real) powi int ?L * 10 powi e = 10 powi (e + int ?L)"
    by (simp_all add: power_int_add power_int_diff)
  ultimately show "10 powi (e + int ?L - 1) \<le> real n * 10 powi e" "real n * 10 powi e < 10 powi (e + int ?L)"
    by (simp_all only:)
qed

text \<open>
  comparing two finite decimals by magnitude agrees with the real numbers,
  at any width of the coefficients and without rounding either side.
\<close>

theorem cmp_abs_exact:
  assumes "sgn_ok s1" "sgn_ok s2" "digits c1" "c1 \<noteq> []" "digits c2" "c2 \<noteq> []"
    "\<bar>e1\<bar> \<le> 2 ^ 29" "\<bar>e2\<bar> \<le> 2 ^ 29" "length c1 \<le> 2 ^ 29" "length c2 \<le> 2 ^ 29"
  shows "cmp_abs (DecFin s1 c1 e1) (DecFin s2 c2 e2) =
    Some (cmp_of \<bar>dec_val (DecFin s1 c1 e1)\<bar> \<bar>dec_val (DecFin s2 c2 e2)\<bar>)"
proof -
  let ?a = "digits_val c1" and ?b = "digits_val c2"
  let ?x = "real ?a * 10 powi e1" and ?y = "real ?b * 10 powi e2"
  have abs: "\<bar>dec_val (DecFin s1 c1 e1)\<bar> = ?x" "\<bar>dec_val (DecFin s2 c2 e2)\<bar> = ?y"
    using assms(1,2) by (auto simp: sgn_ok_def abs_mult)
  have st: "strip_leading c1 = nat_digits ?a" "strip_leading c2 = nat_digits ?b"
    using assms by (simp_all add: strip_leading_eq)
  have z: "all_zero (nat_digits n) \<longleftrightarrow> n = 0" for n by (metis digits_val_eq_0 digits_val_nat_digits)
  have np: "\<not> (10::real) powi k < 0" for k by (simp add: not_less)
  have "cmp_abs_fin c1 e1 c2 e2 = cmp_of ?x ?y"
  proof (cases "?a = 0 \<or> ?b = 0")
    case True
    then show ?thesis
      by (auto simp: np cmp_abs_fin_def st z Let_def cmp_of_def mult_less_0_iff zero_less_mult_iff split: bool.splits)
  next
    case False
    let ?p = "nat_digits ?a" and ?q = "nat_digits ?b" let ?A = "length ?p" and ?B = "length ?q"
    have len: "?A \<le> 2 ^ 29" "?B \<le> 2 ^ 29"
      using length_strip_leading [of c1] length_strip_leading [of c2] st assms by simp_all
    have adj: "i32_wrap (i32_wrap (e1 + i32_wrap (int ?A)) - 1) = e1 + int ?A - 1"
      "i32_wrap (i32_wrap (e2 + i32_wrap (int ?B)) - 1) = e2 + int ?B - 1"
      using assms len by (simp_all only: wrap_adjusted)
    note bx = dec_val_bounds [of ?a e1] and by' = dec_val_bounds [of ?b e2]
    have mono: "(10::real) powi i \<le> 10 powi j" if "i \<le> j" for i j :: int
      using that by (simp add: power_int_increasing)
    let ?w = "max ?A ?B"
    let ?P = "?p @ replicate (?w - ?A) 0" and ?Q = "?q @ replicate (?w - ?B) 0"
    have eq: "cmp_abs_fin c1 e1 c2 e2 = (case cmp_of (e1 + int ?A - 1) (e2 + int ?B - 1) of Equal \<Rightarrow> cmp_mag ?P ?Q | r \<Rightarrow> r)"
      using False by (simp add: cmp_abs_fin_def st z Let_def adj split: ordering.split)
    consider (lt) "e1 + int ?A < e2 + int ?B" | (eq) "e1 + int ?A = e2 + int ?B" | (gt) "e2 + int ?B < e1 + int ?A" by linarith
    then show ?thesis
    proof cases
      case lt
      have "?x < 10 powi (e1 + int ?A)" using bx False by simp
      also have "(10::real) powi (e1 + int ?A) \<le> 10 powi (e2 + int ?B - 1)" using lt by (intro mono) simp
      also have "\<dots> \<le> ?y" using by' False by simp
      finally show ?thesis using lt unfolding eq by (simp add: cmp_of_def)
    next
      case gt
      have "?y < 10 powi (e2 + int ?B)" using by' False by simp
      also have "(10::real) powi (e2 + int ?B) \<le> 10 powi (e1 + int ?A - 1)" using gt by (intro mono) simp
      also have "\<dots> \<le> ?x" using bx False by simp
      finally show ?thesis using gt unfolding eq by (simp add: cmp_of_def)
    next
      case same: eq
      have zero: "digits_val (replicate k 0) = 0" for k by (simp add: digits_val_eq_0 all_zero_def)
      have v: "digits_val ?P = ?a * 10 ^ (?w - ?A)" "digits_val ?Q = ?b * 10 ^ (?w - ?B)"
        by (simp_all add: digits_val_append zero)
      have "cmp_mag ?P ?Q = cmp_of (digits_val ?P) (digits_val ?Q)" by (simp add: cmp_mag_val)
      also have "\<dots> = cmp_of (real (digits_val ?P)) (real (digits_val ?Q))" by (simp add: cmp_of_nat)
      also have "\<dots> = cmp_of (real (digits_val ?P) * 10 powi (e1 + int ?A - int ?w)) (real (digits_val ?Q) * 10 powi (e1 + int ?A - int ?w))"
        by (rule cmp_of_scale [symmetric]) simp
      also have "real (digits_val ?P) * 10 powi (e1 + int ?A - int ?w) = ?x"
        unfolding v by (rule pad_val) simp
      also have "real (digits_val ?Q) * 10 powi (e1 + int ?A - int ?w) = ?y"
        unfolding v same by (rule pad_val) simp
      finally show ?thesis using same unfolding eq by simp
    qed
  qed
  then show ?thesis by (simp add: cmp_abs_def abs del: dec_val.simps)
qed

theorem cmp_abs_exact_witness:
  "sgn_ok 1 \<and> sgn_ok (-1) \<and> digits [1] \<and> digits [0, 9, 9] \<and> \<bar>2\<bar> \<le> (2::int) ^ 29 \<and> \<bar>0\<bar> \<le> (2::int) ^ 29 \<and>
   cmp_abs (DecFin 1 [1] 2) (DecFin (-1) [0, 9, 9] 0) =
     Some (cmp_of \<bar>dec_val (DecFin 1 [1] 2)\<bar> \<bar>dec_val (DecFin (-1) [0, 9, 9] 0)\<bar>)"
  using cmp_abs_exact [of 1 "-1" "[1]" "[0, 9, 9]" 2 0]
  by (simp add: sgn_ok_def del: dec_val.simps)

end
