(* ===== verification/Decimal_Range.thy ===== *)
theory Decimal_Range
  imports Decimal_Arith
begin

text \<open>
  The range rules of \<open>secantus-core/src/decimal.rs\<close>: \<open>clamp\<close> brings a computed value inside
  decimal128's exponent range on its way back to BSON, \<open>trunc_to_i64\<close>, \<open>is_integral\<close> and
  \<open>quantize_integral\<close> take integers out of a decimal.
\<close>

section \<open>Clamping into decimal128\<close>

definition MIN_EXP :: int where "MIN_EXP = -6176"
definition MAX_EXP :: int where "MAX_EXP = 6111"
definition MAX_ADJUSTED :: int where "MAX_ADJUSTED = 6144"

fun clamp :: "dec \<Rightarrow> dec" where
  "clamp (DecFin sign coeff ex) =
     (let mag = strip_leading coeff
      in if all_zero mag then DecFin sign [0] (max MIN_EXP (min MAX_EXP ex))
         else if i32_wrap (i32_wrap (ex + i32_wrap (int (length mag))) - 1) > MAX_ADJUSTED then DecInf sign
         else if ex > MAX_EXP
              then DecFin sign (mag @ replicate (i32_as_usize (i32_wrap (ex - MAX_EXP))) 0) MAX_EXP
         else if ex < MIN_EXP
              then (case round_to_exp (DecFin sign coeff ex) MIN_EXP HalfEven of
                      Some r \<Rightarrow> r | None \<Rightarrow> DecFin sign [0] MIN_EXP)
         else DecFin sign coeff ex)"
| "clamp d = d"

lemma coeff34_canonical: "coeff34 c \<Longrightarrow> nat_digits (digits_val c) = c" "coeff34 c \<Longrightarrow> strip_leading c = c"
  by (auto simp: coeff34_def strip_leading_eq intro: nat_digits_canonical)

lemma powi_le_iff: "(10::real) powi i \<le> 10 powi j \<longleftrightarrow> i \<le> j"
  by (metis linorder_not_le one_le_numeral one_less_numeral_iff power_int_increasing power_int_strict_increasing semiring_norm(76))

lemma powi_less_iff: "(10::real) powi i < 10 powi j \<longleftrightarrow> i < j"
  using powi_le_iff [of j i] by linarith

text \<open>A number reaches a power of ten exactly when its leading digit does.\<close>

lemma powi_le_dec:
  assumes "0 < n" shows "10 powi k \<le> real n * 10 powi e \<longleftrightarrow> k \<le> e + int (length (nat_digits n)) - 1"
proof
  assume "k \<le> e + int (length (nat_digits n)) - 1"
  then have "(10::real) powi k \<le> 10 powi (e + int (length (nat_digits n)) - 1)" by (simp add: powi_le_iff)
  with dec_val_bounds(1) [OF assms, of e] show "10 powi k \<le> real n * 10 powi e" by linarith
next
  assume "10 powi k \<le> real n * 10 powi e"
  with dec_val_bounds(2) [OF assms, of e] have "(10::real) powi k < 10 powi (e + int (length (nat_digits n)))" by linarith
  then show "k \<le> e + int (length (nat_digits n)) - 1" by (simp add: powi_less_iff)
qed

lemma abs_dec_val: "sgn_ok s \<Longrightarrow> \<bar>dec_val (DecFin s c e)\<bar> = real (digits_val c) * 10 powi e"
  by (auto simp: sgn_ok_def abs_mult)

lemma rne_abs_le:
  assumes "\<bar>y\<bar> \<le> of_int k" shows "\<bar>rne y\<bar> \<le> k"
proof -
  have "\<bar>y - of_int (rne y)\<bar> \<le> 1 / 2" using rne_iff [of y "rne y"] by auto
  then have "real_of_int (rne y) < of_int k + 1" "- real_of_int (rne y) < of_int k + 1"
    using assms by (simp_all only: abs_le_iff) linarith+
  then show ?thesis by linarith
qed

text \<open>The four outcomes for a number that is not zero.\<close>

lemma clamp_cases:
  assumes "sgn_ok s" "coeff34 c" "\<bar>e\<bar> \<le> 2 ^ 29" "digits_val c \<noteq> 0"
  defines "a \<equiv> e + int (length c) - 1"
  shows "MAX_ADJUSTED < a \<Longrightarrow> clamp (DecFin s c e) = DecInf s"
    and "a \<le> MAX_ADJUSTED \<Longrightarrow> MAX_EXP < e \<Longrightarrow>
      clamp (DecFin s c e) = DecFin s (nat_digits (digits_val c * 10 ^ nat (e - MAX_EXP))) MAX_EXP"
    and "a \<le> MAX_ADJUSTED \<Longrightarrow> MIN_EXP \<le> e \<Longrightarrow> e \<le> MAX_EXP \<Longrightarrow> clamp (DecFin s c e) = DecFin s c e"
    and "e < MIN_EXP \<Longrightarrow> \<exists>k e2. clamp (DecFin s c e) = DecFin s k e2 \<and> coeff34 k \<and> MIN_EXP \<le> e2 \<and> e2 \<le> MAX_EXP \<and>
      dec_val (DecFin s k e2) = of_int (rne (dec_val (DecFin s c e) / 10 powi MIN_EXP)) * 10 powi MIN_EXP"
proof -
  have c: "digits c" "c \<noteq> []" "length c \<le> 34" "strip_leading c = c" "nat_digits (digits_val c) = c" "\<not> all_zero c"
    using assms coeff34_canonical by (auto simp: coeff34_def digits_val_eq_0)
  have adj: "i32_wrap (i32_wrap (e + i32_wrap (int (length c))) - 1) = a"
    unfolding a_def using assms(3) c(3) by (intro wrap_adjusted) auto
  show "MAX_ADJUSTED < a \<Longrightarrow> clamp (DecFin s c e) = DecInf s" using c by (simp add: adj)
  show "clamp (DecFin s c e) = DecFin s c e" if "a \<le> MAX_ADJUSTED" "MIN_EXP \<le> e" "e \<le> MAX_EXP"
    using that c by (simp add: adj)
  show "clamp (DecFin s c e) = DecFin s (nat_digits (digits_val c * 10 ^ nat (e - MAX_EXP))) MAX_EXP"
    if "a \<le> MAX_ADJUSTED" "MAX_EXP < e"
  proof -
    have u: "i32_as_usize (i32_wrap (e - MAX_EXP)) = nat (e - MAX_EXP)"
      using that assms(3) by (intro usize_of_diff) (auto simp: MAX_EXP_def)
    have "c @ replicate (nat (e - MAX_EXP)) 0 = nat_digits (digits_val c * 10 ^ nat (e - MAX_EXP))"
      using nat_digits_append_zeros [of "digits_val c" "nat (e - MAX_EXP)"] assms(4) c(5) by simp
    then show ?thesis using that c by (simp add: adj u)
  qed
  show "\<exists>k e2. clamp (DecFin s c e) = DecFin s k e2 \<and> coeff34 k \<and> MIN_EXP \<le> e2 \<and> e2 \<le> MAX_EXP \<and>
      dec_val (DecFin s k e2) = of_int (rne (dec_val (DecFin s c e) / 10 powi MIN_EXP)) * 10 powi MIN_EXP"
    if low: "e < MIN_EXP"
  proof -
    have "\<bar>MIN_EXP\<bar> \<le> 2 ^ 29" by (simp add: MIN_EXP_def)
    then obtain k e2 where r: "round_to_exp (DecFin s c e) MIN_EXP HalfEven = Some (DecFin s k e2)" "coeff34 k"
      "dec_val (DecFin s k e2) = of_int (rne (dec_val (DecFin s c e) / 10 powi MIN_EXP)) * 10 powi MIN_EXP"
      "e2 = MIN_EXP \<or> MIN_EXP < e2 \<and> length k = 34"
      using round_to_exp_rounds [OF assms(1-3), of MIN_EXP HalfEven] by auto
    have "a \<le> MAX_ADJUSTED" "\<not> MAX_EXP < e" using low c(3) by (simp_all add: a_def MAX_ADJUSTED_def MIN_EXP_def MAX_EXP_def)
    then have cl: "clamp (DecFin s c e) = DecFin s k e2"
      using low c r(1) by (simp add: adj del: round_to_exp.simps)
    have "e2 = MIN_EXP"
    proof (rule ccontr)
      assume "e2 \<noteq> MIN_EXP"
      then have e2: "MIN_EXP < e2" "length k = 34" using r(4) by auto
      have k: "0 < digits_val k" "length (nat_digits (digits_val k)) = 34"
        using r(2) e2(2) coeff34_canonical(1) [of k] hd_nonzero_ge [of k] by (auto simp: coeff34_def)
      have "10 powi (MIN_EXP + 34) \<le> real (digits_val k) * 10 powi e2"
        using powi_le_dec [OF k(1), of "MIN_EXP + 34" e2] k(2) e2(1) by simp
      also have "\<dots> = \<bar>dec_val (DecFin s k e2)\<bar>" by (simp add: abs_dec_val assms(1) del: dec_val.simps)
      also have "\<dots> = of_int \<bar>rne (dec_val (DecFin s c e) / 10 powi MIN_EXP)\<bar> * 10 powi MIN_EXP"
        unfolding r(3) by (simp add: abs_mult del: dec_val.simps)
      also have "\<bar>rne (dec_val (DecFin s c e) / 10 powi MIN_EXP)\<bar> \<le> 10 ^ 33"
      proof (rule rne_abs_le)
        have "\<bar>dec_val (DecFin s c e)\<bar> < 10 powi (e + 34)"
          using dec_val_bounds(2) [of "digits_val c" e] assms(4) c(3,5) powi_le_iff [of "e + int (length c)" "e + 34"]
          by (simp add: abs_dec_val assms(1) del: dec_val.simps)
        also have "(10::real) powi (e + 34) \<le> 10 powi (MIN_EXP + 33)" using low by (simp add: powi_le_iff)
        also have "(10::real) powi (MIN_EXP + 33) = 10 ^ 33 * 10 powi MIN_EXP" by (simp add: power_int_add)
        finally show "\<bar>dec_val (DecFin s c e) / 10 powi MIN_EXP\<bar> \<le> of_int (10 ^ 33)"
          by (simp add: field_simps del: dec_val.simps)
      qed
      finally have "(10::real) powi (MIN_EXP + 34) \<le> 10 ^ 33 * 10 powi MIN_EXP" by simp
      then show False by (simp add: power_int_add)
    qed
    then have "MIN_EXP \<le> e2" "e2 \<le> MAX_EXP" by (simp_all add: MIN_EXP_def MAX_EXP_def)
    then show ?thesis using cl r(2,3) by blast
  qed
qed

text \<open>
  C26: a value of at most 34 digits, with an exponent of at most \<open>2^29\<close> in magnitude, comes back as one
  decimal128 holds: an infinity exactly when its magnitude reaches \<open>10^6145\<close>, the same
  number while its quantum can be expressed, and otherwise the nearest multiple of the smallest
  quantum, ties to even.
\<close>

theorem clamp_into_range:
  assumes "sgn_ok s" "coeff34 c" "\<bar>e\<bar> \<le> 2 ^ 29"
  shows "dec128 (clamp (DecFin s c e)) \<and>
    (if 10 powi (MAX_ADJUSTED + 1) \<le> \<bar>dec_val (DecFin s c e)\<bar> then clamp (DecFin s c e) = DecInf s
     else dec_val (clamp (DecFin s c e)) =
       (if e < MIN_EXP then of_int (rne (dec_val (DecFin s c e) / 10 powi MIN_EXP)) * 10 powi MIN_EXP
        else dec_val (DecFin s c e)))"
proof (cases "digits_val c = 0")
  case True
  then have "all_zero c" "strip_leading c = c" using assms coeff34_canonical by (simp_all add: digits_val_eq_0)
  then have "clamp (DecFin s c e) = DecFin s [0] (max MIN_EXP (min MAX_EXP e))" by simp
  moreover have "\<not> 10 powi k \<le> (0::real)" for k by (simp add: not_le)
  moreover have "-6176 \<le> max MIN_EXP (min MAX_EXP e)" "max MIN_EXP (min MAX_EXP e) \<le> 6111"
    by (simp_all add: MIN_EXP_def MAX_EXP_def)
  moreover have "rne 0 = 0" using rne_of_int [of 0] by simp
  ultimately show ?thesis using assms(1) True by (simp add: coeff34_def)
next
  case False
  let ?a = "e + int (length c) - 1"
  have c: "nat_digits (digits_val c) = c" "length c \<le> 34" "0 < digits_val c"
    using assms False coeff34_canonical by (simp_all add: coeff34_def)
  have big: "10 powi (MAX_ADJUSTED + 1) \<le> \<bar>dec_val (DecFin s c e)\<bar> \<longleftrightarrow> MAX_ADJUSTED < ?a"
    using powi_le_dec [OF c(3), of "MAX_ADJUSTED + 1" e] c(1) by (auto simp: abs_dec_val assms(1) simp del: dec_val.simps)
  note cl = clamp_cases [OF assms False]
  consider (inf) "MAX_ADJUSTED < ?a" | (high) "?a \<le> MAX_ADJUSTED" "MAX_EXP < e"
    | (low) "e < MIN_EXP" | (mid) "?a \<le> MAX_ADJUSTED" "MIN_EXP \<le> e" "e \<le> MAX_EXP" by linarith
  then show ?thesis
  proof cases
    case inf
    then show ?thesis using cl(1) assms(1) big by simp
  next
    case high
    let ?d = "nat (e - MAX_EXP)"
    have "digits_val c < 10 ^ length c" using assms by (simp add: coeff34_def digits_val_bound)
    then have "digits_val c * 10 ^ ?d < 10 ^ length c * 10 ^ ?d" by simp
    also have "\<dots> \<le> 10 ^ 34" unfolding power_add [symmetric] using high
      by (intro power_increasing) (auto simp: MAX_ADJUSTED_def MAX_EXP_def)
    finally have "coeff34 (nat_digits (digits_val c * 10 ^ ?d))" by (simp add: coeff34_nat_digits)
    moreover have "(10::real) powi e = 10 ^ ?d * 10 powi MAX_EXP"
      using powi_nonneg [of "e - MAX_EXP"] high by (simp add: power_int_diff field_simps)
    moreover have "\<not> e < MIN_EXP" using high by (simp add: MIN_EXP_def MAX_EXP_def)
    moreover have "-6176 \<le> MAX_EXP" "MAX_EXP \<le> 6111" by (simp_all add: MAX_EXP_def)
    ultimately show ?thesis
      unfolding cl(2) [OF high] using assms(1) high(1) big by simp
  next
    case low
    have "\<not> MAX_ADJUSTED < ?a" using low c(2) by (simp add: MAX_ADJUSTED_def MIN_EXP_def)
    moreover obtain k e2 where k: "clamp (DecFin s c e) = DecFin s k e2" "coeff34 k" "MIN_EXP \<le> e2" "e2 \<le> MAX_EXP"
      "dec_val (DecFin s k e2) = of_int (rne (dec_val (DecFin s c e) / 10 powi MIN_EXP)) * 10 powi MIN_EXP"
      using cl(4) [OF low] by blast
    moreover have "dec128 (DecFin s k e2)" using assms(1) k(2-4) by (simp add: MIN_EXP_def MAX_EXP_def)
    ultimately show ?thesis using low big by (simp del: dec_val.simps clamp.simps dec128.simps)
  next
    case mid
    then have "\<not> MAX_ADJUSTED < ?a" "\<not> e < MIN_EXP" by simp_all
    moreover have "-6176 \<le> e" "e \<le> 6111" using mid by (simp_all add: MIN_EXP_def MAX_EXP_def)
    ultimately show ?thesis unfolding cl(3) [OF mid] using assms big by (simp del: dec_val.simps)
  qed
qed

theorem clamp_into_range_witness:
  "sgn_ok (-1) \<and> coeff34 [5, 7, 2, 9] \<and> \<bar>-6179\<bar> \<le> (2::int) ^ 29 \<and> dec128 (clamp (DecFin (-1) [5, 7, 2, 9] (-6179)))"
  using clamp_into_range [of "-1" "[5, 7, 2, 9]" "-6179"]
  by (simp add: sgn_ok_def coeff34_def del: clamp.simps dec_val.simps)

section \<open>Integers out of decimals\<close>

definition in_i64 :: "int \<Rightarrow> bool" where
  "in_i64 z \<longleftrightarrow> - (2 ^ 63) \<le> z \<and> z < 2 ^ 63"

fun accumulate_i64 :: "nat list \<Rightarrow> int \<Rightarrow> int option" where
  "accumulate_i64 [] acc = Some acc"
| "accumulate_i64 (d # ds) acc =
     (if \<not> in_i64 (acc * 10) then None
      else if \<not> in_i64 (acc * 10 + int d) then None
      else accumulate_i64 ds (acc * 10 + int d))"

fun trunc_to_i64 :: "dec \<Rightarrow> int option" where
  "trunc_to_i64 (DecFin sign coeff ex) =
     (if ex > 19 then None
      else if ex < 0 \<and> nat (- ex) \<ge> length coeff then Some 0
      else let ds = (if ex < 0 then take (length coeff - nat (- ex)) coeff else coeff @ replicate (nat ex) 0)
           in case accumulate_i64 ds 0 of None \<Rightarrow> None | Some acc \<Rightarrow> Some (acc * sign))"
| "trunc_to_i64 d = None"

fun is_integral :: "dec \<Rightarrow> bool" where
  "is_integral (DecFin sign coeff ex) =
     (ex \<ge> 0 \<or> all_zero (drop (length coeff - i32_as_usize (i32_wrap (- ex))) coeff))"
| "is_integral d = False"

fun is_odd_integral :: "dec \<Rightarrow> bool" where
  "is_odd_integral (DecFin sign coeff ex) =
     (if ex > 0 then False
      else let units = int (length coeff) - 1 + ex in units \<ge> 0 \<and> coeff ! nat units mod 2 = 1)"
| "is_odd_integral d = False"

fun quantize_integral :: "dec \<Rightarrow> round_mode \<Rightarrow> dec option" where
  "quantize_integral (DecFin sign coeff ex) mode =
     (let mag = strip_leading coeff
      in if \<not> all_zero mag \<and> i32_wrap (ex + i32_wrap (int (length mag))) > int MAX_DIGITS then None
         else case round_to_exp (DecFin sign coeff ex) 0 mode of
                None \<Rightarrow> None
              | Some r \<Rightarrow>
                  (case r of
                     DecFin _ c e \<Rightarrow> if e > 0 \<and> \<not> all_zero c then None else Some r
                   | _ \<Rightarrow> Some r))"
| "quantize_integral d mode = Some d"

lemma accumulate_i64_val:
  "0 \<le> acc \<Longrightarrow>
   accumulate_i64 ds acc =
     (if acc * 10 ^ length ds + int (digits_val ds) < 2 ^ 63 \<or> ds = [] then Some (acc * 10 ^ length ds + int (digits_val ds)) else None)"
proof (induction ds arbitrary: acc)
  case (Cons d ds)
  let ?a = "acc * 10 + int d"
  have tot: "acc * 10 ^ length (d # ds) + int (digits_val (d # ds)) = ?a * 10 ^ length ds + int (digits_val ds)"
    by (simp add: algebra_simps)
  have "?a * 1 \<le> ?a * 10 ^ length ds" using Cons.prems by (intro mult_left_mono) auto
  then have le: "?a \<le> ?a * 10 ^ length ds + int (digits_val ds)" by simp
  have IH: "accumulate_i64 ds ?a = (if ?a * 10 ^ length ds + int (digits_val ds) < 2 ^ 63 \<or> ds = []
      then Some (?a * 10 ^ length ds + int (digits_val ds)) else None)" using Cons by simp
  have a: "acc * 10 \<le> ?a" "0 \<le> acc * 10" using Cons.prems by simp_all
  show ?case
  proof (cases "?a < 2 ^ 63")
    case True
    then have "in_i64 (acc * 10)" "in_i64 ?a" using a by (auto simp: in_i64_def)
    then show ?thesis using IH True unfolding tot by (cases "ds = []") auto
  next
    case False
    then have "\<not> in_i64 ?a" by (simp add: in_i64_def)
    moreover have "\<not> ?a * 10 ^ length ds + int (digits_val ds) < 2 ^ 63" using False le by linarith
    ultimately show ?thesis unfolding tot by auto
  qed
qed simp

lemma trunc_dec_val:
  assumes "sgn_ok s"
  shows "round_int Trunc (dec_val (DecFin s c e)) =
    s * int (if e < 0 then digits_val c div 10 ^ nat (- e) else digits_val c * 10 ^ nat e)"
proof (cases "e < 0")
  case True
  let ?m = "(10::nat) ^ nat (- e)"
  have "(10::real) powi e = inverse (real ?m)" using True div_powi_nonpos [of e 1] by (simp add: inverse_eq_divide field_simps)
  then have v: "dec_val (DecFin s c e) = of_int s * (real (digits_val c) / real ?m)" by (simp add: divide_inverse)
  show ?thesis
    using round_away_int [OF assms, of ?m "digits_val c" Trunc] True
    unfolding v by (cases "s = 1") (use assms in \<open>auto simp: sgn_ok_def round_away_def simp del: round_int.simps\<close>)
next
  case False
  then have "dec_val (DecFin s c e) = of_int (s * int (digits_val c * 10 ^ nat e))"
    using powi_nonneg [of e] by simp
  then show ?thesis using False by (metis round_int_of_int)
qed

text \<open>
  \<open>trunc_to_i64\<close> is the number truncated toward zero, exactly, whenever
  the exponent is at most 19 and the truncated number is smaller than \<open>2^63\<close> in magnitude, and
  nothing otherwise. So \<open>-2^63\<close>, which an \<open>i64\<close> holds, is refused (and so is a zero with an
  exponent above 19).
\<close>

theorem trunc_to_i64_exact:
  assumes "sgn_ok s" "digits c" "c \<noteq> []"
  shows "trunc_to_i64 (DecFin s c e) =
    (if e \<le> 19 \<and> \<bar>round_int Trunc (dec_val (DecFin s c e))\<bar> < 2 ^ 63
     then Some (round_int Trunc (dec_val (DecFin s c e))) else None)"
proof -
  let ?n = "digits_val c"
  have abs: "\<bar>s * k\<bar> = k" if "0 \<le> k" for k using assms(1) that by (auto simp: sgn_ok_def abs_mult)
  show ?thesis
  proof (cases "e < 0")
    case True
    let ?d = "nat (- e)"
    show ?thesis
    proof (cases "?d \<ge> length c")
      case big: True
      have "?n < 10 ^ length c" using assms by (simp add: digits_val_bound)
      also have "(10::nat) ^ length c \<le> 10 ^ ?d" using big by (intro power_increasing) auto
      finally have "?n div 10 ^ ?d = 0" by simp
      then show ?thesis using True big by (simp add: trunc_dec_val [OF assms(1)] del: round_int.simps dec_val.simps)
    next
      case False
      let ?t = "take (length c - ?d) c"
      have "?n = digits_val ?t * 10 ^ ?d + digits_val (drop (length c - ?d) c)"
        using digits_val_take_drop [of c "length c - ?d"] False by simp
      moreover have "digits_val (drop (length c - ?d) c) < 10 ^ ?d"
        using digits_val_bound [of "drop (length c - ?d) c"] assms False by simp
      ultimately have q: "?n div 10 ^ ?d = digits_val ?t" by simp
      show ?thesis
        using True False accumulate_i64_val [of 0 ?t] q
        by (auto simp: trunc_dec_val [OF assms(1)] abs simp del: round_int.simps dec_val.simps)
    qed
  next
    case False
    have z: "digits_val (replicate k 0) = 0" for k by (simp add: digits_val_eq_0 all_zero_def)
    show ?thesis
      using False assms(3) accumulate_i64_val [of 0 "c @ replicate (nat e) 0"]
      by (auto simp: trunc_dec_val [OF assms(1)] abs digits_val_append z simp del: round_int.simps dec_val.simps)
  qed
qed

theorem trunc_to_i64_exact_witness:
  "sgn_ok (-1) \<and> digits [9, 2, 2, 3, 3, 7, 2, 0, 3, 6, 8, 5, 4, 7, 7, 5, 8, 0, 8] \<and>
   trunc_to_i64 (DecFin (-1) [9, 2, 2, 3, 3, 7, 2, 0, 3, 6, 8, 5, 4, 7, 7, 5, 8, 0, 8] 0) = None"
proof -
  let ?c = "[9, 2, 2, 3, 3, 7, 2, 0, 3, 6, 8, 5, 4, 7, 7, 5, 8, 0, 8] :: nat list"
  have "sgn_ok (-1)" "digits ?c" by (simp_all add: sgn_ok_def)
  moreover from this have "round_int Trunc (dec_val (DecFin (-1) ?c 0)) = - (2 ^ 63)"
    using trunc_dec_val [of "-1" ?c 0] by simp
  ultimately show ?thesis using trunc_to_i64_exact [of "-1" ?c 0] by simp
qed

lemma is_integral_iff:
  assumes "sgn_ok s" "digits c" "\<bar>e\<bar> \<le> 2 ^ 29"
  shows "is_integral (DecFin s c e) \<longleftrightarrow> dec_val (DecFin s c e) \<in> \<int>"
proof (cases "e < 0")
  case True
  let ?d = "nat (- e)" let ?m = "(10::nat) ^ ?d" and ?n = "digits_val c"
  have u: "i32_as_usize (i32_wrap (- e)) = ?d" using assms True by (intro usize_of_diff) auto
  have drop: "digits_val (drop (length c - ?d) c) = ?n mod ?m"
  proof (cases "?d \<le> length c")
    case le: True
    have "?n = digits_val (take (length c - ?d) c) * ?m + digits_val (drop (length c - ?d) c)"
      using digits_val_take_drop [of c "length c - ?d"] le by simp
    moreover have "digits_val (drop (length c - ?d) c) < ?m"
      using digits_val_bound [of "drop (length c - ?d) c"] assms le by simp
    ultimately show ?thesis by simp
  next
    case False
    have "?n < 10 ^ length c" using assms by (simp add: digits_val_bound)
    also have "(10::nat) ^ length c \<le> ?m" using False by (intro power_increasing) auto
    finally show ?thesis using False by simp
  qed
  have v: "dec_val (DecFin s c e) = of_int s * (real ?n / real ?m)"
    using True div_powi_nonpos [of e "1"] by (simp add: field_simps)
  have "real ?n / real ?m \<in> \<int> \<longleftrightarrow> ?m dvd ?n"
  proof
    assume "real ?n / real ?m \<in> \<int>"
    then obtain k where "real ?n / real ?m = of_int k" by (auto elim: Ints_cases)
    then have "real_of_int (int ?n) = of_int (k * int ?m)" by (simp add: field_simps)
    then have "int ?n = k * int ?m" by (simp only: of_int_eq_iff)
    then have "int ?m dvd int ?n" by simp
    then show "?m dvd ?n" by (simp only: of_nat_dvd_iff)
  next
    assume "?m dvd ?n"
    then show "real ?n / real ?m \<in> \<int>" by (metis Ints_of_nat real_of_nat_div)
  qed
  moreover have "of_int s * (real ?n / real ?m) \<in> \<int> \<longleftrightarrow> real ?n / real ?m \<in> \<int>"
    using assms(1) by (auto simp: sgn_ok_def)
  moreover have "all_zero (drop (length c - ?d) c) \<longleftrightarrow> ?m dvd ?n"
    using drop by (simp add: mod_eq_0_iff_dvd flip: digits_val_eq_0)
  ultimately show ?thesis unfolding v using True by (simp add: u)
next
  case False
  then have "dec_val (DecFin s c e) = of_int (s * int (digits_val c * 10 ^ nat e))"
    using powi_nonneg [of e] by simp
  then have "dec_val (DecFin s c e) \<in> \<int>" by (metis Ints_of_int)
  with False show ?thesis by simp
qed

lemma round_int_abs_ge:
  assumes "of_nat k \<le> \<bar>x\<bar>" shows "int k \<le> \<bar>round_int mode x\<bar>"
proof -
  have d: "\<bar>x - of_int (rne x)\<bar> \<le> 1 / 2" using rne_iff [of x "rne x"] by auto
  then have "of_nat k - 1 / 2 \<le> \<bar>real_of_int (rne x)\<bar>" using assms by linarith
  then have r: "int k \<le> \<bar>rne x\<bar>" by linarith
  consider "of_nat k \<le> x" | "x \<le> - of_nat k" using assms by linarith
  then have "int k \<le> \<bar>\<lfloor>x\<rfloor>\<bar> \<and> int k \<le> \<bar>\<lceil>x\<rceil>\<bar>" by cases linarith+
  with r show ?thesis by (cases mode) auto
qed

lemma round_int_sign: "sgn_ok s \<Longrightarrow> 0 \<le> y \<Longrightarrow> 0 \<le> s * round_int mode (of_int s * y)"
proof -
  assume "sgn_ok s" "0 \<le> y"
  moreover have "0 \<le> rne y" using rne_iff [of y "rne y"] \<open>0 \<le> y\<close> by linarith
  ultimately show ?thesis by (cases mode) (auto simp: sgn_ok_def ceiling_minus floor_minus)
qed

text \<open>
  \<open>quantize_integral\<close> rounds to a whole number in the direction
  of its mode and answers it with exponent zero, exactly when the whole number has at most 34
  digits; a carry into a 35th digit is refused as well.
\<close>

theorem quantize_integral_correct:
  fixes mode :: round_mode
  assumes "sgn_ok s" "coeff34 c" "\<bar>e\<bar> \<le> 2 ^ 29"
  defines "t \<equiv> round_int mode (dec_val (DecFin s c e))"
  shows "quantize_integral (DecFin s c e) mode =
    (if \<bar>t\<bar> < 10 ^ 34 then Some (DecFin s (nat_digits (nat \<bar>t\<bar>)) 0) else None)"
proof -
  have c: "length c \<le> 34" "strip_leading c = c" "nat_digits (digits_val c) = c"
    using assms coeff34_canonical by (simp_all add: coeff34_def)
  have w: "i32_wrap (e + i32_wrap (int (length c))) = e + int (length c)"
  proof -
    have "in_i32 (int (length c))" "in_i32 (e + int (length c))" using assms(3) c(1) by (auto simp: in_i32_def)
    then show ?thesis by simp
  qed
  have big: "10 ^ 34 \<le> \<bar>dec_val (DecFin s c e)\<bar> \<longleftrightarrow> 34 < e + int (length c)" if "digits_val c \<noteq> 0"
    using powi_le_dec [of "digits_val c" 34 e] that c(3)
    by (simp add: abs_dec_val assms(1) del: dec_val.simps)
  obtain k e2 where r: "round_to_exp (DecFin s c e) 0 mode = Some (DecFin s k e2)" "coeff34 k"
      "dec_val (DecFin s k e2) = of_int t" "e2 = 0 \<or> 0 < e2 \<and> length k = 34"
    using round_to_exp_rounds [OF assms(1-3), of 0 mode] by (auto simp: t_def simp del: dec_val.simps)
  have k: "real (digits_val k) * 10 powi e2 = of_int \<bar>t\<bar>"
    using r(3) abs_dec_val [OF assms(1), of k e2] by (simp del: dec_val.simps)
  show ?thesis
  proof (cases "digits_val c \<noteq> 0 \<and> 34 < e + int (length c)")
    case True
    then have "of_nat (10 ^ 34) \<le> \<bar>dec_val (DecFin s c e)\<bar>" using big by simp
    then have "int (10 ^ 34) \<le> \<bar>t\<bar>" unfolding t_def by (rule round_int_abs_ge)
    then show ?thesis using True c w by (simp add: MAX_DIGITS_def digits_val_eq_0)
  next
    case False
    then have q: "quantize_integral (DecFin s c e) mode = (if e2 > 0 \<and> \<not> all_zero k then None else Some (DecFin s k e2))"
      using c w r(1) by (auto simp: MAX_DIGITS_def simp flip: digits_val_eq_0 simp del: round_to_exp.simps)
    show ?thesis
    proof (cases "e2 = 0")
      case True
      then have "real (digits_val k) = of_int \<bar>t\<bar>" using k by simp
      then have "int (digits_val k) = \<bar>t\<bar>" by linarith
      moreover have "digits_val k < 10 ^ 34" using r(2) coeff34_canonical(1) [of k] coeff34_nat_digits [of "digits_val k"] by simp
      ultimately have "\<bar>t\<bar> < 10 ^ 34" "nat \<bar>t\<bar> = digits_val k" by simp_all
      then show ?thesis using q True r(2) coeff34_canonical(1) [of k] by simp
    next
      case False
      then have e2: "0 < e2" "length k = 34" using r(4) by auto
      have nz: "0 < digits_val k" using hd_nonzero_ge [of k] e2(2) r(2) by (auto simp: coeff34_def)
      have "10 powi 34 \<le> real (digits_val k) * 10 powi e2"
        using powi_le_dec [OF nz, of 34 e2] e2 r(2) coeff34_canonical(1) [of k] by simp
      then have "\<not> \<bar>t\<bar> < 10 ^ 34" unfolding k by (simp add: not_less)
      then show ?thesis using q e2(1) nz by (simp flip: digits_val_eq_0)
    qed
  qed
qed

theorem quantize_integral_correct_witness:
  "sgn_ok 1 \<and> coeff34 [2, 5] \<and> \<bar>-1\<bar> \<le> (2::int) ^ 29 \<and>
   quantize_integral (DecFin 1 [2, 5] (-1)) Ceil =
    (if \<bar>round_int Ceil (dec_val (DecFin 1 [2, 5] (-1)))\<bar> < 10 ^ 34
     then Some (DecFin 1 (nat_digits (nat \<bar>round_int Ceil (dec_val (DecFin 1 [2, 5] (-1)))\<bar>)) 0) else None)"
  using quantize_integral_correct [of 1 "[2, 5]" "-1" Ceil]
  by (simp add: sgn_ok_def coeff34_def del: quantize_integral.simps dec_val.simps round_int.simps)

section \<open>Two consequences\<close>

text \<open>
  The decimal branch of \<open>$subtract\<close> (\<open>op_subtract\<close> in \<open>expressions.rs\<close>): the sum with the
  negated right operand.
\<close>

definition dec_subtract :: "dec \<Rightarrow> dec \<Rightarrow> dec option" where
  "dec_subtract a b = dec_add a (neg b)"

text \<open>
  C35: on finite decimals \<open>$subtract\<close> is the correctly rounded
  difference, but \<open>neg\<close> leaves an infinity as it is, so subtracting an infinity answers that
  same infinity: \<open>x - Infinity\<close> is \<open>+Infinity\<close> and \<open>Infinity - Infinity\<close> is \<open>Infinity\<close>, not
  \<open>NaN\<close>.
\<close>

lemma dec_val_neg: "dec_val (neg d) = - dec_val d"
  by (cases d) simp_all

lemma dec128_neg: "dec128 (DecFin s c e) \<Longrightarrow> dec128 (DecFin (- s) c e)"
  by (auto simp: sgn_ok_def)

theorem subtract_infinity_kept:
  assumes "dec128 (DecFin s1 c1 e1)" "dec128 (DecFin s2 c2 e2)"
  shows "(\<exists>r. dec_subtract (DecFin s1 c1 e1) (DecFin s2 c2 e2) = Some r \<and>
      dec_val r = round_sig 34 (dec_val (DecFin s1 c1 e1) - dec_val (DecFin s2 c2 e2))) \<and>
    dec_subtract (DecFin s1 c1 e1) (DecInf y) = Some (DecInf y) \<and>
    dec_subtract (DecInf y) (DecInf y) = Some (DecInf y)"
proof -
  have "\<exists>r. dec_add (DecFin s1 c1 e1) (neg (DecFin s2 c2 e2)) = Some r \<and>
      dec_val r = round_sig 34 (dec_val (DecFin s1 c1 e1) + dec_val (neg (DecFin s2 c2 e2)))"
    using add_rounds [OF assms(1) dec128_neg [OF assms(2)]] unfolding neg.simps by blast
  then show ?thesis unfolding dec_val_neg by (simp add: dec_subtract_def del: dec_val.simps)
qed

theorem subtract_infinity_kept_witness:
  "dec128 (DecFin 1 [5] 0) \<and> dec128 (DecFin 1 [2, 5] (-1)) \<and>
   dec_subtract (DecFin 1 [5] 0) (DecInf 1) = Some (DecInf 1)"
  using subtract_infinity_kept [of 1 "[5]" 0 1 "[2, 5]" "-1" 1] by (simp add: sgn_ok_def coeff34_def)

text \<open>
  C36: a product below the normal range is rounded twice, to 34
  digits by \<open>mul\<close> and to the smallest quantum by \<open>clamp\<close>: for \<open>500000000000000000005E-3100\<close>
  and \<open>699999999999999999993E-3117\<close> the product is \<open>3.4999...\<close> quanta, which is nearest to 3,
  and the answer is 4.
\<close>

lemma mul_mag_eqI:
  assumes "digits a" "digits b" "digits r" "r \<noteq> []" "hd r \<noteq> 0" "digits_val a * digits_val b = digits_val r"
  shows "mul_mag a b = r"
  using assms by (simp add: mul_mag_val nat_digits_canonical)

lemma product_quanta:
  "dec_val (DecFin 1 x i) * dec_val (DecFin 1 y j) / 10 powi m = real (digits_val x * digits_val y) * 10 powi (i + j - m)"
  by (simp add: power_int_add power_int_diff)

theorem subnormal_product_rounds_twice:
  defines "a \<equiv> DecFin 1 [5,0,0,0,0,0,0,0,0,0,0,0,0,0,0,0,0,0,0,0,5] (-3100)"
    and "b \<equiv> DecFin 1 [6,9,9,9,9,9,9,9,9,9,9,9,9,9,9,9,9,9,9,9,3] (-3117)"
  shows "map_option clamp (dec_mul a b) = Some (DecFin 1 [4] (-6176)) \<and>
    rne (dec_val a * dec_val b / 10 powi MIN_EXP) = 3"
proof -
  let ?x = "[5,0,0,0,0,0,0,0,0,0,0,0,0,0,0,0,0,0,0,0,5] :: nat list"
  let ?y = "[6,9,9,9,9,9,9,9,9,9,9,9,9,9,9,9,9,9,9,9,3] :: nat list"
  let ?p = "[3,4,9,9,9,9,9,9,9,9,9,9,9,9,9,9,9,9,9,9,9,9,9,9,9,9,9,9,9,9,9,9,9,9,9,9,9,9,9,9,6,5] :: nat list"
  have m: "mul_mag ?x ?y = ?p" by (rule mul_mag_eqI) simp_all
  have f: "finish 1 ?p (-6217) = Some (DecFin 1 [3,5,0,0,0,0,0,0,0,0,0,0,0,0,0,0,0,0,0,0,0,0,0,0,0,0,0,0,0,0,0,0,0,0] (-6209))"
    by code_simp
  have c: "clamp (DecFin 1 [3,5,0,0,0,0,0,0,0,0,0,0,0,0,0,0,0,0,0,0,0,0,0,0,0,0,0,0,0,0,0,0,0,0] (-6209)) = DecFin 1 [4] (-6176)"
    by code_simp
  have "dec_val a * dec_val b / 10 powi MIN_EXP = real (digits_val ?x * digits_val ?y) * 10 powi (-3100 + -3117 - MIN_EXP)"
    unfolding a_def b_def by (rule product_quanta)
  also have "(-3100::int) + -3117 - MIN_EXP = -41" by (simp add: MIN_EXP_def)
  also have "real (digits_val ?x * digits_val ?y) * 10 powi (-41) = 349999999999999999999999999999999999999965 / 10 ^ 41"
  proof -
    have "digits_val ?x * digits_val ?y = 349999999999999999999999999999999999999965" by simp
    moreover have "(10::real) powi (-41) = 1 / 10 ^ 41" by (simp add: power_int_def power_divide)
    ultimately show ?thesis by simp
  qed
  finally have v: "dec_val a * dec_val b / 10 powi MIN_EXP = 349999999999999999999999999999999999999965 / 10 ^ 41" .
  have "rne (dec_val a * dec_val b / 10 powi MIN_EXP) = 3" unfolding v rne_iff by simp
  moreover have "map_option clamp (dec_mul a b) = Some (DecFin 1 [4] (-6176))"
    using m f c by (simp add: a_def b_def i32_checked_def in_i32_def del: clamp.simps)
  ultimately show ?thesis by blast
qed

end
