(* ===== verification/Decimal_Div.thy ===== *)
theory Decimal_Div
  imports Decimal_Range
begin

text \<open>
  Division, remainder and square root of \<open>secantus-core/src/decimal.rs\<close>. Each is compared
  with the real operation: the quotients and the root are the real result rounded once to 34
  digits, the remainder is exact. The loops that walk a result towards its ideal exponent
  keep its value.
\<close>


section \<open>Walking an exponent towards its ideal\<close>

function strip_to :: "nat list \<Rightarrow> int \<Rightarrow> int \<Rightarrow> nat list \<times> int" where
  "strip_to q ex ideal =
     (if ex < ideal \<and> length q > 1 \<and> last q = 0 then strip_to (butlast q) (ex + 1) ideal else (q, ex))"
  by pat_completeness auto
termination
  by (relation "measure (\<lambda>(q, ex, ideal). length q)") auto

function pad_to :: "nat list \<Rightarrow> int \<Rightarrow> int \<Rightarrow> nat list \<times> int" where
  "pad_to c ex ideal =
     (if ex > ideal \<and> length c < MAX_DIGITS then pad_to (c @ [0]) (ex - 1) ideal else (c, ex))"
  by pat_completeness auto
termination
  by (relation "measure (\<lambda>(c, ex, ideal). nat (ex - ideal))") auto

declare strip_to.simps [simp del] pad_to.simps [simp del]

section \<open>Division by a count\<close>

fun div_int :: "dec \<Rightarrow> int \<Rightarrow> dec option" where
  "div_int DecNan n = (if n = 0 then None else Some DecNan)"
| "div_int (DecInf x) n = (if n = 0 then None else Some (DecInf (x * (if n < 0 then -1 else 1))))"
| "div_int (DecFin s1 c1 e1) n =
     (if n = 0 then None
      else let nsign = (if n < 0 then -1 else 1); nmag = nat \<bar>n\<bar>
           in if all_zero c1 then Some (DecFin (s1 * nsign) [0] e1)
              else let ndigits = length (nat_to_string nmag);
                       shift = int ndigits - int (length c1) + int MAX_DIGITS + 1
                   in if shift \<le> 0 \<or> shift > int WORK_DIGITS then None
                      else let wide = c1 @ replicate (nat shift) 0;
                               (q, r) = divmod_small wide nmag;
                               ex = e1 - shift;
                               (q, ex) = (if r \<noteq> 0 then (if last q mod 5 = 0 then add_mag q [1] else q, ex)
                                          else strip_to q ex e1)
                           in case i32_checked ex of None \<Rightarrow> None | Some ex \<Rightarrow> finish (s1 * nsign) q ex)"

lemma last_mod10: "digits ds \<Longrightarrow> ds \<noteq> [] \<Longrightarrow> last ds = digits_val ds mod 10"
  by (induction ds rule: rev_induct) (auto simp: digits_val_append)

lemma strip_to_val:
  assumes "digits q" "q \<noteq> []"
  shows "\<exists>q2 e2. strip_to q ex ideal = (q2, e2) \<and> digits q2 \<and> q2 \<noteq> [] \<and> length q2 \<le> length q \<and> ex \<le> e2 \<and>
    e2 \<le> max ex ideal \<and> int (length q2) + e2 = int (length q) + ex \<and>
    (hd q \<noteq> 0 \<longrightarrow> hd q2 \<noteq> 0) \<and>
    real (digits_val q2) * 10 powi e2 = real (digits_val q) * 10 powi ex"
  using assms
proof (induction q ex ideal rule: strip_to.induct)
  case (1 q ex ideal)
  show ?case
  proof (cases "ex < ideal \<and> length q > 1 \<and> last q = 0")
    case True
    obtain p where p: "q = p @ [0]" "p \<noteq> []" using True by (cases q rule: rev_cases) auto
    have IH: "\<exists>q2 e2. strip_to p (ex + 1) ideal = (q2, e2) \<and> digits q2 \<and> q2 \<noteq> [] \<and> length q2 \<le> length p \<and> ex + 1 \<le> e2 \<and>
      e2 \<le> max (ex + 1) ideal \<and> int (length q2) + e2 = int (length p) + (ex + 1) \<and> (hd p \<noteq> 0 \<longrightarrow> hd q2 \<noteq> 0) \<and>
      real (digits_val q2) * 10 powi e2 = real (digits_val p) * 10 powi (ex + 1)"
      using "1.IH" [OF True] "1.prems" p by simp
    have "real (digits_val p) * 10 powi (ex + 1) = real (digits_val q) * 10 powi ex"
      by (simp add: p digits_val_append power_int_add)
    moreover have "strip_to q ex ideal = strip_to p (ex + 1) ideal" using True p by (subst strip_to.simps) simp
    ultimately show ?thesis using IH p True by fastforce
  next
    case False
    then have "strip_to q ex ideal = (q, ex)" by (subst strip_to.simps) auto
    with "1.prems" show ?thesis by simp
  qed
qed

lemma pad_to_val:
  assumes "digits c" "c \<noteq> []" "length c \<le> 34"
  shows "\<exists>c2 e2. pad_to c ex ideal = (c2, e2) \<and> digits c2 \<and> c2 \<noteq> [] \<and> length c2 \<le> 34 \<and> (hd c \<noteq> 0 \<longrightarrow> hd c2 \<noteq> 0) \<and>
    real (digits_val c2) * 10 powi e2 = real (digits_val c) * 10 powi ex"
  using assms
proof (induction c ex ideal rule: pad_to.induct)
  case (1 c ex ideal)
  show ?case
  proof (cases "ex > ideal \<and> length c < MAX_DIGITS")
    case True
    have IH: "\<exists>c2 e2. pad_to (c @ [0]) (ex - 1) ideal = (c2, e2) \<and> digits c2 \<and> c2 \<noteq> [] \<and> length c2 \<le> 34 \<and>
      (hd (c @ [0]) \<noteq> 0 \<longrightarrow> hd c2 \<noteq> 0) \<and>
      real (digits_val c2) * 10 powi e2 = real (digits_val (c @ [0])) * 10 powi (ex - 1)"
      using "1.IH" [OF True] "1.prems" True by (simp add: MAX_DIGITS_def)
    have "real (digits_val (c @ [0])) * 10 powi (ex - 1) = real (digits_val c) * 10 powi ex"
      by (simp add: digits_val_append power_int_diff)
    moreover have "pad_to c ex ideal = pad_to (c @ [0]) (ex - 1) ideal" using True by (subst pad_to.simps) simp
    ultimately show ?thesis using IH "1.prems" by simp
  next
    case False
    then have "pad_to c ex ideal = (c, ex)" by (subst pad_to.simps) auto
    with "1.prems" show ?thesis by simp
  qed
qed

text \<open>
  A truncated quotient with a nonzero remainder rounds as the exact one once a last digit 0
  or 5 is nudged up by one.
\<close>

lemma five_step: "5 * t < 5 * (p :: nat) \<longleftrightarrow> 5 * t + 1 < 5 * p" "5 * t + 1 \<noteq> 5 * (p :: nat)"
  by presburger+

lemma rne_nudged:
  assumes "10 ^ j = m" "0 < j" "real q < y" "y < real q + 1"
  shows "rne (real (if q mod 5 = 0 then q + 1 else q) / real m) = rne (y / real m)"
proof -
  obtain i where i: "j = Suc i" using assms(2) by (cases j) auto
  let ?h = "5 * 10 ^ i :: nat"
  have m: "m = 2 * ?h" "0 < m" "even m" using assms(1) i by auto
  let ?r = "q mod m" and ?k = "q div m"
  have r5: "?r mod 5 = q mod 5" using m by (simp add: mod_mod_cancel)
  have y: "rne (y / real m) = (if ?r < ?h then int ?k else int ?k + 1)"
    using rne_floor [OF m(2,3), of q y] assms(3,4) m(1) by auto
  show ?thesis
  proof (cases "q mod 5 = 0")
    case False
    then have "?r \<noteq> ?h" using r5 by auto
    then show ?thesis unfolding y using False rne_floor [OF m(2,3), of q "real q"] m(1) by auto
  next
    case True
    have "?r mod 5 = 0" using True r5 by simp
    then obtain t where t: "?r = 5 * t" by auto
    have "5 * t < m" using m(2) by (simp flip: t)
    then have "t < 2 * 10 ^ i" using m(1) by linarith
    then have lt: "?r + 1 < m" using t m(1) by linarith
    have "(q + 1) mod m = ?r + 1" "(q + 1) div m = ?k"
      using lt by (simp_all add: mod_Suc div_Suc)
    moreover have "?r < ?h \<longleftrightarrow> ?r + 1 < ?h" "?r + 1 \<noteq> ?h" unfolding t by (rule five_step)+
    ultimately show ?thesis unfolding y using True rne_floor [OF m(2,3), of "q + 1" "real (q + 1)"] m(1) by auto
  qed
qed

lemma round_sig_nudged:
  assumes "10 ^ 34 \<le> q" "real q < y" "y < real q + 1"
  shows "round_sig 34 (real (if q mod 5 = 0 then q + 1 else q) * 10 powi e) = round_sig 34 (y * 10 powi e)"
proof -
  let ?q = "if q mod 5 = 0 then q + 1 else q" and ?L = "length (nat_digits q)"
  have L: "34 < ?L" using length_nat_digits_le [of 34 q] assms(1) by simp
  have "0 < q" using assms(1) by (metis gr0I not_le zero_less_numeral zero_less_power)
  then have b: "10 ^ (?L - 1) \<le> q" "q < 10 ^ ?L" by (rule nat_digits_bounds)+
  have "(10::nat) ^ ?L mod 5 = 0" using L by (cases ?L) auto
  moreover have "Suc q mod 5 \<noteq> 0" if "q mod 5 = 0" using that by presburger
  ultimately have "?q \<noteq> 10 ^ ?L" using b by (auto split: if_splits)
  with b have q': "10 ^ (?L - 1) \<le> ?q" "?q < 10 ^ ?L" by (auto split: if_splits)
  have r: "real (10 ^ (?L - 1)) \<le> real ?q" "real ?q < real (10 ^ ?L)" "real (10 ^ (?L - 1)) \<le> real q" "real q + 1 \<le> real (10 ^ ?L)"
    using q' b by (simp_all only: of_nat_le_iff of_nat_less_iff)
  have pw: "(10::real) powi (int ?L - int 34) = real (10 ^ (?L - 34))"
    using L powi_nonneg [of "int ?L - 34"] nat_int_minus [of 34 ?L] by simp
  have "rne (real ?q / real (10 ^ (?L - 34))) = rne (y / real (10 ^ (?L - 34)))"
    using rne_nudged [OF refl _ assms(2,3), of "?L - 34"] L by simp
  moreover have "round_sig 34 (real ?q * 10 powi e) =
      of_int (rne (real ?q / 10 powi (int ?L - int 34))) * 10 powi (int ?L - int 34 + e)"
    using r L by (intro round_sig_scaled) simp_all
  moreover have "round_sig 34 (y * 10 powi e) =
      of_int (rne (y / 10 powi (int ?L - int 34))) * 10 powi (int ?L - int 34 + e)"
  proof (rule round_sig_scaled)
    have "10 ^ (?L - 1) \<le> real q" "real q + 1 \<le> 10 ^ ?L" using r(3,4) by (simp_all only: of_nat_power of_nat_numeral)
    with assms show "10 ^ (?L - 1) \<le> y" "y < 10 ^ ?L" by linarith+
  qed (use L in simp)
  ultimately show ?thesis unfolding pw by (simp only:)
qed

text \<open>
  the average's division by a count (any nonzero \<open>i64\<close>) is
  never given up on, and is the exact quotient rounded once to 34 digits.
\<close>

theorem div_int_correctly_rounded:
  assumes "dec128 (DecFin s c e)" "n \<noteq> 0" "in_i64 n"
  shows "\<exists>k e2. div_int (DecFin s c e) n = Some (DecFin (s * (if n < 0 then -1 else 1)) k e2) \<and> coeff34 k \<and>
    dec_val (DecFin (s * (if n < 0 then -1 else 1)) k e2) = round_sig 34 (dec_val (DecFin s c e) / of_int n)"
proof -
  define ns :: int where "ns = (if n < 0 then -1 else 1)"
  define m where "m = nat \<bar>n\<bar>"
  have sg: "sgn_ok (s * ns)" using assms(1) by (auto simp: sgn_ok_def ns_def)
  have m: "0 < m" "m \<le> 2 ^ 63" "real_of_int n = of_int ns * real m"
    using assms(2,3) by (auto simp: m_def ns_def in_i64_def)
  have c: "digits c" "c \<noteq> []" "length c \<le> 34" "nat_digits (digits_val c) = c" "-6176 \<le> e" "e \<le> 6111"
    using assms(1) coeff34_canonical by (auto simp: coeff34_def)
  have quot: "dec_val (DecFin s c e) / of_int n = of_int (s * ns) * (real (digits_val c) / real m * 10 powi e)"
    unfolding m(3) by (simp add: ns_def)
  show ?thesis
  proof (cases "digits_val c = 0")
    case True
    then have "div_int (DecFin s c e) n = Some (DecFin (s * ns) [0] e)"
      using assms(2) by (simp add: ns_def digits_val_eq_0)
    then show ?thesis using True by (auto simp: ns_def coeff34_def round_sig_def)
  next
    case False
    let ?nd = "length (nat_to_string m)"
    let ?sh = "int ?nd - int (length c) + 35"
    have nd: "?nd = length (nat_digits m)" by (simp add: nat_to_string_ascii)
    have "m < 10 ^ 19" using m(2) by simp
    then have nd19: "?nd \<le> 19" "0 < ?nd" using length_nat_digits_le [of 19 m] by (simp_all add: nd length_greater_0_conv)
    have sh: "0 < ?sh" "?sh \<le> 54" "int (length c) + ?sh = int ?nd + 35" using nd19 c(3) by linarith+
    let ?w = "c @ replicate (nat ?sh) 0"
    have z: "digits_val (replicate k 0) = 0" for k by (simp add: digits_val_eq_0 all_zero_def)
    have w: "digits_val ?w = digits_val c * 10 ^ nat ?sh" "digits ?w" "?w \<noteq> []"
      using c by (simp_all add: digits_val_append z)
    have "length c + nat ?sh = ?nd + 35" using sh by linarith
    then have lw: "length ?w = ?nd + 35" by simp
    define N where "N = digits_val ?w"
    define q where "q = N div m" define r where "r = N mod m"
    have dm: "divmod_small ?w m = (nat_digits q, r)"
      using divmod_small_val [OF m(1) w(2,3)] by (simp add: N_def q_def r_def)
    have x: "real (digits_val c) / real m * 10 powi e = real N / real m * 10 powi (e - ?sh)"
    proof -
      have "real N = real (digits_val c) * 10 powi ?sh"
        unfolding N_def w(1) using sh(1) powi_nonneg [of ?sh] by simp
      moreover have "(10::real) powi e = 10 powi ?sh * 10 powi (e - ?sh)" by (simp flip: power_int_add)
      ultimately show ?thesis by simp
    qed
    have ls: "length (nat_digits q) \<le> 55"
    proof -
      have "q \<le> N" by (simp add: q_def)
      also have "N < 10 ^ (?nd + 35)"
        using digits_val_bound [OF w(2)] unfolding N_def lw .
      also have "(10::nat) ^ (?nd + 35) \<le> 10 ^ 54" using nd19 by (intro power_increasing) auto
      finally show ?thesis using length_nat_digits_le [of 54 q] by simp
    qed
    have step: "div_int (DecFin s c e) n =
        (let (q, ex) = (if r \<noteq> 0 then (if last (nat_digits q) mod 5 = 0 then add_mag (nat_digits q) [1] else nat_digits q, e - ?sh)
             else strip_to (nat_digits q) (e - ?sh) e)
         in case i32_checked ex of None \<Rightarrow> None | Some ex \<Rightarrow> finish (s * ns) q ex)"
      using assms(2) False sh dm
      by (simp add: Let_def m_def [symmetric] ns_def [symmetric] MAX_DIGITS_def WORK_DIGITS_def add.commute
          flip: digits_val_eq_0)
    have fin: "\<exists>k e2. finish (s * ns) d x = Some (DecFin (s * ns) k e2) \<and> coeff34 k \<and>
        dec_val (DecFin (s * ns) k e2) = of_int (s * ns) * round_sig 34 (real (digits_val d) * 10 powi x)"
      if "digits d" "d \<noteq> []" "length d \<le> 56" "in_i32 x" "x \<le> 7000" for d x
    proof -
      have "x + int (length d) < 2 ^ 31" using that by simp
      from finish_rounds [OF sg that(1,2,4) this] show ?thesis
        using round_sig_sign [of "s * ns" 34 "real (digits_val d) * 10 powi x"] sg
        by (auto simp: sgn_ok_def mult.assoc simp del: dec_val.simps div_int.simps)
    qed
    have ex: "in_i32 (e - ?sh)" using c sh by (simp add: in_i32_def)
    have goal: ?thesis if "\<exists>k e2. div_int (DecFin s c e) n = Some (DecFin (s * ns) k e2) \<and> coeff34 k \<and>
        dec_val (DecFin (s * ns) k e2) = of_int (s * ns) * round_sig 34 (real N / real m * 10 powi (e - ?sh))"
      using that round_sig_sign [of "s * ns" 34 "real N / real m * 10 powi (e - ?sh)"] sg
      unfolding quot x by (simp add: ns_def [symmetric] sgn_ok_def del: dec_val.simps div_int.simps)
    show ?thesis
    proof (cases "r = 0")
      case True
      obtain d x where st: "strip_to (nat_digits q) (e - ?sh) e = (d, x)" "digits d" "d \<noteq> []"
        "length d \<le> length (nat_digits q)" "e - ?sh \<le> x" "x \<le> max (e - ?sh) e"
        "real (digits_val d) * 10 powi x = real q * 10 powi (e - ?sh)"
        using strip_to_val [of "nat_digits q" "e - ?sh" e] by auto
      have N: "real N / real m = real q" using True m(1) unfolding q_def r_def
        by (metis dvd_eq_mod_eq_0 real_of_nat_div)
      have x: "in_i32 x" "x \<le> 7000" "length d \<le> 56" using st(4-6) c sh ls by (auto simp: in_i32_def)
      have "div_int (DecFin s c e) n = finish (s * ns) d x"
        unfolding step using True st(1) x(1) by (simp add: i32_checked_def)
      then show ?thesis
        using fin [OF st(2,3) x(3,1,2)] goal unfolding st(7) N by presburger
    next
      case False
      let ?d = "if last (nat_digits q) mod 5 = 0 then add_mag (nat_digits q) [1] else nat_digits q"
      have q5: "last (nat_digits q) mod 5 = q mod 5"
        using last_mod10 [of "nat_digits q"] by (simp add: mod_mod_cancel)
      have val: "digits_val ?d = (if q mod 5 = 0 then q + 1 else q)" unfolding q5 by (simp add: add_mag_val)
      have big: "10 ^ 34 \<le> q"
      proof -
        have "m * 10 ^ 34 \<le> 10 ^ ?nd * 10 ^ 34"
          using nat_digits_bounds(2) [OF m(1)] by (intro mult_right_mono) (simp_all add: nd)
        also have "\<dots> = 10 ^ (length c - 1 + nat ?sh)"
          unfolding power_add [symmetric] using sh c(2) by (intro arg_cong [of _ _ "(^) 10"]) (auto simp: Suc_le_eq)
        also have "\<dots> \<le> N" unfolding N_def w(1) power_add
          using nat_digits_bounds(1) [of "digits_val c"] \<open>digits_val c \<noteq> 0\<close> c(4) by (intro mult_right_mono) simp_all
        finally show ?thesis unfolding q_def using m(1) by (simp add: less_eq_div_iff_mult_less_eq mult.commute)
      qed
      have Nq: "real N = real q * real m + real r" unfolding q_def r_def
        by (metis div_mult_mod_eq of_nat_add of_nat_mult)
      have "0 < r" "r < m" using False m(1) by (simp_all add: r_def)
      then have y: "real q < real N / real m" "real N / real m < real q + 1"
        using m(1) by (simp_all add: Nq field_simps)
      have "length ?d \<le> 56" "?d \<noteq> []" "digits ?d"
        using length_add_one [of "nat_digits q"] ls by (auto split: if_splits)
      moreover have "div_int (DecFin s c e) n = finish (s * ns) ?d (e - ?sh)"
        unfolding step using False ex by (simp add: i32_checked_def)
      ultimately show ?thesis
        using fin [of ?d "e - ?sh"] ex c sh round_sig_nudged [OF big y, of "e - ?sh"]
        by (intro goal) (simp add: val del: dec_val.simps div_int.simps)
    qed
  qed
qed

theorem div_int_correctly_rounded_witness:
  "dec128 (DecFin 1 [1] 0) \<and> in_i64 (-3) \<and>
   (\<exists>k e2. div_int (DecFin 1 [1] 0) (-3) = Some (DecFin (1 * -1) k e2) \<and> coeff34 k \<and>
    dec_val (DecFin (1 * -1) k e2) = round_sig 34 (dec_val (DecFin 1 [1] 0) / of_int (-3)))"
  using div_int_correctly_rounded [of 1 "[1]" 0 "-3"]
  by (simp add: coeff34_def sgn_ok_def in_i64_def del: div_int.simps dec_val.simps)

section \<open>Remainder\<close>

fun dec_rem :: "dec \<Rightarrow> dec \<Rightarrow> dec option" where
  "dec_rem DecNan _ = Some DecNan"
| "dec_rem _ DecNan = Some DecNan"
| "dec_rem (DecInf _) _ = Some DecNan"
| "dec_rem other (DecInf _) = Some other"
| "dec_rem (DecFin s1 c1 e1) (DecFin s2 c2 e2) =
     (if all_zero (strip_leading c2) then None
      else let target = min e1 e2; x = scale_to c1 e1 target; y = scale_to c2 e2 target
           in case int_divmod_mag x y of
                None \<Rightarrow> None
              | Some (_, r) \<Rightarrow> Some (DecFin s1 (if r = [] then [0] else r) target))"

lemma trunc_ratio: "sgn_ok s \<Longrightarrow> round_int Trunc (of_int s * (real x / real y)) = s * int (x div y)"
  using floor_divide_of_nat_eq [of x y, where 'a = real]
  by (auto simp: sgn_ok_def ceiling_minus divide_less_0_iff zero_less_divide_iff)

text \<open>
  C24: the remainder of two finite decimals is exact at any spread of the exponents:
  the dividend less the divisor times the quotient truncated toward zero, with the dividend's
  sign and the exponent \<open>min e1 e2\<close>, and it always fits 34 digits.
\<close>

theorem rem_exact:
  assumes "dec128 (DecFin s1 c1 e1)" "dec128 (DecFin s2 c2 e2)" "dec_val (DecFin s2 c2 e2) \<noteq> 0"
  shows "\<exists>k. dec_rem (DecFin s1 c1 e1) (DecFin s2 c2 e2) = Some (DecFin s1 k (min e1 e2)) \<and> coeff34 k \<and>
    dec_val (DecFin s1 k (min e1 e2)) =
      dec_val (DecFin s1 c1 e1) -
      dec_val (DecFin s2 c2 e2) * of_int (round_int Trunc (dec_val (DecFin s1 c1 e1) / dec_val (DecFin s2 c2 e2)))"
proof -
  let ?t = "min e1 e2" let ?x = "scale_to c1 e1 ?t" and ?y = "scale_to c2 e2 ?t"
  let ?X = "digits_val ?x" and ?Y = "digits_val ?y"
  have a: "sgn_ok s1" "sgn_ok s2" "coeff34 c1" "coeff34 c2" "digits c1" "digits c2" "c1 \<noteq> []" "c2 \<noteq> []"
    "e1 - ?t < 2 ^ 31" "e2 - ?t < 2 ^ 31"
    using assms by (auto simp: coeff34_def)
  note x = scale_to_val [OF _ a(9) a(5,7), simplified] and y = scale_to_val [OF _ a(10) a(6,8), simplified]
  have nz: "digits_val c2 \<noteq> 0" using assms(3) by auto
  have Y: "0 < ?Y" using y(4) nz by (intro gr0I) auto
  let ?r = "nat_digits (?X mod ?Y)"
  have rem: "dec_rem (DecFin s1 c1 e1) (DecFin s2 c2 e2) = Some (DecFin s1 ?r ?t)"
    using nz int_divmod_mag_val [OF x(1,2) y(1) Y] by (simp add: Let_def flip: digits_val_eq_0)
  have small: "digits_val c < 10 ^ 34" if "coeff34 c" for c
    using that coeff34_nat_digits [of "digits_val c"] coeff34_canonical by simp
  have fits: "coeff34 ?r" unfolding coeff34_nat_digits
  proof (cases "e1 \<le> e2")
    case True
    then have "?X = digits_val c1" using x(4) by (simp add: min_absorb1)
    then show "?X mod ?Y < 10 ^ 34" using small [OF a(3)] by (metis le_less_trans mod_less_eq_dividend)
  next
    case False
    then have "?Y = digits_val c2" using y(4) by (simp add: min_absorb2)
    then show "?X mod ?Y < 10 ^ 34" using small [OF a(4)] Y by (metis less_trans mod_less_divisor)
  qed
  have vx: "dec_val (DecFin s1 c1 e1) = of_int s1 * (real ?X * 10 powi ?t)"
    and vy: "dec_val (DecFin s2 c2 e2) = of_int s2 * (real ?Y * 10 powi ?t)"
    using x(4) y(4) by (simp_all add: mult.assoc)
  have s: "sgn_ok (s1 * s2)" "of_int s2 * of_int s2 = (1::real)" using a(1,2) by (auto simp: sgn_ok_def)
  have "dec_val (DecFin s1 c1 e1) / dec_val (DecFin s2 c2 e2) = of_int (s1 * s2) * (real ?X / real ?Y)"
    unfolding vx vy using a(2) by (auto simp: sgn_ok_def)
  moreover have "round_int Trunc (of_int (s1 * s2) * (real ?X / real ?Y)) = s1 * s2 * int (?X div ?Y)"
    using s(1) by (rule trunc_ratio)
  ultimately have q: "round_int Trunc (dec_val (DecFin s1 c1 e1) / dec_val (DecFin s2 c2 e2)) = s1 * s2 * int (?X div ?Y)"
    by simp
  have m: "real (?X mod ?Y) = real ?X - real ?Y * real (?X div ?Y)"
    by (metis add_diff_cancel_left' div_mult_mod_eq mult.commute of_nat_add of_nat_mult)
  have "dec_val (DecFin s1 ?r ?t) = of_int s1 * (real ?X - real ?Y * real (?X div ?Y)) * 10 powi ?t" by (simp add: m)
  also have "\<dots> = of_int s1 * (real ?X * 10 powi ?t) - of_int s2 * (real ?Y * 10 powi ?t) * of_int (s1 * s2 * int (?X div ?Y))"
  proof -
    have "of_int s2 * (real ?Y * 10 powi ?t) * of_int (s1 * s2 * int (?X div ?Y)) =
        (of_int s2 * of_int s2) * (of_int s1 * (real ?Y * real (?X div ?Y)) * 10 powi ?t)" by simp
    then show ?thesis unfolding s(2) by (simp only: right_diff_distrib left_diff_distrib mult.assoc mult_1_left)
  qed
  finally have "dec_val (DecFin s1 ?r ?t) = dec_val (DecFin s1 c1 e1) - dec_val (DecFin s2 c2 e2) *
      of_int (round_int Trunc (dec_val (DecFin s1 c1 e1) / dec_val (DecFin s2 c2 e2)))" unfolding q unfolding vx vy .
  then show ?thesis using rem fits by blast
qed

theorem rem_exact_witness:
  "dec128 (DecFin 1 [1] 6111) \<and> dec128 (DecFin (-1) [7] 0) \<and> dec_val (DecFin (-1) [7] 0) \<noteq> 0 \<and>
   (\<exists>k. dec_rem (DecFin 1 [1] 6111) (DecFin (-1) [7] 0) = Some (DecFin 1 k (min 6111 0)) \<and> coeff34 k)"
proof -
  have "dec128 (DecFin 1 [1] 6111)" "dec128 (DecFin (-1) [7] 0)" "dec_val (DecFin (-1) [7] 0) \<noteq> 0"
    by (simp_all add: sgn_ok_def coeff34_def)
  then show ?thesis using rem_exact [of 1 "[1]" 6111 "-1" "[7]" 0] by blast
qed

section \<open>Square root\<close>

definition sqrt_round :: "nat list \<Rightarrow> bool \<Rightarrow> int \<Rightarrow> nat list \<times> int" where
  "sqrt_round rt rem_nonzero f =
     (let keep = MAX_DIGITS;
          dropped = length rt - keep;
          kept = take keep rt;
          guard = rt ! keep;
          sticky = ((\<exists>d \<in> set (drop (keep + 1) rt). d \<noteq> 0) \<or> rem_nonzero);
          last_odd = (kept \<noteq> [] \<and> last kept mod 2 = 1)
      in if guard > 5 \<or> (guard = 5 \<and> (sticky \<or> last_odd))
         then let kept2 = add_mag kept [1]
              in if length kept2 > keep then (take keep kept2, f + (int dropped + 1)) else (kept2, f + int dropped)
         else (kept, f + int dropped))"

definition sqrt_scale :: "nat \<Rightarrow> int \<Rightarrow> nat" where
  "sqrt_scale nc ex =
     (let k = 69 - nc in if i32_wrap (ex - int k) mod 2 \<noteq> 0 then k + 1 else k)"

fun dec_sqrt :: "dec \<Rightarrow> dec option" where
  "dec_sqrt DecNan = Some DecNan"
| "dec_sqrt (DecInf s) = (if s = 1 then Some (DecInf 1) else None)"
| "dec_sqrt (DecFin sign coeff ex) =
     (let mag = strip_leading coeff; zero = all_zero mag
      in if sign < 0 \<and> \<not> zero then None
         else let ideal = ex div 2
              in if zero then Some (DecFin sign [0] ideal)
                 else let k = sqrt_scale (length mag) ex;
                          n = mag @ replicate k 0;
                          f = i32_wrap (ex - int k) div 2;
                          (rt, r) = isqrt_mag n;
                          rem_nonzero = (\<not> (r = [] \<or> all_zero r));
                          exact = (\<not> rem_nonzero \<and> all_zero (drop (min MAX_DIGITS (length rt)) rt));
                          (coeff, exp2) = (if length rt > MAX_DIGITS then sqrt_round rt rem_nonzero f else (rt, f));
                          (coeff, exp2) = (if exact then (case strip_to coeff exp2 ideal of (c, e) \<Rightarrow> pad_to c e ideal)
                                           else (coeff, exp2))
                      in Some (DecFin 1 (strip_leading coeff) exp2))"

lemma sqrt_round_val:
  assumes "10 ^ 34 \<le> s" "s < 10 ^ 35" "real s \<le> y" "y < real s + 1" "nz \<longleftrightarrow> real s < y"
  shows "\<exists>ks b. sqrt_round (nat_digits s) nz f = (ks, b) \<and> digits ks \<and> length ks = 34 \<and> hd ks \<noteq> 0 \<and>
    real (digits_val ks) * 10 powi b = of_int (rne (y / 10)) * 10 powi (f + 1)"
proof -
  let ?rt = "nat_digits s" let ?k = "take 34 ?rt" and ?g = "?rt ! 34"
  have L: "length ?rt = 35" using length_nat_digits_eqI [of 34 s] assms(1,2) by simp
  have s0: "0 < s" using assms(1) by (metis gr0I not_le zero_less_numeral zero_less_power)
  have tail: "drop 34 ?rt = [?g]" using L by (simp add: Cons_nth_drop_Suc [symmetric])
  have k: "digits ?k" "length ?k = 34" "?k \<noteq> []" "hd ?k \<noteq> 0" using L hd_nat_digits [OF s0] by (auto simp: hd_take)
  have g: "?g < 10" using digits_nth [of ?rt 34] L by simp
  have "x div 10 = a \<and> x mod 10 = d" if "x = a * 10 + d" "d < 10" for x a d :: nat using that by simp
  moreover have "s = digits_val ?k * 10 + ?g" using digits_val_take_drop [of ?rt 34] L by (simp add: tail)
  ultimately have dm: "s div 10 = digits_val ?k" "s mod 10 = ?g" using g by blast+
  have odd: "last ?k mod 2 = 1 \<longleftrightarrow> odd (digits_val ?k)" using odd_last [OF k(3)] .
  let ?up = "?g > 5 \<or> ?g = 5 \<and> (nz \<or> odd (digits_val ?k))"
  have rn: "rne (y / 10) = int (digits_val ?k) + (if ?up then 1 else 0)"
    using rne_floor [of 10 s y] assms(3-5) by (auto simp: dm)
  have sr: "sqrt_round ?rt nz f =
      (if ?up then if length (add_mag ?k [1]) > 34 then (take 34 (add_mag ?k [1]), f + 2) else (add_mag ?k [1], f + 1)
       else (?k, f + 1))"
    using L k(3) odd by (auto simp: sqrt_round_def MAX_DIGITS_def Let_def)
  note up = carry_up [OF k(1,3,4), unfolded k(2)]
  show ?thesis
  proof (cases ?up)
    case False
    have "sqrt_round ?rt nz f = (?k, f + 1)" unfolding sr if_not_P [OF False] ..
    moreover have "rne (y / 10) = int (digits_val ?k)" unfolding rn if_not_P [OF False] by simp
    ultimately show ?thesis using k by simp
  next
    case True
    show ?thesis
    proof (cases "length (add_mag ?k [1]) > 34")
      case len: True
      let ?t = "take 34 (add_mag ?k [1])"
      have u: "digits ?t" "length ?t = 34" "hd ?t \<noteq> 0" "digits_val ?t * 10 = digits_val ?k + 1" using up len by auto
      have "real (digits_val ?t * 10) = of_int (rne (y / 10))" unfolding u(4) using rn True by simp
      then have "real (digits_val ?t) * 10 powi (f + 2) = of_int (rne (y / 10)) * 10 powi (f + 1)"
        by (simp add: power_int_add)
      moreover have "sqrt_round ?rt nz f = (?t, f + 2)" unfolding sr if_P [OF True] if_P [OF len] ..
      ultimately show ?thesis using u(1-3) by blast
    next
      case len: False
      let ?a = "add_mag ?k [1]"
      have u: "digits ?a" "length ?a = 34" "hd ?a \<noteq> 0" "digits_val ?a = digits_val ?k + 1" using up len by auto
      have "real (digits_val ?a) = of_int (rne (y / 10))" unfolding u(4) using rn True by simp
      moreover have "sqrt_round ?rt nz f = (?a, f + 1)" unfolding sr if_P [OF True] if_not_P [OF len] ..
      ultimately show ?thesis using u(1-3) by auto
    qed
  qed
qed

text \<open>The scaled radicand: 69 or 70 digits at an even exponent.\<close>

lemma sqrt_scale_props:
  assumes "0 < nc" "nc \<le> 34" "-6176 \<le> e" "e \<le> 6111"
  defines "k \<equiv> sqrt_scale nc e"
  shows "nc + k = 69 \<or> nc + k = 70" "even (e - int k)" "i32_wrap (e - int k) = e - int k"
proof -
  have "in_i32 (e - int j)" if "j \<le> 70" for j using assms that by (simp add: in_i32_def)
  then have w: "i32_wrap (e - int j) = e - int j" if "j \<le> 70" for j using that by simp
  have "69 - nc \<le> 70" "odd z \<longleftrightarrow> z mod 2 \<noteq> 0" for z :: int by (simp_all add: even_iff_mod_2_eq_zero)
  then have k: "k = (if odd (e - int (69 - nc)) then 69 - nc + 1 else 69 - nc)"
    by (simp only: k_def sqrt_scale_def Let_def w)
  then show "nc + k = 69 \<or> nc + k = 70" using assms(2) by auto
  show "even (e - int k)" unfolding k using assms(2) by (auto simp: of_nat_diff)
  show "i32_wrap (e - int k) = e - int k"
  proof -
    have "k \<le> 70" unfolding k using diff_le_self [of 69 nc] by (auto split: if_splits)
    then show ?thesis by (rule w)
  qed
qed

lemma sqrt_root_bounds:
  fixes s N :: nat
  assumes "s ^ 2 \<le> N" "N < (s + 1) ^ 2"
  shows "real s \<le> sqrt (real N)" "sqrt (real N) < real s + 1" "N - s ^ 2 \<noteq> 0 \<longleftrightarrow> real s < sqrt (real N)"
proof -
  have r: "real s ^ 2 \<le> real N" "real N < (real s + 1) ^ 2"
    using assms by (simp_all flip: of_nat_power of_nat_Suc of_nat_le_iff of_nat_less_iff add: add.commute)
  then show "real s \<le> sqrt (real N)" by (simp add: real_le_rsqrt)
  show "sqrt (real N) < real s + 1" using r(2) by (intro real_less_lsqrt) auto
  have "N - s ^ 2 \<noteq> 0 \<longleftrightarrow> s ^ 2 < N" by auto
  also have "\<dots> \<longleftrightarrow> real s ^ 2 < real N" by (simp flip: of_nat_power)
  also have "\<dots> \<longleftrightarrow> real s < sqrt (real N)" by (metis real_sqrt_less_iff real_sqrt_unique of_nat_0_le_iff)
  finally show "N - s ^ 2 \<noteq> 0 \<longleftrightarrow> real s < sqrt (real N)" .
qed

lemma root_35_digits:
  fixes s N :: nat
  assumes "s ^ 2 \<le> N" "N < (s + 1) ^ 2" "10 ^ 68 \<le> N" "N < 10 ^ 70"
  shows "10 ^ 34 \<le> s" "s < 10 ^ 35"
proof -
  have "(10 ^ 34) ^ 2 < (s + 1) ^ 2" using assms(2,3) by simp
  then have "10 ^ 34 < s + 1" by (rule power_less_imp_less_base) simp
  then show "10 ^ 34 \<le> s" by simp
  have "s ^ 2 < (10 ^ 35) ^ 2" using assms(1,4) by simp
  then show "s < 10 ^ 35" by (rule power_less_imp_less_base) simp
qed

lemma strip_pad_val:
  assumes "digits c" "length c = 34" "hd c \<noteq> 0"
  shows "\<exists>k e2. (case strip_to c ex ideal of (c, e) \<Rightarrow> pad_to c e ideal) = (k, e2) \<and> coeff34 k \<and>
    real (digits_val k) * 10 powi e2 = real (digits_val c) * 10 powi ex"
proof -
  have "c \<noteq> []" using assms(2) by auto
  then obtain d x where d: "strip_to c ex ideal = (d, x)" "digits d" "d \<noteq> []" "length d \<le> 34" "hd d \<noteq> 0"
    "real (digits_val d) * 10 powi x = real (digits_val c) * 10 powi ex"
    using strip_to_val [OF assms(1), of ex ideal] assms(2,3) by auto
  obtain k e2 where "pad_to d x ideal = (k, e2)" "digits k" "k \<noteq> []" "length k \<le> 34" "hd k \<noteq> 0"
    "real (digits_val k) * 10 powi e2 = real (digits_val d) * 10 powi x"
    using pad_to_val [OF d(2-4), of x ideal] d(5) by auto
  with d show ?thesis by (simp add: coeff34_def)
qed

text \<open>
  C13: the square root of a positive decimal128 value is the real square
  root rounded once to 34 digits, half to even; a negative value has none.
\<close>

theorem sqrt_correctly_rounded:
  assumes "dec128 (DecFin s c e)" "dec_val (DecFin s c e) \<noteq> 0"
  shows "if s < 0 then dec_sqrt (DecFin s c e) = None
    else \<exists>k e2. dec_sqrt (DecFin s c e) = Some (DecFin 1 k e2) \<and> coeff34 k \<and>
      dec_val (DecFin 1 k e2) = round_sig 34 (sqrt (dec_val (DecFin s c e)))"
proof (cases "s < 0")
  case True
  moreover have "\<not> all_zero c" using assms(2) by (auto simp flip: digits_val_eq_0)
  ultimately show ?thesis by (simp flip: digits_val_eq_0)
next
  case False
  have a: "s = 1" "digits c" "c \<noteq> []" "length c \<le> 34" "strip_leading c = c" "nat_digits (digits_val c) = c"
    "-6176 \<le> e" "e \<le> 6111" "digits_val c \<noteq> 0"
    using assms False coeff34_canonical by (auto simp: coeff34_def sgn_ok_def)
  define k where "k = sqrt_scale (length c) e"
  have nc: "0 < length c" using a(3) by simp
  note sc = sqrt_scale_props [OF nc a(4,7,8), folded k_def]
  obtain f where f: "e - int k = 2 * f" by (rule evenE [OF sc(2)])
  define N where "N = digits_val c * 10 ^ k"
  let ?n = "c @ replicate k 0"
  have z: "digits_val (replicate j 0) = 0" for j by (simp add: digits_val_eq_0 all_zero_def)
  have n: "digits ?n" "?n \<noteq> []" "digits_val ?n = N" using a by (simp_all add: N_def digits_val_append z)
  have "10 ^ (length c - 1) \<le> digits_val c" "digits_val c < 10 ^ length c"
    using nat_digits_bounds [of "digits_val c"] a(6,9) by simp_all
  then have "10 ^ (length c - 1) * 10 ^ k \<le> N" "N < 10 ^ length c * 10 ^ k" unfolding N_def by simp_all
  moreover have "(10::nat) ^ 68 \<le> 10 ^ (length c - 1 + k)" "(10::nat) ^ (length c + k) \<le> 10 ^ 70"
  proof -
    have "68 \<le> length c - 1 + k" "length c + k \<le> 70" using sc(1) nc by linarith+
    then show "(10::nat) ^ 68 \<le> 10 ^ (length c - 1 + k)" "(10::nat) ^ (length c + k) \<le> 10 ^ 70"
      by (meson one_le_numeral power_increasing)+
  qed
  ultimately have N: "10 ^ 68 \<le> N" "N < 10 ^ 70" by (simp_all add: power_add)
  obtain s' where s': "isqrt_mag ?n = (nat_digits s', nat_digits (N - s' ^ 2))" "s' ^ 2 \<le> N" "N < (s' + 1) ^ 2"
    using isqrt_mag_val [OF n(1,2)] n(3) by auto
  note b = root_35_digits [OF s'(2,3) N] and y = sqrt_root_bounds [OF s'(2,3)]
  have L: "length (nat_digits s') = 35" using length_nat_digits_eqI [of 34 s'] b by simp
  let ?nz = "\<not> all_zero (nat_digits (N - s' ^ 2))"
  have nz: "?nz \<longleftrightarrow> real s' < sqrt (real N)" unfolding y(3) [symmetric] by (simp flip: digits_val_eq_0)
  obtain ks b where ks: "sqrt_round (nat_digits s') ?nz f = (ks, b)" "digits ks" "length ks = 34" "hd ks \<noteq> 0"
    "real (digits_val ks) * 10 powi b = of_int (rne (sqrt (real N) / 10)) * 10 powi (f + 1)"
    using sqrt_round_val [OF b y(1,2) nz, of f] by blast
  have root: "sqrt (dec_val (DecFin s c e)) = sqrt (real N) * 10 powi f"
  proof -
    have "(10::real) powi e = 10 ^ k * (10 powi f) ^ 2"
    proof -
      have "e = int k + (f + f)" using f by linarith
      then have "(10::real) powi e = 10 powi (int k + (f + f))" by (simp only:)
      also have "\<dots> = 10 powi int k * 10 powi (f + f)" by (rule power_int_add) simp
      also have "(10::real) powi (f + f) = (10 powi f) ^ 2" unfolding power2_eq_square by (rule power_int_add) simp
      finally show ?thesis by simp
    qed
    then have "dec_val (DecFin s c e) = real N * (10 powi f) ^ 2" by (simp add: a(1) N_def)
    then show ?thesis by (simp add: real_sqrt_mult)
  qed
  have lo: "10 ^ 34 \<le> sqrt (real N)" "sqrt (real N) < 10 ^ 35"
  proof -
    have "real (10 ^ 34) \<le> real s'" "real s' + 1 \<le> real (10 ^ 35)" using b by (simp_all only: of_nat_le_iff)
    then show "10 ^ 34 \<le> sqrt (real N)" "sqrt (real N) < 10 ^ 35" using y by simp_all
  qed
  have rs: "round_sig 34 (sqrt (dec_val (DecFin s c e))) = real (digits_val ks) * 10 powi b"
    unfolding root ks(5) using round_sig_scaled [of 35 "sqrt (real N)" 34 f] lo by (simp add: add.commute)
  have c34: "coeff34 ks" using ks(2-4) by (auto simp: coeff34_def)
  have eq: "dec_sqrt (DecFin s c e) =
      (let (coeff, exp2) = (if \<not> ?nz \<and> all_zero (drop 34 (nat_digits s'))
             then (case strip_to ks b (e div 2) of (c2, e2) \<Rightarrow> pad_to c2 e2 (e div 2)) else (ks, b))
       in Some (DecFin 1 (strip_leading coeff) exp2))"
  proof -
    have "\<not> all_zero c" using a(9) by (simp flip: digits_val_eq_0)
    then show ?thesis
      using a(1,5) s'(1) ks(1) L sc(3) f by (simp add: Let_def k_def [symmetric] MAX_DIGITS_def)
  qed
  have fin: ?thesis if "dec_sqrt (DecFin s c e) = Some (DecFin 1 (strip_leading d) x)" "coeff34 d"
      "real (digits_val d) * 10 powi x = real (digits_val ks) * 10 powi b" for d x
    using that coeff34_canonical(2) [OF that(2)] False rs by (auto simp del: dec_sqrt.simps)
  show ?thesis
  proof (cases "\<not> ?nz \<and> all_zero (drop 34 (nat_digits s'))")
    case True
    obtain d x where d: "(case strip_to ks b (e div 2) of (c2, e2) \<Rightarrow> pad_to c2 e2 (e div 2)) = (d, x)" "coeff34 d"
      "real (digits_val d) * 10 powi x = real (digits_val ks) * 10 powi b"
      using strip_pad_val [OF ks(2-4), of "e div 2" b] by blast
    show ?thesis by (rule fin [OF _ d(2,3)]) (simp only: eq if_P [OF True] d(1) Let_def prod.case)
  next
    case no: False
    show ?thesis by (rule fin [OF _ c34 refl]) (simp only: eq if_not_P [OF no] Let_def prod.case)
  qed
qed

theorem sqrt_correctly_rounded_witness:
  "dec128 (DecFin 1 [2] 0) \<and> dec_val (DecFin 1 [2] 0) \<noteq> 0 \<and>
   (\<exists>k e2. dec_sqrt (DecFin 1 [2] 0) = Some (DecFin 1 k e2) \<and> coeff34 k \<and>
      dec_val (DecFin 1 k e2) = round_sig 34 (sqrt (dec_val (DecFin 1 [2] 0))))"
proof -
  have "dec128 (DecFin 1 [2] 0)" "dec_val (DecFin 1 [2] 0) \<noteq> 0" by (simp_all add: sgn_ok_def coeff34_def)
  moreover have "\<not> (1::int) < 0" by simp
  ultimately show ?thesis using sqrt_correctly_rounded [of 1 "[2]" 0] by (simp del: dec_sqrt.simps dec_val.simps)
qed

end
