(* ===== verification/Decimal_Quotient.thy ===== *)
theory Decimal_Quotient
  imports Decimal_Div
begin

text \<open>
  Division of two decimals in \<open>secantus-core/src/decimal.rs\<close>: schoolbook long division at a
  working precision (\<open>hp_div\<close>), the guarded rounding to 34 digits (\<open>hp_round_34\<close>), the exact
  fallback for a quotient that reads as a tie (\<open>round_exact_quotient\<close>) and \<open>div\<close> itself. The
  quotient of any two decimal128 values is shown to be correctly rounded although it is
  rounded twice on the way.
\<close>

section \<open>Long division at a working precision\<close>

definition hp_norm :: "int \<Rightarrow> nat list \<Rightarrow> int \<Rightarrow> nat \<Rightarrow> dec" where
  "hp_norm sign coeff ex prec =
     (let c = strip_leading coeff; (c, bump) = round_half_even c prec
      in DecFin sign c (i32_wrap (ex + bump)))"

definition hp_from_i64 :: "int \<Rightarrow> int \<Rightarrow> dec" where
  "hp_from_i64 n ex = DecFin (if n < 0 then -1 else 1) (if n = 0 then [0] else nat_digits (nat \<bar>n\<bar>)) ex"

text \<open>
  The digit loop: \<open>Some None\<close> is the early return of a zero quotient, \<open>None\<close> a loop that does
  not end.
\<close>

partial_function (option) hp_div_loop ::
  "nat list \<Rightarrow> nat list \<Rightarrow> nat \<Rightarrow> nat \<Rightarrow> nat list \<Rightarrow> nat list \<Rightarrow> nat \<Rightarrow> bool \<Rightarrow> (nat list \<times> nat) option option" where
  "hp_div_loop num den want limit r quot taken started =
     (if length quot < want
      then (case quot_digit (strip_leading (r @ [if taken < length num then num ! taken else 0])) den 0 of
              None \<Rightarrow> None
            | Some (cur, q) \<Rightarrow>
                (let taken = taken + 1; started = (started \<or> q > 0);
                     quot = (if started then quot @ [q] else quot)
                 in if \<not> started \<and> taken > limit then Some None
                    else hp_div_loop num den want limit cur quot taken started))
      else Some (Some (quot, taken)))"

fun hp_div :: "dec \<Rightarrow> dec \<Rightarrow> nat \<Rightarrow> dec option" where
  "hp_div (DecFin s1 c1 e1) (DecFin s2 c2 e2) prec =
     (let num = strip_leading c1; den = strip_leading c2
      in if all_zero den then Some DecNan
         else if all_zero num then Some (hp_from_i64 0 0)
         else case hp_div_loop num den (prec + 2) (length num + length den + prec + 4) [] [] 0 False of
                None \<Rightarrow> None
              | Some None \<Rightarrow> Some (hp_from_i64 0 0)
              | Some (Some (quot, taken)) \<Rightarrow>
                  Some (hp_norm (s1 * s2) quot (i32_wrap (e1 - e2 + int (length num) - int taken)) prec))"
| "hp_div _ _ prec = Some DecNan"

section \<open>Rounding the quotient\<close>

fun hp_round_34 :: "dec \<Rightarrow> dec option" where
  "hp_round_34 (DecFin sign coeff ex) =
     (let mag = strip_leading coeff
      in if length mag \<le> MAX_DIGITS then Some (DecFin sign coeff ex)
         else let tail = drop MAX_DIGITS mag;
                  trust = length tail - 6;
                  window = take (trust - 1) (drop 1 tail);
                  borderline = (trust > 1 \<and>
                    ((tail ! 0 = 4 \<and> (\<forall>d \<in> set window. d = 9)) \<or> (tail ! 0 = 5 \<and> (\<forall>d \<in> set window. d = 0))))
              in if borderline then None
                 else let (kept, bump) = round_half_even mag MAX_DIGITS
                      in Some (DecFin sign kept (i32_wrap (ex + bump))))"
| "hp_round_34 d = Some d"

fun round_exact_quotient :: "dec \<Rightarrow> nat list \<Rightarrow> int \<Rightarrow> nat list \<Rightarrow> int \<Rightarrow> dec option" where
  "round_exact_quotient (DecFin sign coeff ex) c1 e1 c2 e2 =
     (let mag = strip_leading coeff;
          back = mul_mag mag c2;
          lhs_exp = i32_wrap (ex + e2);
          target = min lhs_exp e1;
          exact = (cmp_mag (scale_to back lhs_exp target) (scale_to c1 e1 target) = Equal);
          ds = (if \<not> exact \<and> length mag > MAX_DIGITS \<and> mag ! MAX_DIGITS = 5 then mag @ [1] else mag);
          (kept, bump) = round_half_even ds MAX_DIGITS;
          extra = int (length ds - length mag)
      in Some (DecFin sign kept (i32_wrap (ex + bump - extra))))"
| "round_exact_quotient d c1 e1 c2 e2 = Some d"

definition div_fin :: "int \<Rightarrow> nat list \<Rightarrow> int \<Rightarrow> int \<Rightarrow> nat list \<Rightarrow> int \<Rightarrow> dec option" where
  "div_fin s1 c1 e1 s2 c2 e2 =
     (if all_zero (strip_leading c2) then None
      else case i32_checked (e1 - e2) of
             None \<Rightarrow> None
           | Some ideal \<Rightarrow>
               if all_zero (strip_leading c1) then Some (DecFin (s1 * s2) [0] ideal)
               else case hp_div (DecFin s1 c1 e1) (DecFin s2 c2 e2) 80 of
                      None \<Rightarrow> None
                    | Some q \<Rightarrow>
                        (case (case hp_round_34 q of Some r \<Rightarrow> Some r | None \<Rightarrow> round_exact_quotient q c1 e1 c2 e2) of
                           Some (DecFin _ qc qe) \<Rightarrow>
                             (let back = mul_mag qc c2;
                                  lhs_exp = i32_wrap (qe + e2);
                                  target = min lhs_exp e1;
                                  exact = (cmp_mag (scale_to back lhs_exp target) (scale_to c1 e1 target) = Equal);
                                  coeff = strip_leading qc;
                                  (coeff, ex) = (if exact then (case strip_to coeff qe ideal of (c, e) \<Rightarrow> pad_to c e ideal)
                                                 else (coeff, qe))
                              in Some (DecFin (s1 * s2) coeff ex))
                         | _ \<Rightarrow> None))"

fun dec_div :: "dec \<Rightarrow> dec \<Rightarrow> dec option" where
  "dec_div DecNan _ = Some DecNan"
| "dec_div _ DecNan = Some DecNan"
| "dec_div (DecInf _) (DecInf _) = Some DecNan"
| "dec_div (DecInf x) (DecFin sign _ _) = Some (DecInf (x * sign))"
| "dec_div (DecFin sign _ _) (DecInf y) = Some (DecFin (sign * y) [0] MIN_EXP)"
| "dec_div (DecFin s1 c1 e1) (DecFin s2 c2 e2) = div_fin s1 c1 e1 s2 c2 e2"

section \<open>The digits of the quotient\<close>

text \<open>The number the first \<open>t\<close> digits of the numerator denote, zeros past its end.\<close>

definition brought_down :: "nat list \<Rightarrow> nat \<Rightarrow> nat" where
  "brought_down num t = digits_val (map (\<lambda>i. if i < length num then num ! i else 0) [0..<t])"

lemma brought_down_simps:
  "brought_down num 0 = 0"
  "brought_down num (Suc t) = brought_down num t * 10 + (if t < length num then num ! t else 0)"
  by (simp_all add: brought_down_def digits_val_append)

lemma brought_down_past: "length num \<le> t \<Longrightarrow> brought_down num t = digits_val num * 10 ^ (t - length num)"
proof (induction t)
  case (Suc t)
  show ?case
  proof (cases "length num \<le> t")
    case True
    with Suc show ?thesis by (simp add: Suc_diff_le brought_down_simps)
  next
    case False
    then have "length num = Suc t" using Suc.prems by simp
    then have "map (\<lambda>i. if i < length num then num ! i else 0) [0..<Suc t] = num"
      by (intro nth_equalityI) (auto simp del: upt_Suc)
    then show ?thesis using \<open>length num = Suc t\<close> unfolding brought_down_def by simp
  qed
qed (simp add: brought_down_simps)

lemma brought_down_ge:
  assumes "num \<noteq> []" "hd num \<noteq> 0" "0 < t" shows "10 ^ (t - 1) \<le> brought_down num t"
  using assms(3)
proof (induction t)
  case (Suc t)
  show ?case
  proof (cases "t = 0")
    case True
    with assms(1,2) show ?thesis by (simp add: hd_conv_nth Suc_le_eq brought_down_simps)
  next
    case False
    then have "10 * 10 ^ (t - 1) \<le> 10 * brought_down num t" using Suc by simp
    moreover have "10 * 10 ^ (t - 1) = (10::nat) ^ t" using False power_minus_mult [of t "10::nat"] by simp
    ultimately show ?thesis by (simp add: brought_down_simps)
  qed
qed simp

lemma nat_digits_snoc: "0 < x \<Longrightarrow> d < 10 \<Longrightarrow> nat_digits x @ [d] = nat_digits (x * 10 + d)"
  by (subst (2) nat_digits.simps) simp

lemma hp_div_loop_val:
  assumes "digits num" "num \<noteq> []" "hd num \<noteq> 0" "digits den" "den \<noteq> []" "0 < digits_val den"
    "length den \<le> limit" "0 < want"
    "digits r" "digits_val r = brought_down num t mod digits_val den"
    "started \<longleftrightarrow> digits_val den \<le> brought_down num t"
    "quot = (if started then nat_digits (brought_down num t div digits_val den) else [])" "length quot \<le> want"
  shows "\<exists>T. hp_div_loop num den want limit r quot t started =
      Some (Some (nat_digits (brought_down num T div digits_val den), T)) \<and>
    length (nat_digits (brought_down num T div digits_val den)) = want \<and> digits_val den \<le> brought_down num T"
  using assms(9-13)
proof (induction "(if started then 0 else Suc (length den) - t) + (want - length quot)" arbitrary: r quot t started
    rule: less_induct)
  case less
  let ?D = "digits_val den" and ?P = "brought_down num"
  show ?case
  proof (cases "length quot < want")
    case False
    then have "length quot = want" using less.prems by simp
    moreover have "hp_div_loop num den want limit r quot t started = Some (Some (quot, t))"
      using False by (subst hp_div_loop.simps) simp
    ultimately show ?thesis using less.prems assms(8) by (auto split: if_splits intro!: exI [of _ t])
  next
    case True
    let ?d = "if t < length num then num ! t else 0" let ?r1 = "strip_leading (r @ [?d])"
    have r1: "digits ?r1" "?r1 \<noteq> []" "digits_val ?r1 = (?P t mod ?D) * 10 + ?d"
      using less.prems assms(1) by (auto simp: digits_val_append digits_nth)
    obtain cur where cur: "quot_digit ?r1 den 0 = Some (cur, digits_val ?r1 div ?D)" "digits cur" "cur \<noteq> []"
      "digits_val cur = digits_val ?r1 mod ?D"
      using quot_digit_val [OF assms(4-6) r1(1,2), of 0] by auto
    define q where "q = digits_val ?r1 div ?D"
    have split: "?P (Suc t) = (?P t div ?D * 10) * ?D + digits_val ?r1"
    proof -
      have "(x * 10) * D + (y * 10 + d) = (x * D + y) * 10 + d" for x y d D :: nat by (simp add: algebra_simps)
      from this [of "?P t div ?D" ?D "?P t mod ?D" ?d] show ?thesis unfolding r1(3) by (simp add: brought_down_simps)
    qed
    have d10: "?d < 10" using assms(1) by (auto simp: digits_nth)
    have "?P t mod ?D < ?D" using assms(6) by simp
    then have "digits_val ?r1 < 10 * ?D" unfolding r1(3) using d10 by linarith
    then have q: "q < 10" unfolding q_def using assms(6) by (simp add: div_less_iff_less_mult)
    have nx: "?P (Suc t) div ?D = ?P t div ?D * 10 + q" "?P (Suc t) mod ?D = digits_val cur"
      unfolding split cur(4) q_def using assms(6) by simp_all
    define st where "st = (started \<or> q > 0)"
    define qt where "qt = (if st then quot @ [q] else quot)"
    have st: "st \<longleftrightarrow> ?D \<le> ?P (Suc t)"
    proof -
      have "?D \<le> ?P (Suc t) \<longleftrightarrow> 0 < ?P (Suc t) div ?D" using assms(6) by (simp add: div_greater_zero_iff)
      also have "\<dots> \<longleftrightarrow> 0 < ?P t div ?D \<or> 0 < q" by (simp add: nx)
      also have "0 < ?P t div ?D \<longleftrightarrow> started" using less.prems(3) assms(6) by (simp add: div_greater_zero_iff)
      finally show ?thesis by (auto simp: st_def)
    qed
    have qt: "qt = (if st then nat_digits (?P (Suc t) div ?D) else [])"
    proof (cases started)
      case True
      then have "0 < ?P t div ?D" using less.prems(3) assms(6) by (simp add: div_greater_zero_iff)
      then show ?thesis using True less.prems(4) nat_digits_snoc [OF _ q] by (simp add: qt_def st_def nx)
    next
      case False
      then have "?P t div ?D = 0" "quot = []" using less.prems(3,4) by auto
      then show ?thesis using False q by (auto simp: qt_def st_def nx nat_digits.simps [of q])
    qed
    have lim: "\<not> (\<not> st \<and> Suc t > limit)"
    proof
      assume "\<not> st \<and> Suc t > limit"
      then have "?P (Suc t) < ?D" "limit \<le> t" using st by auto
      moreover have "10 ^ t \<le> ?P (Suc t)" using brought_down_ge [OF assms(2,3), of "Suc t"] by simp
      moreover have "?D < 10 ^ length den" using assms(4) by (simp add: digits_val_bound)
      ultimately have "(10::nat) ^ t < 10 ^ length den" by linarith
      then have "t < length den" by (simp add: power_less_imp_less_exp)
      then show False using assms(7) \<open>limit \<le> t\<close> by simp
    qed
    have step: "hp_div_loop num den want limit r quot t started = hp_div_loop num den want limit cur qt (Suc t) st"
    proof -
      have c1: "quot_digit ?r1 den 0 = Some (cur, q)" using cur(1) by (simp only: q_def)
      have "hp_div_loop num den want limit r quot t started =
          (if \<not> st \<and> Suc t > limit then Some None else hp_div_loop num den want limit cur qt (Suc t) st)"
        by (subst hp_div_loop.simps)
           (simp only: True if_True c1 option.case prod.case Let_def st_def qt_def Suc_eq_plus1)
      then show ?thesis unfolding if_not_P [OF lim] .
    qed
    have dec: "(if st then 0 else Suc (length den) - Suc t) + (want - length qt) <
        (if started then 0 else Suc (length den) - t) + (want - length quot)"
    proof (cases st)
      case True
      then show ?thesis using \<open>length quot < want\<close> by (simp add: qt_def)
    next
      case False
      then have "\<not> started" "?P (Suc t) < ?D" using st by (auto simp: st_def)
      have "(10::nat) ^ t \<le> ?P (Suc t)" using brought_down_ge [OF assms(2,3), of "Suc t"] by simp
      also have "\<dots> < 10 ^ length den" using \<open>?P (Suc t) < ?D\<close> digits_val_bound [OF assms(4)] by linarith
      finally have "t < length den" by (simp add: power_less_imp_less_exp)
      then show ?thesis using False \<open>\<not> started\<close> by (simp add: qt_def)
    qed
    have "length qt \<le> want" using True by (simp add: qt_def)
    then show ?thesis unfolding step using cur(2) nx(2) st qt by (intro less.hyps [OF dec]) simp_all
  qed
qed

lemma brought_down_less: "digits num \<Longrightarrow> brought_down num t < 10 ^ t"
proof (induction t)
  case (Suc t)
  have "(if t < length num then num ! t else 0) < 10" using Suc.prems by (simp add: digits_nth)
  then show ?case using Suc by (simp add: brought_down_simps del: if_split)
qed (simp add: brought_down_simps)

text \<open>
  No quotient of 34-digit coefficients lies just below a power of ten, so the rounding to 80
  digits never carries.
\<close>

lemma no_carry:
  fixes n1 n2 M :: nat
  assumes "0 < n2" "n2 < 10 ^ 34" "48 \<le> M" "n1 * 10 ^ M div n2 < 10 ^ 82"
  shows "rne_div (n1 * 10 ^ M div n2) 100 < 10 ^ 80"
proof -
  define K where "K = M - 48"
  have "(10::nat) ^ M = 10 ^ K * 10 ^ 48" using assms(3) by (metis K_def le_add_diff_inverse2 power_add)
  then have M: "n1 * 10 ^ M = (n1 * 10 ^ K) * 10 ^ 48" by simp
  have "n1 * 10 ^ M < 10 ^ 82 * n2" using assms(1,4) by (simp add: div_less_iff_less_mult)
  then have "(n1 * 10 ^ K) * 10 ^ 48 < (10 ^ 34 * n2) * 10 ^ 48" unfolding M by simp
  then have "n1 * 10 ^ K < 10 ^ 34 * n2" by simp
  then have "n1 * 10 ^ K + 1 \<le> 10 ^ 34 * n2" by simp
  then have "(n1 * 10 ^ K + 1) * 10 ^ 48 \<le> (10 ^ 34 * n2) * 10 ^ 48" by (rule mult_le_mono1)
  then have "n1 * 10 ^ M + 10 ^ 48 \<le> 10 ^ 82 * n2" unfolding M by simp
  moreover have "10 ^ 14 * n2 \<le> 10 ^ 48" using assms(2) by simp
  ultimately have "n1 * 10 ^ M + 10 ^ 14 * n2 \<le> 10 ^ 82 * n2" by linarith
  then have "n1 * 10 ^ M \<le> (10 ^ 82 - 10 ^ 14) * n2" by (simp add: diff_mult_distrib)
  then have q: "n1 * 10 ^ M div n2 \<le> 10 ^ 82 - 10 ^ 14" using assms(1) by (metis div_le_mono div_mult_self_is_m)
  have "rne_div (n1 * 10 ^ M div n2) 100 \<le> (n1 * 10 ^ M div n2) div 100 + 1" by (simp add: rne_div_def Let_def)
  also have "\<dots> \<le> (10 ^ 82 - 10 ^ 14) div 100 + 1" using q by (intro add_mono div_le_mono) auto
  also have "\<dots> < 10 ^ 80" by simp
  finally show ?thesis .
qed

lemma hp_div_80:
  assumes "coeff34 c1" "coeff34 c2" "0 < digits_val c1" "0 < digits_val c2"
    "-6176 \<le> e1" "e1 \<le> 6111" "-6176 \<le> e2" "e2 \<le> 6111"
  shows "\<exists>M ks. hp_div (DecFin s1 c1 e1) (DecFin s2 c2 e2) 80 = Some (DecFin (s1 * s2) ks (e1 - e2 - int M + 2)) \<and>
    digits ks \<and> length ks = 80 \<and> hd ks \<noteq> 0 \<and> 48 \<le> M \<and> M < 116 \<and>
    10 ^ 81 \<le> digits_val c1 * 10 ^ M div digits_val c2 \<and> digits_val c1 * 10 ^ M div digits_val c2 < 10 ^ 82 \<and>
    digits_val ks = rne_div (digits_val c1 * 10 ^ M div digits_val c2) 100"
proof -
  let ?n = "digits_val c1" and ?d = "digits_val c2"
  have c: "digits c1" "c1 \<noteq> []" "hd c1 \<noteq> 0" "digits c2" "c2 \<noteq> []" "length c1 \<le> 34" "length c2 \<le> 34"
    "strip_leading c1 = c1" "strip_leading c2 = c2" "?n < 10 ^ 34" "?d < 10 ^ 34"
    "\<not> all_zero c1" "\<not> all_zero c2"
    using assms coeff34_canonical coeff34_nat_digits [of ?n] coeff34_nat_digits [of ?d]
    by (auto simp: coeff34_def digits_val_eq_0 [symmetric])
  obtain T where T: "hp_div_loop c1 c2 82 (length c1 + length c2 + 84) [] [] 0 False =
      Some (Some (nat_digits (brought_down c1 T div ?d), T))"
    "length (nat_digits (brought_down c1 T div ?d)) = 82" "?d \<le> brought_down c1 T"
    using hp_div_loop_val [OF c(1-5) assms(4), of "length c1 + length c2 + 84" 82 "[]" 0 False "[]"] assms(4)
    by (auto simp: brought_down_simps)
  let ?Q = "brought_down c1 T div ?d"
  have Q0: "0 < ?Q" using T(3) assms(4) by (simp add: div_greater_zero_iff)
  have Q: "10 ^ 81 \<le> ?Q" "?Q < 10 ^ 82" using nat_digits_bounds [OF Q0] T(2) by simp_all
  have "(10::nat) ^ 81 \<le> brought_down c1 T" using Q(1) by (meson div_le_dividend order_trans)
  also have "\<dots> < 10 ^ T" using c(1) by (rule brought_down_less)
  finally have "81 < T" by (rule power_less_imp_less_exp [rotated]) simp
  then have T34: "length c1 \<le> T" using c(6) by simp
  define M where "M = T - length c1"
  have bd: "brought_down c1 T = ?n * 10 ^ M" unfolding M_def by (rule brought_down_past [OF T34])
  have "10 ^ 81 * ?d \<le> ?n * 10 ^ M"
    using Q(1) assms(4) unfolding bd by (simp only: less_eq_div_iff_mult_less_eq)
  also have "\<dots> < 10 ^ 34 * 10 ^ M" using c(10) by simp
  finally have "(10::nat) ^ 81 * 1 < 10 ^ (34 + M)" unfolding power_add
    using assms(4) by (metis (no_types) Suc_leI One_nat_def le_less_trans mult_le_mono2)
  then have M48: "48 \<le> M" using power_less_imp_less_exp [of "10::nat" 81 "34 + M"] by simp
  have "10 ^ M \<le> ?n * 10 ^ M" using assms(3) by simp
  also have "\<dots> < 10 ^ 82 * ?d" using Q(2) assms(4) unfolding bd by (simp only: div_less_iff_less_mult)
  also have "\<dots> \<le> 10 ^ 82 * 10 ^ 34" using c(11) by simp
  finally have "(10::nat) ^ M < 10 ^ (82 + 34)" by (simp add: power_add)
  then have M116: "M < 116" using power_less_imp_less_exp [of "10::nat" M "82 + 34"] by simp
  obtain ks bump where r: "round_half_even (nat_digits ?Q) 80 = (ks, bump)" by fastforce
  have hdQ: "hd (nat_digits ?Q) \<noteq> 0" using hd_nat_digits [OF Q0] by simp
  have v: "digits ks" "length ks = 80" "hd ks \<noteq> 0" "digits_val ks * 10 ^ nat bump = rne_div ?Q 100 * 100" "bump = 2 \<or> bump = 3"
    using round_half_even_val [OF digits_nat_digits _ _ hdQ r] T(2) by simp_all
  have z: "rne_div ?Q 100 < 10 ^ 80" using no_carry [OF assms(4) c(11) M48] Q(2) unfolding bd by simp
  have "bump = 2"
  proof (rule ccontr)
    assume "bump \<noteq> 2"
    then have "digits_val ks * 1000 = rne_div ?Q 100 * 100" using v(4,5) by auto
    then have "digits_val ks * 10 = rne_div ?Q 100" by simp
    moreover have "10 ^ 79 \<le> digits_val ks" using hd_nonzero_ge [of ks] v(2,3) by fastforce
    ultimately show False using z by simp
  qed
  then have "digits_val ks = rne_div ?Q 100" using v(4) by simp
  moreover have "i32_wrap (e1 - e2 + int (length c1) - int T) = e1 - e2 - int M"
    "i32_wrap (e1 - e2 - int M + 2) = e1 - e2 - int M + 2"
  proof -
    have "e1 - e2 + int (length c1) - int T = e1 - e2 - int M" using T34 by (simp add: M_def of_nat_diff)
    moreover have "in_i32 (e1 - e2 - int M)" "in_i32 (e1 - e2 - int M + 2)" using assms M116 by (auto simp: in_i32_def)
    ultimately show "i32_wrap (e1 - e2 + int (length c1) - int T) = e1 - e2 - int M"
      "i32_wrap (e1 - e2 - int M + 2) = e1 - e2 - int M + 2" by (simp_all only: i32_wrap_id)
  qed
  moreover have "strip_leading (nat_digits ?Q) = nat_digits ?Q" by (simp add: strip_leading_eq)
  ultimately have "hp_div (DecFin s1 c1 e1) (DecFin s2 c2 e2) 80 = Some (DecFin (s1 * s2) ks (e1 - e2 - int M + 2))"
    using c T(1) r \<open>bump = 2\<close> by (simp add: Let_def hp_norm_def add.commute [of 84] add.assoc del: add.commute)
  then show ?thesis using v(1-3) M48 M116 Q \<open>digits_val ks = _\<close> unfolding bd by blast
qed

section \<open>Why one more rounding does no harm\<close>

text \<open>A quotient of integers is a tie or stays clear of it by its denominator.\<close>

lemma tie_or_far:
  fixes a d :: nat and k :: int
  assumes "0 < d"
  shows "real a / real d = of_int k + 1 / 2 \<or> 1 / (2 * real d) \<le> \<bar>real a / real d - (of_int k + 1 / 2)\<bar>"
proof -
  define j :: int where "j = 2 * int a - (2 * k + 1) * int d"
  have e: "real a / real d - (of_int k + 1 / 2) = of_int j / (2 * real d)"
    using assms by (simp add: j_def field_simps)
  show ?thesis
  proof (cases "j = 0")
    case True
    then show ?thesis using e by simp
  next
    case False
    then have "1 \<le> \<bar>real_of_int j\<bar>" by linarith
    then show ?thesis unfolding e using assms by (simp add: field_simps)
  qed
qed

lemma rne_bounds: "x \<le> of_int (rne x) + 1 / 2" "of_int (rne x) \<le> x + 1 / 2"
proof -
  have "\<bar>x - of_int (rne x)\<bar> \<le> 1 / 2" using rne_iff [of x "rne x"] by auto
  then show "x \<le> of_int (rne x) + 1 / 2" "of_int (rne x) \<le> x + 1 / 2" by (simp_all only: abs_le_iff) linarith+
qed

lemma rne_differ:
  assumes "rne a \<noteq> rne b" shows "\<exists>k. \<bar>b - (of_int k + 1 / 2)\<bar> \<le> \<bar>a - b\<bar>"
proof -
  note a = rne_bounds [of a] and b = rne_bounds [of b]
  consider "rne a + 1 \<le> rne b" | "rne b + 1 \<le> rne a" using assms by linarith
  then show ?thesis
  proof cases
    case 1
    then have "real_of_int (rne a) + 1 \<le> of_int (rne b)" by linarith
    then have "\<bar>b - (of_int (rne b - 1) + 1 / 2)\<bar> \<le> \<bar>a - b\<bar>" 
      using a b unfolding abs_le_iff by (auto simp: abs_if)
    then show ?thesis by blast
  next
    case 2
    then have "real_of_int (rne b) + 1 \<le> of_int (rne a)" by linarith
    then have "\<bar>b - (of_int (rne b) + 1 / 2)\<bar> \<le> \<bar>a - b\<bar>"
      using a b unfolding abs_le_iff by (auto simp: abs_if)
    then show ?thesis by blast
  qed
qed

text \<open>What the guard window of \<open>hp_round_34\<close> says about the dropped digits.\<close>

lemma borderline_near_half:
  assumes "digits tail" "length tail = 46"
    "(tail ! 0 = 4 \<and> (\<forall>d \<in> set (take 39 (drop 1 tail)). d = 9)) \<or> (tail ! 0 = 5 \<and> (\<forall>d \<in> set (take 39 (drop 1 tail)). d = 0))"
  shows "\<bar>int (digits_val tail) - 5 * 10 ^ 45\<bar> \<le> 10 ^ 6"
proof -
  let ?w = "take 39 (drop 1 tail)" and ?u = "drop 40 tail"
  have lw: "length ?w = 39" "length ?u = 6" using assms(2) by simp_all
  have "tail = tail ! 0 # drop 1 tail" using assms(2) by (cases tail) auto
  also have "drop 1 tail = ?w @ ?u" using append_take_drop_id [of 39 "drop 1 tail"] by simp
  finally have tail: "tail = tail ! 0 # ?w @ ?u" .
  have v: "digits_val tail = tail ! 0 * 10 ^ 45 + digits_val ?w * 10 ^ 6 + digits_val ?u"
    by (subst tail) (simp add: digits_val_append assms(2))
  have u: "digits_val ?u < 10 ^ 6" using digits_val_bound [of ?u] assms(1) lw by simp
  have nines: "digits_val (replicate n 9) + 1 = 10 ^ n" for n by (induction n) auto
  show ?thesis
  proof (cases "tail ! 0 = 4 \<and> (\<forall>d \<in> set ?w. d = 9)")
    case True
    then have "?w = replicate 39 9" using lw(1) by (metis replicate_eqI)
    then have "digits_val ?w = 10 ^ 39 - 1" using nines [of 39] by (metis add_diff_cancel_right')
    then show ?thesis unfolding v using True u by simp
  next
    case False
    then have "tail ! 0 = 5" "\<forall>d \<in> set ?w. d = 0" using assms(3) by auto
    moreover from this have "digits_val ?w = 0" by (simp add: digits_val_eq_0 all_zero_def)
    ultimately show ?thesis unfolding v using u by simp
  qed
qed

lemma scaled_equal:
  assumes "digits a" "a \<noteq> []" "digits b" "b \<noteq> []" "-100000 \<le> ea" "ea \<le> 100000" "-100000 \<le> eb" "eb \<le> 100000"
  shows "cmp_mag (scale_to a ea (min ea eb)) (scale_to b eb (min ea eb)) = Equal \<longleftrightarrow>
    real (digits_val a) * 10 powi ea = real (digits_val b) * 10 powi eb"
proof -
  let ?t = "min ea eb"
  have t: "?t \<le> ea" "?t \<le> eb" "ea - ?t < 2 ^ 31" "eb - ?t < 2 ^ 31" using assms by auto
  note x = scale_to_val [OF t(1,3) assms(1,2)] and y = scale_to_val [OF t(2,4) assms(3,4)]
  have "cmp_mag (scale_to a ea ?t) (scale_to b eb ?t) = Equal \<longleftrightarrow>
      digits_val (scale_to a ea ?t) = digits_val (scale_to b eb ?t)"
    using cmp_mag_val [OF x(1) y(1) x(2) y(2)] by (simp add: cmp_of_iffs)
  also have "\<dots> \<longleftrightarrow> real (digits_val (scale_to a ea ?t)) * 10 powi ?t = real (digits_val (scale_to b eb ?t)) * 10 powi ?t"
    by simp
  finally show ?thesis unfolding x(4) y(4) .
qed

text \<open>
  The setting of one division: numerator and divisor of at most 34 digits, the quotient
  truncated to 82 digits, rounded to the 80-digit \<open>quot_z\<close>; \<open>quot_y\<close> is the true quotient with
  34 digits before the point.
\<close>

definition quot80 :: "nat \<Rightarrow> nat \<Rightarrow> nat \<Rightarrow> bool" where
  "quot80 n d M \<longleftrightarrow> 0 < n \<and> n < 10 ^ 34 \<and> 0 < d \<and> d < 10 ^ 34 \<and> 48 \<le> M \<and>
     10 ^ 81 \<le> n * 10 ^ M div d \<and> n * 10 ^ M div d < 10 ^ 82"

definition quot_z :: "nat \<Rightarrow> nat \<Rightarrow> nat \<Rightarrow> nat" where
  "quot_z n d M = rne_div (n * 10 ^ M div d) 100"

definition quot_y :: "nat \<Rightarrow> nat \<Rightarrow> nat \<Rightarrow> real" where
  "quot_y n d M = real (n * 10 ^ (M - 48)) / real d"

lemma quot_y_scaled: "quot80 n d M \<Longrightarrow> quot_y n d M * 10 ^ 48 = real (n * 10 ^ M) / real d"
proof -
  assume "quot80 n d M"
  then have "(10::nat) ^ M = 10 ^ (M - 48) * 10 ^ 48" unfolding quot80_def by (metis le_add_diff_inverse2 power_add)
  then have "real (n * 10 ^ M) = real (n * 10 ^ (M - 48)) * 10 ^ 48" by simp
  then show ?thesis unfolding quot_y_def by (simp only: times_divide_eq_left)
qed

lemma quot_y_floor:
  assumes "quot80 n d M"
  shows "real (n * 10 ^ M div d) \<le> quot_y n d M * 10 ^ 48" "quot_y n d M * 10 ^ 48 < real (n * 10 ^ M div d) + 1"
  unfolding quot_y_scaled [OF assms] using floor_divide_of_nat_eq [of "n * 10 ^ M" d, where 'a = real] by linarith+

lemma quot_y_bounds:
  assumes "quot80 n d M" shows "10 ^ 33 \<le> quot_y n d M" "quot_y n d M < 10 ^ 34"
proof -
  have "real (10 ^ 81) \<le> real (n * 10 ^ M div d)" "real (n * 10 ^ M div d) + 1 \<le> real (10 ^ 82)"
    using assms unfolding quot80_def by linarith+
  with quot_y_floor [OF assms] show "10 ^ 33 \<le> quot_y n d M" "quot_y n d M < 10 ^ 34" by simp_all
qed

lemma rne_quot_z: "rne (real (n * 10 ^ M div d) / 100) = int (quot_z n d M)"
  unfolding quot_z_def using rne_rne_div [of 100 "n * 10 ^ M div d"] by simp

lemma quot_z_near:
  assumes "quot80 n d M" shows "\<bar>real (quot_z n d M) / 10 ^ 46 - quot_y n d M\<bar> < 1 / 10 ^ 46"
proof -
  let ?Q = "real (n * 10 ^ M div d)" let ?z = "real (quot_z n d M)" and ?y = "quot_y n d M"
  have "?Q / 100 \<le> ?z + 1 / 2" "?z \<le> ?Q / 100 + 1 / 2"
    using rne_bounds [of "?Q / 100"] unfolding rne_quot_z by simp_all
  then have "?z < ?y * 10 ^ 46 + 1" "?y * 10 ^ 46 < ?z + 1"
    using quot_y_floor [OF assms] by simp_all
  then have "?z / 10 ^ 46 < ?y + 1 / 10 ^ 46" "?y < ?z / 10 ^ 46 + 1 / 10 ^ 46" by (simp_all add: field_simps)
  then show ?thesis unfolding abs_less_iff by linarith
qed

lemma quot_y_far:
  assumes "quot80 n d M"
  shows "quot_y n d M = of_int k + 1 / 2 \<or> 1 / (2 * 10 ^ 34) < \<bar>quot_y n d M - (of_int k + 1 / 2)\<bar>"
proof -
  have "0 < d" "real d < real (10 ^ 34)" using assms unfolding quot80_def by (simp_all only: of_nat_less_iff)
  moreover from this have "1 / (2 * 10 ^ 34) < 1 / (2 * real d)" by (simp add: frac_less2)
  ultimately show ?thesis using tie_or_far [of d "n * 10 ^ (M - 48)" k] unfolding quot_y_def [symmetric] by linarith
qed

lemma quot_tie_exact:
  assumes "quot80 n d M" "quot_y n d M = of_int k + 1 / 2"
  shows "real (quot_z n d M) = quot_y n d M * 10 ^ 46"
proof -
  have y: "quot_y n d M * 10 ^ 48 = of_int ((2 * k + 1) * 5 * 10 ^ 47)" unfolding assms(2) by simp
  have "int (n * 10 ^ M div d) = \<lfloor>quot_y n d M * 10 ^ 48\<rfloor>" using quot_y_floor [OF assms(1)] by linarith
  then have "real (n * 10 ^ M div d) = quot_y n d M * 10 ^ 48" unfolding y by (metis floor_of_int of_int_of_nat_eq)
  then have "real (n * 10 ^ M div d) / 100 = of_int ((2 * k + 1) * 5 * 10 ^ 45)" unfolding y by simp
  then have "int (quot_z n d M) = (2 * k + 1) * 5 * 10 ^ 45" using rne_quot_z [of n M d] by (simp only: rne_of_int)
  then have "real (quot_z n d M) = of_int ((2 * k + 1) * 5 * 10 ^ 45)" by (metis of_int_of_nat_eq)
  then show ?thesis unfolding assms(2) by simp
qed

lemma rne_quot:
  assumes "quot80 n d M" shows "rne (real (quot_z n d M) / 10 ^ 46) = rne (quot_y n d M)"
proof (rule ccontr)
  let ?z = "real (quot_z n d M)" and ?y = "quot_y n d M"
  assume ne: "rne (?z / 10 ^ 46) \<noteq> rne ?y"
  then obtain k where "\<bar>?y - (of_int k + 1 / 2)\<bar> \<le> \<bar>?z / 10 ^ 46 - ?y\<bar>" using rne_differ by blast
  also have "\<dots> < 1 / (2 * 10 ^ 34)" using quot_z_near [OF assms] by (rule less_trans) simp
  finally have "?y = of_int k + 1 / 2" using quot_y_far [OF assms, of k] by simp
  then have "?z = ?y * 10 ^ 46" by (rule quot_tie_exact [OF assms])
  then show False using ne by simp
qed

lemma quot_borderline_tie:
  assumes "quot80 n d M" "\<bar>int (quot_z n d M mod 10 ^ 46) - 5 * 10 ^ 45\<bar> \<le> 10 ^ 6"
  shows "quot_y n d M = of_int (int (quot_z n d M div 10 ^ 46)) + 1 / 2"
proof -
  let ?z = "quot_z n d M" let ?k = "real (?z div 10 ^ 46)" and ?t = "real (?z mod 10 ^ 46)"
  have "real ?z = ?k * 10 ^ 46 + ?t"
    by (metis (no_types, lifting) div_mult_mod_eq of_nat_add of_nat_mult of_nat_numeral of_nat_power)
  then have e: "real ?z / 10 ^ 46 - (?k + 1 / 2) = (?t - 5 * 10 ^ 45) / 10 ^ 46" by (simp add: field_simps)
  have "of_int \<bar>int (?z mod 10 ^ 46) - 5 * 10 ^ 45\<bar> \<le> (of_int (10 ^ 6) :: real)" using assms(2) by (simp only: of_int_le_iff)
  then have "\<bar>?t - 5 * 10 ^ 45\<bar> \<le> 10 ^ 6" by simp
  then have "\<bar>real ?z / 10 ^ 46 - (?k + 1 / 2)\<bar> \<le> 1 / 10 ^ 40" unfolding e by (simp add: abs_le_iff field_simps)
  then have "\<bar>quot_y n d M - (?k + 1 / 2)\<bar> < 1 / (2 * 10 ^ 34)"
  proof -
    assume far: "\<bar>real ?z / 10 ^ 46 - (?k + 1 / 2)\<bar> \<le> 1 / 10 ^ 40"
    have "\<bar>y - h\<bar> \<le> \<bar>z - y\<bar> + \<bar>z - h\<bar>" for y h z :: real by linarith
    from this [of "quot_y n d M" "?k + 1 / 2" "real ?z / 10 ^ 46"]
    have "\<bar>quot_y n d M - (?k + 1 / 2)\<bar> < 1 / 10 ^ 46 + 1 / 10 ^ 40"
      using quot_z_near [OF assms(1)] far by linarith
    also have "(1::real) / 10 ^ 46 + 1 / 10 ^ 40 < 1 / (2 * 10 ^ 34)" by simp
    finally show ?thesis .
  qed
  then show ?thesis using quot_y_far [OF assms(1), of "int (?z div 10 ^ 46)"] by simp
qed

section \<open>The quotient of two decimals\<close>

text \<open>Whichever path is taken, the 80-digit quotient is rounded half-even to 34 digits.\<close>

lemma quotient_rounded:
  assumes q: "quot80 (digits_val c1) (digits_val c2) M"
    and ks: "digits ks" "length ks = 80" "hd ks \<noteq> 0" "digits_val ks = quot_z (digits_val c1) (digits_val c2) M"
    and c: "digits c1" "c1 \<noteq> []" "digits c2"
    and r: "-7000 \<le> e1" "e1 \<le> 7000" "-7000 \<le> e2" "e2 \<le> 7000" "M < 116"
  defines "ex \<equiv> e1 - e2 - int M + 2"
  shows "(case hp_round_34 (DecFin s ks ex) of Some r \<Rightarrow> Some r | None \<Rightarrow> round_exact_quotient (DecFin s ks ex) c1 e1 c2 e2) =
    (case round_half_even ks 34 of (kept, bump) \<Rightarrow> Some (DecFin s kept (i32_wrap (ex + bump))))"
proof -
  let ?n = "digits_val c1" and ?d = "digits_val c2"
  have ne: "ks \<noteq> []" using ks(2) by auto
  then have "nat_digits (digits_val ks) = ks" using ks by (intro nat_digits_canonical) auto
  then have sl: "strip_leading ks = ks" using strip_leading_eq [OF ks(1) ne] by simp
  let ?t = "drop 34 ks"
  let ?b = "(?t ! 0 = 4 \<and> (\<forall>d \<in> set (take 39 (drop 1 ?t)). d = 9)) \<or> (?t ! 0 = 5 \<and> (\<forall>d \<in> set (take 39 (drop 1 ?t)). d = 0))"
  have hr: "hp_round_34 (DecFin s ks ex) = (if ?b then None
      else case round_half_even ks 34 of (kept, bump) \<Rightarrow> Some (DecFin s kept (i32_wrap (ex + bump))))"
    using ks(2) by (auto simp: sl MAX_DIGITS_def Let_def)
  show ?thesis
  proof (cases ?b)
    case False
    then show ?thesis unfolding hr if_not_P [OF False] by (simp split: prod.split)
  next
    case True
    have t: "digits ?t" "length ?t = 46" using ks by simp_all
    have dm: "digits_val ks mod 10 ^ 46 = digits_val ?t" "digits_val ks div 10 ^ 46 = digits_val (take 34 ks)"
      using digits_val_take_drop [of ks 34] digits_val_bound [OF t(1)] ks(2) t(2) by simp_all
    have near: "\<bar>int (quot_z ?n ?d M mod 10 ^ 46) - 5 * 10 ^ 45\<bar> \<le> 10 ^ 6"
      using borderline_near_half [OF t True] by (simp only: dm(1) flip: ks(4))
    have "quot_y ?n ?d M = of_int (int (quot_z ?n ?d M div 10 ^ 46)) + 1 / 2"
      using quot_borderline_tie [OF q near] .
    then have tie: "real (quot_z ?n ?d M) = quot_y ?n ?d M * 10 ^ 46" by (rule quot_tie_exact [OF q])
    have bk: "mul_mag ks c2 = nat_digits (digits_val ks * ?d)" using ks c by (simp add: mul_mag_val)
    have w: "i32_wrap (ex + e2) = ex + e2" using r by (simp add: ex_def in_i32_def)
    have "real (digits_val ks * ?d) * 10 powi (ex + e2) = real ?n * 10 powi e1"
    proof -
      have d0: "0 < ?d" using q by (simp add: quot80_def)
      have "real (digits_val ks * ?d) * 100 = quot_y ?n ?d M * 10 ^ 48 * real ?d" unfolding of_nat_mult ks(4) tie by simp
      also have "\<dots> = real (?n * 10 ^ M)" unfolding quot_y_scaled [OF q] using d0 by simp
      finally have e: "real (digits_val ks * ?d) * 100 = real ?n * 10 ^ M" by simp
      have "(10::real) powi (ex + e2) = 10 powi (e1 - int M) * 100" unfolding ex_def by (simp add: power_int_add power_int_diff)
      then have "real (digits_val ks * ?d) * 10 powi (ex + e2) = (real (digits_val ks * ?d) * 100) * 10 powi (e1 - int M)" by simp
      also have "\<dots> = real ?n * (10 ^ M * 10 powi (e1 - int M))" unfolding e by simp
      also have "(10::real) ^ M * 10 powi (e1 - int M) = 10 powi e1" by (simp add: power_int_diff)
      finally show ?thesis .
    qed
    then have "cmp_mag (scale_to (mul_mag ks c2) (i32_wrap (ex + e2)) (min (i32_wrap (ex + e2)) e1))
        (scale_to c1 e1 (min (i32_wrap (ex + e2)) e1)) = Equal"
      unfolding w bk using c r by (subst scaled_equal) (simp_all add: ex_def)
    then show ?thesis unfolding hr if_P [OF True] by (simp add: sl Let_def MAX_DIGITS_def split: prod.split)
  qed
qed

lemma round_34_value:
  assumes q: "quot80 n d M"
    and ks: "digits ks" "length ks = 80" "hd ks \<noteq> 0" "digits_val ks = quot_z n d M"
    and r: "round_half_even ks 34 = (kept, bump)"
  shows "digits kept" "length kept = 34" "hd kept \<noteq> 0" "bump = 46 \<or> bump = 47"
    "real (digits_val kept) * 10 powi (ex + bump) = round_sig 34 (real (n * 10 ^ M) / real d * 10 powi (ex - 2))"
proof -
  note v = round_half_even_val [OF ks(1) _ _ ks(3) r]
  have k: "digits kept" "length kept = 34" "hd kept \<noteq> 0" "bump = 46 \<or> bump = 47"
    "digits_val kept * 10 ^ nat bump = rne_div (quot_z n d M) (10 ^ 46) * 10 ^ 46"
    using v ks(2,4) by simp_all
  then show "digits kept" "length kept = 34" "hd kept \<noteq> 0" "bump = 46 \<or> bump = 47" by blast+
  have "int (rne_div (quot_z n d M) (10 ^ 46)) = rne (real (quot_z n d M) / 10 ^ 46)"
    using rne_rne_div [of "10 ^ 46" "quot_z n d M"] by simp
  then have z: "real (rne_div (quot_z n d M) (10 ^ 46)) = of_int (rne (quot_y n d M))"
    unfolding rne_quot [OF q] by (metis of_int_of_nat_eq)
  have "real (digits_val kept) * 10 powi (ex + bump) = real (digits_val kept * 10 ^ nat bump) * 10 powi ex"
    using powi_nonneg [of bump] k(4) by (auto simp: power_int_add)
  also have "\<dots> = of_int (rne (quot_y n d M)) * 10 ^ 46 * 10 powi ex" unfolding k(5) of_nat_mult z by simp
  also have "\<dots> = of_int (rne (quot_y n d M / 10 powi (int 34 - int 34))) * 10 powi (int 34 - int 34 + (ex + 46))"
    by (simp add: power_int_add)
  also have "\<dots> = round_sig 34 (quot_y n d M * 10 powi (ex + 46))"
    using quot_y_bounds [OF q] by (intro round_sig_scaled [symmetric]) simp_all
  also have "quot_y n d M * 10 powi (ex + 46) = quot_y n d M * 10 ^ 48 * 10 powi (ex - 2)"
    by (simp add: power_int_add power_int_diff)
  also have "\<dots> = real (n * 10 ^ M) / real d * 10 powi (ex - 2)" unfolding quot_y_scaled [OF q] ..
  finally show "real (digits_val kept) * 10 powi (ex + bump) = round_sig 34 (real (n * 10 ^ M) / real d * 10 powi (ex - 2))" .
qed

text \<open>
  For nonzero operands the answer is the rounded quotient, with its zeros stripped and padded
  towards the ideal exponent when it is exact.
\<close>

lemma dec_div_rounded:
  assumes a: "dec128 (DecFin s1 c1 e1)" "dec128 (DecFin s2 c2 e2)" and n: "0 < digits_val c1" and d: "0 < digits_val c2"
  obtains kept ex exact where "digits kept" "length kept = 34" "hd kept \<noteq> 0"
    "real (digits_val kept) * 10 powi ex = round_sig 34 (real (digits_val c1) / real (digits_val c2) * 10 powi (e1 - e2))"
    "dec_div (DecFin s1 c1 e1) (DecFin s2 c2 e2) =
      (case (if exact then (case strip_to kept ex (e1 - e2) of (c3, e3) \<Rightarrow> pad_to c3 e3 (e1 - e2)) else (kept, ex)) of
        (k, e) \<Rightarrow> Some (DecFin (s1 * s2) k e))"
proof -
  let ?n = "digits_val c1" and ?d = "digits_val c2"
  have e: "coeff34 c1" "coeff34 c2" "-6176 \<le> e1" "e1 \<le> 6111" "-6176 \<le> e2" "e2 \<le> 6111" using a by simp_all
  have c: "strip_leading c1 = c1" "strip_leading c2 = c2" "digits c1" "c1 \<noteq> []" "digits c2" "\<not> all_zero c1" "\<not> all_zero c2"
    using e(1,2) n d coeff34_canonical by (auto simp: coeff34_def digits_val_eq_0 [symmetric])
  obtain M ks where ks: "hp_div (DecFin s1 c1 e1) (DecFin s2 c2 e2) 80 = Some (DecFin (s1 * s2) ks (e1 - e2 - int M + 2))"
    "digits ks" "length ks = 80" "hd ks \<noteq> 0" "48 \<le> M" "M < 116" "10 ^ 81 \<le> ?n * 10 ^ M div ?d" "?n * 10 ^ M div ?d < 10 ^ 82"
    "digits_val ks = quot_z ?n ?d M"
    using hp_div_80 [OF e(1,2) n d e(3-6), of s1 s2] by (auto simp: quot_z_def)
  have q: "quot80 ?n ?d M"
    using n d e(1,2) ks(5,7,8) coeff34_canonical(1) coeff34_nat_digits [of ?n] coeff34_nat_digits [of ?d]
    by (simp add: quot80_def)
  obtain kept bump where r: "round_half_even ks 34 = (kept, bump)" by fastforce
  let ?ex = "e1 - e2 - int M + 2"
  note v = round_34_value(1-4) [OF q ks(2-4,9) r] round_34_value(5) [OF q ks(2-4,9) r, of ?ex]
  have rng: "-7000 \<le> e1" "e1 \<le> 7000" "-7000 \<le> e2" "e2 \<le> 7000" using e by simp_all
  have w: "i32_wrap (?ex + bump) = ?ex + bump" "i32_checked (e1 - e2) = Some (e1 - e2)"
    using e ks(6) v(4) by (auto simp: in_i32_def i32_checked_def)
  have rounded: "(case hp_round_34 (DecFin (s1 * s2) ks ?ex) of Some r \<Rightarrow> Some r
      | None \<Rightarrow> round_exact_quotient (DecFin (s1 * s2) ks ?ex) c1 e1 c2 e2) = Some (DecFin (s1 * s2) kept (?ex + bump))"
    using quotient_rounded [OF q ks(2-4,9) c(3-5) rng ks(6), of "s1 * s2"] by (simp add: r w)
  have c34: "coeff34 kept" using v(1-3) by (auto simp: coeff34_def)
  have x: "real (?n * 10 ^ M) / real ?d * 10 powi (?ex - 2) = real ?n / real ?d * 10 powi (e1 - e2)"
    by (simp add: power_int_diff)
  let ?target = "min (i32_wrap (?ex + bump + e2)) e1"
  let ?exact = "cmp_mag (scale_to (mul_mag kept c2) (i32_wrap (?ex + bump + e2)) ?target) (scale_to c1 e1 ?target) = Equal"
  have "dec_div (DecFin s1 c1 e1) (DecFin s2 c2 e2) =
      (case (if ?exact then (case strip_to kept (?ex + bump) (e1 - e2) of (c3, e3) \<Rightarrow> pad_to c3 e3 (e1 - e2))
             else (kept, ?ex + bump)) of (k, e) \<Rightarrow> Some (DecFin (s1 * s2) k e))"
    using c w(2) ks(1) rounded coeff34_canonical(2) [OF c34] by (simp add: div_fin_def Let_def)
  then show ?thesis using that v unfolding x by blast
qed

text \<open>
  C5: the quotient of two finite decimal128 values with a nonzero divisor
  is always answered, and is the exact quotient rounded once to 34 digits, half to even, although
  the long division is first rounded to 80 digits: no quotient of 34-digit coefficients comes
  near enough to a tie to be moved across it, and an exact tie is recognised by multiplying back.
\<close>

theorem div_correctly_rounded:
  assumes "dec128 (DecFin s1 c1 e1)" "dec128 (DecFin s2 c2 e2)" "dec_val (DecFin s2 c2 e2) \<noteq> 0"
  shows "\<exists>k e. dec_div (DecFin s1 c1 e1) (DecFin s2 c2 e2) = Some (DecFin (s1 * s2) k e) \<and> coeff34 k \<and>
    dec_val (DecFin (s1 * s2) k e) = round_sig 34 (dec_val (DecFin s1 c1 e1) / dec_val (DecFin s2 c2 e2))"
proof (cases "digits_val c1 = 0")
  case True
  have "strip_leading c1 = c1" "strip_leading c2 = c2" "all_zero c1" "\<not> all_zero c2" "i32_checked (e1 - e2) = Some (e1 - e2)"
    using assms True coeff34_canonical by (auto simp: digits_val_eq_0 [symmetric] i32_checked_def in_i32_def)
  then have "dec_div (DecFin s1 c1 e1) (DecFin s2 c2 e2) = Some (DecFin (s1 * s2) [0] (e1 - e2))"
    by (simp add: div_fin_def)
  then show ?thesis using True by (simp add: coeff34_def round_sig_def)
next
  case False
  then have pos: "0 < digits_val c1" "0 < digits_val c2" using assms by auto
  have sg: "s1 * s2 = 1 \<or> s1 * s2 = -1" using assms by (auto simp: sgn_ok_def)
  have "sgn_ok s2" using assms by simp
  then have quot: "dec_val (DecFin s1 c1 e1) / dec_val (DecFin s2 c2 e2) =
      of_int (s1 * s2) * (real (digits_val c1) / real (digits_val c2) * 10 powi (e1 - e2))"
    by (auto simp: sgn_ok_def power_int_diff)
  obtain kept ex exact where r: "digits kept" "length kept = 34" "hd kept \<noteq> 0"
    "real (digits_val kept) * 10 powi ex = round_sig 34 (real (digits_val c1) / real (digits_val c2) * 10 powi (e1 - e2))"
    "dec_div (DecFin s1 c1 e1) (DecFin s2 c2 e2) =
      (case (if exact then (case strip_to kept ex (e1 - e2) of (c3, e3) \<Rightarrow> pad_to c3 e3 (e1 - e2)) else (kept, ex)) of
        (k, e) \<Rightarrow> Some (DecFin (s1 * s2) k e))"
    by (rule dec_div_rounded [OF assms(1,2) pos])
  obtain k e where k: "(if exact then (case strip_to kept ex (e1 - e2) of (c3, e3) \<Rightarrow> pad_to c3 e3 (e1 - e2)) else (kept, ex)) = (k, e)"
    "coeff34 k" "real (digits_val k) * 10 powi e = real (digits_val kept) * 10 powi ex"
    using strip_pad_val [OF r(1-3), of "e1 - e2" ex] r(1-3) by (cases exact) (fastforce simp: coeff34_def)+
  have "dec_val (DecFin (s1 * s2) k e) = of_int (s1 * s2) * (real (digits_val k) * 10 powi e)" by simp
  also have "\<dots> = round_sig 34 (dec_val (DecFin s1 c1 e1) / dec_val (DecFin s2 c2 e2))"
    unfolding k(3) r(4) quot using sg by (rule round_sig_sign [symmetric])
  finally show ?thesis using k(2) by (simp only: r(5) k(1) prod.case) blast
qed

theorem div_correctly_rounded_witness:
  "dec128 (DecFin 1 [1] 0) \<and> dec128 (DecFin (-1) [3] (-6176)) \<and> dec_val (DecFin (-1) [3] (-6176)) \<noteq> 0 \<and>
   (\<exists>k e. dec_div (DecFin 1 [1] 0) (DecFin (-1) [3] (-6176)) = Some (DecFin (1 * -1) k e) \<and> coeff34 k)"
proof -
  have "dec128 (DecFin 1 [1] 0)" "dec128 (DecFin (-1) [3] (-6176))" by (simp_all add: sgn_ok_def coeff34_def)
  moreover have "dec_val (DecFin (-1) [3] e) \<noteq> 0" for e by simp
  ultimately show ?thesis using div_correctly_rounded [of 1 "[1]" 0 "-1" "[3]" "-6176"] by blast
qed

end
