(* ===== verification/Decimal_Bson.thy ===== *)
theory Decimal_Bson
  imports Bson_Model Decimal_Div
begin

text \<open>
  The BSON boundary of \<open>secantus-core/src/decimal.rs\<close>: how integers, doubles and decimal128
  values become decimals, and how decimals become \<open>i64\<close> numbers. A double is formatted by the
  standard library with a fixed number of significant digits and the text is parsed; the
  theorems compare the decimal that comes out with the exact binary value of the double.
\<close>

section \<open>Texts of numbers\<close>

text \<open>\<open>i64::to_string\<close> and the scientific format \<open>{:.p$e}\<close> of a finite nonzero double.\<close>

definition int_to_string :: "int \<Rightarrow> rstr" where
  "int_to_string z = (if z < 0 then [45] else []) @ nat_to_string (nat \<bar>z\<bar>)"

text \<open>
  A double is an integer times a power of two, hence an integer times a power of ten: the
  exact digits are those of that integer. The format keeps \<open>p + 1\<close> of them, rounded to nearest
  with ties to even, or pads them with zeros.
\<close>

definition f64_decimal :: "f64 \<Rightarrow> nat \<times> int" where
  "f64_decimal d =
     (if f64_exp d \<ge> 0 then (f64_mant d * 2 ^ nat (f64_exp d), 0)
      else (f64_mant d * 5 ^ nat (- f64_exp d), f64_exp d))"

definition sci_digits :: "nat \<Rightarrow> nat \<Rightarrow> int \<Rightarrow> nat \<times> int" where
  "sci_digits p n x =
     (let L = length (nat_digits n);
          k = (if L \<le> p + 1 then n * 10 ^ (p + 1 - L) else rne_div n (10 ^ (L - (p + 1))))
      in if k = 10 ^ (p + 1) then (10 ^ p, int L + x) else (k, int L - 1 + x))"

definition fmt_e :: "nat \<Rightarrow> f64 \<Rightarrow> rstr" where
  "fmt_e p d =
     (let (n, x) = f64_decimal d; (k, adj) = sci_digits p n x; ds = ascii (nat_digits k)
      in (if f64_neg d then [45] else []) @ take 1 ds @ (if p = 0 then [] else 46 # drop 1 ds) @ 101 # int_to_string adj)"

section \<open>Conversions\<close>

definition DOUBLE_SIG_DIGITS :: nat where "DOUBLE_SIG_DIGITS = 15"
definition EXACT_EXPANSION_DIGITS :: nat where "EXACT_EXPANSION_DIGITS = 767"

fun from_bson :: "bson \<Rightarrow> dec option" where
  "from_bson (Int32 i) = parse (int_to_string (sint i))"
| "from_bson (Int64 i) = parse (int_to_string (sint i))"
| "from_bson (Double d) =
     (if f64_is_nan d then Some DecNan
      else if f64_is_infinite d then Some (DecInf (if f64_neg d then -1 else 1))
      else if f64_is_zero d then Some (DecFin (if f64_neg d then -1 else 1) [0] 0)
      else parse (fmt_e (DOUBLE_SIG_DIGITS - 1) d))"
| "from_bson (Decimal128 s) = parse s"
| "from_bson _ = None"

definition from_bson_accumulator :: "bson \<Rightarrow> dec option" where
  "from_bson_accumulator b =
     (case b of
        Double d \<Rightarrow>
          (if f64_is_nan d then Some DecNan
           else if f64_is_infinite d then Some (DecInf (if f64_neg d then -1 else 1))
           else if f64_is_zero d then Some (DecFin (if f64_neg d then -1 else 1) [0] 0)
           else case parse (fmt_e (EXACT_EXPANSION_DIGITS - 1) d) of
                  None \<Rightarrow> None
                | Some (DecFin sign coeff ex) \<Rightarrow>
                    (case strip_to coeff ex 0 of (coeff, ex) \<Rightarrow> finish sign coeff ex)
                | Some other \<Rightarrow> Some other)
      | _ \<Rightarrow> from_bson b)"

definition I64_MIN :: int where "I64_MIN = - (2 ^ 63)"
definition I64_MAX :: int where "I64_MAX = 2 ^ 63 - 1"

definition decimal_to_i64_saturating :: "bson \<Rightarrow> int option" where
  "decimal_to_i64_saturating b =
     (let saturate = (\<lambda>sign::int. if sign < 0 then I64_MIN else I64_MAX)
      in case from_bson b of
           None \<Rightarrow> None
         | Some DecNan \<Rightarrow> Some 0
         | Some (DecInf sign) \<Rightarrow> Some (saturate sign)
         | Some (DecFin sign coeff ex) \<Rightarrow>
             (if is_zero (DecFin sign coeff ex) then Some 0
              else Some (case round_to_exp (DecFin sign coeff ex) 0 HalfEven of
                           None \<Rightarrow> saturate sign
                         | Some r \<Rightarrow> (case trunc_to_i64 r of None \<Rightarrow> saturate sign | Some n \<Rightarrow> n))))"

definition decimal_to_i64_exact :: "bson \<Rightarrow> int option" where
  "decimal_to_i64_exact b =
     (case from_bson b of
        None \<Rightarrow> None
      | Some d \<Rightarrow>
          (if is_zero d then Some 0
           else case d of
                  DecFin _ _ _ \<Rightarrow> if is_integral d then trunc_to_i64 d else None
                | _ \<Rightarrow> None))"

section \<open>Reading the texts back\<close>

lemma parse_i32_int_to_string:
  assumes "in_i32 a"
  shows "parse_i32 (int_to_string a) = Some a"
proof -
  let ?s = "nat_to_string (nat \<bar>a\<bar>)"
  have "parse_digits ?s 0 = Some (nat \<bar>a\<bar>)"
    using parse_digits_ascii [of "nat_digits (nat \<bar>a\<bar>)" 0] digits_nat_digits [of "nat \<bar>a\<bar>"]
    by (simp add: nat_to_string_def digits_val_def [symmetric] digits_def del: of_nat_add)
  moreover have "hd ?s \<noteq> 45" "hd ?s \<noteq> 43" "?s \<noteq> []"
    using digit_not_sep [of "hd ?s"] ascii_digit [of "nat_digits (nat \<bar>a\<bar>)" "hd ?s"] by (auto simp: nat_to_string_ascii)
  moreover have "- (2 ^ 63) \<le> a" "a < 2 ^ 63" using assms by (simp_all add: in_i32_def)
  ultimately show ?thesis
    using assms by (cases ?s) (auto simp: parse_i32_def parse_i64_def Let_def i32_checked_def int_to_string_def)
qed

text \<open>A fixed number of significant digits is the real rounded to that many digits.\<close>

lemma rne_div_le: "rne_div n m \<le> n div m + 1" "n div m \<le> rne_div n m"
  by (simp_all add: rne_div_def Let_def)

lemma sig_digits_value:
  fixes p :: nat
  assumes "0 < n"
  defines "L \<equiv> length (nat_digits n)"
  defines "k \<equiv> if L \<le> Suc p then n * 10 ^ (Suc p - L) else rne_div n (10 ^ (L - Suc p))"
  shows "10 ^ p \<le> k" "k \<le> 10 ^ Suc p" "L \<le> Suc p \<Longrightarrow> real k * 10 powi (int L - int (Suc p) + x) = real n * 10 powi x"
    "real k * 10 powi (int L - int (Suc p) + x) = round_sig (Suc p) (real n * 10 powi x)"
proof -
  have L: "10 ^ (L - 1) \<le> n" "n < 10 ^ L" "0 < L"
    using nat_digits_bounds [of n] assms(1) by (simp_all add: L_def length_greater_0_conv)
  have "real (10 ^ (L - 1)) \<le> real n" "real n < real (10 ^ L)" using L by (simp_all only: of_nat_le_iff of_nat_less_iff)
  then have rs: "round_sig (Suc p) (real n * 10 powi x) =
      of_int (rne (real n / 10 powi (int L - int (Suc p)))) * 10 powi (int L - int (Suc p) + x)"
    using L(3) by (intro round_sig_scaled) simp_all
  have "10 ^ p \<le> k \<and> k \<le> 10 ^ Suc p \<and> (L \<le> Suc p \<longrightarrow> real k * 10 powi (int L - int (Suc p) + x) = real n * 10 powi x) \<and>
    rne (real n / 10 powi (int L - int (Suc p))) = int k"
  proof (cases "L \<le> Suc p")
    case True
    let ?j = "Suc p - L"
    have k: "k = n * 10 ^ ?j" using True by (simp add: k_def)
    have "(10::nat) ^ p = 10 ^ (L - 1) * 10 ^ ?j" "(10::nat) ^ Suc p = 10 ^ L * 10 ^ ?j"
      using True L(3) by (simp_all flip: power_add)
    then have b: "10 ^ p \<le> k" "k \<le> 10 ^ Suc p" using L(1,2) by (simp_all only: k mult_le_mono1 less_imp_le)
    have "real n / 10 powi (int L - int (Suc p)) = real n * 10 ^ nat (- (int L - int (Suc p)))"
      using True by (intro div_powi_nonpos) simp
    moreover have "nat (- (int L - int (Suc p))) = ?j" by linarith
    ultimately have q: "real n / 10 powi (int L - int (Suc p)) = real_of_int (int k)" by (simp add: k)
    then have "real k = real n / 10 powi (int L - int (Suc p))" by simp
    moreover have "(10::real) powi (int L - int (Suc p) + x) = 10 powi (int L - int (Suc p)) * 10 powi x"
      by (rule power_int_add) simp
    ultimately have "real k * 10 powi (int L - int (Suc p) + x) = real n * 10 powi x"
      using power_int_not_zero [of "10::real" "int L - int (Suc p)"] by simp
    with b q show ?thesis by (metis rne_of_int)
  next
    case False
    let ?m = "(10::nat) ^ (L - Suc p)"
    have k: "k = rne_div n ?m" using False by (simp add: k_def)
    have "(10::nat) ^ p * ?m = 10 ^ (L - 1)" "(10::nat) ^ Suc p * ?m = 10 ^ L"
      using False by (simp_all flip: power_add power_Suc)
    then have "10 ^ p \<le> n div ?m" "n div ?m < 10 ^ Suc p"
      using L(1,2) by (simp_all add: less_eq_div_iff_mult_less_eq div_less_iff_less_mult del: power_Suc)
    then have b: "10 ^ p \<le> k" "k \<le> 10 ^ Suc p" using rne_div_le [of n ?m] by (simp_all add: k del: power_Suc)
    have "real n / 10 powi (int L - int (Suc p)) = real n / real ?m"
      using powi_nonneg [of "int L - int (Suc p)"] nat_int_minus [of "Suc p" L] False by simp
    then have "rne (real n / 10 powi (int L - int (Suc p))) = int k" 
      using rne_rne_div [of ?m n] False by (simp only: k) simp
    with b False show ?thesis by blast
  qed
  then show "10 ^ p \<le> k" "k \<le> 10 ^ Suc p" "L \<le> Suc p \<Longrightarrow> real k * 10 powi (int L - int (Suc p) + x) = real n * 10 powi x"
    "real k * 10 powi (int L - int (Suc p) + x) = round_sig (Suc p) (real n * 10 powi x)"
    unfolding rs by auto
qed

lemma sci_digits_rounds:
  assumes "0 < n" "sci_digits p n x = (k, adj)"
  shows "10 ^ p \<le> k" "k < 10 ^ Suc p"
    "real k * 10 powi (adj - int p) = round_sig (Suc p) (real n * 10 powi x)"
    "adj = int (length (nat_digits n)) - 1 + x \<or> adj = int (length (nat_digits n)) + x"
    "length (nat_digits n) \<le> Suc p \<Longrightarrow> real k * 10 powi (adj - int p) = real n * 10 powi x"
proof -
  let ?L = "length (nat_digits n)"
  define k0 where "k0 = (if ?L \<le> Suc p then n * 10 ^ (Suc p - ?L) else rne_div n (10 ^ (?L - Suc p)))"
  note v = sig_digits_value(1,2) [OF assms(1), where p = p, folded k0_def]
    sig_digits_value(3,4) [OF assms(1), where p = p and x = x, folded k0_def]
  have "sci_digits p n x = (if k0 = 10 ^ Suc p then (10 ^ p, int ?L + x) else (k0, int ?L - 1 + x))"
    by (simp only: sci_digits_def Let_def k0_def Suc_eq_plus1)
  then consider (up) "k0 = 10 ^ Suc p" "k = 10 ^ p" "adj = int ?L + x"
    | (same) "k0 \<noteq> 10 ^ Suc p" "k = k0" "adj = int ?L - 1 + x"
    using assms(2) by (auto split: if_splits)
  note two = this
  have e: "real k * 10 powi (adj - int p) = real k0 * 10 powi (int ?L - int (Suc p) + x)"
    using two
  proof cases
    case up
    have "adj - int p = 1 + (int ?L - int (Suc p) + x)" using up(3) by simp
    then have "(10::real) powi (adj - int p) = 10 * 10 powi (int ?L - int (Suc p) + x)"
      using power_int_add [of "10::real" 1 "int ?L - int (Suc p) + x"] by (simp only:) simp
    with up(1,2) show ?thesis by (simp del: of_nat_Suc)
  next
    case same
    have "adj - int p = int ?L - int (Suc p) + x" using same(3) by simp
    with same(2) show ?thesis by (simp only:)
  qed
  show "10 ^ p \<le> k" "k < 10 ^ Suc p" using two v(1,2) by (cases; simp)+
  show "real k * 10 powi (adj - int p) = round_sig (Suc p) (real n * 10 powi x)" unfolding e by (rule v(4))
  show "?L \<le> Suc p \<Longrightarrow> real k * 10 powi (adj - int p) = real n * 10 powi x" unfolding e by (rule v(3))
  show "adj = int ?L - 1 + x \<or> adj = int ?L + x" using two by cases auto
qed

section \<open>Doubles as decimals\<close>

text \<open>The real number a finite double denotes.\<close>

definition f64_real :: "f64 \<Rightarrow> real" where
  "f64_real d = of_rat (f64_val d)"

definition f64_sign :: "f64 \<Rightarrow> int" where
  "f64_sign d = (if f64_neg d then -1 else 1)"

lemma of_rat_powi: "(of_rat (a powi k) :: real) = of_rat a powi k"
  by (simp add: power_int_def of_rat_power of_rat_inverse)

lemma f64_real_decimal:
  assumes "f64_decimal d = (n, x)"
  shows "f64_real d = of_int (f64_sign d) * (real n * 10 powi x)"
proof -
  have v: "f64_real d = of_int (f64_sign d) * (real (f64_mant d) * 2 powi f64_exp d)"
    by (simp add: f64_real_def f64_val_def f64_sign_def of_rat_mult of_rat_powi of_rat_minus)
  have "(2::real) powi f64_exp d = 5 ^ nat (- f64_exp d) * 10 powi f64_exp d" if "f64_exp d < 0"
    using that by (simp add: power_int_def power_inverse field_simps flip: power_mult_distrib)
  then show ?thesis using assms unfolding v by (auto simp: f64_decimal_def power_int_def split: if_splits)
qed

lemma f64_power_bounds: "(2::nat) ^ 53 * 2 ^ 971 \<le> 10 ^ 767" "(2::nat) ^ 53 * 5 ^ 1074 \<le> 10 ^ 767"
proof -
  have "x ^ 53 * x ^ 971 = (x ^ 4) ^ 256" for x :: nat by (simp flip: power_mult power_add)
  note this [of 2]
  also have "((2::nat) ^ 4) ^ 256 \<le> (10 ^ 2) ^ 256" by (rule power_mono) simp_all
  also have "((10::nat) ^ 2) ^ 256 \<le> 10 ^ 767" unfolding power_mult [symmetric] by (rule power_increasing) simp_all
  finally show "(2::nat) ^ 53 * 2 ^ 971 \<le> 10 ^ 767" .
  have a: "(5::nat) ^ 103 \<le> 10 ^ 72" "(5::nat) ^ 94 \<le> 10 ^ 66" by simp_all
  have t: "(2::nat) * 5 = 10" by simp
  have "(10::nat) ^ 53 * ((5 ^ 103) ^ 9 * 5 ^ 94) \<le> 10 ^ 53 * ((10 ^ 72) ^ 9 * 10 ^ 66)"
    by (rule mult_le_mono [OF le_refl mult_le_mono [OF power_mono [OF a(1) zero_le] a(2)]])
  moreover have "(x * y) ^ 53 * ((y ^ 103) ^ 9 * y ^ 94) = x ^ 53 * y ^ 1074" for x y :: nat
    by (simp add: power_mult_distrib flip: power_mult power_add)
  note this [of 2 5, unfolded t]
  moreover have "z ^ 53 * ((z ^ 72) ^ 9 * z ^ 66) = z ^ 767" for z :: nat
    by (simp flip: power_mult power_add)
  note this [of 10]
  ultimately show "(2::nat) ^ 53 * 5 ^ 1074 \<le> 10 ^ 767" by (simp only:)
qed

text \<open>
  A finite double has at most 767 significant decimal digits: its mantissa is below \<open>2^53\<close> and
  at most 1074 binary places are negative.
\<close>

lemma f64_digits_bound:
  assumes "f64_is_finite d" "f64_decimal d = (n, x)"
  shows "n < 10 ^ 767" "-1074 \<le> x" "x \<le> 0"
proof -
  note b = f64_exp_bounds [OF assms(1)] f64_mant_less [of d]
  show "-1074 \<le> x" "x \<le> 0" using assms(2) b by (auto simp: f64_decimal_def split: if_splits)
  have "n < 2 ^ 53 * 2 ^ 971 \<or> n < 2 ^ 53 * 5 ^ 1074"
  proof (cases "f64_exp d \<ge> 0")
    case True
    then have "n = f64_mant d * 2 ^ nat (f64_exp d)" using assms(2) by (simp add: f64_decimal_def)
    moreover have "(2::nat) ^ nat (f64_exp d) \<le> 2 ^ 971" using b by (intro power_increasing) auto
    ultimately have "n < 2 ^ 53 * 2 ^ 971" using b(2) by (simp only: mult_less_le_imp_less [OF b(2)] zero_le zero_less_power zero_less_numeral)
    then show ?thesis ..
  next
    case False
    then have "n = f64_mant d * 5 ^ nat (- f64_exp d)" using assms(2) by (auto simp: f64_decimal_def)
    moreover have "(5::nat) ^ nat (- f64_exp d) \<le> 5 ^ 1074" using b by (intro power_increasing) auto
    ultimately have "n < 2 ^ 53 * 5 ^ 1074" using b(2) by (simp only: mult_less_le_imp_less [OF b(2)] zero_le zero_less_power zero_less_numeral)
    then show ?thesis ..
  qed
  then show "n < 10 ^ 767" using f64_power_bounds by (meson less_le_trans)
qed

lemma int_to_string_bytes:
  "int_to_string a \<noteq> []" "is_ascii_digit (last (int_to_string a))" "\<forall>b \<in> set (int_to_string a). num_byte b"
proof -
  let ?n = "nat_digits (nat \<bar>a\<bar>)"
  have d: "\<forall>b \<in> set (ascii ?n). is_ascii_digit b" using ascii_digit [OF digits_nat_digits] by blast
  moreover have "last (ascii ?n) \<in> set (ascii ?n)" by (intro last_in_set) simp
  ultimately show "int_to_string a \<noteq> []" "is_ascii_digit (last (int_to_string a))" "\<forall>b \<in> set (int_to_string a). num_byte b"
    by (auto simp: int_to_string_def nat_to_string_ascii num_byte_def)
qed

lemma parse_sci:
  assumes "digits c" "length c = Suc p" "0 < p" "p < 1000" "hd c \<noteq> 0" "s = 1 \<or> s = -1" "\<bar>adj\<bar> < 2 ^ 30"
  shows "parse ((if s < 0 then [45] else []) @ take 1 (ascii c) @ 46 # drop 1 (ascii c) @ 101 # int_to_string adj) =
    Some (DecFin s c (adj - int p))"
proof -
  obtain d ds where c: "c = d # ds" "length ds = p" using assms(2) by (cases c) auto
  let ?body = "ascii [d] @ 46 # ascii ds @ 101 # int_to_string adj"
  have dg: "\<forall>b \<in> set (ascii (d # ds)). is_ascii_digit b" using assms(1) c ascii_digit by blast
  have "parse ((if s < 0 then lit ''-'' else []) @ ?body) = parse_number s ?body"
    using dg int_to_string_bytes [of adj] assms(6)
    by (intro parse_signed_body) (auto simp: num_byte_def)
  also have "\<dots> = Some (DecFin s (strip_leading ([d] @ ds)) (adj - int (length ds)))"
  proof (rule parse_number_forms(4))
    have "in_i32 adj" using assms(7) by (simp add: in_i32_def abs_less_iff)
    then show "parse_i32 (int_to_string adj) = Some adj" by (rule parse_i32_int_to_string)
  qed (use assms c in \<open>auto simp: in_i32_def\<close>)
  also have "\<dots> = Some (DecFin s (strip_leading c) (adj - int p))" using c by simp
  also have "strip_leading c = c" using assms(1,5) c by (cases ds) auto
  finally show ?thesis using c by (cases "s < 0") simp_all
qed

lemma parse_fmt_e:
  assumes "f64_is_finite d" "\<not> f64_is_zero d" "f64_decimal d = (n, x)" "0 < p" "p < 1000"
  shows "\<exists>k ex. parse (fmt_e p d) = Some (DecFin (f64_sign d) (nat_digits k) ex) \<and> 10 ^ p \<le> k \<and> k < 10 ^ Suc p \<and>
    \<bar>ex\<bar> < 5000 \<and> real k * 10 powi ex = round_sig (Suc p) (real n * 10 powi x) \<and>
    (767 \<le> Suc p \<longrightarrow> real k * 10 powi ex = real n * 10 powi x)"
proof -
  obtain k adj where s: "sci_digits p n x = (k, adj)" by fastforce
  have n: "0 < n" using assms(2,3) f64_mant_pos [of d] by (auto simp: f64_decimal_def split: if_splits)
  note b = f64_digits_bound [OF assms(1,3)]
  have "(0::nat) < 767" by simp
  then have L: "length (nat_digits n) \<le> 767" using length_nat_digits_le [of 767 n] b(1) by blast
  note k = sci_digits_rounds [OF n s]
  have len: "length (nat_digits k) = Suc p" using k(1,2) by (intro length_nat_digits_eqI) simp_all
  have "0 < k" using k(1) by (metis gr_zeroI not_less zero_less_power zero_less_numeral)
  then have "hd (nat_digits k) \<noteq> 0" using hd_nat_digits [of k] by simp
  moreover have "\<bar>adj\<bar> < 2 ^ 30" using k(4) L b(2,3) by auto
  ultimately have "parse (fmt_e p d) = Some (DecFin (f64_sign d) (nat_digits k) (adj - int p))"
    using parse_sci [of "nat_digits k" p "f64_sign d" adj] len assms(4,5)
    by (cases "f64_neg d") (simp_all add: fmt_e_def assms(3) s f64_sign_def Let_def)
  moreover have "\<bar>adj - int p\<bar> < 5000" using k(4) L b(2,3) assms(5) by auto
  ultimately show ?thesis using k L by (meson le_trans)
qed

text \<open>
  \<open>from_bson\<close> takes a finite double to its exact binary value
  rounded to 15 significant digits, half to even, always with a 15-digit coefficient (a zero
  becomes a plain signed zero); NaN and the infinities keep their kind and sign.
\<close>

theorem double_to_decimal_rounded:
  assumes "f64_is_finite d"
  shows "\<exists>c ex. from_bson (Double d) = Some (DecFin (f64_sign d) c ex) \<and>
    dec_val (DecFin (f64_sign d) c ex) = round_sig 15 (f64_real d) \<and>
    (if f64_is_zero d then c = [0] \<and> ex = 0 else digits c \<and> hd c \<noteq> 0 \<and> length c = 15)"
proof (cases "f64_is_zero d")
  case True
  then have "f64_real d = 0" by (simp add: f64_real_def f64_val_zero_iff)
  with True show ?thesis using assms f64_kinds [of d] by (simp add: f64_sign_def round_sig_def)
next
  case False
  obtain n x where nx: "f64_decimal d = (n, x)" by fastforce
  obtain k ex where k: "parse (fmt_e 14 d) = Some (DecFin (f64_sign d) (nat_digits k) ex)" "10 ^ 14 \<le> k" "k < 10 ^ Suc 14"
    "real k * 10 powi ex = round_sig (Suc 14) (real n * 10 powi x)"
    using parse_fmt_e [OF assms False nx, of 14] by auto
  have len: "length (nat_digits k) = Suc 14" using k(2,3) by (intro length_nat_digits_eqI) simp_all
  have hd: "hd (nat_digits k) \<noteq> 0" using hd_nat_digits [of k] k(2) by simp
  have "dec_val (DecFin (f64_sign d) (nat_digits k) ex) = of_int (f64_sign d) * round_sig 15 (real n * 10 powi x)"
    using k(4) by simp
  also have "\<dots> = round_sig 15 (f64_real d)"
    unfolding f64_real_decimal [OF nx] by (rule round_sig_sign [symmetric]) (simp add: f64_sign_def)
  finally show ?thesis
    using False assms k(1) len hd f64_kinds [of d] by (simp add: DOUBLE_SIG_DIGITS_def del: dec_val.simps)
qed

theorem double_to_decimal_rounded_witness:
  "f64_is_finite 0x3fb999999999999a \<and>
   (\<exists>c ex. from_bson (Double 0x3fb999999999999a) = Some (DecFin (f64_sign 0x3fb999999999999a) c ex) \<and>
     dec_val (DecFin (f64_sign 0x3fb999999999999a) c ex) = round_sig 15 (f64_real 0x3fb999999999999a))"
proof -
  have "f64_is_finite 0x3fb999999999999a" by code_simp
  then show ?thesis using double_to_decimal_rounded [of "0x3fb999999999999a"] by blast
qed

text \<open>
  C27: the accumulators take a finite double at its exact binary
  value: the 767 formatted digits lose nothing, stripping zeros keeps the value, and the one
  rounding is that to 34 digits.
\<close>

theorem accumulator_keeps_exact_value:
  assumes "f64_is_finite d"
  shows "\<exists>c ex. from_bson_accumulator (Double d) = Some (DecFin (f64_sign d) c ex) \<and> coeff34 c \<and>
    dec_val (DecFin (f64_sign d) c ex) = round_sig 34 (f64_real d)"
proof (cases "f64_is_zero d")
  case True
  then have "f64_real d = 0" by (simp add: f64_real_def f64_val_zero_iff)
  with True show ?thesis using assms f64_kinds [of d]
    by (simp add: f64_sign_def round_sig_def from_bson_accumulator_def coeff34_def)
next
  case False
  have sg: "sgn_ok (f64_sign d)" by (simp add: f64_sign_def sgn_ok_def)
  obtain n x where nx: "f64_decimal d = (n, x)" by fastforce
  have p: "(0::nat) < 766" "(766::nat) < 1000" "767 \<le> Suc 766" by simp_all
  obtain k ex where k: "parse (fmt_e 766 d) = Some (DecFin (f64_sign d) (nat_digits k) ex)" "k < 10 ^ Suc 766"
    "\<bar>ex\<bar> < 5000" "real k * 10 powi ex = real n * 10 powi x"
    using parse_fmt_e [OF assms False nx p(1,2)] p(3) by blast
  have len: "length (nat_digits k) \<le> Suc 766" using length_nat_digits_le [OF zero_less_Suc, of k 766] k(2) by blast
  obtain q e2 where q: "strip_to (nat_digits k) ex 0 = (q, e2)" "digits q" "q \<noteq> []" "length q \<le> 767" "ex \<le> e2" "e2 \<le> max ex 0"
    "real (digits_val q) * 10 powi e2 = real n * 10 powi x"
    using strip_to_val [of "nat_digits k" ex 0] len k(4) by auto
  have i: "in_i32 e2" "e2 + int (length q) < 2 ^ 31" using q(4-6) k(3) by (auto simp: in_i32_def)
  obtain c e3 where f: "finish (f64_sign d) q e2 = Some (DecFin (f64_sign d) c e3)" "coeff34 c"
    "dec_val (DecFin (f64_sign d) c e3) = round_sig 34 (of_int (f64_sign d) * real (digits_val q) * 10 powi e2)"
    using finish_rounds [OF sg q(2,3) i] by blast
  have "from_bson_accumulator (Double d) = Some (DecFin (f64_sign d) c e3)"
    using False assms f64_kinds [of d] k(1) q(1) f(1) by (simp add: from_bson_accumulator_def EXACT_EXPANSION_DIGITS_def)
  moreover have "of_int (f64_sign d) * real (digits_val q) * 10 powi e2 = f64_real d"
    unfolding f64_real_decimal [OF nx] q(7) [symmetric] by simp
  ultimately show ?thesis using f(2,3) by metis
qed

theorem accumulator_keeps_exact_value_witness:
  "f64_is_finite 1 \<and> (\<exists>c ex. from_bson_accumulator (Double 1) = Some (DecFin (f64_sign 1) c ex) \<and> coeff34 c)"
proof -
  have "f64_is_finite 1" by code_simp
  then show ?thesis using accumulator_keeps_exact_value [of 1] by blast
qed

section \<open>Decimals as integers\<close>

lemma dec_val_zero_iff: "sgn_ok s \<Longrightarrow> dec_val (DecFin s c e) = 0 \<longleftrightarrow> all_zero c"
  by (auto simp: sgn_ok_def digits_val_eq_0)

text \<open>
  the saturating conversion of a finite decimal is the nearest
  integer, ties to even, clamped to the \<open>i64\<close> range; NaN is 0 and an infinity the bound on
  its side.
\<close>

theorem saturating_is_nearest:
  assumes "from_bson b = Some d" "dec128 d"
  shows "decimal_to_i64_saturating b = Some (case d of
      DecNan \<Rightarrow> 0
    | DecInf s \<Rightarrow> if s < 0 then I64_MIN else I64_MAX
    | DecFin s c e \<Rightarrow> max I64_MIN (min I64_MAX (rne (dec_val d))))"
proof (cases d)
  case (DecFin s c e)
  have sg: "sgn_ok s" "coeff34 c" "\<bar>e\<bar> \<le> 2 ^ 29" using assms(2) DecFin by auto
  define z where "z = rne (dec_val (DecFin s c e))"
  show ?thesis
  proof (cases "all_zero c")
    case True
    then have "dec_val (DecFin s c e) = 0" using dec_val_zero_iff [OF sg(1)] by blast
    moreover have "rne 0 = 0" using rne_of_int [of 0] by simp
    ultimately show ?thesis using True DecFin assms(1)
      by (simp add: decimal_to_i64_saturating_def I64_MIN_def I64_MAX_def del: dec_val.simps)
  next
    case False
    obtain k e2 where r: "round_to_exp (DecFin s c e) 0 HalfEven = Some (DecFin s k e2)" "coeff34 k"
      "dec_val (DecFin s k e2) = of_int z" "e2 = 0 \<or> 0 < e2 \<and> length k = 34"
      using round_to_exp_rounds [OF sg, of 0 HalfEven] by (auto simp: z_def simp del: dec_val.simps round_to_exp.simps)
    have kc: "digits k" "k \<noteq> []" using r(2) by (auto simp: coeff34_def)
    have zs: "0 \<le> s * z"
      using round_int_sign [OF sg(1), of "\<bar>dec_val (DecFin s c e)\<bar>" HalfEven] abs_dec_val [OF sg(1), of c e] by (simp add: z_def mult.assoc)
    have big: "2 ^ 63 \<le> \<bar>z\<bar>" if "19 < e2"
    proof -
      have "hd k \<noteq> 0" "length k = 34" using r(2,4) that by (auto simp: coeff34_def)
      then have "nat_digits (digits_val k) = k" using coeff34_canonical(1) [OF r(2)] by simp
      then have "10 ^ 33 \<le> digits_val k"
        using nat_digits_bounds(1) [of "digits_val k"] \<open>length k = 34\<close> \<open>hd k \<noteq> 0\<close> kc by (cases "digits_val k = 0") auto
      then have "real (10 ^ 33) \<le> real (digits_val k)" by (simp only: of_nat_le_iff)
      moreover have "(1::real) \<le> 10 powi e2" using powi_le_iff [of 0 e2] that by simp
      ultimately have "(10::real) ^ 33 * 1 \<le> real (digits_val k) * 10 powi e2" by (intro mult_mono) simp_all
      also have "\<dots> = of_int \<bar>z\<bar>" using abs_dec_val [OF sg(1), of k e2] r(3) by (simp del: dec_val.simps)
      finally show ?thesis by simp
    qed
    have t: "trunc_to_i64 (DecFin s k e2) = (if \<bar>z\<bar> < 2 ^ 63 then Some z else None)"
      using trunc_to_i64_exact [OF sg(1) kc, of e2] big unfolding r(3) by (auto simp del: trunc_to_i64.simps)
    have "decimal_to_i64_saturating b = Some (if \<bar>z\<bar> < 2 ^ 63 then z else if s < 0 then I64_MIN else I64_MAX)"
      using False DecFin assms(1) r(1) t by (simp add: decimal_to_i64_saturating_def del: round_to_exp.simps trunc_to_i64.simps)
    also have "(if \<bar>z\<bar> < 2 ^ 63 then z else if s < 0 then I64_MIN else I64_MAX) = max I64_MIN (min I64_MAX z)"
      using zs sg(1) by (auto simp: I64_MIN_def I64_MAX_def sgn_ok_def)
    finally show ?thesis using DecFin by (simp add: z_def del: dec_val.simps)
  qed
qed (use assms(1) in \<open>simp_all add: decimal_to_i64_saturating_def\<close>)

theorem saturating_is_nearest_witness:
  "from_bson (Decimal128 (lit ''-25E-1'')) = Some (DecFin (-1) [2, 5] (-1)) \<and>
   decimal_to_i64_saturating (Decimal128 (lit ''-25E-1'')) = Some (-2)"
proof -
  have p: "from_bson (Decimal128 (lit ''-25E-1'')) = Some (DecFin (-1) [2, 5] (-1))" by code_simp
  have v: "dec_val (DecFin (-1) [2, 5] (-1)) = - (5 / 2)" by simp
  have "rne (- (5 / 2)) = -2" by (simp add: rne_def)
  with p v show ?thesis
    using saturating_is_nearest [OF p] by (simp add: sgn_ok_def coeff34_def I64_MIN_def I64_MAX_def)
qed

text \<open>
  C37: the exact conversion answers a whole number smaller than \<open>2^63\<close>
  in magnitude and nothing else: \<open>-2^63\<close> is a whole number in the \<open>i64\<close> range and is refused.
\<close>

theorem i64_exact_misses_minimum:
  assumes "from_bson b = Some (DecFin s c e)" "dec128 (DecFin s c e)"
  defines "v \<equiv> dec_val (DecFin s c e)"
  shows "decimal_to_i64_exact b = (if v \<in> \<int> \<and> \<bar>v\<bar> < 2 ^ 63 then Some \<lfloor>v\<rfloor> else None)"
proof (cases "all_zero c")
  case True
  then have "v = 0" using dec_val_zero_iff [of s c e] assms(2) by (simp add: v_def del: dec_val.simps)
  then show ?thesis using True assms(1) by (simp add: decimal_to_i64_exact_def)
next
  case False
  have sg: "sgn_ok s" "digits c" "c \<noteq> []" "\<bar>e\<bar> \<le> 2 ^ 29" using assms(2) by (auto simp: coeff34_def)
  have ex: "decimal_to_i64_exact b = (if v \<in> \<int> then trunc_to_i64 (DecFin s c e) else None)"
    using False assms(1) is_integral_iff [OF sg(1,2,4)]
    by (simp add: decimal_to_i64_exact_def v_def del: trunc_to_i64.simps is_integral.simps dec_val.simps)
  have big: "2 ^ 63 \<le> \<bar>v\<bar>" if "19 < e"
  proof -
    have "1 \<le> digits_val c" using False digits_val_eq_0 [of c] by linarith
    then have "1 * (10::real) powi 20 \<le> real (digits_val c) * 10 powi e"
      using that powi_le_iff [of 20 e] by (intro mult_mono) simp_all
    also have "\<dots> = \<bar>v\<bar>" unfolding v_def abs_dec_val [OF sg(1)] ..
    finally show ?thesis by simp
  qed
  show ?thesis
  proof (cases "v \<in> \<int>")
    case True
    then obtain z where z: "v = of_int z" by (auto elim: Ints_cases)
    have "\<bar>v\<bar> < 2 ^ 63 \<longleftrightarrow> \<bar>z\<bar> < 2 ^ 63"
      unfolding z using of_int_less_iff [where 'a = real, of "\<bar>z\<bar>" "2 ^ 63"] by simp
    then show ?thesis
      using ex True trunc_to_i64_exact [OF sg(1-3), of e] big z unfolding v_def [symmetric]
      by (auto simp del: trunc_to_i64.simps round_int.simps)
  qed (use ex in simp)
qed

theorem i64_exact_misses_minimum_witness:
  "from_bson (Decimal128 (lit ''-9223372036854775808'')) = Some (DecFin (-1) [9, 2, 2, 3, 3, 7, 2, 0, 3, 6, 8, 5, 4, 7, 7, 5, 8, 0, 8] 0) \<and>
   decimal_to_i64_exact (Decimal128 (lit ''-9223372036854775808'')) = None"
proof -
  let ?b = "Decimal128 (lit ''-9223372036854775808'')"
  have p: "from_bson ?b = Some (DecFin (-1) [9, 2, 2, 3, 3, 7, 2, 0, 3, 6, 8, 5, 4, 7, 7, 5, 8, 0, 8] 0)" by code_simp
  then show ?thesis using i64_exact_misses_minimum [OF p] by (simp add: sgn_ok_def coeff34_def)
qed

end
