(* ===== verification/Stable_Sort.thy ===== *)
theory Stable_Sort
  imports Comparator
begin

text \<open>
  \<open>slice::sort_by\<close> of the standard library, a stable sort by a comparator function, and what
  determines its result: a list is the stable sort of another exactly when it is sorted and
  holds the items of every class of equal ones in the same order. The external sorter is
  compared with it.
\<close>

fun insert_by :: "('a \<Rightarrow> 'a \<Rightarrow> ordering) \<Rightarrow> 'a \<Rightarrow> 'a list \<Rightarrow> 'a list" where
  "insert_by c x [] = [x]"
| "insert_by c x (y # ys) = (if c x y = Greater then y # insert_by c x ys else x # y # ys)"

definition sort_by :: "('a \<Rightarrow> 'a \<Rightarrow> ordering) \<Rightarrow> 'a list \<Rightarrow> 'a list" where
  "sort_by c xs = foldr (insert_by c) xs []"

definition sorted_by :: "('a \<Rightarrow> 'a \<Rightarrow> ordering) \<Rightarrow> 'a list \<Rightarrow> bool" where
  "sorted_by c = sorted_wrt (\<lambda>x y. c x y \<noteq> Greater)"

lemma sorted_by_simps [simp]:
  "sorted_by c []" "sorted_by c (x # xs) \<longleftrightarrow> (\<forall>y \<in> set xs. c x y \<noteq> Greater) \<and> sorted_by c xs"
  by (simp_all add: sorted_by_def)

lemma set_insert_by [simp]: "set (insert_by c x ys) = insert x (set ys)"
  by (induction ys) auto

lemma length_insert_by [simp]: "length (insert_by c x ys) = Suc (length ys)"
  by (induction ys) auto

lemma sort_by_simps [simp]: "sort_by c [] = []" "sort_by c (x # xs) = insert_by c x (sort_by c xs)"
  by (simp_all add: sort_by_def)

lemma set_sort_by [simp]: "set (sort_by c xs) = set xs"
  by (induction xs) simp_all

lemma length_sort_by [simp]: "length (sort_by c xs) = length xs"
  by (induction xs) simp_all

context comparator
begin

lemma sorted_insert_by:
  assumes "D x" "\<forall>y \<in> set ys. D y" "sorted_by c ys"
  shows "sorted_by c (insert_by c x ys)"
  using assms(2,3)
proof (induction ys)
  case (Cons y ys)
  have d: "D x" "D y" using assms(1) Cons.prems by simp_all
  show ?case
  proof (cases "c x y = Greater")
    case True
    then have "c y x \<noteq> Greater" using swap [OF d] by simp
    with True Cons show ?thesis by simp
  next
    case False
    have "\<forall>z \<in> set ys. c x z \<noteq> Greater" using Cons.prems False trans [OF d] by auto
    with False Cons.prems show ?thesis by simp
  qed
qed simp

lemma sorted_sort_by: "\<forall>x \<in> set xs. D x \<Longrightarrow> sorted_by c (sort_by c xs)"
  by (induction xs) (simp_all add: sorted_insert_by)

text \<open>Items that compare equal keep their order.\<close>

lemma equal_iff: "D x \<Longrightarrow> D y \<Longrightarrow> D z \<Longrightarrow> c x y = Equal \<Longrightarrow> c z x = Equal \<longleftrightarrow> c z y = Equal"
  using equal_trans swap by (metis reverse_ord.simps(2))

lemma filter_insert_by:
  assumes "D z" "D x" "\<forall>y \<in> set ys. D y"
  shows "filter (\<lambda>y. c z y = Equal) (insert_by c x ys) = filter (\<lambda>y. c z y = Equal) (x # ys)"
  using assms(3)
proof (induction ys)
  case (Cons y ys)
  have d: "D x" "D y" using assms(2) Cons.prems by simp_all
  have "\<not> (c z x = Equal \<and> c z y = Equal)" if "c x y = Greater"
    using that equal_trans [OF d(1) assms(1) d(2)] swap [OF assms(1) d(1)] by auto
  with Cons show ?case by auto
qed simp

lemma stable_sort_by:
  "D z \<Longrightarrow> \<forall>x \<in> set xs. D x \<Longrightarrow> filter (\<lambda>y. c z y = Equal) (sort_by c xs) = filter (\<lambda>y. c z y = Equal) xs"
  by (induction xs) (simp_all add: filter_insert_by)

text \<open>A sorted list is determined by its classes of equal items.\<close>

lemma sorted_unique:
  assumes "\<forall>x \<in> set xs. D x" "\<forall>y \<in> set ys. D y" "sorted_by c xs" "sorted_by c ys"
    "\<And>z. D z \<Longrightarrow> filter (\<lambda>y. c z y = Equal) xs = filter (\<lambda>y. c z y = Equal) ys"
  shows "xs = ys"
  using assms
proof (induction xs arbitrary: ys)
  case Nil
  show ?case
  proof (cases ys)
    case (Cons y ys')
    then have "D y" using Nil by simp
    then have "filter (\<lambda>z. c y z = Equal) ys = []" using Nil.prems(5) [of y] by simp
    with Cons \<open>D y\<close> refl show ?thesis by simp
  qed simp
next
  case (Cons x xs)
  note F = Cons.prems(5)
  have dx: "D x" using Cons.prems by simp
  have "x \<in> set (filter (\<lambda>y. c x y = Equal) ys)" 
    unfolding F [OF dx, symmetric] using refl [OF dx] by simp
  then have "x \<in> set ys" by simp
  then obtain y ys' where ys: "ys = y # ys'" "x \<in> set ys" by (cases ys) auto
  have dy: "D y" using Cons.prems ys by simp
  have "y \<in> set (filter (\<lambda>z. c y z = Equal) (x # xs))"
    unfolding F [OF dy] using refl [OF dy] ys by simp
  then have "y \<in> set (x # xs)" unfolding set_filter by blast
  then have "c x y \<noteq> Greater" using Cons.prems(3) refl [OF dx] by auto
  moreover have "c y x \<noteq> Greater" using Cons.prems(4) ys refl [OF dy] by auto
  ultimately have eq: "c x y = Equal" using swap [OF dx dy] by (cases "c x y") auto
  then have "filter (\<lambda>z. c x z = Equal) (x # xs) = x # filter (\<lambda>z. c x z = Equal) xs"
    "filter (\<lambda>z. c x z = Equal) ys = y # filter (\<lambda>z. c x z = Equal) ys'"
    using refl [OF dx] ys by simp_all
  then have xy: "x = y" using F [OF dx] by simp
  have "xs = ys'"
  proof (rule Cons.IH)
    show "filter (\<lambda>y. c z y = Equal) xs = filter (\<lambda>y. c z y = Equal) ys'" if "D z" for z
      using F [OF that] unfolding ys(1) xy by (auto split: if_splits)
  qed (use Cons.prems ys in auto)
  with xy ys show ?case by simp
qed

lemma sort_by_eqI:
  assumes "\<forall>x \<in> set xs. D x" "\<forall>y \<in> set ys. D y" "sorted_by c ys"
    "\<And>z. D z \<Longrightarrow> filter (\<lambda>y. c z y = Equal) ys = filter (\<lambda>y. c z y = Equal) xs"
  shows "sort_by c xs = ys"
proof (rule sorted_unique)
  show "filter (\<lambda>y. c z y = Equal) (sort_by c xs) = filter (\<lambda>y. c z y = Equal) ys" if "D z" for z
    using stable_sort_by [OF that assms(1)] assms(4) [OF that] by simp
qed (use assms sorted_sort_by in simp_all)

lemma sort_by_sorted: "\<forall>x \<in> set xs. D x \<Longrightarrow> sorted_by c xs \<Longrightarrow> sort_by c xs = xs"
  by (rule sort_by_eqI) simp_all

text \<open>Stability as an order: with the items in some order \<open>R\<close> to begin with, an item of the sort
  precedes a later one by the comparator, or compares equal to it and preceded it in \<open>R\<close>.\<close>

lemma stable_insert_by:
  assumes "D x" "\<forall>y \<in> set ys. D y \<and> R x y"
    "sorted_wrt (\<lambda>x y. c x y = Less \<or> c x y = Equal \<and> R x y) ys"
  shows "sorted_wrt (\<lambda>x y. c x y = Less \<or> c x y = Equal \<and> R x y) (insert_by c x ys)"
  using assms(2,3)
proof (induction ys)
  case (Cons y ys)
  have d: "D x" "D y" using assms(1) Cons.prems by simp_all
  show ?case
  proof (cases "c x y = Greater")
    case True
    then have "c y x = Less" using swap [OF d] by simp
    with True Cons show ?thesis by auto
  next
    case False
    have "c x z \<noteq> Greater" if "z \<in> set ys" for z
      using False Cons.prems that trans [OF d, of z] by force
    with False have "\<forall>z \<in> set (y # ys). c x z = Less \<or> c x z = Equal" by (metis ordering.exhaust set_ConsD)
    with False Cons.prems show ?thesis by auto
  qed
qed simp

lemma stable_order_sort_by:
  "\<forall>x \<in> set xs. D x \<Longrightarrow> sorted_wrt R xs \<Longrightarrow> sorted_wrt (\<lambda>x y. c x y = Less \<or> c x y = Equal \<and> R x y) (sort_by c xs)"
  by (induction xs) (simp_all add: stable_insert_by)

text \<open>Sorting the blocks of a list first does not change its sort.\<close>

lemma sort_by_blocks:
  assumes "\<forall>x \<in> set (concat xss). D x"
  shows "sort_by c (concat (map (sort_by c) xss)) = sort_by c (concat xss)"
proof (rule sort_by_eqI)
  fix z assume z: "D z"
  have "filter (\<lambda>y. c z y = Equal) (concat (map (sort_by c) xss)) = filter (\<lambda>y. c z y = Equal) (concat xss)"
    using assms by (induction xss) (simp_all add: stable_sort_by [OF z])
  then show "filter (\<lambda>y. c z y = Equal) (sort_by c (concat xss)) = filter (\<lambda>y. c z y = Equal) (concat (map (sort_by c) xss))"
    using stable_sort_by [OF z] assms by simp
qed (use assms sorted_sort_by in simp_all)

text \<open>The first of the least items is the first of the sort.\<close>

lemma sort_by_pick:
  assumes "\<forall>y \<in> set (as @ x # bs). D y" "\<forall>y \<in> set (as @ bs). c x y \<noteq> Greater" "\<forall>y \<in> set as. c x y \<noteq> Equal"
  shows "sort_by c (as @ x # bs) = x # sort_by c (as @ bs)"
proof (rule sort_by_eqI)
  show "filter (\<lambda>y. c z y = Equal) (x # sort_by c (as @ bs)) = filter (\<lambda>y. c z y = Equal) (as @ x # bs)" if z: "D z" for z
  proof (cases "c z x = Equal")
    case True
    then have "filter (\<lambda>y. c z y = Equal) as = []"
      using assms(1,3) z equal_trans [of x z] swap [of z x] by (force simp: filter_empty_conv)
    with True show ?thesis using stable_sort_by [OF z, of "as @ bs"] assms(1) by simp
  next
    case False
    then show ?thesis using stable_sort_by [OF z, of "as @ bs"] assms(1) by simp
  qed
qed (use assms sorted_sort_by [of "as @ bs"] in auto)

end

text \<open>A comparator on keys sorts what carries the keys.\<close>

lemma comparator_on_key:
  assumes "comparator D c"
  shows "comparator (\<lambda>x. D (f x)) (\<lambda>x y. c (f x) (f y))"
proof (rule comparator.intro)
  show "c (f y) (f x) = reverse_ord (c (f x) (f y))" if "D (f x)" "D (f y)" for x y
    using comparator.swap [OF assms that] .
  show "c (f x) (f z) \<noteq> Greater"
    if "D (f x)" "D (f y)" "D (f z)" "c (f x) (f y) \<noteq> Greater" "c (f y) (f z) \<noteq> Greater" for x y z
    using comparator.trans [OF assms that] .
qed

end
