(* ===== verification/Mem_Limit.thy ===== *)
theory Mem_Limit
  imports Bson_Model
begin

text \<open>
  The memory accounting of \<open>secantus-core/src/memlimit.rs\<close> that the sorts use: the sizes the
  budget counts, and the counters a sort and its spills leave behind for the profile and the
  server status.
\<close>

section \<open>Sizes\<close>

definition DOCUMENT_OVERHEAD :: nat where "DOCUMENT_OVERHEAD = 104"
definition VALUE :: nat where "VALUE = 16"
definition RC_STRING :: nat where "RC_STRING = 24"
definition RC_VECTOR :: nat where "RC_VECTOR = 40"
definition RC_DECIMAL :: nat where "RC_DECIMAL = 32"
definition SHORT_STR :: nat where "SHORT_STR = 11"
definition SBE_VALUE :: nat where "SBE_VALUE = 9"
definition SBE_SMALL_STR :: nat where "SBE_SMALL_STR = 7"

fun digit_count :: "nat \<Rightarrow> nat" where
  "digit_count i = (if i \<ge> 10 then digit_count (i div 10) + 1 else 1)"

declare digit_count.simps [simp del]

fun bson_len :: "document \<Rightarrow> nat"
  and fields_len :: "document \<Rightarrow> nat"
  and array_len :: "bson list \<Rightarrow> nat"
  and items_len :: "nat \<Rightarrow> bson list \<Rightarrow> nat"
  and bson_value_len :: "bson \<Rightarrow> nat" where
  "bson_len doc = 5 + fields_len doc"
| "fields_len [] = 0"
| "fields_len ((k, v) # d) = 2 + length k + bson_value_len v + fields_len d"
| "array_len items = 5 + items_len 0 items"
| "items_len i [] = 0"
| "items_len i (v # vs) = 2 + digit_count i + bson_value_len v + items_len (i + 1) vs"
| "bson_value_len (Double _) = 8"
| "bson_value_len (DateTime _) = 8"
| "bson_value_len (Timestamp _ _) = 8"
| "bson_value_len (Int64 _) = 8"
| "bson_value_len (String s) = 5 + length s"
| "bson_value_len (JavaScriptCode s) = 5 + length s"
| "bson_value_len (Symbol s) = 5 + length s"
| "bson_value_len (Document d) = bson_len d"
| "bson_value_len (Array a) = array_len a"
| "bson_value_len (Binary subtype b) = 5 + length b + (if subtype = 2 then 4 else 0)"
| "bson_value_len (ObjectId _) = 12"
| "bson_value_len (Boolean _) = 1"
| "bson_value_len (RegularExpression pattern options) = length pattern + length options + 2"
| "bson_value_len (JavaScriptCodeWithScope code scope) = 4 + 5 + length code + bson_len scope"
| "bson_value_len (Int32 _) = 4"
| "bson_value_len (Decimal128 _) = 16"
| "bson_value_len (DbPointer _ _) = 5 + 12 + 32"
| "bson_value_len Null = 0"
| "bson_value_len Undefined = 0"
| "bson_value_len MinKey = 0"
| "bson_value_len MaxKey = 0"

definition document_size :: "document \<Rightarrow> nat" where
  "document_size doc = bson_len doc + DOCUMENT_OVERHEAD"

definition classic_string :: "nat \<Rightarrow> nat" where
  "classic_string len = (if len \<le> SHORT_STR then VALUE else VALUE + RC_STRING + len)"

fun classic_size :: "bson \<Rightarrow> nat" where
  "classic_size (String s) = classic_string (length s)"
| "classic_size (JavaScriptCode s) = classic_string (length s)"
| "classic_size (Symbol s) = classic_string (length s)"
| "classic_size (RegularExpression pattern options) = classic_string (length pattern + 1 + length options)"
| "classic_size (Binary _ b) = classic_string (length b)"
| "classic_size (Document d) = VALUE + document_size d"
| "classic_size (Array a) = VALUE + RC_VECTOR + sum_list (map classic_size a)"
| "classic_size (Decimal128 _) = VALUE + RC_DECIMAL"
| "classic_size (JavaScriptCodeWithScope code scope) = VALUE + RC_STRING + length code + bson_len scope"
| "classic_size _ = VALUE"

definition sbe_string :: "nat \<Rightarrow> nat" where
  "sbe_string len = (if len \<le> SBE_SMALL_STR then SBE_VALUE else SBE_VALUE + 4 + len + 1)"

fun sbe_size :: "bson \<Rightarrow> nat" where
  "sbe_size (String s) = sbe_string (length s)"
| "sbe_size (JavaScriptCode s) = sbe_string (length s)"
| "sbe_size (Symbol s) = sbe_string (length s)"
| "sbe_size (Document d) = SBE_VALUE + bson_len d"
| "sbe_size (Array a) = SBE_VALUE + array_len a"
| "sbe_size (Binary _ b) = SBE_VALUE + 4 + 1 + length b"
| "sbe_size (ObjectId _) = SBE_VALUE + 12"
| "sbe_size (Decimal128 _) = SBE_VALUE + 16"
| "sbe_size (RegularExpression pattern options) = SBE_VALUE + 4 + length pattern + length options + 2"
| "sbe_size (JavaScriptCodeWithScope code scope) = SBE_VALUE + bson_value_len (JavaScriptCodeWithScope code scope)"
| "sbe_size _ = SBE_VALUE"

section \<open>Counters\<close>

text \<open>\<open>SpillReport\<close>, the report of the operation, and the counters of the process.\<close>

record spill_report =
  used_disk :: bool
  has_sort_stage :: bool
  sort_spills :: int
  sort_spilled_records :: int
  sort_spilled_bytes :: int
  sort_spilled_data_storage_size :: int
  sort_total_data_size :: int

record spill_counters =
  ctr_spills :: int
  ctr_spilled_records :: int
  ctr_spilled_bytes :: int
  ctr_spilled_data_storage_size :: int

record sort_counters =
  spill_to_disk :: int
  spill_to_disk_bytes :: int
  total_bytes_sorted :: int
  total_keys_sorted :: int

record accounts =
  REPORT :: spill_report
  SORT_METRICS :: sort_counters
  BUCKET_AUTO_METRICS :: spill_counters

definition record_sort :: "int \<Rightarrow> int \<Rightarrow> accounts \<Rightarrow> accounts" where
  "record_sort keys bytes a =
     a\<lparr>REPORT := (REPORT a)\<lparr>has_sort_stage := True, sort_total_data_size := sort_total_data_size (REPORT a) + bytes\<rparr>,
       SORT_METRICS := (SORT_METRICS a)\<lparr>total_keys_sorted := total_keys_sorted (SORT_METRICS a) + keys,
         total_bytes_sorted := total_bytes_sorted (SORT_METRICS a) + bytes\<rparr>\<rparr>"

definition record_sort_spill :: "int \<Rightarrow> int \<Rightarrow> int \<Rightarrow> accounts \<Rightarrow> accounts" where
  "record_sort_spill records bytes storage a =
     (let r = REPORT a; m = SORT_METRICS a in
      a\<lparr>REPORT := r\<lparr>used_disk := True, sort_spills := sort_spills r + 1,
          sort_spilled_records := sort_spilled_records r + records,
          sort_spilled_bytes := sort_spilled_bytes r + bytes,
          sort_spilled_data_storage_size := sort_spilled_data_storage_size r + storage\<rparr>,
        SORT_METRICS := m\<lparr>spill_to_disk := spill_to_disk m + 1,
          spill_to_disk_bytes := spill_to_disk_bytes m + storage\<rparr>\<rparr>)"

definition record_bucket_auto_spill :: "int \<Rightarrow> int \<Rightarrow> int \<Rightarrow> accounts \<Rightarrow> accounts" where
  "record_bucket_auto_spill records bytes storage a =
     (let m = BUCKET_AUTO_METRICS a in
      a\<lparr>REPORT := (REPORT a)\<lparr>used_disk := True\<rparr>,
        BUCKET_AUTO_METRICS := m\<lparr>ctr_spills := ctr_spills m + 1,
          ctr_spilled_records := ctr_spilled_records m + records,
          ctr_spilled_bytes := ctr_spilled_bytes m + bytes,
          ctr_spilled_data_storage_size := ctr_spilled_data_storage_size m + storage\<rparr>\<rparr>)"

end
