(* ===== verification/External_Sort.thy ===== *)
theory External_Sort
  imports Stable_Sort Mem_Limit Bson_Codec
begin

text \<open>
  The blocking sort of \<open>secantus-core/src/sorter.rs\<close>: items are held in memory up to a budget,
  sorted runs are written to spill files through the document writer and read back through the
  document reader, runs are merged in passes, and the last runs are merged into the answer.

  What is outside the program is the record \<open>sort_env\<close>: the codec crate, whether the command
  allows disk use, the kill flag and the clock as successive polls read them, the deadline that is
  armed, and which file operation fails with what text. A file
  that is written without an error reads back as it was written. The one loop that is not
  bounded by its data, the merge passes, is a partial function, so an answer \<open>None\<close> is a sort
  that never returns.
\<close>

section \<open>Settings\<close>

definition FILE_ITERATOR :: nat where "FILE_ITERATOR = 136"
definition SORTED_FILE_BUFFER :: nat where "SORTED_FILE_BUFFER = 64 * 1024"

datatype sort_source = QueryLayer | Stored | Modified | Unwound | BucketAuto | Sbe

fun overhead :: "sort_source \<Rightarrow> nat" where
  "overhead QueryLayer = 16"
| "overhead Stored = 96"
| "overhead Modified = 224"
| "overhead Unwound = 240"
| "overhead BucketAuto = 333"
| "overhead Sbe = 32"

definition file_iterator :: "sort_source \<Rightarrow> nat" where
  "file_iterator source = (case source of Sbe \<Rightarrow> 152 | _ \<Rightarrow> FILE_ITERATOR)"

record sizing =
  source :: sort_source
  kept_fields :: "rstr set option"
  budget :: nat
  added :: "rstr set option"

type_synonym item = "bson list \<times> document"

type_synonym key_cmp = "bson list \<Rightarrow> bson list \<Rightarrow> ordering"

text \<open>
  \<open>(budget as f64 * 0.1) as usize\<close>: the conversion and the product are rounded to 53 bits, and
  the double nearest 0.1 is \<open>3602879701896397 / 2^55\<close>. Nothing here is below the normal range.
\<close>

fun bit_length :: "nat \<Rightarrow> nat" where
  "bit_length n = (if n = 0 then 0 else Suc (bit_length (n div 2)))"

declare bit_length.simps [simp del]

definition round_ne :: "nat \<Rightarrow> nat \<Rightarrow> nat" where
  "round_ne n m =
     (let q = n div m; r = n mod m in if 2 * r < m \<or> 2 * r = m \<and> even q then q else q + 1)"

definition round53 :: "nat \<Rightarrow> nat" where
  "round53 n = (let k = bit_length n - 53 in round_ne n (2 ^ k) * 2 ^ k)"

definition tenth :: "nat \<Rightarrow> nat" where
  "tenth bdg = round53 (round53 bdg * 3602879701896397) div 2 ^ 55"

definition reserved :: "nat \<Rightarrow> nat \<Rightarrow> nat" where
  "reserved bdg iterator =
     (let requested = tenth bdg;
          bytes = (if requested < 2 ^ 20 then max requested iterator else 2 ^ 20)
      in iterator * (bytes div iterator))"

section \<open>Sizes\<close>

definition key_size :: "bson list \<Rightarrow> nat" where
  "key_size keys = (case keys of [one] \<Rightarrow> classic_size one | many \<Rightarrow> 16 + 40 + sum_list (map classic_size many))"

definition opt_all :: "'a option \<Rightarrow> ('a \<Rightarrow> bool) \<Rightarrow> bool" where
  "opt_all x p = (case x of None \<Rightarrow> True | Some a \<Rightarrow> p a)"

definition opt_any :: "'a option \<Rightarrow> ('a \<Rightarrow> bool) \<Rightarrow> bool" where
  "opt_any x p = (case x of None \<Rightarrow> False | Some a \<Rightarrow> p a)"

definition doc_size :: "document \<Rightarrow> sizing \<Rightarrow> nat" where
  "doc_size doc sz =
     (let kept = (\<lambda>k. opt_all (kept_fields sz) (\<lambda>f. k \<in> f) \<and> opt_all (added sz) (\<lambda>a. k \<notin> a));
          body =
            (if source sz = Sbe then sum_list (map (\<lambda>(k, v). sbe_size v) (filter (\<lambda>(k, v). kept k) doc))
             else if kept_fields sz = None \<and> added sz = None then bson_len doc
             else bson_len (foldl (\<lambda>d (k, v). doc_insert d k v) [] (filter (\<lambda>(k, v). kept k) doc)))
      in body + overhead (source sz))"

definition sized_key :: "bson list \<Rightarrow> sort_source \<Rightarrow> nat" where
  "sized_key keys src = (if src = Sbe then sum_list (map sbe_size keys) else key_size keys)"

fun value_bytes :: "bson \<Rightarrow> nat"
  and fields_bytes :: "document \<Rightarrow> nat" where
  "value_bytes Null = 1"
| "value_bytes Undefined = 1"
| "value_bytes MinKey = 1"
| "value_bytes MaxKey = 1"
| "value_bytes (ObjectId _) = 1 + 12"
| "value_bytes (Int32 _) = 1 + 4"
| "value_bytes (Int64 _) = 1 + 8"
| "value_bytes (Double _) = 1 + 8"
| "value_bytes (DateTime _) = 1 + 8"
| "value_bytes (Timestamp _ _) = 1 + 8"
| "value_bytes (Decimal128 _) = 1 + 16"
| "value_bytes (Boolean _) = 1 + 1"
| "value_bytes (String x) = 1 + (4 + length x)"
| "value_bytes (Symbol x) = 1 + (4 + length x)"
| "value_bytes (JavaScriptCode x) = 1 + (4 + length x)"
| "value_bytes (Binary _ b) = 1 + (1 + 4 + length b)"
| "value_bytes (RegularExpression pattern options) = 1 + (length pattern + 1 + length options + 1)"
| "value_bytes (Document d) = 1 + (4 + fields_bytes d + 1)"
| "value_bytes (Array a) = 1 + (4 + sum_list (map value_bytes a))"
| "value_bytes (JavaScriptCodeWithScope code scope) = 1 + (4 + length code + bson_len scope)"
| "value_bytes (DbPointer _ _) = 1 + (12 + 33)"
| "fields_bytes [] = 0"
| "fields_bytes ((k, v) # d) = length k + 1 + value_bytes v + fields_bytes d"

definition document_bytes :: "document \<Rightarrow> nat" where
  "document_bytes d = 4 + fields_bytes d + 1"

definition spilled_bytes :: "bson list \<Rightarrow> document \<Rightarrow> sizing \<Rightarrow> nat" where
  "spilled_bytes keys doc sz =
     (let key = (case keys of [one] \<Rightarrow> value_bytes one | many \<Rightarrow> 1 + 4 + sum_list (map value_bytes many));
          kept = foldl (\<lambda>d (k, v). doc_insert d k v) []
                   (filter (\<lambda>(k, v). opt_all (kept_fields sz) (\<lambda>f. k \<in> f) \<or> opt_any (added sz) (\<lambda>a. k \<in> a)) doc);
          val = (case source sz of
                   QueryLayer \<Rightarrow> bson_len doc
                 | Sbe \<Rightarrow> bson_len kept
                 | BucketAuto \<Rightarrow> 4 + 7 + 1 + document_bytes kept + 17 + 9 + 1
                 | _ \<Rightarrow> document_bytes kept)
      in key + val)"

section \<open>What is outside\<close>

datatype sort_error =
    Sort_refused nat
  | Time_expired
  | Spill_io rstr "nat option" rstr
  | Spill_panic
  | Sort_defer
  | Sort_ambiguous rstr "bson list"

record sort_env =
  sort_crate :: bson_crate
  disk_allowed :: bool
  killed :: "nat \<Rightarrow> bool"
  armed :: "nat option"
  clock :: "nat \<Rightarrow> nat"
  io_fault :: "nat \<Rightarrow> rstr option"

record sort_state =
  checks :: nat
  INTERRUPT_TICKS :: u32
  armed_ticks :: u32
  TRIPPED :: bool
  io_ops :: nat
  NEXT_FILE :: nat
  accts :: accounts

type_synonym 'a act = "sort_state \<Rightarrow> (sort_error + 'a) \<times> sort_state"

definition bind_act :: "'a act \<Rightarrow> ('a \<Rightarrow> 'b act) \<Rightarrow> 'b act" where
  "bind_act m f s = (case m s of (Inl e, s') \<Rightarrow> (Inl e, s') | (Inr a, s') \<Rightarrow> f a s')"

text \<open>
  \<open>deadline::check\<close>: the kill flag and the clock are read at every 64th call; both counters are
  \<open>u32\<close> and wrap. \<open>checks\<close> counts the calls, the time at which the environment is asked.
\<close>

definition POLL_EVERY :: nat where "POLL_EVERY = 64"

definition trip :: "unit act" where
  "trip s = (Inl Time_expired, s\<lparr>TRIPPED := True\<rparr>)"

definition check :: "sort_env \<Rightarrow> unit act" where
  "check env s =
     (let now = checks s; tick = INTERRUPT_TICKS s + 1; s = s\<lparr>checks := now + 1, INTERRUPT_TICKS := tick\<rparr>
      in if unat tick mod POLL_EVERY = 0 \<and> killed env now then trip s
         else case armed env of
                None \<Rightarrow> (Inr (), s)
              | Some deadline \<Rightarrow>
                  (let ticks = armed_ticks s + 1; s = s\<lparr>armed_ticks := ticks\<rparr>
                   in if unat ticks mod POLL_EVERY = 0 \<and> clock env now \<ge> deadline then trip s
                      else (Inr (), s)))"

definition file_op :: "sort_env \<Rightarrow> rstr \<Rightarrow> nat option \<Rightarrow> unit act" where
  "file_op env what file s =
     (case io_fault env (io_ops s) of Some e \<Rightarrow> Inl (Spill_io what file e) | None \<Rightarrow> Inr (),
      s\<lparr>io_ops := io_ops s + 1\<rparr>)"

section \<open>Runs\<close>

record run =
  run_file :: nat
  content :: bytes
  records :: nat

definition record_doc :: "item \<Rightarrow> document" where
  "record_doc it = [(lit ''k'', Array (fst it)), (lit ''d'', Document (snd it))]"

definition encode_record :: "sort_env \<Rightarrow> nat \<Rightarrow> item \<Rightarrow> bytes act" where
  "encode_record env file it s =
     (case write_bson (sort_crate env) (record_doc it) [] of
        (buf, None) \<Rightarrow> (Inr buf, s)
      | (_, Some Write_panic) \<Rightarrow> (Inl Spill_panic, s)
      | (_, Some (Ser e)) \<Rightarrow> (Inl (Spill_io (lit ''encode a record for'') (Some file) []), s))"

fun write_records :: "sort_env \<Rightarrow> sizing \<Rightarrow> nat \<Rightarrow> item list \<Rightarrow> bytes \<Rightarrow> nat \<Rightarrow> nat \<Rightarrow> (bytes \<times> nat \<times> nat) act" where
  "write_records env sz file [] out bytes n s = (Inr (out, bytes, n), s)"
| "write_records env sz file (it # items) out bytes n s =
     bind_act (encode_record env file it) (\<lambda>buf.
       bind_act (file_op env (lit ''write'') (Some file)) (\<lambda>_.
         write_records env sz file items (out @ buf) (bytes + spilled_bytes (fst it) (snd it) sz) (n + 1))) s"

definition account_spill :: "sizing \<Rightarrow> nat \<Rightarrow> nat \<Rightarrow> nat \<Rightarrow> unit act" where
  "account_spill sz n bytes stored s =
     (Inr (),
      s\<lparr>accts := (if source sz = BucketAuto then record_bucket_auto_spill (int n) (int bytes) (int stored) (accts s)
                  else record_sort_spill (int n) (int bytes) (int stored) (accts s))\<rparr>)"

definition write_run :: "sort_env \<Rightarrow> sizing \<Rightarrow> item list \<Rightarrow> run act" where
  "write_run env sz items =
     bind_act (file_op env (lit ''create the directory for'') None) (\<lambda>_.
       bind_act (\<lambda>s. (Inr (NEXT_FILE s), s\<lparr>NEXT_FILE := NEXT_FILE s + 1\<rparr>)) (\<lambda>file.
         bind_act (file_op env (lit ''create'') (Some file)) (\<lambda>_.
           bind_act (write_records env sz file items [] 0 0) (\<lambda>(out, bytes, n).
             bind_act (file_op env (lit ''write'') (Some file)) (\<lambda>_.
               bind_act (file_op env (lit ''write'') (Some file)) (\<lambda>_.
                 bind_act (file_op env (lit ''write'') (Some file)) (\<lambda>_.
                   bind_act (file_op env (lit ''measure'') (Some file)) (\<lambda>_.
                     bind_act (account_spill sz n bytes (length out)) (\<lambda>_ s.
                       (Inr \<lparr>run_file = file, content = out, records = n\<rparr>, s))))))))))"

section \<open>Reading runs back\<close>

record reader =
  input :: bytes
  rd_file :: nat
  left :: nat

definition open_reader :: "sort_env \<Rightarrow> run \<Rightarrow> reader act" where
  "open_reader env r =
     bind_act (file_op env (lit ''open'') (Some (run_file r))) (\<lambda>_ s.
       (Inr \<lparr>input = content r, rd_file = run_file r, left = records r\<rparr>, s))"

definition read_exact :: "sort_env \<Rightarrow> reader \<Rightarrow> nat \<Rightarrow> bytes act" where
  "read_exact env r n =
     bind_act (file_op env (lit ''read'') (Some (rd_file r))) (\<lambda>_ s.
       if length (input r) < n then (Inl (Spill_io (lit ''read'') (Some (rd_file r)) []), s)
       else (Inr (take n (input r)), s))"

definition decode_record :: "sort_env \<Rightarrow> nat \<Rightarrow> bytes \<Rightarrow> sort_error + item" where
  "decode_record env file bs =
     (case from_bytes (sort_crate env) bs of
        Inl _ \<Rightarrow> Inl (Spill_io (lit ''read'') (Some file) [])
      | Inr rec \<Rightarrow>
          (case doc_get rec (lit ''k'') of
             Some (Array keys) \<Rightarrow>
               (case doc_get (doc_remove rec (lit ''k'')) (lit ''d'') of
                  Some (Document d) \<Rightarrow> Inr (keys, d)
                | _ \<Rightarrow> Inl (Spill_io (lit ''read'') (Some file) (lit ''a record without its document'')))
           | _ \<Rightarrow> Inl (Spill_io (lit ''read'') (Some file) (lit ''a record without its key''))))"

definition reader_next :: "sort_env \<Rightarrow> reader \<Rightarrow> (item option \<times> reader) act" where
  "reader_next env r s =
     (if left r = 0 then (Inr (None, r), s)
      else bind_act (read_exact env r 4) (\<lambda>len.
        let size = sint (i32_from_le len) in
        if size < 5 then (\<lambda>s. (Inl (Spill_io (lit ''read'') (Some (rd_file r)) (lit ''a record with a bad length'')), s))
        else bind_act (read_exact env (r\<lparr>input := drop 4 (input r)\<rparr>) (nat size - 4)) (\<lambda>body s.
          (case decode_record env (rd_file r) (len @ body) of
             Inl e \<Rightarrow> (Inl e, s)
           | Inr it \<Rightarrow> (Inr (Some it, r\<lparr>input := drop (nat size) (input r), left := left r - 1\<rparr>), s)))) s)"

section \<open>Merging\<close>

text \<open>The head to take: the first of the least ones.\<close>

fun least_head :: "key_cmp \<Rightarrow> item option list \<Rightarrow> item option list \<Rightarrow> nat \<Rightarrow> nat option \<Rightarrow> nat option" where
  "least_head c hs [] i least = least"
| "least_head c hs (None # rest) i least = least_head c hs rest (i + 1) least"
| "least_head c hs (Some h # rest) i least =
     least_head c hs rest (i + 1)
       (case least of
          None \<Rightarrow> Some i
        | Some l \<Rightarrow>
            (case hs ! l of
               Some lh \<Rightarrow> if c (fst h) (fst lh) = Less then Some i else Some l
             | None \<Rightarrow> Some l))"

fun map_act :: "('a \<Rightarrow> 'b act) \<Rightarrow> 'a list \<Rightarrow> 'b list act" where
  "map_act f [] s = (Inr [], s)"
| "map_act f (x # xs) s = bind_act (f x) (\<lambda>y. bind_act (map_act f xs) (\<lambda>ys s. (Inr (y # ys), s))) s"

type_synonym stream = "item option \<times> reader"

definition streams_left :: "stream list \<Rightarrow> nat" where
  "streams_left ss = sum_list (map (\<lambda>(h, r). left r + (if h = None then 0 else 1)) ss)"

lemma reader_next_left:
  assumes "reader_next env r s = (Inr (h, r'), s')"
  shows "left r' + (if h = None then 0 else 1) = left r"
  using assms
  by (auto simp: reader_next_def bind_act_def Let_def split: if_splits prod.splits sum.splits)

lemma least_head_in:
  assumes "least_head c (pre @ rest) rest (length pre) least = Some j" "\<forall>l. least = Some l \<longrightarrow> l < length pre \<and> (pre @ rest) ! l \<noteq> None"
  shows "j < length (pre @ rest) \<and> (pre @ rest) ! j \<noteq> None"
  using assms
proof (induction rest arbitrary: pre least)
  case (Cons h rest)
  show ?case
  proof (cases h)
    case None
    have "least_head c ((pre @ [h]) @ rest) rest (length (pre @ [h])) least = Some j" using Cons.prems(1) None by simp
    moreover have "\<forall>l. least = Some l \<longrightarrow> l < length (pre @ [h]) \<and> ((pre @ [h]) @ rest) ! l \<noteq> None"
      using Cons.prems(2) None by (auto simp: nth_append)
    ultimately show ?thesis using Cons.IH [of "pre @ [h]" least] by simp
  next
    case (Some x)
    let ?l = "case least of None \<Rightarrow> Some (length pre)
        | Some l \<Rightarrow> (case (pre @ Some x # rest) ! l of Some lh \<Rightarrow> if c (fst x) (fst lh) = Less then Some (length pre) else Some l
                    | None \<Rightarrow> Some l)"
    have "least_head c ((pre @ [h]) @ rest) rest (length (pre @ [h])) ?l = Some j" using Cons.prems(1) Some by simp
    moreover have "\<forall>l. ?l = Some l \<longrightarrow> l < length (pre @ [h]) \<and> ((pre @ [h]) @ rest) ! l \<noteq> None"
      using Cons.prems(2) Some by (auto simp: nth_append split: option.splits if_splits)
    ultimately show ?thesis using Cons.IH [of "pre @ [h]" ?l] by simp
  qed
qed auto

definition next_head :: "key_cmp \<Rightarrow> stream list \<Rightarrow> nat option" where
  "next_head c ss = least_head c (map fst ss) (map fst ss) 0 None"

lemma next_head_in: "next_head c ss = Some i \<Longrightarrow> i < length ss \<and> fst (ss ! i) \<noteq> None"
  using least_head_in [of c "[]" "map fst ss" None i] by (auto simp: next_head_def)

lemma streams_left_next:
  assumes "i < length ss" "fst (ss ! i) \<noteq> None" "reader_next env (snd (ss ! i)) s = (Inr st, s')"
  shows "streams_left (ss[i := st]) < streams_left ss"
proof -
  let ?w = "\<lambda>(h, r). left r + (if h = None then 0 else 1)"
  have "?w st < ?w (ss ! i)"
    using reader_next_left [of env "snd (ss ! i)" s "fst st" "snd st" s'] assms(2,3) by (auto split: prod.splits)
  then have "sum_list (map ?w (take i ss)) + (?w st + sum_list (map ?w (drop (Suc i) ss))) <
      sum_list (map ?w (take i ss)) + (?w (ss ! i) + sum_list (map ?w (drop (Suc i) ss)))" by simp
  moreover have "sum_list (map ?w ss) = sum_list (map ?w (take i ss)) + (?w (ss ! i) + sum_list (map ?w (drop (Suc i) ss)))"
    using id_take_nth_drop [OF assms(1)] by (metis (no_types, lifting) list.simps(9) map_append sum_list.Cons sum_list_append)
  ultimately show ?thesis using assms(1) by (simp add: streams_left_def upd_conv_take_nth_drop)
qed

function merge_loop :: "sort_env \<Rightarrow> key_cmp \<Rightarrow> stream list \<Rightarrow> item list \<Rightarrow> item list act" where
  "merge_loop env c ss out s =
     (case check env s of
        (Inl e, s1) \<Rightarrow> (Inl e, s1)
      | (Inr _, s1) \<Rightarrow>
          (case next_head c ss of
             None \<Rightarrow> (Inr out, s1)
           | Some i \<Rightarrow>
               (case fst (ss ! i) of
                  None \<Rightarrow> (Inl Spill_panic, s1)
                | Some it \<Rightarrow>
                    (case reader_next env (snd (ss ! i)) s1 of
                       (Inl e, s2) \<Rightarrow> (Inl e, s2)
                     | (Inr st, s2) \<Rightarrow> merge_loop env c (ss[i := st]) (out @ [it]) s2))))"
  by pat_completeness auto
termination
  by (relation "measure (\<lambda>(env, c, ss, out, s). streams_left ss)")
    (auto dest: next_head_in intro!: streams_left_next [OF _ _ sym])

declare merge_loop.simps [simp del]

definition merge_runs :: "sort_env \<Rightarrow> key_cmp \<Rightarrow> run list \<Rightarrow> item list act" where
  "merge_runs env c runs =
     bind_act (map_act (open_reader env) runs) (\<lambda>readers.
       bind_act (map_act (reader_next env) readers) (\<lambda>ss. merge_loop env c ss []))"

text \<open>\<open>slice::chunks\<close>, for a size that is not zero.\<close>

function chunks :: "nat \<Rightarrow> 'a list \<Rightarrow> 'a list list" where
  "chunks n xs = (if xs = [] \<or> n = 0 then [] else take n xs # chunks n (drop n xs))"
  by pat_completeness auto
termination
  by (relation "measure (\<lambda>(n, xs). length xs)") auto

declare chunks.simps [simp del]

definition merge_pass :: "sort_env \<Rightarrow> nat \<Rightarrow> key_cmp \<Rightarrow> sizing \<Rightarrow> run list \<Rightarrow> run list act" where
  "merge_pass env parallel c sz runs =
     (if parallel = 0 then (\<lambda>s. (Inl Spill_panic, s))
      else map_act (\<lambda>chunk. bind_act (merge_runs env c chunk) (write_run env sz)) (chunks parallel runs))"

partial_function (option) merge_passes ::
  "sort_env \<Rightarrow> nat \<Rightarrow> nat \<Rightarrow> key_cmp \<Rightarrow> sizing \<Rightarrow> run list \<Rightarrow> sort_state \<Rightarrow> ((sort_error + run list) \<times> sort_state) option" where
  "merge_passes env target parallel c sz runs s =
     (if length runs > target
      then (case merge_pass env parallel c sz runs s of
              (Inl e, s') \<Rightarrow> Some (Inl e, s')
            | (Inr nxt, s') \<Rightarrow> merge_passes env target parallel c sz nxt s')
      else Some (Inr runs, s))"

declare merge_passes.simps [code]

definition merge_spills ::
  "sort_env \<Rightarrow> run list \<Rightarrow> nat \<Rightarrow> nat \<Rightarrow> key_cmp \<Rightarrow> sizing \<Rightarrow> sort_state \<Rightarrow> ((sort_error + run list) \<times> sort_state) option" where
  "merge_spills env runs target parallel c sz s = merge_passes env (max target 1) parallel c sz runs s"

section \<open>The sort\<close>

type_synonym 'a looping = "sort_state \<Rightarrow> ((sort_error + 'a) \<times> sort_state) option"

definition bind_loop :: "'a looping \<Rightarrow> ('a \<Rightarrow> 'b looping) \<Rightarrow> 'b looping" where
  "bind_loop m f s =
     (case m s of
        None \<Rightarrow> None
      | Some (Inl e, s') \<Rightarrow> Some (Inl e, s')
      | Some (Inr a, s') \<Rightarrow> f a s')"

definition returned :: "'a act \<Rightarrow> 'a looping" where
  "returned m s = Some (m s)"

definition by_key :: "key_cmp \<Rightarrow> item \<Rightarrow> item \<Rightarrow> ordering" where
  "by_key c a b = c (fst a) (fst b)"

definition item_size :: "sizing \<Rightarrow> item \<Rightarrow> nat" where
  "item_size sz it = sized_key (fst it) (source sz) + doc_size (snd it) sz"

definition account_sort :: "sizing \<Rightarrow> nat \<Rightarrow> nat \<Rightarrow> sort_state \<Rightarrow> sort_state" where
  "account_sort sz n bytes s =
     (if source sz = BucketAuto then s else s\<lparr>accts := record_sort (int n) (int bytes) (accts s)\<rparr>)"

text \<open>The closure \<open>spill\<close>: what is held becomes a run, and the runs are merged when there are many.\<close>

definition spill :: "sort_env \<Rightarrow> key_cmp \<Rightarrow> sizing \<Rightarrow> nat \<Rightarrow> nat \<Rightarrow> item list \<Rightarrow> run list \<Rightarrow> run list looping" where
  "spill env c sz iterators parallel held runs =
     (if held = [] then returned (\<lambda>s. (Inr runs, s))
      else if \<not> disk_allowed env then returned (\<lambda>s. (Inl (Sort_refused (budget sz)), s))
      else bind_loop (returned (write_run env sz (sort_by (by_key c) held))) (\<lambda>r.
        let runs = runs @ [r] in
        if length runs \<ge> iterators then (\<lambda>s. merge_spills env runs (iterators div 2) parallel c sz s)
        else returned (\<lambda>s. (Inr runs, s))))"

fun fill ::
  "sort_env \<Rightarrow> key_cmp \<Rightarrow> sizing \<Rightarrow> nat \<Rightarrow> nat \<Rightarrow> nat \<Rightarrow> item list \<Rightarrow> item list \<Rightarrow> run list \<Rightarrow> nat \<Rightarrow> nat
    \<Rightarrow> (item list \<times> run list \<times> nat) looping" where
  "fill env c sz effective iterators parallel [] held runs used tot s = Some (Inr (held, runs, tot), s)"
| "fill env c sz effective iterators parallel (it # items) held runs used tot s =
     bind_loop (returned (check env)) (\<lambda>_.
       let sz1 = item_size sz it; used = used + sz1; tot = tot + sz1; held = held @ [it] in
       if used > effective
       then bind_loop (spill env c sz iterators parallel held runs) (\<lambda>runs.
              fill env c sz effective iterators parallel items [] runs 0 tot)
       else fill env c sz effective iterators parallel items held runs used tot) s"

definition blocking_sort :: "sort_env \<Rightarrow> item list \<Rightarrow> key_cmp \<Rightarrow> sizing \<Rightarrow> nat option \<Rightarrow> item list looping" where
  "blocking_sort env items c sz limit s =
     (let iterator = file_iterator (source sz);
          reserve = reserved (budget sz) iterator;
          effective = budget sz - reserve
      in case limit of
           Some k \<Rightarrow>
             (let kept = take k (sort_by (by_key c) items);
                  held = sum_list (map (item_size sz) kept);
                  s1 = account_sort sz (length items) held s
              in if k > 1 \<and> held > effective \<and> \<not> disk_allowed env
                 then Some (Inl (Sort_refused (budget sz)), s1)
                 else Some (Inr kept, s1))
         | None \<Rightarrow>
             (let iterators = max (reserve div iterator) 1;
                  parallel = max (budget sz div SORTED_FILE_BUFFER) 2
              in bind_loop (fill env c sz effective iterators parallel items [] [] 0 0) (\<lambda>(held, runs, tot) s.
                   let s = account_sort sz (length items) tot s in
                   if runs = [] then Some (Inr (sort_by (by_key c) held), s)
                   else bind_loop (spill env c sz iterators parallel held runs) (\<lambda>runs.
                          bind_loop (\<lambda>s. merge_spills env runs parallel parallel c sz s) (\<lambda>runs.
                            returned (merge_runs env c runs))) s) s))"
end
