(* ===== verification/Sort_Runs.thy ===== *)
theory Sort_Runs
  imports External_Sort
begin

text \<open>
  What the actions of the external sorter yield: a small calculus of answers and failures, and
  the runs. A run that was written holds its items, and reading it back gives them one by one,
  through the document writer and reader and the length that frames each record.
\<close>

section \<open>What an action yields\<close>

text \<open>
  An action yields \<open>P\<close> when every answer it gives satisfies \<open>P\<close>, and it may fail only when \<open>ok\<close>
  does not hold: \<open>ok\<close> says that no file operation fails and no deadline passes.
\<close>

definition yields :: "bool \<Rightarrow> 'a act \<Rightarrow> ('a \<Rightarrow> bool) \<Rightarrow> bool" where
  "yields ok m P \<longleftrightarrow> (\<forall>s. case fst (m s) of Inl e \<Rightarrow> \<not> ok | Inr a \<Rightarrow> P a)"

definition never_interrupted :: "sort_env \<Rightarrow> bool" where
  "never_interrupted env \<longleftrightarrow> (\<forall>n. \<not> killed env n \<and> (\<forall>deadline. armed env = Some deadline \<longrightarrow> clock env n < deadline))"

definition no_faults :: "sort_env \<Rightarrow> bool" where
  "no_faults env \<longleftrightarrow> never_interrupted env \<and> (\<forall>n. io_fault env n = None)"

lemma check_cases:
  obtains s' where "check env s = (Inr (), s')" | s' where "check env s = (Inl Time_expired, s')" "\<not> never_interrupted env"
  by (fastforce simp: check_def trip_def never_interrupted_def Let_def not_less split: option.splits if_splits)

lemma yields_bind:
  assumes "yields ok m P" "\<And>a. P a \<Longrightarrow> yields ok (f a) Q"
  shows "yields ok (bind_act m f) Q"
  unfolding yields_def
proof
  fix s
  obtain r s1 where m: "m s = (r, s1)" by fastforce
  have r: "case r of Inl e \<Rightarrow> \<not> ok | Inr a \<Rightarrow> P a" using assms(1) m unfolding yields_def by (metis fst_conv)
  show "case fst (bind_act m f s) of Inl e \<Rightarrow> \<not> ok | Inr a \<Rightarrow> Q a"
  proof (cases r)
    case (Inl e)
    with r m show ?thesis by (simp add: bind_act_def)
  next
    case (Inr a)
    then have "yields ok (f a) Q" using r assms(2) by simp
    with Inr m show ?thesis by (simp add: bind_act_def yields_def)
  qed
qed

lemma yields_return: "P a \<Longrightarrow> yields ok (\<lambda>s. (Inr a, g s)) P"
  by (simp add: yields_def)

lemma yields_weaken: "yields ok m P \<Longrightarrow> (\<And>a. P a \<Longrightarrow> Q a) \<Longrightarrow> yields ok m Q"
  unfolding yields_def by (auto split: sum.splits)

lemma yields_check: "yields (no_faults env) (check env) (\<lambda>_. True)"
  unfolding yields_def
proof
  fix s
  show "case fst (check env s) of Inl e \<Rightarrow> \<not> no_faults env | Inr a \<Rightarrow> True"
    by (cases rule: check_cases [of env s]) (auto simp: no_faults_def)
qed

lemma yields_file_op: "yields (no_faults env) (file_op env what file) (\<lambda>_. True)"
  by (auto simp: yields_def file_op_def no_faults_def split: option.splits)

lemma yields_map_act:
  assumes "list_all2 R xs zs" "\<And>x z. R x z \<Longrightarrow> yields ok (f x) (\<lambda>y. Q y z)"
  shows "yields ok (map_act f xs) (\<lambda>ys. list_all2 Q ys zs)"
  using assms(1)
proof (induction rule: list_all2_induct)
  case Nil
  then show ?case by (simp add: yields_def)
next
  case (Cons x xs z zs)
  have e: "map_act f (x # xs) = bind_act (f x) (\<lambda>y. bind_act (map_act f xs) (\<lambda>ys s. (Inr (y # ys), s)))"
    by (rule ext) simp
  have "yields ok (bind_act (map_act f xs) (\<lambda>ys s. (Inr (y # ys), s))) (\<lambda>ys. list_all2 Q ys (z # zs))" if "Q y z" for y
    using that Cons.IH by (intro yields_bind [where P = "\<lambda>ys. list_all2 Q ys zs"] yields_return) simp_all
  with assms(2) [OF Cons.hyps(1)] show ?case unfolding e by (rule yields_bind)
qed

section \<open>Runs hold what was written\<close>

text \<open>A record survives the writer and the reader, and its first four bytes are its length.\<close>

definition record_ok :: "sort_env \<Rightarrow> item \<Rightarrow> bool" where
  "record_ok env it =
     (case write_bson (sort_crate env) (record_doc it) [] of
        (buf, None) \<Rightarrow> 5 \<le> length buf \<and> sint (i32_from_le (take 4 buf)) = int (length buf) \<and>
          from_bytes (sort_crate env) buf = Inr (record_doc it)
      | _ \<Rightarrow> False)"

definition enc :: "sort_env \<Rightarrow> item \<Rightarrow> bytes" where
  "enc env it = fst (write_bson (sort_crate env) (record_doc it) [])"

definition run_holds :: "sort_env \<Rightarrow> run \<Rightarrow> item list \<Rightarrow> bool" where
  "run_holds env r xs \<longleftrightarrow> content r = concat (map (enc env) xs) \<and> records r = length xs \<and> (\<forall>x \<in> set xs. record_ok env x)"

definition reader_holds :: "sort_env \<Rightarrow> reader \<Rightarrow> item list \<Rightarrow> bool" where
  "reader_holds env r xs \<longleftrightarrow> input r = concat (map (enc env) xs) \<and> left r = length xs \<and> (\<forall>x \<in> set xs. record_ok env x)"

lemma record_okD:
  assumes "record_ok env it"
  shows "write_bson (sort_crate env) (record_doc it) [] = (enc env it, None)" "5 \<le> length (enc env it)"
    "sint (i32_from_le (take 4 (enc env it))) = int (length (enc env it))"
    "from_bytes (sort_crate env) (enc env it) = Inr (record_doc it)"
  using assms by (auto simp: record_ok_def enc_def split: prod.splits option.splits)

lemma yields_write_records:
  "\<forall>x \<in> set items. record_ok env x \<Longrightarrow>
   yields (no_faults env) (write_records env sz file items out bytes n)
     (\<lambda>(out', _, n'). out' = out @ concat (map (enc env) items) \<and> n' = n + length items)"
proof (induction items arbitrary: out bytes n)
  case Nil
  then show ?case by (simp add: yields_def)
next
  case (Cons it items)
  have e: "write_records env sz file (it # items) out bytes n =
      bind_act (encode_record env file it) (\<lambda>buf.
       bind_act (file_op env (lit ''write'') (Some file)) (\<lambda>_.
         write_records env sz file items (out @ buf) (bytes + spilled_bytes (fst it) (snd it) sz) (n + 1)))"
    by (rule ext) simp
  have "record_ok env it" using Cons.prems by simp
  then have "yields (no_faults env) (encode_record env file it) (\<lambda>buf. buf = enc env it)"
    by (simp add: yields_def encode_record_def record_okD)
  moreover have "yields (no_faults env) (write_records env sz file items (out @ enc env it) b (n + 1))
      (\<lambda>(out', _, n'). out' = out @ concat (map (enc env) (it # items)) \<and> n' = n + length (it # items))" for b
    using Cons.IH [of "out @ enc env it" b "n + 1"] Cons.prems by simp
  ultimately show ?case unfolding e by (blast intro: yields_bind yields_file_op)
qed

lemma yields_write_run:
  assumes "\<forall>x \<in> set items. record_ok env x"
  shows "yields (no_faults env) (write_run env sz items) (\<lambda>r. run_holds env r items)"
proof -
  let ?ok = "no_faults env"
  have acc: "yields ?ok (account_spill sz n bytes stored) (\<lambda>_. True)" for n bytes stored
    by (simp add: yields_def account_spill_def)
  have fin: "yields ?ok (\<lambda>s. (Inr \<lparr>run_file = fl, content = concat (map (enc env) items), records = length items\<rparr>, s))
      (\<lambda>r. run_holds env r items)" for fl
    using assms by (simp add: yields_def run_holds_def)
  have tail: "yields ?ok
      (bind_act (file_op env (lit ''write'') (Some fl)) (\<lambda>_.
         bind_act (file_op env (lit ''write'') (Some fl)) (\<lambda>_.
           bind_act (file_op env (lit ''write'') (Some fl)) (\<lambda>_.
             bind_act (file_op env (lit ''measure'') (Some fl)) (\<lambda>_.
               bind_act (account_spill sz (length items) bytes (length (concat (map (enc env) items)))) (\<lambda>_ s.
                 (Inr \<lparr>run_file = fl, content = concat (map (enc env) items), records = length items\<rparr>, s))))))
      ) (\<lambda>r. run_holds env r items)" for fl bytes
    by (intro yields_bind [OF yields_file_op] yields_bind [OF acc] fin)
  have num: "yields ?ok (\<lambda>s. (Inr (NEXT_FILE s), s\<lparr>NEXT_FILE := NEXT_FILE s + 1\<rparr>)) (\<lambda>_. True)" by (simp add: yields_def)
  have w: "yields ?ok (write_records env sz fl items [] 0 0)
      (\<lambda>(out, _, n). out = concat (map (enc env) items) \<and> n = length items)" for fl
    using yields_write_records [OF assms, of sz fl "[]" 0 0] by simp
  show ?thesis unfolding write_run_def
    by (rule yields_bind [OF yields_file_op], rule yields_bind [OF num],
      rule yields_bind [OF yields_file_op], rule yields_bind [OF w]) (use tail in auto)
qed

lemma yields_open_reader:
  "run_holds env r xs \<Longrightarrow> yields (no_faults env) (open_reader env r) (\<lambda>rd. reader_holds env rd xs)"
  unfolding open_reader_def
  by (rule yields_bind [OF yields_file_op]) (simp add: yields_def run_holds_def reader_holds_def)

definition stream_holds :: "sort_env \<Rightarrow> stream \<Rightarrow> item list \<Rightarrow> bool" where
  "stream_holds env st xs =
     (case xs of [] \<Rightarrow> fst st = None | x # xs' \<Rightarrow> fst st = Some x \<and> record_ok env x \<and> reader_holds env (snd st) xs')"

lemma decode_record_ok: "record_ok env it \<Longrightarrow> decode_record env file (enc env it) = Inr it"
  by (simp add: decode_record_def record_okD record_doc_def lit_def)

lemma yields_read_exact:
  "n \<le> length (input r) \<Longrightarrow> yields (no_faults env) (read_exact env r n) (\<lambda>bs. bs = take n (input r))"
  unfolding read_exact_def by (rule yields_bind [OF yields_file_op]) (simp add: yields_def)

lemma yields_reader_next:
  assumes "reader_holds env r xs"
  shows "yields (no_faults env) (reader_next env r) (\<lambda>st. stream_holds env st xs)"
proof (cases xs)
  case Nil
  then show ?thesis using assms by (simp add: yields_def reader_next_def reader_holds_def stream_holds_def)
next
  case (Cons x xs')
  let ?b = "enc env x"
  have ok: "record_ok env x" and i: "input r = ?b @ concat (map (enc env) xs')" "left r = Suc (length xs')"
    using assms Cons by (simp_all add: reader_holds_def)
  note b = record_okD [OF ok]
  have t: "take 4 (input r) = take 4 ?b" "take (length ?b - 4) (drop 4 (input r)) = drop 4 ?b"
    "drop (length ?b) (input r) = concat (map (enc env) xs')"
    using b(2) i by simp_all
  have e: "reader_next env r = bind_act (read_exact env r 4) (\<lambda>len.
        let size = sint (i32_from_le len) in
        if size < 5 then (\<lambda>s. (Inl (Spill_io (lit ''read'') (Some (rd_file r)) (lit ''a record with a bad length'')), s))
        else bind_act (read_exact env (r\<lparr>input := drop 4 (input r)\<rparr>) (nat size - 4)) (\<lambda>body s.
          (case decode_record env (rd_file r) (len @ body) of
             Inl e \<Rightarrow> (Inl e, s)
           | Inr it \<Rightarrow> (Inr (Some it, r\<lparr>input := drop (nat size) (input r), left := left r - 1\<rparr>), s))))"
    using i by (intro ext) (simp add: reader_next_def)
  have h: "yields (no_faults env) (\<lambda>s. (Inr (Some x, r\<lparr>input := concat (map (enc env) xs'), left := length xs'\<rparr>), s)) (\<lambda>st. stream_holds env st xs)"
    using assms Cons ok by (simp add: yields_def stream_holds_def reader_holds_def)
  show ?thesis unfolding e
  proof (rule yields_bind [OF yields_read_exact])
    show "4 \<le> length (input r)" using b(2) i by simp
    fix len assume len: "len = take 4 (input r)"
    have sz: "sint (i32_from_le len) = int (length ?b)" using b(3) t(1) len by simp
    have "yields (no_faults env) (bind_act (read_exact env (r\<lparr>input := drop 4 (input r)\<rparr>) (length ?b - 4)) (\<lambda>body s.
          (case decode_record env (rd_file r) (len @ body) of
             Inl e \<Rightarrow> (Inl e, s)
           | Inr it \<Rightarrow> (Inr (Some it, r\<lparr>input := drop (length ?b) (input r), left := left r - 1\<rparr>), s)))) (\<lambda>st. stream_holds env st xs)"
    proof (rule yields_bind [OF yields_read_exact])
      show "length ?b - 4 \<le> length (input (r\<lparr>input := drop 4 (input r)\<rparr>))" using i by simp
      fix body assume "body = take (length ?b - 4) (input (r\<lparr>input := drop 4 (input r)\<rparr>))"
      then have "body = drop 4 ?b" using t(2) by simp
      then have "len @ body = ?b" unfolding len t(1) by simp
      then show "yields (no_faults env) (\<lambda>s. (case decode_record env (rd_file r) (len @ body) of
             Inl e \<Rightarrow> (Inl e, s)
           | Inr it \<Rightarrow> (Inr (Some it, r\<lparr>input := drop (length ?b) (input r), left := left r - 1\<rparr>), s))) (\<lambda>st. stream_holds env st xs)"
        using h decode_record_ok [OF ok] t(3) i(2) by simp
    qed
    then show "yields (no_faults env) (let size = sint (i32_from_le len) in
        if size < 5 then (\<lambda>s. (Inl (Spill_io (lit ''read'') (Some (rd_file r)) (lit ''a record with a bad length'')), s))
        else bind_act (read_exact env (r\<lparr>input := drop 4 (input r)\<rparr>) (nat size - 4)) (\<lambda>body s.
          (case decode_record env (rd_file r) (len @ body) of
             Inl e \<Rightarrow> (Inl e, s)
           | Inr it \<Rightarrow> (Inr (Some it, r\<lparr>input := drop (nat size) (input r), left := left r - 1\<rparr>), s)))) (\<lambda>st. stream_holds env st xs)"
      unfolding sz Let_def nat_int using b(2) by simp
  qed
qed
end
