(* ===== verification/Sort_Merge.thy ===== *)
theory Sort_Merge
  imports Sort_Runs
begin

text \<open>
  The merge of runs, the merge passes and the sort as a whole: whatever is spilled and however
  often runs are merged, what comes out is the stable sort of what went in, and the sort
  always returns.
\<close>

section \<open>The head that is taken\<close>

text \<open>An item is kept whole in the proofs below, not split into its key and its document.\<close>

declare split_paired_All [simp del] split_paired_Ex [simp del]

lemma strict_trans:
  assumes "comparator D c" "D x" "D y" "D z" "c x y = Less" "c y z \<noteq> Greater"
  shows "c x z = Less"
proof (rule ccontr)
  assume "c x z \<noteq> Less"
  then have "c z x \<noteq> Greater" using comparator.not_less [OF assms(1,2,4)] by blast
  then have "c y x \<noteq> Greater" using comparator.trans [OF assms(1,3,4,2,6)] by blast
  then show False using comparator.swap [OF assms(1,2,3)] assms(5) by simp
qed

definition least_among :: "key_cmp \<Rightarrow> item option list \<Rightarrow> nat option \<Rightarrow> bool" where
  "least_among c hs least \<longleftrightarrow>
     (case least of
        None \<Rightarrow> (\<forall>h \<in> set hs. h = None)
      | Some i \<Rightarrow> i < length hs \<and> (\<exists>x. hs ! i = Some x \<and>
          (\<forall>j < length hs. \<forall>y. hs ! j = Some y \<longrightarrow> by_key c x y \<noteq> Greater \<and> (j < i \<longrightarrow> by_key c x y = Less))))"

lemma least_among_snoc:
  assumes C: "comparator D (by_key c)" and d: "\<forall>y. Some y \<in> set (pre @ [Some x]) \<longrightarrow> D y" and l: "least_among c pre least"
  shows "least_among c (pre @ [Some x])
    (case least of None \<Rightarrow> Some (length pre)
     | Some l \<Rightarrow> (case (pre @ Some x # rest) ! l of Some lh \<Rightarrow> if c (fst x) (fst lh) = Less then Some (length pre) else Some l
                 | None \<Rightarrow> Some l))"
proof (cases least)
  case None
  then have "\<forall>h \<in> set pre. h = None" using l by (simp add: least_among_def)
  moreover have "by_key c x x = Equal" using comparator.refl [OF C, of x] d by (metis list.set_intros(1) set_append Un_iff)
  moreover from calculation(1) have "pre ! j \<noteq> Some y" if "j < length pre" for j y using that nth_mem by fastforce
  ultimately show ?thesis using None by (auto simp: least_among_def nth_append less_Suc_eq)
next
  case (Some i)
  then obtain lh where i: "i < length pre" "pre ! i = Some lh"
    "\<forall>j < length pre. \<forall>y. pre ! j = Some y \<longrightarrow> by_key c lh y \<noteq> Greater \<and> (j < i \<longrightarrow> by_key c lh y = Less)"
    using l by (auto simp: least_among_def)
  have Dp: "D y" if "pre ! j = Some y" "j < length pre" for j y
    using d nth_mem [OF that(2)] that(1) by (metis UnCI set_append)
  have D: "D x" "D lh" using d Dp [OF i(2,1)] by simp_all
  show ?thesis
  proof (cases "c (fst x) (fst lh) = Less")
    case True
    then have lt: "by_key c x lh = Less" by (simp add: by_key_def)
    have "by_key c x y = Less" if "pre ! j = Some y" "j < length pre" for j y
      using strict_trans [OF C D(1,2) Dp [OF that] lt] i(3) that by blast
    moreover have "by_key c x x = Equal" using comparator.refl [OF C D(1)] .
    ultimately show ?thesis using Some i True by (auto simp: least_among_def nth_append less_Suc_eq)
  next
    case False
    then have "by_key c lh x \<noteq> Greater" using comparator.not_less [OF C D(1,2)] by (simp add: by_key_def)
    then show ?thesis using Some i False by (auto simp: least_among_def nth_append less_Suc_eq)
  qed
qed

lemma least_head_least:
  assumes C: "comparator D (by_key c)"
  shows "\<forall>y. Some y \<in> set (pre @ rest) \<longrightarrow> D y \<Longrightarrow> least_among c pre least \<Longrightarrow>
    least_among c (pre @ rest) (least_head c (pre @ rest) rest (length pre) least)"
proof (induction rest arbitrary: pre least)
  case (Cons h rest)
  show ?case
  proof (cases h)
    case None
    then have "least_among c (pre @ [h]) least"
      using Cons.prems(2) by (auto simp: least_among_def nth_append less_Suc_eq split: option.splits)
    then show ?thesis using Cons.IH [of "pre @ [h]" least] Cons.prems(1) None by simp
  next
    case (Some x)
    then show ?thesis
      using Cons.IH [OF _ least_among_snoc [OF C _ Cons.prems(2), of x rest]] Cons.prems(1) by simp
  qed
qed simp

section \<open>Merging\<close>

lemma merge_loop_bind:
  "merge_loop env c ss out =
     bind_act (check env) (\<lambda>_.
       case next_head c ss of
         None \<Rightarrow> (\<lambda>s. (Inr out, s))
       | Some i \<Rightarrow>
           (case fst (ss ! i) of
              None \<Rightarrow> (\<lambda>s. (Inl Spill_panic, s))
            | Some it \<Rightarrow> bind_act (reader_next env (snd (ss ! i))) (\<lambda>st. merge_loop env c (ss[i := st]) (out @ [it]))))"
  by (rule ext, subst merge_loop.simps) (auto simp: bind_act_def split: prod.splits sum.splits option.splits)

lemma streams_heads:
  assumes "list_all2 (stream_holds env) ss xss"
  shows "map fst ss = map (\<lambda>xs. case xs of [] \<Rightarrow> None | x # _ \<Rightarrow> Some x) xss"
  using assms by (induction rule: list_all2_induct) (auto simp: stream_holds_def split: list.splits)

lemma concat_head:
  assumes "i < length xss" "xss ! i = x # xs"
  shows "concat xss = concat (take i xss) @ x # (xs @ concat (drop (Suc i) xss))"
    "concat (xss[i := xs]) = concat (take i xss) @ (xs @ concat (drop (Suc i) xss))"
proof -
  have "xss = take i xss @ (x # xs) # drop (Suc i) xss" using id_take_nth_drop [OF assms(1)] assms(2) by simp
  then show "concat xss = concat (take i xss) @ x # (xs @ concat (drop (Suc i) xss))"
    using concat_append by (metis append_Cons concat.simps(2))
  show "concat (xss[i := xs]) = concat (take i xss) @ (xs @ concat (drop (Suc i) xss))"
    using assms(1) by (simp add: upd_conv_take_nth_drop)
qed

text \<open>The head taken is the first of the stable sort of everything that is left.\<close>

lemma next_head_sort:
  assumes C: "comparator D (by_key c)" and h: "list_all2 (stream_holds env) ss xss"
    and s: "\<forall>xs \<in> set xss. sorted_by (by_key c) xs \<and> (\<forall>x \<in> set xs. D x)"
  shows "case next_head c ss of
      None \<Rightarrow> concat xss = []
    | Some i \<Rightarrow> \<exists>x xs. i < length ss \<and> xss ! i = x # xs \<and>
        sort_by (by_key c) (concat xss) = x # sort_by (by_key c) (concat (xss[i := xs]))"
proof -
  let ?hs = "map fst ss"
  have len: "length ss = length xss" using h by (rule list_all2_lengthD)
  have hs: "?hs = map (\<lambda>xs. case xs of [] \<Rightarrow> None | x # _ \<Rightarrow> Some x) xss" by (rule streams_heads [OF h])
  have D: "\<forall>y. Some y \<in> set ?hs \<longrightarrow> D y" using s unfolding hs by (auto split: list.splits)
  have L: "least_among c ?hs (next_head c ss)"
    using least_head_least [OF C, of "[]" ?hs None] D by (simp add: next_head_def least_among_def)
  show ?thesis
  proof (cases "next_head c ss")
    case None
    have e: "(case xs of [] \<Rightarrow> None | x # _ \<Rightarrow> Some x) = None" if "xs \<in> set xss" for xs
      using L None that unfolding hs by (simp add: least_among_def)
    have "xs = []" if "xs \<in> set xss" for xs using e [OF that] by (cases xs) simp_all
    then show ?thesis using None by simp
  next
    case (Some i)
    then obtain x where i: "i < length ss" "?hs ! i = Some x"
      "\<forall>j < length ss. \<forall>y. ?hs ! j = Some y \<longrightarrow> by_key c x y \<noteq> Greater \<and> (j < i \<longrightarrow> by_key c x y = Less)"
      using L by (auto simp: least_among_def simp del: nth_map)
    obtain xs where xs: "xss ! i = x # xs"
      using i(1,2) len unfolding hs by (cases "xss ! i") auto
    have dx: "D x" using D i(1,2) by (metis length_map nth_mem)
    have all: "by_key c x y \<noteq> Greater \<and> (j < i \<longrightarrow> by_key c x y = Less)" if j: "j < length xss" "y \<in> set (xss ! j)" for j y
    proof -
      obtain z zs where z: "xss ! j = z # zs" using j by (cases "xss ! j") auto
      have "?hs ! j = Some z" using j z unfolding hs by simp
      then have xz: "by_key c x z \<noteq> Greater" "j < i \<Longrightarrow> by_key c x z = Less" using i(3) j len by auto
      have dz: "D z" "D y" and zy: "by_key c z y \<noteq> Greater"
        using s j z comparator.refl [OF C, of z] nth_mem [OF j(1)] by (auto split: if_splits)
      show ?thesis using comparator.trans [OF C dx dz xz(1) zy] strict_trans [OF C dx dz _ zy] xz(2) by blast
    qed
    have lt: "\<forall>y \<in> set (concat (take i xss)). by_key c x y = Less"
    proof
      fix y assume "y \<in> set (concat (take i xss))"
      then obtain ys where y: "ys \<in> set (take i xss)" "y \<in> set ys" by auto
      then obtain j where j: "j < length (take i xss)" "take i xss ! j = ys" unfolding in_set_conv_nth by blast
      then have "j < i" "y \<in> set (xss ! j)" using y(2) by auto
      then show "by_key c x y = Less" using all [of j y] i(1) len by simp
    qed
    have le: "\<forall>y \<in> set (concat (take i xss) @ xs @ concat (drop (Suc i) xss)). by_key c x y \<noteq> Greater"
    proof
      fix y assume "y \<in> set (concat (take i xss) @ xs @ concat (drop (Suc i) xss))"
      then have "y \<in> set (concat xss)" using concat_head(1) [of i xss x xs] i(1) len xs by auto
      then obtain ys where "ys \<in> set xss" "y \<in> set ys" by auto
      then obtain j where "j < length xss" "y \<in> set (xss ! j)" unfolding in_set_conv_nth [of ys] by blast
      then show "by_key c x y \<noteq> Greater" using all by blast
    qed
    have "\<forall>y \<in> set (concat xss). D y" using s by auto
    then have "sort_by (by_key c) (concat xss) = x # sort_by (by_key c) (concat (xss[i := xs]))"
      unfolding concat_head(1) [OF i(1) [unfolded len] xs] concat_head(2) [OF i(1) [unfolded len] xs]
      using lt le by (intro comparator.sort_by_pick [OF C]) auto
    then show ?thesis using Some i(1) xs by auto
  qed
qed

lemma stream_holds_ok: "stream_holds env st (x # xs) \<Longrightarrow> fst st = Some x \<and> reader_holds env (snd st) xs"
  by (simp add: stream_holds_def)

definition sorted_lists :: "(item \<Rightarrow> bool) \<Rightarrow> key_cmp \<Rightarrow> item list list \<Rightarrow> bool" where
  "sorted_lists D c xss \<longleftrightarrow> (\<forall>xs \<in> set xss. sorted_by (by_key c) xs \<and> (\<forall>x \<in> set xs. D x))"

lemma yields_merge_loop:
  assumes C: "comparator D (by_key c)"
  shows "list_all2 (stream_holds env) ss xss \<Longrightarrow> sorted_lists D c xss \<Longrightarrow>
    yields (no_faults env) (merge_loop env c ss out) (\<lambda>res. res = out @ sort_by (by_key c) (concat xss))"
proof (induction "length (concat xss)" arbitrary: ss xss out rule: less_induct)
  case less
  note n = next_head_sort [OF C less.prems(1) less.prems(2) [unfolded sorted_lists_def]]
  show ?case
  proof (subst merge_loop_bind, rule yields_bind [OF yields_check], goal_cases)
    case 1
    show ?case
    proof (cases "next_head c ss")
      case None
      then have "concat xss = []" using n by simp
      then show ?thesis using None by (simp only: yields_def) simp
    next
      case (Some i)
      then obtain x xs where i: "i < length ss" "xss ! i = x # xs"
        "sort_by (by_key c) (concat xss) = x # sort_by (by_key c) (concat (xss[i := xs]))" using n by auto
      have len: "length ss = length xss" using less.prems(1) by (rule list_all2_lengthD)
      have h: "fst (ss ! i) = Some x" "reader_holds env (snd (ss ! i)) xs"
        using stream_holds_ok list_all2_nthD [OF less.prems(1) i(1)] i(2) by auto
      have "yields (no_faults env) (bind_act (reader_next env (snd (ss ! i))) (\<lambda>st. merge_loop env c (ss[i := st]) (out @ [x])))
          (\<lambda>res. res = out @ sort_by (by_key c) (concat xss))"
      proof (rule yields_bind [OF yields_reader_next [OF h(2)]])
        fix st assume st: "stream_holds env st xs"
        have "length (concat (xss[i := xs])) < length (concat xss)"
          using concat_head [OF i(1) [unfolded len] i(2)] by simp
        moreover have "list_all2 (stream_holds env) (ss[i := st]) (xss[i := xs])"
          using less.prems(1) st by (rule list_all2_update_cong)
        moreover have "sorted_lists D c (xss[i := xs])"
        proof -
          have "x # xs \<in> set xss" using i len nth_mem by metis
          then show ?thesis using less.prems(2) set_update_subset_insert [of xss i xs] unfolding sorted_lists_def by fastforce
        qed
        ultimately show "yields (no_faults env) (merge_loop env c (ss[i := st]) (out @ [x])) (\<lambda>res. res = out @ sort_by (by_key c) (concat xss))"
          using less.hyps [of "xss[i := xs]" "ss[i := st]" "out @ [x]"] i(3) by simp
      qed
      then show ?thesis using Some h(1) by simp
    qed
  qed
qed

lemma yields_merge_runs:
  assumes C: "comparator D (by_key c)" and h: "list_all2 (run_holds env) runs xss" "sorted_lists D c xss"
  shows "yields (no_faults env) (merge_runs env c runs) (\<lambda>res. res = sort_by (by_key c) (concat xss))"
  unfolding merge_runs_def
proof (rule yields_bind [OF yields_map_act [OF h(1) yields_open_reader]])
  fix rds assume "list_all2 (reader_holds env) rds xss"
  then show "yields (no_faults env) (bind_act (map_act (reader_next env) rds) (\<lambda>ss. merge_loop env c ss []))
      (\<lambda>res. res = sort_by (by_key c) (concat xss))"
    using yields_merge_loop [OF C _ h(2), of env _ "[]"]
    by (intro yields_bind [OF yields_map_act [OF _ yields_reader_next]]) auto
qed

section \<open>Merge passes\<close>

lemma chunks_Nil [simp]: "chunks n [] = []"
  by (simp add: chunks.simps)

lemma concat_chunks: "0 < n \<Longrightarrow> concat (chunks n xs) = xs"
  by (induction n xs rule: chunks.induct) (subst chunks.simps, simp)

lemma chunks_map: "chunks n (map f xs) = map (map f) (chunks n xs)"
  by (induction n xs rule: chunks.induct) (subst (1 2) chunks.simps, simp add: take_map drop_map)

lemma length_chunks_less: "2 \<le> n \<Longrightarrow> 2 \<le> length xs \<Longrightarrow> length (chunks n xs) < length xs"
proof (induction n xs rule: chunks.induct)
  case (1 n xs)
  have c: "chunks n xs = take n xs # chunks n (drop n xs)" using 1(2,3) by (subst chunks.simps) auto
  have ne: "xs \<noteq> []" using 1(3) by auto
  show ?case
  proof (cases "2 \<le> length (drop n xs)")
    case True
    then have "length (chunks n (drop n xs)) < length (drop n xs)" using 1 ne by auto
    then show ?thesis using 1(2) c by auto
  next
    case False
    have "length (chunks n ys) \<le> length ys" for ys :: "'a list"
      using 1(2) by (induction n ys rule: chunks.induct) (subst chunks.simps, auto simp: Suc_le_eq intro: le_less_trans)
    then have "length (chunks n (drop n xs)) \<le> length (drop n xs)" .
    then show ?thesis using c 1(2,3) False by simp
  qed
qed

lemma chunks_all2: "list_all2 R xs ys \<Longrightarrow> list_all2 (list_all2 R) (chunks n xs) (chunks n ys)"
proof (induction n xs arbitrary: ys rule: chunks.induct)
  case (1 n xs)
  show ?case
  proof (cases "xs = [] \<or> n = 0")
    case True
    then show ?thesis using 1(2) by (subst (1 2) chunks.simps) auto
  next
    case False
    then have "ys \<noteq> []" using 1(2) by auto
    then show ?thesis using False 1(1) [OF False, of "drop n ys"] 1(2)
      by (subst (1 2) chunks.simps) (auto intro: list_all2_takeI list_all2_dropI)
  qed
qed

definition holds :: "sort_env \<Rightarrow> (item \<Rightarrow> bool) \<Rightarrow> key_cmp \<Rightarrow> run list \<Rightarrow> item list list \<Rightarrow> bool" where
  "holds env D c runs xss \<longleftrightarrow> list_all2 (run_holds env) runs xss \<and> sorted_lists D c xss"

lemma holds_items: "holds env D c runs xss \<Longrightarrow> x \<in> set (concat xss) \<Longrightarrow> D x \<and> record_ok env x"
  by (auto simp: holds_def sorted_lists_def run_holds_def list_all2_conv_all_nth in_set_conv_nth Ball_def) (metis nth_mem)+

lemma sorted_lists_sort:
  assumes "comparator D (by_key c)" "\<forall>x \<in> set (concat xss). D x"
  shows "sorted_lists D c (map (sort_by (by_key c)) xss)"
  using assms(2) comparator.sorted_sort_by [OF assms(1)] by (auto simp: sorted_lists_def)

lemma yields_merge_pass:
  assumes C: "comparator D (by_key c)" and h: "holds env D c runs xss" and p: "0 < parallel"
  defines "yss \<equiv> map (\<lambda>xs. sort_by (by_key c) (concat xs)) (chunks parallel xss)"
  shows "yields (no_faults env) (merge_pass env parallel c sz runs) (\<lambda>nxt. holds env D c nxt yss)"
    "sort_by (by_key c) (concat yss) = sort_by (by_key c) (concat xss)" "length yss = length (chunks parallel runs)"
proof -
  let ?R = "\<lambda>rs xs. list_all2 (run_holds env) rs xs \<and> sorted_lists D c xs \<and> (\<forall>x \<in> set (concat xs). D x \<and> record_ok env x)"
  have cc: "concat (map concat (chunks parallel xss)) = concat xss"
  proof -
    have "concat (map concat zss) = concat (concat zss)" for zss :: "item list list list" by (induction zss) simp_all
    then show ?thesis using concat_chunks [OF p, of xss] by metis
  qed
  have e: "yss = map (sort_by (by_key c)) (map concat (chunks parallel xss))" by (simp add: yss_def)
  have it: "\<forall>x \<in> set (concat xss). D x \<and> record_ok env x" using holds_items [OF h] by blast
  show "sort_by (by_key c) (concat yss) = sort_by (by_key c) (concat xss)"
    unfolding e using comparator.sort_by_blocks [OF C, of "map concat (chunks parallel xss)"] it cc by simp
  have l2: "list_all2 (list_all2 (run_holds env)) (chunks parallel runs) (chunks parallel xss)"
    using h by (intro chunks_all2) (simp add: holds_def)
  then show "length yss = length (chunks parallel runs)" by (simp add: yss_def list_all2_lengthD)
  have sub: "set xs \<subseteq> set xss" if "xs \<in> set (chunks parallel xss)" for xs
    using that concat_chunks [OF p, of xss] by (metis UN_upper set_concat)
  have R: "list_all2 ?R (chunks parallel runs) (chunks parallel xss)"
  proof (rule list_all2_all_nthI)
    show "length (chunks parallel runs) = length (chunks parallel xss)" using l2 by (rule list_all2_lengthD)
    fix i assume i: "i < length (chunks parallel runs)"
    then have "set (chunks parallel xss ! i) \<subseteq> set xss" using list_all2_lengthD [OF l2] by (intro sub nth_mem) simp
    then show "?R (chunks parallel runs ! i) (chunks parallel xss ! i)"
      using list_all2_nthD [OF l2 i] h it by (auto simp: holds_def sorted_lists_def)
  qed
  have step: "yields (no_faults env) (bind_act (merge_runs env c rs) (write_run env sz)) (\<lambda>r. run_holds env r (sort_by (by_key c) (concat xs)))"
    if "?R rs xs" for rs xs
    using that yields_merge_runs [OF C, of env rs xs] yields_write_run [of "sort_by (by_key c) (concat xs)" env sz]
    by (auto intro!: yields_bind)
  have "yields (no_faults env) (merge_pass env parallel c sz runs)
      (\<lambda>nxt. list_all2 (\<lambda>r xs. run_holds env r (sort_by (by_key c) (concat xs))) nxt (chunks parallel xss))"
    unfolding merge_pass_def using p yields_map_act [OF R step] by simp
  moreover have "sorted_lists D c yss" unfolding e using it cc by (intro sorted_lists_sort [OF C]) auto
  ultimately show "yields (no_faults env) (merge_pass env parallel c sz runs) (\<lambda>nxt. holds env D c nxt yss)"
    by (auto intro: yields_weaken simp: holds_def yss_def list.rel_map)
qed

text \<open>A loop settles when it returns, with an answer that satisfies \<open>P\<close> or with an error that \<open>ok\<close> excludes.\<close>

definition settles :: "bool \<Rightarrow> 'a looping \<Rightarrow> ('a \<Rightarrow> bool) \<Rightarrow> bool" where
  "settles ok m P \<longleftrightarrow> (\<forall>s. \<exists>r s'. m s = Some (r, s') \<and> (case r of Inl e \<Rightarrow> \<not> ok | Inr a \<Rightarrow> P a))"

lemma settles_bind:
  assumes "settles ok m P" "\<And>a. P a \<Longrightarrow> settles ok (f a) Q"
  shows "settles ok (bind_loop m f) Q"
  unfolding settles_def
proof
  fix s
  obtain r s1 where m: "m s = Some (r, s1)" "case r of Inl e \<Rightarrow> \<not> ok | Inr a \<Rightarrow> P a"
    using assms(1) unfolding settles_def by blast
  show "\<exists>r s'. bind_loop m f s = Some (r, s') \<and> (case r of Inl e \<Rightarrow> \<not> ok | Inr a \<Rightarrow> Q a)"
  proof (cases r)
    case (Inl e)
    with m show ?thesis by (simp add: bind_loop_def)
  next
    case (Inr a)
    then have "settles ok (f a) Q" using m(2) assms(2) by simp
    then show ?thesis using m(1) Inr unfolding settles_def by (simp add: bind_loop_def)
  qed
qed

lemma settles_returned: "yields ok m P \<Longrightarrow> settles ok (returned m) P"
  unfolding settles_def yields_def returned_def by (metis prod.collapse)

lemma settles_weaken: "settles ok m P \<Longrightarrow> (\<And>a. P a \<Longrightarrow> Q a) \<Longrightarrow> (ok' \<Longrightarrow> ok) \<Longrightarrow> settles ok' m Q"
  unfolding settles_def by (fastforce split: sum.splits)

definition same_sort :: "sort_env \<Rightarrow> (item \<Rightarrow> bool) \<Rightarrow> key_cmp \<Rightarrow> item list \<Rightarrow> run list \<Rightarrow> bool" where
  "same_sort env D c items runs \<longleftrightarrow> (\<exists>xss. holds env D c runs xss \<and> sort_by (by_key c) (concat xss) = sort_by (by_key c) items)"

lemma settles_merge_passes:
  assumes C: "comparator D (by_key c)" and p: "2 \<le> parallel" and t: "1 \<le> target"
  shows "same_sort env D c items runs \<Longrightarrow> settles (no_faults env) (merge_passes env target parallel c sz runs) (same_sort env D c items)"
proof (induction "length runs" arbitrary: runs rule: less_induct)
  case less
  then obtain xss where x: "holds env D c runs xss" "sort_by (by_key c) (concat xss) = sort_by (by_key c) items"
    by (auto simp: same_sort_def)
  show ?case unfolding settles_def
  proof
    fix s
    show "\<exists>r s'. merge_passes env target parallel c sz runs s = Some (r, s') \<and>
        (case r of Inl e \<Rightarrow> \<not> no_faults env | Inr a \<Rightarrow> same_sort env D c items a)"
    proof (cases "length runs > target")
      case False
      then show ?thesis using less.prems by (subst merge_passes.simps) simp
    next
      case True
      let ?y = "map (\<lambda>xs. sort_by (by_key c) (concat xs)) (chunks parallel xss)"
      have p0: "0 < parallel" using p by simp
      note mp = yields_merge_pass [OF C x(1) p0]
      obtain r s1 where m: "merge_pass env parallel c sz runs s = (r, s1)" by fastforce
      have r: "case r of Inl e \<Rightarrow> \<not> no_faults env | Inr nxt \<Rightarrow> holds env D c nxt ?y"
        using mp(1) [of sz] m unfolding yields_def by (metis fst_conv)
      show ?thesis
      proof (cases r)
        case (Inl e)
        then show ?thesis using True m r by (subst merge_passes.simps) simp
      next
        case (Inr nxt)
        then have nx: "holds env D c nxt ?y" using r by simp
        have "length nxt = length (chunks parallel runs)"
          using mp(3) list_all2_lengthD [of "run_holds env" nxt ?y] nx unfolding holds_def by simp
        then have "length nxt < length runs" using length_chunks_less [OF p, of runs] True t by simp
        moreover have "same_sort env D c items nxt" unfolding same_sort_def using nx mp(2) x(2) by metis
        ultimately have "settles (no_faults env) (merge_passes env target parallel c sz nxt) (same_sort env D c items)" by (rule less.hyps)
        then obtain r2 s2 where "merge_passes env target parallel c sz nxt s1 = Some (r2, s2)"
          "case r2 of Inl e \<Rightarrow> \<not> no_faults env | Inr a \<Rightarrow> same_sort env D c items a" unfolding settles_def by blast
        then show ?thesis using True m Inr by (subst merge_passes.simps) simp
      qed
    qed
  qed
qed

section \<open>The sort\<close>

lemma sort_by_append_cong:
  assumes C: "comparator D c" and "\<forall>x \<in> set (a @ b @ r). D x" "sort_by c a = sort_by c b"
  shows "sort_by c (a @ r) = sort_by c (b @ r)"
proof (rule comparator.sort_by_eqI [OF C])
  show "sorted_by c (sort_by c (b @ r))" using comparator.sorted_sort_by [OF C] assms(2) by simp
  fix z assume z: "D z"
  have "filter (\<lambda>y. c z y = Equal) a = filter (\<lambda>y. c z y = Equal) b"
    using comparator.stable_sort_by [OF C z, of a] comparator.stable_sort_by [OF C z, of b] assms(2,3) by simp
  then show "filter (\<lambda>y. c z y = Equal) (sort_by c (b @ r)) = filter (\<lambda>y. c z y = Equal) (a @ r)"
    using comparator.stable_sort_by [OF C z, of "b @ r"] assms(2) by simp
qed (use assms(2) in auto)

definition item_ok :: "sort_env \<Rightarrow> (item \<Rightarrow> bool) \<Rightarrow> item list \<Rightarrow> bool" where
  "item_ok env D items \<longleftrightarrow> (\<forall>x \<in> set items. D x \<and> record_ok env x)"

lemma same_sort_snoc:
  assumes C: "comparator D (by_key c)" and s: "same_sort env D c items runs" and ok: "item_ok env D (items @ held)"
    and r: "run_holds env r (sort_by (by_key c) held)"
  shows "same_sort env D c (items @ held) (runs @ [r])"
proof -
  obtain xss where x: "holds env D c runs xss" "sort_by (by_key c) (concat xss) = sort_by (by_key c) items"
    using s by (auto simp: same_sort_def)
  have D: "\<forall>x \<in> set held. D x" "\<forall>x \<in> set items. D x" "\<forall>x \<in> set (concat xss). D x"
    using ok holds_items [OF x(1)] by (auto simp: item_ok_def)
  have "holds env D c (runs @ [r]) (xss @ [sort_by (by_key c) held])"
    using x(1) r D(1) comparator.sorted_sort_by [OF C D(1)] by (auto simp: holds_def sorted_lists_def list_all2_appendI)
  moreover have "sort_by (by_key c) (concat xss @ sort_by (by_key c) held) = sort_by (by_key c) (concat xss @ held)"
  proof (rule comparator.sort_by_eqI [OF C])
    show "filter (\<lambda>y. by_key c z y = Equal) (sort_by (by_key c) (concat xss @ held)) =
        filter (\<lambda>y. by_key c z y = Equal) (concat xss @ sort_by (by_key c) held)" if "D z" for z
      using comparator.stable_sort_by [OF C that D(1)] comparator.stable_sort_by [OF C that, of "concat xss @ held"] D by auto
  qed (use D comparator.sorted_sort_by [OF C, of "concat xss @ held"] in auto)
  moreover have "sort_by (by_key c) (concat xss @ held) = sort_by (by_key c) (items @ held)"
    using D by (intro sort_by_append_cong [OF C _ x(2)]) auto
  ultimately show ?thesis unfolding same_sort_def by (intro exI [of _ "xss @ [sort_by (by_key c) held]"]) simp
qed

lemma settles_spill:
  assumes C: "comparator D (by_key c)" and s: "same_sort env D c items runs" and ok: "item_ok env D (items @ held)" and p: "2 \<le> parallel"
  shows "settles (no_faults env \<and> disk_allowed env) (spill env c sz iterators parallel held runs) (same_sort env D c (items @ held))"
proof (cases "held = [] \<or> \<not> disk_allowed env")
  case True
  then show ?thesis using s by (auto simp: spill_def settles_def returned_def)
next
  case False
  have w: "settles (no_faults env) (returned (write_run env sz (sort_by (by_key c) held))) (\<lambda>r. run_holds env r (sort_by (by_key c) held))"
    using ok by (intro settles_returned yields_write_run) (auto simp: item_ok_def)
  have "settles (no_faults env) (if length (runs @ [r]) \<ge> iterators then (\<lambda>s. merge_spills env (runs @ [r]) (iterators div 2) parallel c sz s)
      else returned (\<lambda>s. (Inr (runs @ [r]), s))) (same_sort env D c (items @ held))"
    if "run_holds env r (sort_by (by_key c) held)" for r
    using settles_merge_passes [OF C p _ same_sort_snoc [OF C s ok that], of "max (iterators div 2) 1" sz] same_sort_snoc [OF C s ok that]
    by (auto simp: merge_spills_def settles_def returned_def)
  then have "settles (no_faults env) (spill env c sz iterators parallel held runs) (same_sort env D c (items @ held))"
    using False settles_bind [OF w, of _ "same_sort env D c (items @ held)"] unfolding spill_def Let_def by simp
  then show ?thesis by (rule settles_weaken) simp_all
qed

lemma settles_fill:
  assumes C: "comparator D (by_key c)" and p: "2 \<le> parallel"
  shows "same_sort env D c front runs \<Longrightarrow> item_ok env D (front @ held @ items) \<Longrightarrow>
    settles (no_faults env \<and> disk_allowed env) (fill env c sz effective iterators parallel items held runs used tot)
      (\<lambda>(held', runs', _). \<exists>front'. same_sort env D c front' runs' \<and> front' @ held' = front @ held @ items)"
proof (induction items arbitrary: front held runs used tot)
  case Nil
  then show ?case by (auto simp: settles_def)
next
  case (Cons it items)
  let ?ok = "no_faults env \<and> disk_allowed env" and ?u = "used + item_size sz it" and ?t = "tot + item_size sz it"
  let ?Q = "\<lambda>(held', runs', _). \<exists>front'. same_sort env D c front' runs' \<and> front' @ held' = front @ held @ it # items"
  have e: "fill env c sz effective iterators parallel (it # items) held runs used tot =
      bind_loop (returned (check env)) (\<lambda>_.
        if ?u > effective
        then bind_loop (spill env c sz iterators parallel (held @ [it]) runs) (\<lambda>runs.
               fill env c sz effective iterators parallel items [] runs 0 ?t)
        else fill env c sz effective iterators parallel items (held @ [it]) runs ?u ?t)"
    by (rule ext) (simp add: Let_def)
  have chk: "settles ?ok (returned (check env)) (\<lambda>_. True)"
    using settles_returned [OF yields_check [of env]] by (rule settles_weaken) simp_all
  have plain: "settles ?ok (fill env c sz effective iterators parallel items (held @ [it]) runs ?u ?t) ?Q"
    using Cons.IH [OF Cons.prems(1), of "held @ [it]" ?u ?t] Cons.prems(2) by simp
  have ok: "item_ok env D (front @ held @ [it])" "item_ok env D ((front @ held @ [it]) @ [] @ items)"
    using Cons.prems(2) by (auto simp: item_ok_def)
  have "settles ?ok (fill env c sz effective iterators parallel items [] runs' 0 ?t) ?Q"
    if "same_sort env D c (front @ held @ [it]) runs'" for runs'
    using Cons.IH [OF that ok(2), of 0 ?t] by simp
  then have "settles ?ok (bind_loop (spill env c sz iterators parallel (held @ [it]) runs) (\<lambda>runs.
               fill env c sz effective iterators parallel items [] runs 0 ?t)) ?Q"
    by (rule settles_bind [OF settles_spill [OF C Cons.prems(1) ok(1) p]])
  with plain show ?case unfolding e by (intro settles_bind [OF chk]) simp
qed

lemma settles_blocking_sort:
  assumes C: "comparator D (by_key c)" and ok: "item_ok env D items"
  shows "settles (no_faults env \<and> disk_allowed env) (blocking_sort env items c sz None) (\<lambda>out. out = sort_by (by_key c) items)"
proof -
  let ?ok = "no_faults env \<and> disk_allowed env"
  let ?it = "file_iterator (source sz)"
  let ?eff = "budget sz - reserved (budget sz) ?it" and ?its = "max (reserved (budget sz) ?it div ?it) 1"
    and ?p = "max (budget sz div SORTED_FILE_BUFFER) 2"
  let ?fin = "\<lambda>(held, runs, tot) s. let s = account_sort sz (length items) tot s in
     if runs = [] then Some (Inr (sort_by (by_key c) held), s)
     else bind_loop (spill env c sz ?its ?p held runs) (\<lambda>runs.
            bind_loop (\<lambda>s. merge_spills env runs ?p ?p c sz s) (\<lambda>runs. returned (merge_runs env c runs))) s"
  have p: "2 \<le> ?p" by simp
  have e: "blocking_sort env items c sz None = bind_loop (fill env c sz ?eff ?its ?p items [] [] 0 0) ?fin"
    by (rule ext) (simp only: blocking_sort_def Let_def option.case)
  have s0: "same_sort env D c [] []" by (auto simp: same_sort_def holds_def sorted_lists_def)
  have tail: "settles ?ok (\<lambda>s. bind_loop (spill env c sz ?its ?p held runs) (\<lambda>runs.
        bind_loop (\<lambda>s. merge_spills env runs ?p ?p c sz s) (\<lambda>runs. returned (merge_runs env c runs))) (g s))
      (\<lambda>out. out = sort_by (by_key c) items)"
    if h: "same_sort env D c front runs" "front @ held = items" for front held runs g
  proof -
    have mr: "settles ?ok (returned (merge_runs env c rs)) (\<lambda>out. out = sort_by (by_key c) items)"
      if rs: "same_sort env D c items rs" for rs
    proof -
      obtain xss where "holds env D c rs xss" "sort_by (by_key c) (concat xss) = sort_by (by_key c) items"
        using rs by (auto simp: same_sort_def)
      then have "yields (no_faults env) (merge_runs env c rs) (\<lambda>out. out = sort_by (by_key c) items)"
        using yields_merge_runs [OF C, of env rs xss] by (simp add: holds_def)
      from settles_returned [OF this] show ?thesis by (rule settles_weaken) simp_all
    qed
    have ms: "settles ?ok (\<lambda>s. merge_spills env rs ?p ?p c sz s) (same_sort env D c items)" if "same_sort env D c items rs" for rs
      using settles_merge_passes [OF C p _ that, of "max ?p 1" sz] unfolding merge_spills_def by (rule settles_weaken) simp_all
    have sp: "settles ?ok (spill env c sz ?its ?p held runs) (same_sort env D c items)"
      using settles_spill [OF C h(1) _ p, of held sz ?its] h(2) ok by simp
    have "settles ?ok (bind_loop (spill env c sz ?its ?p held runs) (\<lambda>runs.
        bind_loop (\<lambda>s. merge_spills env runs ?p ?p c sz s) (\<lambda>runs. returned (merge_runs env c runs)))) (\<lambda>out. out = sort_by (by_key c) items)"
      using sp ms mr by (intro settles_bind [OF sp] settles_bind [OF ms] mr)
    then show ?thesis unfolding settles_def by blast
  qed
  show ?thesis unfolding e
  proof (rule settles_bind [OF settles_fill [OF C p s0]])
    show "item_ok env D ([] @ [] @ items)" using ok by simp
    fix a :: "item list \<times> run list \<times> nat"
    assume a: "case a of (held', runs', _) \<Rightarrow> \<exists>front'. same_sort env D c front' runs' \<and> front' @ held' = [] @ [] @ items"
    obtain held runs tot where at: "a = (held, runs, tot)" by (cases a)
    then obtain front where f: "same_sort env D c front runs" "front @ held = items" using a by auto
    show "settles ?ok (?fin a) (\<lambda>out. out = sort_by (by_key c) items)"
    proof (cases "runs = []")
      case True
      then have "length (sort_by (by_key c) front) = 0" using f(1) by (auto simp: same_sort_def holds_def)
      then show ?thesis using True at f(2) by (auto simp: settles_def Let_def)
    next
      case False
      then show ?thesis using tail [OF f, of "account_sort sz (length items) tot"] at by (simp add: Let_def)
    qed
  qed
qed
end
