(* ===== verification/Sort_Documents.thy ===== *)
theory Sort_Documents
  imports Sort_Merge Value_Order Paths
begin

text \<open>
  A \<open>$sort\<close> from its specification to its answer: \<open>sort_fields\<close> and \<open>sort_key_values\<close> of
  \<open>secantus-core/src/aggregate.rs\<close> give every document its key, and \<open>sort_documents\<close> of
  \<open>sorter.rs\<close> sorts by the comparator of values, field by field, through the blocking sort. The
  theorems put the parts together: paths, the order of values, the codec and the sorter.
\<close>

section \<open>The keys of a document\<close>

text \<open>\<open>f64 as i128\<close> for a double without a fraction, saturating.\<close>

definition whole_double :: "f64 \<Rightarrow> int option" where
  "whole_double d =
     (if f64_is_finite d \<and> f64_val d = of_int \<lfloor>f64_val d\<rfloor>
      then Some (max (- (2 ^ 127)) (min (2 ^ 127 - 1) \<lfloor>f64_val d\<rfloor>)) else None)"

definition sort_direction :: "bson \<Rightarrow> bool option" where
  "sort_direction dir =
     (let n = (case dir of
                 Boolean _ \<Rightarrow> None
               | Int32 _ \<Rightarrow> as_int_like dir
               | Int64 _ \<Rightarrow> as_int_like dir
               | Double f \<Rightarrow> whole_double f
               | _ \<Rightarrow> None)
      in if n = Some 1 then Some False else if n = Some (-1) then Some True else None)"

fun sort_fields_loop :: "document \<Rightarrow> (rstr \<times> bool) list \<Rightarrow> sort_error + (rstr \<times> bool) list" where
  "sort_fields_loop [] out = Inr out"
| "sort_fields_loop ((fld, dir) # d) out =
     (case sort_direction dir of None \<Rightarrow> Inl Sort_defer | Some desc \<Rightarrow> sort_fields_loop d (out @ [(fld, desc)]))"

definition sort_fields :: "bson \<Rightarrow> sort_error + (rstr \<times> bool) list" where
  "sort_fields spec =
     (case spec of Document d \<Rightarrow> if d = [] then Inl Sort_defer else sort_fields_loop d [] | _ \<Rightarrow> Inl Sort_defer)"

fun best_value :: "thread_env \<Rightarrow> bool \<Rightarrow> (bson \<times> bool) list \<Rightarrow> bson option \<Rightarrow> sort_error + bson option" where
  "best_value env desc [] best = Inr best"
| "best_value env desc ((v, indexed) # vs) best =
     (if \<not> is_sortable v then Inl Sort_defer
      else case (if indexed then Some v else array_sort_value env v desc) of
             None \<Rightarrow> Inl Sort_defer
           | Some rep \<Rightarrow>
               best_value env desc vs
                 (Some (case best of
                    None \<Rightarrow> rep
                  | Some cur \<Rightarrow> (if cmp env rep cur = (if desc then Greater else Less) then rep else cur))))"

fun field_values :: "thread_env \<Rightarrow> document \<Rightarrow> (rstr \<times> bool) list \<Rightarrow> bson list \<Rightarrow> sort_error + bson list" where
  "field_values env d [] ks = Inr ks"
| "field_values env d ((path, desc) # fs) ks =
     (case ambiguous_sort_path d path of
        Some (part, items) \<Rightarrow> Inl (Sort_ambiguous part items)
      | None \<Rightarrow>
          bind_res (best_value env desc (sort_path_values d path) None) (\<lambda>best.
            field_values env d fs (ks @ [case best of Some v \<Rightarrow> v | None \<Rightarrow> Null])))"

definition sort_key_values :: "thread_env \<Rightarrow> document \<Rightarrow> (rstr \<times> bool) list \<Rightarrow> sort_error + bson list" where
  "sort_key_values env d fs =
     (if length fs = 1 \<and> fst (hd fs) = lit ''_id''
      then let v = (case doc_get d (lit ''_id'') of Some v \<Rightarrow> v | None \<Rightarrow> Null)
           in if \<not> is_sortable v then Inl Sort_defer else Inr [v]
      else field_values env d fs [])"

section \<open>The sort of documents\<close>

fun keys_cmp :: "thread_env \<Rightarrow> (rstr \<times> bool) list \<Rightarrow> key_cmp" where
  "keys_cmp env ((_, desc) # fs) (a # ka) (b # kb) =
     (let c = cmp env a b; c = (if desc then reverse_ord c else c)
      in if c \<noteq> Equal then c else keys_cmp env fs ka kb)"
| "keys_cmp env _ _ _ = Equal"

fun keyed_docs :: "thread_env \<Rightarrow> (rstr \<times> bool) list \<Rightarrow> document list \<Rightarrow> item list \<Rightarrow> sort_error + item list" where
  "keyed_docs env fs [] out = Inr out"
| "keyed_docs env fs (d # ds) out = bind_res (sort_key_values env d fs) (\<lambda>k. keyed_docs env fs ds (out @ [(k, d)]))"

definition sort_documents ::
  "sort_env \<Rightarrow> thread_env \<Rightarrow> document list \<Rightarrow> bson \<Rightarrow> sizing \<Rightarrow> nat option \<Rightarrow> document list looping" where
  "sort_documents senv env docs spec sz limit s =
     (case bind_res (sort_fields spec) (\<lambda>fs. bind_res (keyed_docs env fs docs []) (\<lambda>ks. Inr (fs, ks))) of
        Inl e \<Rightarrow> Some (Inl e, s)
      | Inr (fs, ks) \<Rightarrow>
          bind_loop (blocking_sort senv ks (keys_cmp env fs) sz limit) (\<lambda>sorted s. Some (Inr (map snd sorted), s)) s)"

section \<open>The blocking sort\<close>

lemma comparator_by_key: "comparator D c \<Longrightarrow> comparator (\<lambda>it. D (fst it)) (by_key c)"
  using comparator_on_key [of D c fst] by (simp add: by_key_def [abs_def])

lemma blocking_sort_returns:
  assumes "comparator D c" "\<forall>it \<in> set items. D (fst it) \<and> record_ok env it"
  shows "\<exists>r s'. blocking_sort env items c sz limit s = Some (r, s') \<and>
    (case r of
       Inl e \<Rightarrow> \<not> (no_faults env \<and> disk_allowed env)
     | Inr out \<Rightarrow> out = (case limit of None \<Rightarrow> sort_by (by_key c) items | Some k \<Rightarrow> take k (sort_by (by_key c) items)))"
proof (cases limit)
  case None
  have "item_ok env (\<lambda>it. D (fst it)) items" using assms(2) by (simp add: item_ok_def)
  from settles_blocking_sort [OF comparator_by_key [OF assms(1)] this]
  show ?thesis unfolding None settles_def option.case by blast
next
  case (Some k)
  then show ?thesis by (simp add: blocking_sort_def Let_def)
qed

text \<open>
  C10: whatever the budget, the spills and the merge passes, the blocking
  sort returns, and an answer is the stable sort of the items, cut to the limit if there is
  one. It fails only when a file operation fails, a deadline passes or disk use is not allowed;
  with none of these it answers. The comparator has to be a total preorder on the keys, and the
  records have to survive the document writer and reader.
\<close>

theorem external_sort_stable:
  assumes "comparator D c" "\<forall>it \<in> set items. D (fst it) \<and> record_ok env it"
  shows "\<exists>r s'. blocking_sort env items c sz limit s = Some (r, s') \<and>
    (case r of
       Inl e \<Rightarrow> \<not> (no_faults env \<and> disk_allowed env)
     | Inr out \<Rightarrow> out = (case limit of None \<Rightarrow> sort_by (by_key c) items | Some k \<Rightarrow> take k (sort_by (by_key c) items)))"
  using assms by (rule blocking_sort_returns)

lemma fill_in_memory:
  assumes "\<not> disk_allowed env" "never_interrupted env"
  shows "used \<le> effective \<Longrightarrow> \<exists>s'. fill env c sz effective iterators parallel items held [] used tot s =
    Some (if used + sum_list (map (item_size sz) items) \<le> effective
          then Inr (held @ items, [], tot + sum_list (map (item_size sz) items)) else Inl (Sort_refused (budget sz)), s')"
proof (induction items arbitrary: held used tot s)
  case (Cons it items)
  obtain s0 where chk: "check env s = (Inr (), s0)" using assms(2) by (cases rule: check_cases [of env s]) auto
  show ?case
  proof (cases "used + item_size sz it > effective")
    case True
    then show ?thesis using assms(1) by (simp add: bind_loop_def returned_def chk spill_def Let_def)
  next
    case False
    then obtain s1 where "fill env c sz effective iterators parallel items (held @ [it]) [] (used + item_size sz it)
        (tot + item_size sz it) s0 =
      Some (if used + item_size sz it + sum_list (map (item_size sz) items) \<le> effective
          then Inr ((held @ [it]) @ items, [], tot + item_size sz it + sum_list (map (item_size sz) items))
          else Inl (Sort_refused (budget sz)), s1)"
      using Cons.IH [of "used + item_size sz it" "held @ [it]"] by fastforce
    then show ?thesis using False by (simp add: bind_loop_def returned_def chk Let_def add.assoc)
  qed
qed simp

lemma sum_insert_by: "sum_list (map f (insert_by c x xs)) = f x + (sum_list (map f xs) :: nat)"
  by (induction xs) simp_all

lemma sum_sort_by: "sum_list (map f (sort_by c xs)) = (sum_list (map f xs) :: nat)"
  by (induction xs) (simp_all add: sum_insert_by)

lemma unlimited_sort_in_memory:
  assumes "\<not> disk_allowed env" "never_interrupted env"
  shows "\<exists>s'. blocking_sort env items c sz None s =
    Some (if sum_list (map (item_size sz) items) \<le> budget sz - reserved (budget sz) (file_iterator (source sz))
          then Inr (sort_by (by_key c) items) else Inl (Sort_refused (budget sz)), s')"
proof -
  let ?it = "file_iterator (source sz)"
  obtain s1 where "fill env c sz (budget sz - reserved (budget sz) ?it) (max (reserved (budget sz) ?it div ?it) 1)
      (max (budget sz div SORTED_FILE_BUFFER) 2) items [] [] 0 0 s =
    Some (if sum_list (map (item_size sz) items) \<le> budget sz - reserved (budget sz) ?it
          then Inr (items, [], sum_list (map (item_size sz) items)) else Inl (Sort_refused (budget sz)), s1)"
    using fill_in_memory [OF assms, where used = 0 and held = "[]" and tot = 0 and items = items and c = c and sz = sz and s = s
        and effective = "budget sz - reserved (budget sz) ?it" and iterators = "max (reserved (budget sz) ?it div ?it) 1"
        and parallel = "max (budget sz div SORTED_FILE_BUFFER) 2"]
    by auto
  then show ?thesis by (simp add: blocking_sort_def bind_loop_def Let_def)
qed

text \<open>
  C40: let a sort keep all its items, or the first \<open>k\<close> of them in the order
  of the sort when it has a limit of \<open>k\<close>. Without disk use, and with no deadline passing, it is
  refused exactly when the limit is not one and the sizes of the kept items add up to more than
  the budget leaves after the reserve for file iterators; otherwise it answers with the kept
  items. A sort with a limit of one is never refused.
\<close>

theorem sort_refused_exactly:
  assumes "\<not> disk_allowed env" "never_interrupted env"
    and kept: "kept = (case limit of None \<Rightarrow> sort_by (by_key c) items | Some k \<Rightarrow> take k (sort_by (by_key c) items))"
  shows "\<exists>s'. blocking_sort env items c sz limit s =
    Some (if limit \<noteq> Some 1 \<and>
             budget sz - reserved (budget sz) (file_iterator (source sz)) < sum_list (map (item_size sz) kept)
          then Inl (Sort_refused (budget sz)) else Inr kept, s')"
proof (cases limit)
  case None
  then show ?thesis
    using unlimited_sort_in_memory [OF assms(1,2), of items c sz s] kept
    by (auto simp: sum_sort_by linorder_not_less split: if_splits)
next
  case (Some k)
  then show ?thesis
    using assms by (cases "k = 0 \<or> k = 1") (auto simp: blocking_sort_def Let_def)
qed

section \<open>Sorting documents\<close>

lemma comparator_cong:
  assumes "comparator D c" "\<And>x y. D x \<Longrightarrow> D y \<Longrightarrow> c' x y = c x y"
  shows "comparator D c'"
proof (rule comparator.intro)
  show "c' y x = reverse_ord (c' x y)" if "D x" "D y" for x y
    using comparator.swap [OF assms(1) that] assms(2) that by simp
  show "c' x z \<noteq> Greater" if "D x" "D y" "D z" "c' x y \<noteq> Greater" "c' y z \<noteq> Greater" for x y z
    using comparator.trans [OF assms(1) that(1-3)] assms(2) that by simp
qed

lemma comparator_mono:
  assumes "comparator D c" "\<And>x. D' x \<Longrightarrow> D x"
  shows "comparator D' c"
proof (rule comparator.intro)
  show "c y x = reverse_ord (c x y)" if "D' x" "D' y" for x y
    using comparator.swap [OF assms(1)] assms(2) that by blast
  show "c x z \<noteq> Greater" if "D' x" "D' y" "D' z" "c x y \<noteq> Greater" "c y z \<noteq> Greater" for x y z
    using comparator.trans [OF assms(1)] assms(2) that by blast
qed

lemma comparator_then:
  assumes "comparator D c1" "comparator D c2"
  shows "comparator D (\<lambda>x y. then_with (c1 x y) (c2 x y))"
proof (rule comparator.intro)
  show "then_with (c1 y x) (c2 y x) = reverse_ord (then_with (c1 x y) (c2 x y))" if "D x" "D y" for x y
    using comparator.swap [OF assms(1) that] comparator.swap [OF assms(2) that] by (simp add: reverse_ord_then_with)
  fix x y z
  assume d: "D x" "D y" "D z" and xy: "then_with (c1 x y) (c2 x y) \<noteq> Greater" and yz: "then_with (c1 y z) (c2 y z) \<noteq> Greater"
  have le: "c1 x y \<noteq> Greater" "c1 y z \<noteq> Greater" using xy yz by (auto simp: then_with_simps)
  show "then_with (c1 x z) (c2 x z) \<noteq> Greater"
  proof (cases "c1 x y = Equal \<and> c1 y z = Equal")
    case True
    then have "c1 x z = Equal" using comparator.equal_trans [OF assms(1) d] by blast
    then show ?thesis using True xy yz comparator.trans [OF assms(2) d] by simp
  next
    case False
    have "c1 x z = Less"
    proof (cases "c1 x y = Less")
      case True
      then show ?thesis using strict_trans [OF assms(1) d _ le(2)] by blast
    next
      case eq: False
      have e: "c1 x y = Equal" using eq le(1) by (cases "c1 x y") auto
      then have "c1 y z = Less" using False le(2) by (cases "c1 y z") auto
      then have "c1 z y = Greater" using comparator.swap [OF assms(1) d(2,3)] by simp
      then have "c1 z x = Greater" using comparator.trans [OF assms(1) d(3,1,2)] le(1) by blast
      then show ?thesis using comparator.swap [OF assms(1) d(3,1)] by simp
    qed
    then show ?thesis by simp
  qed
qed

definition key_ok_for :: "thread_env \<Rightarrow> (rstr \<times> bool) list \<Rightarrow> bson list \<Rightarrow> bool" where
  "key_ok_for env fs ks \<longleftrightarrow> length ks = length fs \<and> list_all (storable env) ks"

text \<open>The comparator of keys is a total preorder on keys of storable values.\<close>

lemma keys_cmp_comparator: "comparator (key_ok_for env fs) (keys_cmp env fs)"
proof (induction fs)
  case Nil
  show ?case by (rule comparator.intro) (simp_all add: key_ok_for_def)
next
  case (Cons f fs)
  obtain p desc where f: "f = (p, desc)" by fastforce
  let ?c1 = "\<lambda>a b. if desc then reverse_ord (cmp env a b) else cmp env a b"
  have c1: "comparator (storable env) ?c1"
    using bson_order.flipped [of env] bson_order.comparator_axioms [of env] by (cases desc) simp_all
  have "comparator (\<lambda>ks. storable env (hd ks)) (\<lambda>a b. ?c1 (hd a) (hd b))" by (rule comparator_on_key [OF c1])
  then have h: "comparator (key_ok_for env (f # fs)) (\<lambda>a b. ?c1 (hd a) (hd b))"
    by (rule comparator_mono) (auto simp: key_ok_for_def length_Suc_conv)
  have t: "comparator (key_ok_for env (f # fs)) (\<lambda>a b. keys_cmp env fs (tl a) (tl b))"
    by (rule comparator_mono [OF comparator_on_key [OF Cons.IH, of tl]]) (auto simp: key_ok_for_def length_Suc_conv)
  show ?case
  proof (rule comparator_cong [OF comparator_then [OF h t]])
    fix a b assume "key_ok_for env (f # fs) a" "key_ok_for env (f # fs) b"
    then obtain x xs y ys where "a = x # xs" "b = y # ys" by (auto simp: key_ok_for_def length_Suc_conv)
    then show "keys_cmp env (f # fs) a b = then_with (?c1 (hd a) (hd b)) (keys_cmp env fs (tl a) (tl b))"
      by (cases "?c1 x y") (auto simp: f Let_def split: if_splits)
  qed
qed

interpretation key_order: comparator "key_ok_for env fs" "keys_cmp env fs" for env fs
  by (rule keys_cmp_comparator)

lemma keyed_docs_map:
  "\<forall>d \<in> set docs. sort_key_values env d fs = Inr (key d) \<Longrightarrow>
   keyed_docs env fs docs out = Inr (out @ map (\<lambda>d. (key d, d)) docs)"
  by (induction docs arbitrary: out) simp_all

lemma insert_by_map: "insert_by c (f x) (map f xs) = map f (insert_by (\<lambda>a b. c (f a) (f b)) x xs)"
  by (induction xs) auto

lemma sort_by_map: "sort_by c (map f xs) = map f (sort_by (\<lambda>a b. c (f a) (f b)) xs)"
  by (induction xs) (simp_all add: insert_by_map)

section \<open>A spilled sort on a concrete input\<close>

text \<open>Two documents, a codec that knows their records, and a budget that holds neither of them.\<close>

definition wit_doc :: "i32 \<Rightarrow> document" where "wit_doc n = [(lit ''a'', Int32 n)]"

definition wit_item :: "i32 \<Rightarrow> item" where "wit_item n = ([Int32 n], wit_doc n)"

definition wit_crate :: bson_crate where
  "wit_crate = \<lparr>raw_from_bytes = (\<lambda>_. None), raw_iter = (\<lambda>_. []),
     document_try_from = (\<lambda>b. Inr (record_doc (wit_item (if length b = 5 then 1 else 2)))),
     document_to_writer = (\<lambda>d. (if d = record_doc (wit_item 1) then [5, 0, 0, 0, 0] else [6, 0, 0, 0, 0, 0], None)),
     bson_to_vec = (\<lambda>_. Inr []), raw_buf_from_bytes = (\<lambda>_. None)\<rparr>"

definition wit_env :: "bool \<Rightarrow> sort_env" where
  "wit_env disk = \<lparr>sort_crate = wit_crate, disk_allowed = disk, killed = (\<lambda>_. False), armed = Some 1, clock = (\<lambda>_. 0), io_fault = (\<lambda>_. None)\<rparr>"

definition wit_sizing :: "nat \<Rightarrow> sizing" where
  "wit_sizing b = \<lparr>source = QueryLayer, kept_fields = None, budget = b, added = None\<rparr>"

definition wit_state :: sort_state where
  "wit_state = \<lparr>checks = 0, INTERRUPT_TICKS = 0, armed_ticks = 0, TRIPPED = False, io_ops = 0, NEXT_FILE = 0,
     accts = \<lparr>REPORT = \<lparr>used_disk = False, has_sort_stage = False, sort_spills = 0, sort_spilled_records = 0,
                sort_spilled_bytes = 0, sort_spilled_data_storage_size = 0, sort_total_data_size = 0\<rparr>,
       SORT_METRICS = \<lparr>spill_to_disk = 0, spill_to_disk_bytes = 0, total_bytes_sorted = 0, total_keys_sorted = 0\<rparr>,
       BUCKET_AUTO_METRICS = \<lparr>ctr_spills = 0, ctr_spilled_records = 0, ctr_spilled_bytes = 0, ctr_spilled_data_storage_size = 0\<rparr>\<rparr>\<rparr>"

lemma wit_records: "record_ok (wit_env disk) (wit_item 1)" "record_ok (wit_env disk) (wit_item 2)"
  by (cases disk; code_simp)+

lemma wit_no_faults: "no_faults (wit_env disk)"
  by (simp add: no_faults_def never_interrupted_def wit_env_def)

lemma wit_storable: "storable store_env (Int32 1)" "storable store_env (Int32 2)"
  by code_simp+

theorem external_sort_stable_witness:
  "\<exists>s'. blocking_sort (wit_env True) [wit_item 2, wit_item 1] (keys_cmp store_env [(lit ''a'', False)]) (wit_sizing 0) None wit_state =
     Some (Inr [wit_item 1, wit_item 2], s')"
proof -
  let ?c = "keys_cmp store_env [(lit ''a'', False)]" and ?items = "[wit_item 2, wit_item 1]"
  have "\<forall>it \<in> set ?items. key_ok_for store_env [(lit ''a'', False)] (fst it) \<and> record_ok (wit_env True) it"
    using wit_records wit_storable by (simp add: key_ok_for_def wit_item_def)
  from external_sort_stable [OF key_order.comparator_axioms this, of "wit_sizing 0" None wit_state]
  obtain r s' where r: "blocking_sort (wit_env True) ?items ?c (wit_sizing 0) None wit_state = Some (r, s')"
    "case r of Inl e \<Rightarrow> \<not> (no_faults (wit_env True) \<and> disk_allowed (wit_env True)) | Inr out \<Rightarrow> out = sort_by (by_key ?c) ?items"
    unfolding option.case by blast
  moreover have "disk_allowed (wit_env True)" by (simp add: wit_env_def)
  moreover have "sort_by (by_key ?c) ?items = [wit_item 1, wit_item 2]" by code_simp
  ultimately show ?thesis using wit_no_faults [of True] by (cases r) auto
qed

theorem sort_refused_exactly_witness:
  "\<exists>s1 s2 s3. blocking_sort (wit_env False) [wit_item 2, wit_item 1] (keys_cmp store_env [(lit ''a'', False)]) (wit_sizing 0) None wit_state =
       Some (Inl (Sort_refused 0), s1) \<and>
     blocking_sort (wit_env False) [wit_item 2, wit_item 1] (keys_cmp store_env [(lit ''a'', False)]) (wit_sizing 0) (Some 2) wit_state =
       Some (Inl (Sort_refused 0), s2) \<and>
     blocking_sort (wit_env False) [wit_item 2, wit_item 1] (keys_cmp store_env [(lit ''a'', False)]) (wit_sizing 0) (Some 1) wit_state =
       Some (Inr [wit_item 1], s3)"
proof -
  let ?c = "keys_cmp store_env [(lit ''a'', False)]" and ?its = "[wit_item 2, wit_item 1]" and ?sz = "wit_sizing 0"
  have e: "\<not> disk_allowed (wit_env False)" "never_interrupted (wit_env False)" by (simp_all add: wit_env_def never_interrupted_def)
  have big: "budget ?sz - reserved (budget ?sz) (file_iterator (source ?sz)) < sum_list (map (item_size ?sz) (sort_by (by_key ?c) ?its))"
    and b: "budget ?sz = 0" and t: "take 2 (sort_by (by_key ?c) ?its) = sort_by (by_key ?c) ?its"
    and f: "take 1 (sort_by (by_key ?c) ?its) = [wit_item 1]" by code_simp+
  show ?thesis
    using sort_refused_exactly [OF e, of "sort_by (by_key ?c) ?its" ?c ?its None ?sz wit_state]
      sort_refused_exactly [OF e, of "sort_by (by_key ?c) ?its" ?c ?its "Some 2" ?sz wit_state]
      sort_refused_exactly [OF e, of "[wit_item 1]" ?c ?its "Some 1" ?sz wit_state] big
    unfolding option.case t f b by auto
qed

end
