(* ===== verification/Sort_Order.thy ===== *)
theory Sort_Order
  imports Sort_Documents
begin

text \<open>
  What a \<open>$sort\<close> has to do, stated without the code's own routines: the fields and directions a
  specification asks for, the values a path reaches in a document as an inductive relation, the
  key of a field as an extremal one of them, and the order of keys by their first difference.
  \<open>sort_documents\<close> is shown to meet it.
\<close>


section \<open>What a sort has to do\<close>

text \<open>What a specification asks for: every field has a number as its direction, one for ascending
  and minus one for descending.\<close>

definition direction_value :: "bson \<Rightarrow> rat option" where
  "direction_value dir =
     (case dir of
        Int32 n \<Rightarrow> Some (of_int (sint n))
      | Int64 n \<Rightarrow> Some (of_int (sint n))
      | Double f \<Rightarrow> (if f64_is_finite f then Some (f64_val f) else None)
      | _ \<Rightarrow> None)"

definition asks_for :: "document \<Rightarrow> (rstr \<times> bool) list \<Rightarrow> bool" where
  "asks_for spec fs \<longleftrightarrow> spec \<noteq> [] \<and>
     list_all2 (\<lambda>(p, dir) (q, desc). p = q \<and> direction_value dir = Some (if desc then -1 else 1)) spec fs"

text \<open>Following one component of a path: into a document; into an array by position; into the
  documents of an array; and, by name, to null for an element that has no such field. The flag
  says whether the step was by position.\<close>

inductive leads :: "rstr \<Rightarrow> bson \<Rightarrow> bson \<Rightarrow> bool \<Rightarrow> bool" where
  member: "doc_get d part = Some v \<Longrightarrow> leads part (Document d) v False"
| position: "array_slot arr part = Some i \<Longrightarrow> leads part (Array arr) (arr ! i) True"
| element: "Document d \<in> set arr \<Longrightarrow> doc_get d part = Some v \<Longrightarrow> leads part (Array arr) v False"
| lacking: "e \<in> set arr \<Longrightarrow> \<not> is_digits part \<Longrightarrow> (\<And>d. e = Document d \<Longrightarrow> doc_get d part = None) \<Longrightarrow>
    leads part (Array arr) Null False"

inductive reaches :: "document \<Rightarrow> rstr list \<Rightarrow> bson \<Rightarrow> bool \<Rightarrow> bool" for doc where
  top: "doc_get doc part = Some v \<Longrightarrow> reaches doc [part] v False"
| further: "reaches doc parts v b \<Longrightarrow> leads part v w b' \<Longrightarrow> reaches doc (parts @ [part]) w b'"

text \<open>The values a document offers to sort by: what the path reaches, an array by its elements
  unless its position was named, and an empty array by the marker below null.\<close>

inductive offers :: "document \<Rightarrow> rstr \<Rightarrow> bson \<Rightarrow> bool" for doc path where
  whole: "reaches doc (path_parts path) v b \<Longrightarrow> b \<or> \<not> is_array v \<Longrightarrow> offers doc path v"
| elem: "reaches doc (path_parts path) (Array xs) False \<Longrightarrow> v \<in> set xs \<Longrightarrow> offers doc path v"
| empty: "reaches doc (path_parts path) (Array []) False \<Longrightarrow> offers doc path Undefined"

text \<open>The key of a field: an offered value that no other precedes in the direction of the field,
  or null when the document offers none. The key of a sort on \<open>_id\<close> alone is the whole \<open>_id\<close>.\<close>

definition field_key :: "thread_env \<Rightarrow> document \<Rightarrow> rstr \<times> bool \<Rightarrow> bson \<Rightarrow> bool" where
  "field_key env doc f k \<longleftrightarrow>
     (if \<exists>v. offers doc (fst f) v
      then offers doc (fst f) k \<and> (\<forall>v. offers doc (fst f) v \<longrightarrow> cmp env k v \<noteq> (if snd f then Less else Greater))
      else k = Null)"

definition key_of :: "thread_env \<Rightarrow> (rstr \<times> bool) list \<Rightarrow> document \<Rightarrow> bson list \<Rightarrow> bool" where
  "key_of env fs doc ks \<longleftrightarrow>
     (if map fst fs = [lit ''_id''] then ks = [case doc_get doc (lit ''_id'') of Some v \<Rightarrow> v | None \<Rightarrow> Null]
      else list_all2 (field_key env doc) fs ks)"

text \<open>A document can be keyed: no path has two readings in it, and what it offers is storable.\<close>

definition keyable :: "thread_env \<Rightarrow> (rstr \<times> bool) list \<Rightarrow> document \<Rightarrow> bool" where
  "keyable env fs doc \<longleftrightarrow>
     (if map fst fs = [lit ''_id''] then \<forall>v. doc_get doc (lit ''_id'') = Some v \<longrightarrow> storable env v
      else \<forall>p \<in> fst ` set fs. ambiguous_sort_path doc p = None \<and> (\<forall>v. offers doc p v \<longrightarrow> storable env v))"

text \<open>One key before another: they differ first in some field, and there in its direction.\<close>

definition key_before :: "thread_env \<Rightarrow> (rstr \<times> bool) list \<Rightarrow> bson list \<Rightarrow> bson list \<Rightarrow> bool" where
  "key_before env fs ka kb \<longleftrightarrow>
     (\<exists>p < length fs. cmp env (ka ! p) (kb ! p) = (if snd (fs ! p) then Greater else Less) \<and>
        (\<forall>q < p. cmp env (ka ! q) (kb ! q) = Equal))"

definition key_tied :: "thread_env \<Rightarrow> (rstr \<times> bool) list \<Rightarrow> bson list \<Rightarrow> bson list \<Rightarrow> bool" where
  "key_tied env fs ka kb \<longleftrightarrow> (\<forall>p < length fs. cmp env (ka ! p) (kb ! p) = Equal)"

section \<open>The keys the code computes\<close>

lemma sort_direction_iff:
  "direction_value dir = Some (if desc then -1 else 1) \<Longrightarrow> sort_direction dir = Some desc"
  using floor_of_int [of "-1", where ?'a = rat]
  by (auto simp: direction_value_def sort_direction_def as_int_like_def whole_double_def Let_def
      simp del: of_int_sint split: bson.splits if_splits)

lemma sort_fields_loop_asked:
  "list_all2 (\<lambda>(p, dir) (q, desc). p = q \<and> direction_value dir = Some (if desc then -1 else 1)) spec fs \<Longrightarrow>
   sort_fields_loop spec out = Inr (out @ fs)"
proof (induction spec fs arbitrary: out rule: list_all2_induct)
  case (Cons f spec g fs)
  then show ?case using sort_direction_iff [of "snd f" "snd g"] by (cases f; cases g) auto
qed simp

lemma sort_fields_asked: "asks_for spec fs \<Longrightarrow> sort_fields (Document spec) = Inr fs"
  using sort_fields_loop_asked [of spec fs "[]"] by (simp add: asks_for_def sort_fields_def)

definition element_step :: "rstr \<Rightarrow> bson \<Rightarrow> (bson \<times> bool) list" where
  "element_step part e =
     (case e of
        Document d \<Rightarrow> (case doc_get d part of
                        Some v \<Rightarrow> [(v, False)] | None \<Rightarrow> if \<not> is_digits part then [(MISSING_IN_ELEMENT, False)] else [])
      | _ \<Rightarrow> if \<not> is_digits part then [(MISSING_IN_ELEMENT, False)] else [])"

lemma sort_step_array:
  "sort_step part (Array arr) =
     (case array_slot arr part of Some i \<Rightarrow> [(arr ! i, True)] | None \<Rightarrow> []) @ concat (map (element_step part) arr)"
  by (simp add: sort_step_def element_step_def [abs_def])

lemma element_step_iff:
  "(w, b) \<in> set (element_step part e) \<longleftrightarrow> \<not> b \<and>
     ((\<exists>d. e = Document d \<and> doc_get d part = Some w) \<or>
      w = Null \<and> \<not> is_digits part \<and> (\<forall>d. e = Document d \<longrightarrow> doc_get d part = None))"
  by (cases e) (auto simp: element_step_def MISSING_IN_ELEMENT_def split: option.splits)

inductive_simps leads_simps: "leads part (Document d) w b" "leads part (Array arr) w b"

lemma leads_leaf: "leads part v w b \<Longrightarrow> \<exists>x. v = Document x \<or> (\<exists>y. v = Array y)"
  by (induction rule: leads.induct) auto

lemma leads_sort_step: "leads part v w b \<longleftrightarrow> (w, b) \<in> set (sort_step part v)"
proof (cases v)
  case (Array arr)
  have "leads part v w b \<longleftrightarrow> (\<exists>i. array_slot arr part = Some i \<and> w = arr ! i \<and> b) \<or> (\<exists>e \<in> set arr. (w, b) \<in> set (element_step part e))"
    (is "?L \<longleftrightarrow> ?P \<or> ?E")
  proof
    assume ?L
    then show "?P \<or> ?E" unfolding Array element_step_iff by (cases rule: leads.cases) auto
  next
    have "leads part (Array arr) w b" if "e \<in> set arr" "(w, b) \<in> set (element_step part e)" for e
    proof -
      from that(2) consider d where "\<not> b" "e = Document d" "doc_get d part = Some w"
        | "\<not> b" "w = Null" "\<not> is_digits part" "\<forall>d. e = Document d \<longrightarrow> doc_get d part = None"
        unfolding element_step_iff by blast
      then show ?thesis
      proof cases
        case 1
        then show ?thesis using leads.element [of d arr part w] that(1) by simp
      next
        case 2
        then show ?thesis using leads.lacking [OF that(1), of part] by simp
      qed
    qed
    moreover have "leads part (Array arr) w b" if ?P using that leads.position by auto
    ultimately show "?P \<or> ?E \<Longrightarrow> ?L" unfolding Array by blast
  qed
  then show ?thesis unfolding Array sort_step_array by (cases "array_slot arr part") auto
next
  case (Document d)
  then show ?thesis by (auto simp: leads_simps sort_step_def opt_list_def split: option.splits)
qed (use leads_leaf [of part v w b] in \<open>auto simp: sort_step_def\<close>)

lemma sort_walk_append: "sort_walk cur (ps @ qs) = sort_walk (sort_walk cur ps) qs"
  by (induction ps arbitrary: cur) simp_all

lemma sort_walk_snoc: "set (sort_walk cur (ps @ [p])) = {(w, b). \<exists>(v, c) \<in> set (sort_walk cur ps). leads p v w b}"
  by (auto simp: sort_walk_append leads_sort_step)

lemma reaches_nonempty: "reaches doc ps v b \<Longrightarrow> ps \<noteq> []"
  by (induction rule: reaches.induct) simp_all

lemma reaches_walk: "reaches doc (p # ps) v b \<longleftrightarrow> (v, b) \<in> set (sort_walk (map (\<lambda>v. (v, False)) (opt_list (doc_get doc p))) ps)"
proof
  have "reaches doc qs v b \<Longrightarrow> (v, b) \<in> set (sort_walk (map (\<lambda>v. (v, False)) (opt_list (doc_get doc (hd qs)))) (tl qs))" for qs v b
  proof (induction rule: reaches.induct)
    case (further parts v b part w b')
    then obtain q qs where "parts = q # qs" using reaches_nonempty by (cases parts) auto
    with further show ?case by (auto simp: sort_walk_snoc)
  qed (simp add: opt_list_def)
  then show "reaches doc (p # ps) v b \<Longrightarrow> (v, b) \<in> set (sort_walk (map (\<lambda>v. (v, False)) (opt_list (doc_get doc p))) ps)"
    by force
  show "(v, b) \<in> set (sort_walk (map (\<lambda>v. (v, False)) (opt_list (doc_get doc p))) ps) \<Longrightarrow> reaches doc (p # ps) v b"
  proof (induction ps arbitrary: v b rule: rev_induct)
    case Nil
    then show ?case by (auto simp: opt_list_def intro: reaches.top split: option.splits)
  next
    case (snoc q ps)
    then obtain u c where "(u, c) \<in> set (sort_walk (map (\<lambda>v. (v, False)) (opt_list (doc_get doc p))) ps)" "leads q u v b"
      by (auto simp: sort_walk_snoc)
    then show ?case using reaches.further [OF snoc.IH] by simp
  qed
qed

lemma reaches_sort_path: "reaches doc (path_parts path) v b \<longleftrightarrow> (v, b) \<in> set (sort_path_values doc path)"
  by (cases "path_parts path") (use path_parts_nonempty [of path] in \<open>simp_all add: sort_path_values_def reaches_walk\<close>)

text \<open>What one reached value offers.\<close>

definition offered :: "bson \<times> bool \<Rightarrow> bson set" where
  "offered vb = (case vb of (Array xs, False) \<Rightarrow> (if xs = [] then {Undefined} else set xs) | (v, _) \<Rightarrow> {v})"

lemma offered_simps [simp]:
  "offered (Array xs, False) = (if xs = [] then {Undefined} else set xs)" "offered (v, True) = {v}"
  "\<not> is_array v \<Longrightarrow> offered (v, b) = {v}"
  by (auto simp: offered_def is_array_def split: bson.splits)

lemma offers_iff: "offers doc path x \<longleftrightarrow> (\<exists>vb \<in> set (sort_path_values doc path). x \<in> offered vb)"
proof
  show "offers doc path x \<Longrightarrow> \<exists>vb \<in> set (sort_path_values doc path). x \<in> offered vb"
  proof (induction rule: offers.induct)
    case (whole v b)
    then have "v \<in> offered (v, b)" by (cases b) simp_all
    with whole show ?case unfolding reaches_sort_path by blast
  next
    case (elem xs v)
    then have "v \<in> offered (Array xs, False)" by auto
    with elem show ?case unfolding reaches_sort_path by blast
  next
    case empty
    have "Undefined \<in> offered (Array [], False)" by simp
    with empty show ?case unfolding reaches_sort_path by blast
  qed
  assume "\<exists>vb \<in> set (sort_path_values doc path). x \<in> offered vb"
  then obtain v b where v: "reaches doc (path_parts path) v b" "x \<in> offered (v, b)" unfolding reaches_sort_path by force
  show "offers doc path x"
  proof (cases "b \<or> \<not> is_array v")
    case True
    then have "x = v" using v(2) by (cases b) auto
    with True v(1) show ?thesis using offers.whole by simp
  next
    case False
    then obtain xs where "v = Array xs" "b = False" by (auto simp: is_array_def split: bson.splits)
    with v show ?thesis by (auto intro: offers.elem offers.empty split: if_splits)
  qed
qed

text \<open>The comparator of a field in its direction.\<close>

definition directed :: "thread_env \<Rightarrow> bool \<Rightarrow> bson \<Rightarrow> bson \<Rightarrow> ordering" where
  "directed env desc a b = (if desc then reverse_ord (cmp env a b) else cmp env a b)"

interpretation field_order: comparator "storable env" "directed env desc" for env desc
  using bson_order.flipped [of env] bson_order.comparator_axioms [of env]
  by (cases desc) (simp_all add: directed_def [abs_def])

lemma directed_iff: "directed env desc a b = Greater \<longleftrightarrow> cmp env a b = (if desc then Less else Greater)"
  "directed env desc a b = Less \<longleftrightarrow> cmp env a b = (if desc then Greater else Less)"
  "directed env desc a b = Equal \<longleftrightarrow> cmp env a b = Equal"
  by (cases "cmp env a b"; simp add: directed_def)+

lemma storable_sortable: "storable env v \<Longrightarrow> is_sortable v"
  using storable_key encode_value_comparable unfolding is_sortable_def by blast

text \<open>The value a reached value is represented by is offered, and no offered one precedes it.\<close>

lemma rep_best:
  assumes "\<forall>x \<in> offered (v, b). storable env x"
  shows "is_sortable v \<and> (\<exists>rep \<in> offered (v, b). (if b then Some v else array_sort_value env v desc) = Some rep \<and>
           (\<forall>x \<in> offered (v, b). directed env desc rep x \<noteq> Greater))"
proof (cases "\<exists>xs. v = Array xs \<and> \<not> b")
  case True
  then obtain xs where v: "v = Array xs" "\<not> b" by blast
  have st: "\<forall>x \<in> set xs. storable env x" using assms v by (auto simp: offered_def split: if_splits)
  moreover have "is_sortable v" using st storable_sortable unfolding v by (auto simp: is_sortable_def list_all_iff)
  ultimately show ?thesis
    using array_sort_value_extremum [of xs env desc] field_order.refl assms v
    by (cases "xs = []") (auto simp: offered_def directed_iff)
next
  case False
  then have "offered (v, b) = {v}" by (auto simp: offered_def split: bson.splits bool.splits)
  moreover have "b \<or> array_sort_value env v desc = Some v" using False by (auto simp: array_sort_value_def split: bson.splits)
  ultimately show ?thesis using assms storable_sortable field_order.refl by auto
qed

lemma best_value_best:
  assumes "\<forall>vb \<in> set vs. \<forall>x \<in> offered vb. storable env x" "\<forall>x \<in> set_option best. storable env x"
  shows "\<exists>r. best_value env desc vs best = Inr r \<and> (r = None \<longleftrightarrow> vs = [] \<and> best = None) \<and>
    (\<forall>k \<in> set_option r. k \<in> set_option best \<union> \<Union> (offered ` set vs) \<and>
       (\<forall>x \<in> set_option best \<union> \<Union> (offered ` set vs). directed env desc k x \<noteq> Greater))"
  using assms
proof (induction vs arbitrary: best)
  case Nil
  then show ?case using field_order.refl by (cases best) auto
next
  case (Cons vb vs)
  obtain v b where vb: "vb = (v, b)" by fastforce
  obtain rep where rep: "is_sortable v" "rep \<in> offered vb" "(if b then Some v else array_sort_value env v desc) = Some rep"
    "\<forall>x \<in> offered vb. directed env desc rep x \<noteq> Greater"
    using rep_best [of v b env desc] Cons.prems unfolding vb by auto
  define n where "n = (case best of None \<Rightarrow> rep | Some cur \<Rightarrow> if directed env desc rep cur = Less then rep else cur)"
  have step: "best_value env desc (vb # vs) best = best_value env desc vs (Some n)"
    using rep by (cases best) (simp_all add: vb n_def directed_iff)
  have st: "storable env rep" "storable env n" "\<forall>x \<in> set_option best \<union> offered vb. storable env x"
    using Cons.prems rep(2) by (auto simp: n_def split: option.splits)
  have "directed env desc n x \<noteq> Greater" if "x \<in> set_option best \<union> offered vb" for x
  proof (cases best)
    case None
    then show ?thesis using that rep(4) by (simp add: n_def)
  next
    case (Some cur)
    have "directed env desc n rep \<noteq> Greater" "directed env desc n cur \<noteq> Greater"
      using st field_order.refl field_order.not_less [of env rep cur desc] by (auto simp: n_def Some)
    then show ?thesis using that rep(4) st Some field_order.trans [of env n rep x desc] by auto
  qed
  note n_best = this
  obtain r where r: "best_value env desc vs (Some n) = Inr r" "r \<noteq> None"
    "\<forall>k \<in> set_option r. k \<in> insert n (\<Union> (offered ` set vs)) \<and> (\<forall>x \<in> insert n (\<Union> (offered ` set vs)). directed env desc k x \<noteq> Greater)"
    using Cons.IH [of "Some n"] Cons.prems st(2) by auto
  have "n \<in> set_option best \<union> offered vb" using rep(2) by (auto simp: n_def split: option.splits)
  moreover have "directed env desc k x \<noteq> Greater" if "k \<in> set_option r" "x \<in> set_option best \<union> offered vb" for k x
  proof -
    have "storable env k" using r(3) that(1) st(2) Cons.prems by auto
    then show ?thesis using that r(3) st n_best field_order.trans [of env k n x desc] by blast
  qed
  ultimately show ?case using r unfolding step by (intro exI [of _ r]) auto
qed

lemma field_values_keys:
  assumes "\<forall>p \<in> fst ` set fs. ambiguous_sort_path d p = None \<and> (\<forall>v. offers d p v \<longrightarrow> storable env v)"
  shows "\<exists>ks. field_values env d fs acc = Inr (acc @ ks) \<and> list_all2 (field_key env d) fs ks"
  using assms
proof (induction fs arbitrary: acc)
  case (Cons f fs)
  obtain p desc where f: "f = (p, desc)" by fastforce
  let ?vs = "sort_path_values d p"
  have "\<forall>vb \<in> set ?vs. \<forall>x \<in> offered vb. storable env x" using Cons.prems unfolding f offers_iff by auto
  then obtain r where r: "best_value env desc ?vs None = Inr r" "r = None \<longleftrightarrow> ?vs = []"
    "\<forall>k \<in> set_option r. k \<in> \<Union> (offered ` set ?vs) \<and> (\<forall>x \<in> \<Union> (offered ` set ?vs). directed env desc k x \<noteq> Greater)"
    using best_value_best [of ?vs env None desc] by auto
  have key: "field_key env d f (case r of Some v \<Rightarrow> v | None \<Rightarrow> Null)"
    using r(2,3) by (cases r) (auto simp: f field_key_def offers_iff directed_iff split: if_splits)
  obtain ks where "field_values env d fs (acc @ [case r of Some v \<Rightarrow> v | None \<Rightarrow> Null]) =
      Inr ((acc @ [case r of Some v \<Rightarrow> v | None \<Rightarrow> Null]) @ ks)" "list_all2 (field_key env d) fs ks"
    using Cons by fastforce
  with key show ?case using Cons.prems r(1) by (intro exI [of _ "(case r of Some v \<Rightarrow> v | None \<Rightarrow> Null) # ks"]) (simp add: f)
qed simp

lemma storable_Null: "plain_env env \<Longrightarrow> storable env Null"
  by (simp add: storable_def encode_value_scalar is_nested_def encode_scalar_def)

lemma keyable_key:
  assumes "plain_env env" "keyable env fs d"
  shows "\<exists>ks. sort_key_values env d fs = Inr ks \<and> key_of env fs d ks \<and> key_ok_for env fs ks"
proof (cases "map fst fs = [lit ''_id'']")
  case True
  then have id: "length fs = 1 \<and> fst (hd fs) = lit ''_id''" by (cases fs) auto
  let ?v = "case doc_get d (lit ''_id'') of Some v \<Rightarrow> v | None \<Rightarrow> Null"
  have "storable env ?v" using assms storable_Null True by (simp add: keyable_def split: option.splits)
  then show ?thesis
    using True id storable_sortable unfolding sort_key_values_def Let_def if_P [OF id] by (auto simp: key_of_def key_ok_for_def)
next
  case False
  then have id: "\<not> (length fs = 1 \<and> fst (hd fs) = lit ''_id'')" by (cases fs) auto
  have amb: "\<forall>p \<in> fst ` set fs. ambiguous_sort_path d p = None \<and> (\<forall>v. offers d p v \<longrightarrow> storable env v)"
    using assms(2) False by (simp add: keyable_def)
  obtain ks where ks: "field_values env d fs [] = Inr ks" "list_all2 (field_key env d) fs ks"
    using field_values_keys [OF amb, of "[]"] by auto
  have "list_all (storable env) ks"
    using ks(2) amb by (induction rule: list_all2_induct) (auto simp: field_key_def storable_Null assms(1) split: if_splits)
  then show ?thesis
    using ks False unfolding sort_key_values_def if_not_P [OF id]
    by (auto simp: key_of_def key_ok_for_def dest: list_all2_lengthD)
qed

lemma keys_cmp_iff:
  assumes "length ka = length fs" "length kb = length fs"
  shows "(keys_cmp env fs ka kb = Less \<longleftrightarrow> key_before env fs ka kb) \<and> (keys_cmp env fs ka kb = Equal \<longleftrightarrow> key_tied env fs ka kb)"
  using assms
proof (induction fs arbitrary: ka kb)
  case (Cons f fs)
  then obtain a ka' b kb' where k: "ka = a # ka'" "kb = b # kb'" "length ka' = length fs" "length kb' = length fs"
    by (auto simp: length_Suc_conv)
  obtain p desc where f: "f = (p, desc)" by fastforce
  have tied: "key_tied env (f # fs) ka kb \<longleftrightarrow> cmp env a b = Equal \<and> key_tied env fs ka' kb'"
    by (auto simp: key_tied_def k(1,2) All_less_Suc2)
  have before: "key_before env (f # fs) ka kb \<longleftrightarrow>
      directed env desc a b = Less \<or> cmp env a b = Equal \<and> key_before env fs ka' kb'"
    by (auto simp: key_before_def k(1,2) f Ex_less_Suc2 All_less_Suc2 directed_iff)
  have "keys_cmp env (f # fs) ka kb = (if directed env desc a b \<noteq> Equal then directed env desc a b else keys_cmp env fs ka' kb')"
    by (simp add: k(1,2) f Let_def directed_def)
  then show ?case
    unfolding tied before using Cons.IH [OF k(3,4)] directed_iff(3) [of env desc a b] by (cases "directed env desc a b") auto
qed (simp add: key_before_def key_tied_def)

text \<open>The sorted items as the positions of their documents.\<close>

lemma sorted_positions:
  assumes k: "\<forall>d \<in> set docs. key_ok_for env fs (key d)"
  shows "\<exists>idx. distinct idx \<and> set idx = {..< length docs} \<and>
    sort_by (by_key (keys_cmp env fs)) (map (\<lambda>d. (key d, d)) docs) = map (\<lambda>i. (key (docs ! i), docs ! i)) idx \<and>
    sorted_wrt (\<lambda>i j. key_before env fs (key (docs ! i)) (key (docs ! j)) \<or>
      key_tied env fs (key (docs ! i)) (key (docs ! j)) \<and> i < j) idx"
proof -
  let ?order = "\<lambda>i j. keys_cmp env fs (key (docs ! i)) (key (docs ! j))"
  let ?idx = "sort_by ?order [0..< length docs]"
  have "map (\<lambda>d. (key d, d)) docs = map (\<lambda>i. (key (docs ! i), docs ! i)) [0..< length docs]" by (rule nth_equalityI) simp_all
  then have "sort_by (by_key (keys_cmp env fs)) (map (\<lambda>d. (key d, d)) docs) = map (\<lambda>i. (key (docs ! i), docs ! i)) ?idx"
    by (simp add: sort_by_map by_key_def)
  moreover have set: "set ?idx = {..< length docs}" by auto
  then have "distinct ?idx" by (simp add: card_distinct)
  moreover have "comparator (\<lambda>i. key_ok_for env fs (key (docs ! i))) ?order" by (rule comparator_on_key [OF keys_cmp_comparator])
  then have "sorted_wrt (\<lambda>i j. ?order i j = Less \<or> ?order i j = Equal \<and> i < j) ?idx"
    by (rule comparator.stable_order_sort_by) (use k in simp_all)
  then have "sorted_wrt (\<lambda>i j. key_before env fs (key (docs ! i)) (key (docs ! j)) \<or>
      key_tied env fs (key (docs ! i)) (key (docs ! j)) \<and> i < j) ?idx"
    by (rule sorted_wrt_mono_rel [rotated]) (use k keys_cmp_iff set in \<open>fastforce simp: key_ok_for_def\<close>)
  ultimately show ?thesis using set by blast
qed

text \<open>
  C11: \<open>$sort\<close> asked for fields \<open>fs\<close> in their directions answers with a
  rearrangement of the documents, cut to the limit if there is one, whether or not the sort
  spilled. A document stands before another when, in the first field where their keys differ,
  its key is less, or greater if the field is descending; documents whose keys tie in every
  field stay in the order they came in. The key of a field is the least value the document
  offers there, or the greatest if descending: what the path reaches through documents and
  arrays, an array by its elements, null when there is nothing; the key of a sort on \<open>_id\<close> alone
  is the whole \<open>_id\<close>. It fails only when a file operation fails, a deadline passes or disk use is
  not allowed. The documents must not be ambiguous along a path and must offer storable values,
  and the records have to survive the document writer and reader.
\<close>

theorem sort_documents_ordered:
  assumes "plain_env env" "asks_for spec fs"
    and docs: "\<forall>d \<in> set docs. keyable env fs d \<and> (\<forall>ks. key_of env fs d ks \<longrightarrow> record_ok senv (ks, d))"
  shows "\<exists>r s'. sort_documents senv env docs (Document spec) sz limit s = Some (r, s') \<and>
    (case r of
       Inl e \<Rightarrow> \<not> (no_faults senv \<and> disk_allowed senv)
     | Inr out \<Rightarrow> \<exists>idx key. distinct idx \<and> set idx = {..< length docs} \<and>
         out = map ((!) docs) (case limit of None \<Rightarrow> idx | Some n \<Rightarrow> take n idx) \<and>
         (\<forall>i < length docs. key_of env fs (docs ! i) (key i)) \<and>
         sorted_wrt (\<lambda>i j. key_before env fs (key i) (key j) \<or> key_tied env fs (key i) (key j) \<and> i < j) idx)"
proof -
  define key where "key = (\<lambda>d. projr (sort_key_values env d fs))"
  let ?items = "map (\<lambda>d. (key d, d)) docs" and ?c = "keys_cmp env fs"
  have k: "\<forall>d \<in> set docs. sort_key_values env d fs = Inr (key d) \<and> key_of env fs d (key d) \<and> key_ok_for env fs (key d)"
    using docs keyable_key [OF assms(1)] by (force simp: key_def)
  have ok: "\<forall>it \<in> set ?items. key_ok_for env fs (fst it) \<and> record_ok senv it" using k docs by auto
  have sd: "sort_documents senv env docs (Document spec) sz limit s =
      bind_loop (blocking_sort senv ?items ?c sz limit) (\<lambda>sorted s. Some (Inr (map snd sorted), s)) s"
    using sort_fields_asked [OF assms(2)] keyed_docs_map [of docs env fs key "[]"] k by (simp add: sort_documents_def)
  obtain r s1 where b: "blocking_sort senv ?items ?c sz limit s = Some (r, s1)"
    "case r of Inl e \<Rightarrow> \<not> (no_faults senv \<and> disk_allowed senv)
     | Inr out \<Rightarrow> out = (case limit of None \<Rightarrow> sort_by (by_key ?c) ?items | Some n \<Rightarrow> take n (sort_by (by_key ?c) ?items))"
    using blocking_sort_returns [OF key_order.comparator_axioms ok] by blast
  obtain idx where idx: "distinct idx" "set idx = {..< length docs}"
    "sort_by (by_key ?c) ?items = map (\<lambda>i. (key (docs ! i), docs ! i)) idx"
    "sorted_wrt (\<lambda>i j. key_before env fs (key (docs ! i)) (key (docs ! j)) \<or>
       key_tied env fs (key (docs ! i)) (key (docs ! j)) \<and> i < j) idx"
    using sorted_positions [of docs env fs key] k by blast
  have out: "map snd (case limit of None \<Rightarrow> sort_by (by_key ?c) ?items | Some n \<Rightarrow> take n (sort_by (by_key ?c) ?items)) =
      map ((!) docs) (case limit of None \<Rightarrow> idx | Some n \<Rightarrow> take n idx)"
    unfolding idx(3) by (cases limit) (simp_all add: take_map o_def)
  show ?thesis
  proof (cases r)
    case (Inl e)
    then show ?thesis using b unfolding sd by (auto simp: bind_loop_def)
  next
    case (Inr sorted)
    then have "sort_documents senv env docs (Document spec) sz limit s =
        Some (Inr (map ((!) docs) (case limit of None \<Rightarrow> idx | Some n \<Rightarrow> take n idx)), s1)"
      using b out unfolding sd by (simp add: bind_loop_def)
    then show ?thesis using idx(1,2,4) k
      by (intro exI [of _ "Inr (map ((!) docs) (case limit of None \<Rightarrow> idx | Some n \<Rightarrow> take n idx))"] exI [of _ s1])
        (force intro!: exI [of _ idx] exI [of _ "\<lambda>i. key (docs ! i)"])
  qed
qed

section \<open>A descending sort on a concrete input\<close>

lemma wit_values: "sort_path_values (wit_doc 1) (lit ''a'') = [(Int32 1, False)]" "sort_path_values (wit_doc 2) (lit ''a'') = [(Int32 2, False)]"
  by code_simp+

lemma wit_offers: "offers (wit_doc 1) (lit ''a'') v \<longleftrightarrow> v = Int32 1" "offers (wit_doc 2) (lit ''a'') v \<longleftrightarrow> v = Int32 2"
  unfolding offers_iff wit_values by (simp_all add: is_array_def)

lemma wit_id: "lit ''a'' \<noteq> lit ''_id''"
  by code_simp

lemma wit_keys: "key_of store_env [(lit ''a'', True)] (wit_doc 1) ks \<Longrightarrow> ks = [Int32 1]"
  "key_of store_env [(lit ''a'', True)] (wit_doc 2) ks \<Longrightarrow> ks = [Int32 2]"
  by (auto simp: key_of_def wit_id list_all2_Cons1 field_key_def wit_offers)

lemma wit_keyable: "keyable store_env [(lit ''a'', True)] (wit_doc 1)" "keyable store_env [(lit ''a'', True)] (wit_doc 2)"
proof -
  have "ambiguous_sort_path (wit_doc 1) (lit ''a'') = None" "ambiguous_sort_path (wit_doc 2) (lit ''a'') = None" by code_simp+
  then show "keyable store_env [(lit ''a'', True)] (wit_doc 1)" "keyable store_env [(lit ''a'', True)] (wit_doc 2)"
    by (simp_all add: keyable_def wit_id wit_offers wit_storable)
qed

theorem sort_documents_ordered_witness:
  "\<exists>s'. sort_documents (wit_env True) store_env [wit_doc 1, wit_doc 2] (Document [(lit ''a'', Int32 (-1))]) (wit_sizing 0) (Some 1) wit_state =
     Some (Inr [wit_doc 2], s')"
proof -
  let ?fs = "[(lit ''a'', True)]" and ?spec = "[(lit ''a'', Int32 (-1))]" and ?docs = "[wit_doc 1, wit_doc 2]"
  have env: "plain_env store_env" and fs: "asks_for ?spec ?fs" by code_simp+
  have docs: "\<forall>d \<in> set ?docs. keyable store_env ?fs d \<and> (\<forall>ks. key_of store_env ?fs d ks \<longrightarrow> record_ok (wit_env True) (ks, d))"
    using wit_keyable wit_keys wit_records [of True] by (auto simp: wit_item_def)
  from sort_documents_ordered [OF env fs docs, of "wit_sizing 0" "Some 1" wit_state]
  obtain r s' where r: "sort_documents (wit_env True) store_env ?docs (Document ?spec) (wit_sizing 0) (Some 1) wit_state = Some (r, s')"
    "case r of Inl e \<Rightarrow> \<not> (no_faults (wit_env True) \<and> disk_allowed (wit_env True))
     | Inr out \<Rightarrow> \<exists>idx key. distinct idx \<and> set idx = {..< length ?docs} \<and> out = map ((!) ?docs) (take 1 idx) \<and>
         (\<forall>i < length ?docs. key_of store_env ?fs (?docs ! i) (key i)) \<and>
         sorted_wrt (\<lambda>i j. key_before store_env ?fs (key i) (key j) \<or> key_tied store_env ?fs (key i) (key j) \<and> i < j) idx"
    unfolding option.case by blast
  have "disk_allowed (wit_env True)" by (simp add: wit_env_def)
  then obtain out idx key where o: "r = Inr out" "distinct idx" "set idx = {..< 2}" "out = map ((!) ?docs) (take 1 idx)"
    "\<forall>i < 2. key_of store_env ?fs (?docs ! i) (key i)"
    "sorted_wrt (\<lambda>i j. key_before store_env ?fs (key i) (key j) \<or> key_tied store_env ?fs (key i) (key j) \<and> i < j) idx"
    using r(2) wit_no_faults [of True] by (cases r) (auto simp: numeral_2_eq_2)
  have keys: "key 0 = [Int32 1]" "key 1 = [Int32 2]" using o(5) [rule_format, of 0] o(5) [rule_format, of 1] wit_keys by simp_all
  have "length idx = 2" using o(2,3) distinct_card [of idx] by simp
  then obtain i j where ij: "idx = [i, j]" by (auto simp: numeral_2_eq_2 length_Suc_conv)
  have "cmp store_env (Int32 1) (Int32 2) = Less" by code_simp
  then have no: "\<not> key_before store_env ?fs [Int32 1] [Int32 2]" "\<not> key_tied store_env ?fs [Int32 1] [Int32 2]"
    by (simp_all add: key_before_def key_tied_def)
  have "set [i, j] = {..< 2}" using o(3) unfolding ij .
  then have "i \<in> {..< 2}" "j \<in> {..< 2}" by (metis list.set_intros)+
  moreover have "i \<noteq> j" using o(2) unfolding ij by simp
  ultimately consider "i = 0" "j = 1" | "i = 1" by force
  then have "i = 1"
  proof cases
    case 1
    then show ?thesis using o(6) no unfolding ij by (simp only: sorted_wrt.simps keys list.set insert_iff ball_simps) blast
  qed
  then show ?thesis using r(1) o(1,4) ij by simp
qed

end
