(* ===== verification/Spec2Isabelle.thy ===== *)
theory Spec2Isabelle
  imports Value_Order Key_Layout Index_Keys Heap_Queue Admission Share_Locks Lock_Chains Table_Locks
    Serve_Frames Alloc_Budget Decimal_Quotient Decimal_Bson Sort_Order
begin

text \<open>
  A verification library for SecantusDB, a document database that speaks MongoDB's wire
  protocol (and PostgreSQL's) over the WiredTiger engine. It covers the parts of the
  Rust code that decide what comes in, what is stored, in which order and under which locks:
  \<open>src/crates/secantus-wire\<close>, \<open>secantus-server\<close>, \<open>secantus-core\<close>, \<open>secantus-storage\<close> and
  \<open>secantus-commands\<close>.

  \<^bold>\<open>The program.\<close> \<open>secantus-server\<close> reads frames, which \<open>secantus-wire\<close> takes apart and
  \<open>bsondoc.rs\<close> decodes. A command arrives as a BSON document; \<open>secantus-commands\<close> takes its locks
  and runs it; values are compared (\<open>order.rs\<close>), turned into index keys whose byte order is
  to be that order (\<open>sortkey.rs\<close>), and read and written along dotted paths (\<open>paths.rs\<close>,
  \<open>index_keys.rs\<close>). \<open>secantus-storage\<close> admits a bounded number of writes to the engine and
  keeps the shared row locks of the PostgreSQL server.

  \<^bold>\<open>Ground.\<close>
  \<^item> \<open>Prelude\<close>: machine integers, strings as UTF-8 bytes, Rust's \<open>Ordering\<close>, lexicographic order.
  \<^item> \<open>Rust_Std\<close>: what the sources use of the standard library: IEEE doubles as 64-bit words with
    their exact value, decimal printing and parsing, splitting and trimming of strings.
  \<^item> \<open>Comparator\<close>: the locale \<open>comparator\<close> of a three-way comparison and the choice of an extremum.
  \<^item> \<open>Lock_Modes\<close>: the locale \<open>conflict_table\<close> of a symmetric conflict table and compatible holds.

  \<^bold>\<open>Values, order and keys.\<close>
  \<^item> \<open>Bson_Model\<close> (\<open>bsondoc.rs\<close>): the values, documents as association lists with the locale of their
    lookup laws, UTF-8 decoding and the carriers of text that is not UTF-8. Field names and text are
    recovered from their carriers.
  \<^item> \<open>Numeric\<close> (\<open>numeric.rs\<close>): the exact decimal form of a double with its limb arithmetic at 64 bits,
    classification and comparison of numbers; comparison is by exact value and the short cuts agree with it.
  \<^item> \<open>Order\<close> (\<open>order.rs\<close>, \<open>regexutil.rs\<close>): the cross-type comparator; thread-local settings are the
    record \<open>thread_env\<close>, the collation library is a parameter.
  \<^item> \<open>Sort_Key\<close>, \<open>Key_Order\<close>, \<open>Value_Order\<close> (\<open>sortkey.rs\<close>): the key encoding, its order lemmas per type,
    and the main result: on storable values the byte order of keys is the comparator's order, which is
    therefore total.
  \<^item> \<open>Key_Layout\<close> (\<open>sortkey.rs\<close>, \<open>compound_join\<close> of the storage layer): the length functions that take a
    compound key apart; the locale \<open>delimited\<close> gives the order of joined keys and their splitting. Two
    theorems exhibit where the sources' claim fails.
  \<^item> \<open>Paths\<close>, \<open>Index_Keys\<close> (\<open>paths.rs\<close>, \<open>index_keys.rs\<close>): reading, writing and removing along a path, the
    walks of sorts and indexes, the keys of an index field. A write happens whole or leaves the document as it was.
  \<^item> \<open>Heap_Queue\<close> (\<open>heap.rs\<close>): the priority queue as \<open>libc++\<close> builds it, a vector heap, refines a multiset queue, through the locales
    \<open>max_queue\<close> and \<open>heap_order\<close>.

  \<^bold>\<open>Sorting.\<close> \<open>sorter.rs\<close> sorts within a memory budget and spills to files; \<open>aggregate.rs\<close> reads the keys.
  \<^item> \<open>Stable_Sort\<close>: the standard library's stable sort, and what determines it, in the locale \<open>comparator\<close>.
  \<^item> \<open>Mem_Limit\<close> (\<open>memlimit.rs\<close>): the sizes a budget counts and the counters of a sort.
  \<^item> \<open>External_Sort\<close> (\<open>sorter.rs\<close>, \<open>check\<close> of \<open>deadline.rs\<close>): sizes, runs written and read back through the
    document codec, the merge of runs, the merge passes, the blocking sort, with file operations and deadlines that
    may fail (the record \<open>sort_env\<close>).
  \<^item> \<open>Sort_Runs\<close>, \<open>Sort_Merge\<close>: a small calculus of what an action yields, and with it that runs read back what was
    written, that the merge is the stable sort of the runs, and that the passes end.
  \<^item> \<open>Sort_Documents\<close> (\<open>aggregate.rs\<close>, \<open>sorter.rs\<close>): the blocking sort returns the stable sort whatever was spilled and
    is refused exactly when what it keeps is over its budget, a limit of one never.
  \<^item> \<open>Sort_Order\<close>: what a \<open>$sort\<close> has to do, stated on its own (the values a path reaches as a relation, the
    extremal one as the key of a field, keys ordered by their first difference, ties by position), and that
    \<open>sort_documents\<close> does it.

  \<^bold>\<open>Decimal arithmetic.\<close> \<open>decimal.rs\<close> computes on decimal128 values for \<open>$add\<close>, \<open>$divide\<close>, \<open>$sqrt\<close>,
  \<open>$mod\<close>, \<open>$round\<close> and the accumulators. The specification is a real number: \<open>dec_val\<close> of the
  result is the real result rounded to 34 significant digits, half to even (\<open>round_sig\<close>).
  \<^item> \<open>Decimal_Mag\<close>: the base-10 helpers over digit vectors, each shown to be the operation on numbers it
    stands for, with the \<open>u32\<close> cells of the product; long division ends for every divisor but zero.
  \<^item> \<open>Decimal_Text\<close>: parsing and rendering, which round-trip digit by digit.
  \<^item> \<open>Decimal_Arith\<close>: sum, product and rounding to a place are correctly rounded; comparison is exact.
  \<^item> \<open>Decimal_Range\<close>: the clamp into the decimal128 range and the integer conversions. Two theorems exhibit
    flaws: a subnormal product is rounded twice, and subtracting an infinity adds it.
  \<^item> \<open>Decimal_Div\<close>: division by a count and the square root are correctly rounded, the remainder is exact.
  \<^item> \<open>Decimal_Quotient\<close>: the general quotient, cut to 80 digits and then rounded to 34, is nevertheless
    rounded only once: no quotient of 34-digit numbers is close enough to a tie without being one.
  \<^item> \<open>Decimal_Bson\<close>: doubles enter at 15 digits, or at their exact value in the accumulators (767 digits are
    enough for every double); decimals leave as \<open>i64\<close>.

  \<^bold>\<open>Frames and documents as bytes.\<close> Reads out of range are a value of their own, \<open>Panic\<close>.
  \<^item> \<open>Wire_Frames\<close> (\<open>secantus-wire/src/lib.rs\<close>): the header, the parsers and the reply builders.
    \<open>parse_op_msg\<close> accepts exactly the grammar of a message (\<open>section_bytes\<close>, \<open>section_ok\<close>); one
    theorem gives the lengths the header check accepts, the negative ones among them.
  \<^item> \<open>Wire_Checksum\<close>: CRC-32C by table is the bitwise division, and one altered byte is always found.
  \<^item> \<open>Wire_Cursor\<close>: a batch spliced into a reply as bytes reads back as an array in its cursor.
  \<^item> \<open>Wire_Compression\<close> (\<open>compression.rs\<close>): the wrapper around the codec crates, which are the record
    \<open>codec_lib\<close>; sizes are bounded whatever they do, and frames round-trip when they invert.
  \<^item> \<open>Bson_Codec\<close>, \<open>Codec_Roundtrip\<close> (\<open>bsondoc.rs\<close>): the document reader and writer over the \<open>bson\<close>
    crate, the record \<open>bson_crate\<close>. Documents with text that is not UTF-8 survive a round trip, and
    both layers split a document alike.
  \<^item> \<open>Serve_Frames\<close> (\<open>secantus-server/src/lib.rs\<close>): the path of a frame through all of these, in and
    out, and the merge of document sections. A header with a negative length panics it and no other bytes
    do; a reply is received as it was sent.
  \<^item> \<open>Alloc_Budget\<close> (\<open>secantus-server/src/lib.rs\<close>): the byte budget and the connections that wait for
    it as a step relation over 64-bit sizes. While no client declares a negative length the cap holds and no
    sum wraps; with negative lengths there is no bound. Plain requests cannot be stuck, compressed ones can.

  \<^bold>\<open>Locks.\<close> Mutex-guarded sections are steps, and threads interleave between them.
  \<^item> \<open>Admission\<close> (\<open>admission.rs\<close>): the ticket pools as a step relation with spurious wake-ups; the limit
    holds in every reachable state and no wake-up is lost: free permits are matched by threads on their way.
  \<^item> \<open>Share_Locks\<close> (\<open>share_locks.rs\<close>, parts of \<open>lib.rs\<close> and of the PostgreSQL server's \<open>row_waits.rs\<close>): the
    table refines a map from lock to strength (locale \<open>lock_registry\<close>), a transaction's record mirrors it,
    and a writer and a taker that race cannot both miss each other.
  \<^item> \<open>Lock_Manager\<close> (\<open>lock_manager.rs\<close>): lock heads with their queues, requests as a start and turns of
    their loop, releases, the \<open>fsync\<close> lock and chains. Holds are always compatible, grants are in order,
    a free lock is granted, a chain is taken whole or not at all.
  \<^item> \<open>Lock_Chains\<close> (\<open>lock_manager.rs\<close>): the chain and the rounds of every command go from the top down; two
    theorems exhibit a deadlock of two renames and a database a rename leaves unlocked.
  \<^item> \<open>Wait_Graph\<close>, \<open>Table_Locks\<close> (\<open>secantus-pg/src/lock_manager.rs\<close>, \<open>table_locks.rs\<close>): the PostgreSQL
    server's wait-for graph, whose search finds exactly the cycles, and its table locks as a step
    relation, in which a session that gives up leaves the graph last. Holds are compatible, the edges of table
    waits are real, a deadlock is reported only on a cycle of requests not granted (through the waits for rows
    and advisory locks as they recorded themselves), and a theorem exhibits two sessions told of the same one.

  \<^bold>\<open>Bounds.\<close> No definition uses fuel: loops over limbs, digits, paths and heaps end by a measure; the two loops
  of long division, which would run for ever on a zero divisor, and the merge passes of the sorter are partial functions and shown to return; and a
  waiting request is given the list of its turns, \<open>None\<close> standing for one that still waits when they are
  over. Counters that would need \<open>2^64\<close> events to wrap are natural numbers; widths are kept where
  arithmetic can reach them (limbs, integers of BSON, row identifiers, lengths in frames, the sizes of the byte budget).

  \<^bold>\<open>Not modelled.\<close> The \<open>_id\<close> keys of the first format; the series functions of \<open>decimal.rs\<close> (logarithm, exponential, circular functions, powers), whose accuracy is
  an error analysis of its own; queries, updates, projection, the other stages of aggregation and expressions; the
  collation library, the \<open>bson\<close> crate, the compression crates and WiredTiger, which are parameters or out of reach; geometry and
  time zones, which rest on floating-point functions and tables; sockets, TLS and the dispatch of commands, the PostgreSQL planner and
  server beyond its locks, bindings, tests and tools.
\<close>

end
